(* ===== verification/Prelude.thy ===== *)
theory Prelude
  imports Main "HOL-Library.Sublist" "HOL-Library.Word"
begin

section \<open>Prelude: Go strings, numbers and the shared automation\<close>

text \<open>
  The Go standard-library functions on strings and numbers that the modelled packages call, with the
  lemmas the component theories share. A Go string is a list of bytes, a HOL \<open>string\<close>
  (\<open>char list\<close>, one \<open>char\<close> per byte). \<open>strings.ToLower\<close>, \<open>strings.ToUpper\<close> and
  \<open>strings.TrimSpace\<close> are modelled on ASCII: a byte of 128 or more is left as it is, where Go
  decodes UTF-8 and applies the Unicode tables.

  The collections: \<open>go_str\<close> gathers the rewriting facts on the string functions, \<open>go_len\<close> the
  bounds on their lengths.
\<close>

named_theorems go_str \<open>rewriting facts on Go's string functions\<close>
named_theorems go_len \<open>bounds on the lengths of their results\<close>

subsection \<open>Characters\<close>

abbreviation ord :: "char \<Rightarrow> int" where
  "ord c \<equiv> of_char c"

definition is_upper :: "char \<Rightarrow> bool" where
  "is_upper c \<longleftrightarrow> 65 \<le> ord c \<and> ord c \<le> 90"

definition is_lower :: "char \<Rightarrow> bool" where
  "is_lower c \<longleftrightarrow> 97 \<le> ord c \<and> ord c \<le> 122"

definition is_digit :: "char \<Rightarrow> bool" where
  "is_digit c \<longleftrightarrow> 48 \<le> ord c \<and> ord c \<le> 57"

definition lower_char :: "char \<Rightarrow> char" where
  "lower_char c = (if is_upper c then char_of (ord c + 32) else c)"

definition upper_char :: "char \<Rightarrow> char" where
  "upper_char c = (if is_lower c then char_of (ord c - 32) else c)"

text \<open>The ASCII white space of \<open>strings.TrimSpace\<close>: tab, line feed, vertical tab, form feed,
  carriage return and space.\<close>

definition is_space :: "char \<Rightarrow> bool" where
  "is_space c \<longleftrightarrow> ord c \<in> {9, 10, 11, 12, 13, 32}"

lemma ord_lower_char: "ord (lower_char c) = (if is_upper c then ord c + 32 else ord c)"
  by (auto simp: lower_char_def is_upper_def)

lemma lower_char_not_upper [simp]: "\<not> is_upper (lower_char c)"
  by (auto simp: is_upper_def ord_lower_char)

lemma lower_char_idem [simp]: "lower_char (lower_char c) = lower_char c"
  using lower_char_not_upper [of c] unfolding lower_char_def [of "lower_char c"] by simp


subsection \<open>Package strings\<close>

definition ToLower :: "string \<Rightarrow> string" where
  "ToLower s = map lower_char s"

definition ToUpper :: "string \<Rightarrow> string" where
  "ToUpper s = map upper_char s"

definition HasPrefix :: "string \<Rightarrow> string \<Rightarrow> bool" where
  "HasPrefix s p \<longleftrightarrow> prefix p s"

definition HasSuffix :: "string \<Rightarrow> string \<Rightarrow> bool" where
  "HasSuffix s p \<longleftrightarrow> suffix p s"

definition TrimPrefix :: "string \<Rightarrow> string \<Rightarrow> string" where
  "TrimPrefix s p = (if HasPrefix s p then drop (length p) s else s)"

definition TrimSuffix :: "string \<Rightarrow> string \<Rightarrow> string" where
  "TrimSuffix s p = (if HasSuffix s p then take (length s - length p) s else s)"

definition trim_left_by :: "(char \<Rightarrow> bool) \<Rightarrow> string \<Rightarrow> string" where
  "trim_left_by P s = dropWhile P s"

definition trim_right_by :: "(char \<Rightarrow> bool) \<Rightarrow> string \<Rightarrow> string" where
  "trim_right_by P s = rev (dropWhile P (rev s))"

text \<open>\<open>strings.TrimRight(s, cutset)\<close> and \<open>strings.Trim(s, cutset)\<close> with the cutset as a list of bytes.\<close>

definition TrimRight :: "string \<Rightarrow> string \<Rightarrow> string" where
  "TrimRight s cs = trim_right_by (\<lambda>c. c \<in> set cs) s"

definition Trim :: "string \<Rightarrow> string \<Rightarrow> string" where
  "Trim s cs = trim_right_by (\<lambda>c. c \<in> set cs) (trim_left_by (\<lambda>c. c \<in> set cs) s)"

definition TrimSpace :: "string \<Rightarrow> string" where
  "TrimSpace s = trim_right_by is_space (trim_left_by is_space s)"

text \<open>\<open>IndexByte\<close> and \<open>LastIndexByte\<close>; \<open>None\<close> is Go's -1.\<close>

fun IndexByte :: "string \<Rightarrow> char \<Rightarrow> nat option" where
  "IndexByte [] c = None"
| "IndexByte (x # xs) c = (if x = c then Some 0 else map_option Suc (IndexByte xs c))"

definition LastIndexByte :: "string \<Rightarrow> char \<Rightarrow> nat option" where
  "LastIndexByte s c = map_option (\<lambda>k. length s - Suc k) (IndexByte (rev s) c)"

text \<open>\<open>strings.Index\<close>: the first position where the substring starts.\<close>

fun Index :: "string \<Rightarrow> string \<Rightarrow> nat option" where
  "Index s p = (if prefix p s then Some 0 else case s of [] \<Rightarrow> None | _ # t \<Rightarrow> map_option Suc (Index t p))"

definition Contains :: "string \<Rightarrow> string \<Rightarrow> bool" where
  "Contains s p \<longleftrightarrow> Index s p \<noteq> None"

definition ContainsAny :: "string \<Rightarrow> string \<Rightarrow> bool" where
  "ContainsAny s cs \<longleftrightarrow> (\<exists>c \<in> set s. c \<in> set cs)"

fun IndexAny :: "string \<Rightarrow> string \<Rightarrow> nat option" where
  "IndexAny [] cs = None"
| "IndexAny (x # xs) cs = (if x \<in> set cs then Some 0 else map_option Suc (IndexAny xs cs))"

text \<open>\<open>strings.Split\<close> on a one-byte separator: one field more than there are separators.\<close>

fun Split :: "string \<Rightarrow> char \<Rightarrow> string list" where
  "Split [] c = [[]]"
| "Split (x # xs) c =
     (if x = c then [] # Split xs c
      else case Split xs c of [] \<Rightarrow> [[x]] | f # fs \<Rightarrow> (x # f) # fs)"

text \<open>\<open>strings.Cut\<close> on a one-byte separator: the part before, the part after, and whether it was found.\<close>

fun Cut :: "string \<Rightarrow> char \<Rightarrow> string \<times> string \<times> bool" where
  "Cut [] c = ([], [], False)"
| "Cut (x # xs) c =
     (if x = c then ([], xs, True)
      else case Cut xs c of (a, b, found) \<Rightarrow> (x # a, b, found))"

declare Index.simps [simp del]

lemma length_ToLower [simp, go_len]: "length (ToLower s) = length s"
  by (simp add: ToLower_def)

lemma ToLower_idem [simp, go_str]: "ToLower (ToLower s) = ToLower s"
  by (simp add: ToLower_def)

lemma ToLower_Nil [simp]: "ToLower [] = []" and ToLower_Cons [simp]: "ToLower (c # s) = lower_char c # ToLower s"
  and ToLower_append [simp]: "ToLower (s @ t) = ToLower s @ ToLower t"
  by (simp_all add: ToLower_def)

lemma HasSuffix_iff: "HasSuffix s p \<longleftrightarrow> (\<exists>t. s = t @ p)"
  by (auto simp: HasSuffix_def suffix_def)

lemma HasPrefix_iff: "HasPrefix s p \<longleftrightarrow> (\<exists>t. s = p @ t)"
  by (auto simp: HasPrefix_def prefix_def)

lemma HasSuffix_refl [simp]: "HasSuffix s s"
  by (simp add: HasSuffix_def)

lemma HasSuffix_trans: "HasSuffix a b \<Longrightarrow> HasSuffix b c \<Longrightarrow> HasSuffix a c"
  by (auto simp: HasSuffix_iff)

lemma HasSuffix_antisym: "HasSuffix a b \<Longrightarrow> HasSuffix b a \<Longrightarrow> a = b"
  by (simp add: HasSuffix_def suffix_order.eq_iff)

text \<open>Two suffixes of one string are comparable.\<close>

lemma HasSuffix_linear: "HasSuffix s a \<Longrightarrow> HasSuffix s b \<Longrightarrow> HasSuffix a b \<or> HasSuffix b a"
  by (simp add: HasSuffix_def) (metis suffix_same_cases)

lemma TrimSuffix_append [simp]: "TrimSuffix (s @ p) p = s"
  by (simp add: TrimSuffix_def HasSuffix_iff)

lemma TrimSuffix_cases: "TrimSuffix s p = s \<or> s = TrimSuffix s p @ p"
  by (auto simp: TrimSuffix_def HasSuffix_iff)

lemma length_TrimSuffix [go_len]: "length (TrimSuffix s p) \<le> length s"
  by (simp add: TrimSuffix_def)

lemma trim_right_by_id: "s = [] \<or> \<not> P (last s) \<Longrightarrow> trim_right_by P s = s"
  by (cases s rule: rev_cases) (auto simp: trim_right_by_def)

lemma trim_right_by_last: "trim_right_by P s = [] \<or> \<not> P (last (trim_right_by P s))"
proof (cases "dropWhile P (rev s)")
  case Nil
  then show ?thesis by (simp add: trim_right_by_def)
next
  case (Cons c t)
  then have "\<not> P c" by (metis dropWhile_eq_Cons_conv)
  with Cons show ?thesis by (simp add: trim_right_by_def)
qed

lemma trim_right_by_idem [simp]: "trim_right_by P (trim_right_by P s) = trim_right_by P s"
  by (rule trim_right_by_id) (rule trim_right_by_last)

lemma TrimRight_idem [simp, go_str]: "TrimRight (TrimRight s cs) cs = TrimRight s cs"
  by (simp add: TrimRight_def)

lemma TrimRight_snoc_in [simp]: "c \<in> set cs \<Longrightarrow> TrimRight (s @ [c]) cs = TrimRight s cs"
  by (simp add: TrimRight_def trim_right_by_def)

lemma TrimRight_snoc_notin [simp]: "c \<notin> set cs \<Longrightarrow> TrimRight (s @ [c]) cs = s @ [c]"
  by (simp add: TrimRight_def trim_right_by_def)

lemma IndexByte_None [simp]: "IndexByte s c = None \<longleftrightarrow> c \<notin> set s"
  by (induction s) auto

lemma IndexByte_Some:
  "IndexByte s c = Some i \<longleftrightarrow> i < length s \<and> s ! i = c \<and> c \<notin> set (take i s)"
proof (induction s arbitrary: i)
  case Nil
  then show ?case by simp
next
  case (Cons x xs)
  then show ?case by (cases i) auto
qed

lemma IndexByte_append: "c \<notin> set a \<Longrightarrow> IndexByte (a @ c # b) c = Some (length a)"
  by (induction a) auto

lemma LastIndexByte_None [simp]: "LastIndexByte s c = None \<longleftrightarrow> c \<notin> set s"
  by (simp add: LastIndexByte_def)

lemma LastIndexByte_append: "c \<notin> set b \<Longrightarrow> LastIndexByte (a @ c # b) c = Some (length a)"
  by (simp add: LastIndexByte_def IndexByte_append)

lemma LastIndexByte_Some:
  assumes "LastIndexByte s c = Some i"
  shows "i < length s \<and> s = take i s @ c # drop (Suc i) s \<and> c \<notin> set (drop (Suc i) s)"
proof -
  from assms have "c \<in> set s" by (metis LastIndexByte_None option.distinct(1))
  then obtain a b where s: "s = a @ c # b" and b: "c \<notin> set b" by (metis split_list_last)
  from assms have "i = length a" unfolding s LastIndexByte_append [OF b] by simp
  with s b show ?thesis by simp
qed

lemma Contains_one: "Contains s [c] \<longleftrightarrow> c \<in> set s"
proof (induction s)
  case Nil
  then show ?case by (simp add: Contains_def Index.simps)
next
  case (Cons a s)
  then show ?case by (auto simp: Contains_def Index.simps [of "a # s"])
qed

lemma Split_nonempty [simp]: "Split s c \<noteq> []"
  by (induction s) (auto split: list.splits)

lemma Split_no_sep: "c \<notin> set s \<Longrightarrow> Split s c = [s]"
  by (induction s) auto

lemma Split_append_sep: "c \<notin> set a \<Longrightarrow> Split (a @ c # b) c = a # Split b c"
  by (induction a) auto

lemma Split_append: "Split (a @ c # b) c = Split a c @ Split b c"
  by (induction a) (auto split: list.splits)

lemma Split_fields_no_sep: "f \<in> set (Split s c) \<Longrightarrow> c \<notin> set f"
  by (induction s arbitrary: f) (auto split: if_splits list.splits)

lemma Cut_not_found: "c \<notin> set s \<Longrightarrow> Cut s c = (s, [], False)"
  by (induction s) auto

lemma Cut_append: "c \<notin> set a \<Longrightarrow> Cut (a @ c # b) c = (a, b, True)"
  by (induction a) auto

subsection \<open>Package strconv\<close>

definition digit_val :: "char \<Rightarrow> int" where
  "digit_val c = ord c - 48"

definition dec_val :: "string \<Rightarrow> int" where
  "dec_val s = foldl (\<lambda>a c. a * 10 + digit_val c) 0 s"

text \<open>
  \<open>strconv.Atoi\<close> on a 64-bit platform: an optional sign, then at least one decimal digit, in the range
  of \<open>int64\<close>; \<open>None\<close> is the error.
\<close>

definition atoi_digits :: "string \<Rightarrow> int option" where
  "atoi_digits s = (if s \<noteq> [] \<and> list_all is_digit s then Some (dec_val s) else None)"

definition Atoi :: "string \<Rightarrow> int option" where
  "Atoi s =
     (case s of
        [] \<Rightarrow> None
      | c # t \<Rightarrow>
          if c = CHR ''-'' then
            (case atoi_digits t of
               Some n \<Rightarrow> if n \<le> 9223372036854775808 then Some (- n) else None
             | None \<Rightarrow> None)
          else
            (case atoi_digits (if c = CHR ''+'' then t else s) of
               Some n \<Rightarrow> if n < 9223372036854775808 then Some n else None
             | None \<Rightarrow> None))"

definition digit_char :: "int \<Rightarrow> char" where
  "digit_char n = char_of (48 + n)"

function dec_str :: "int \<Rightarrow> string" where
  "dec_str n = (if n < 10 then [digit_char n] else dec_str (n div 10) @ [digit_char (n mod 10)])"
  by pat_completeness auto
termination
  by (relation "measure nat") auto

declare dec_str.simps [simp del]

definition Itoa :: "int \<Rightarrow> string" where
  "Itoa i = (if i < 0 then CHR ''-'' # dec_str (- i) else dec_str i)"

lemma digit_char_digit [simp]: "0 \<le> n \<Longrightarrow> n < 10 \<Longrightarrow> is_digit (digit_char n)"
  by (simp add: is_digit_def digit_char_def)

lemma digit_val_char [simp]: "0 \<le> n \<Longrightarrow> n < 10 \<Longrightarrow> digit_val (digit_char n) = n"
  by (simp add: digit_val_def digit_char_def)

lemma dec_str_nonempty [simp]: "dec_str n \<noteq> []"
  by (subst dec_str.simps) simp

lemma dec_str_digits: "0 \<le> n \<Longrightarrow> c \<in> set (dec_str n) \<Longrightarrow> is_digit c"
proof (induction n rule: dec_str.induct)
  case (1 n)
  then show ?case
    by (cases "n < 10") (auto simp: dec_str.simps [of n])
qed

lemma dec_val_snoc [simp]: "dec_val (s @ [c]) = dec_val s * 10 + digit_val c"
  by (simp add: dec_val_def)

lemma dec_val_Nil [simp]: "dec_val [] = 0"
  by (simp add: dec_val_def)

lemma dec_val_dec_str [simp]: "0 \<le> n \<Longrightarrow> dec_val (dec_str n) = n"
proof (induction n rule: dec_str.induct)
  case (1 n)
  show ?case
  proof (cases "n < 10")
    case True
    with "1.prems" show ?thesis by (simp add: dec_str.simps [of n] dec_val_def)
  next
    case False
    with "1.IH" have "dec_val (dec_str n) = n div 10 * 10 + n mod 10"
      by (simp add: dec_str.simps [of n])
    then show ?thesis by simp
  qed
qed

lemma dec_str_inject: "0 \<le> m \<Longrightarrow> 0 \<le> n \<Longrightarrow> dec_str m = dec_str n \<longleftrightarrow> m = n"
  by (metis dec_val_dec_str)

lemma atoi_digits_dec_str [simp]: "0 \<le> n \<Longrightarrow> atoi_digits (dec_str n) = Some n"
  by (auto simp: atoi_digits_def list_all_iff dest: dec_str_digits)

lemma not_digit_sign [simp]: "\<not> is_digit (CHR ''-'')" "\<not> is_digit (CHR ''+'')" "\<not> is_digit (CHR '':'')"
  "\<not> is_digit (CHR ''.'')" "\<not> is_digit (CHR '']'')" "\<not> is_digit (CHR ''['')"
  by (simp_all add: is_digit_def)

lemma Atoi_Itoa: "0 \<le> i \<Longrightarrow> i < 9223372036854775808 \<Longrightarrow> Atoi (Itoa i) = Some i"
proof -
  assume i: "0 \<le> i" "i < 9223372036854775808"
  obtain c t where ct: "dec_str i = c # t" by (metis dec_str_nonempty neq_Nil_conv)
  then have "is_digit c" using dec_str_digits [of i c] i by simp
  then have "c \<noteq> CHR ''-''" "c \<noteq> CHR ''+''" by auto
  moreover have "atoi_digits (c # t) = Some i" using ct i by (metis atoi_digits_dec_str)
  ultimately show ?thesis using i by (simp add: Atoi_def Itoa_def ct)
qed

lemma Itoa_nonneg [simp]: "0 \<le> i \<Longrightarrow> Itoa i = dec_str i"
  by (simp add: Itoa_def)

text \<open>No two integers print alike.\<close>

lemma Itoa_inject [simp]: "Itoa i = Itoa j \<longleftrightarrow> i = j"
proof -
  have neg: "CHR ''-'' # s \<noteq> dec_str n" if "0 \<le> n" for s n
    using dec_str_digits [OF that, of "CHR ''-''"] by (metis list.set_intros(1) not_digit_sign(1))
  show ?thesis
    using neg [of j "dec_str (- i)"] neg [of i "dec_str (- j)", THEN not_sym]
    by (auto simp: Itoa_def dec_str_inject)
qed


subsection \<open>64-bit integers\<close>

text \<open>The value of a signed 64-bit computation whose exact result is the argument.\<close>

definition wrap64 :: "int \<Rightarrow> int" where
  "wrap64 n = (n + 9223372036854775808) mod 18446744073709551616 - 9223372036854775808"

lemma wrap64_id: "- 9223372036854775808 \<le> n \<Longrightarrow> n < 9223372036854775808 \<Longrightarrow> wrap64 n = n"
  by (simp add: wrap64_def)

lemma wrap64_range: "- 9223372036854775808 \<le> wrap64 n" "wrap64 n < 9223372036854775808"
  by (simp_all add: wrap64_def)

end
