(* ===== verification/GoNet.thy ===== *)
theory GoNet
  imports Prelude
begin

unbundle bit_operations_syntax

section \<open>The parts of Go's net and net/netip packages the proxy relies on\<close>

text \<open>
  A \<open>net.IP\<close> is a byte slice: \<open>[]\<close> is the nil slice, a list of 4 bytes an IPv4 address, a list of
  16 bytes an IPv6 address or an IPv4-mapped one. A \<open>netip.Addr\<close> is a 32-bit or a 128-bit word; the zone
  of an IPv6 literal is kept apart (\<open>ParseAddrZone\<close>), because every reader modelled here drops it.
  The parsers and printers follow the standard library's, including what they refuse (leading zeros, zones
  in \<open>ParseIP\<close>, a \<open>::\<close> that expands to nothing).
\<close>

type_synonym byte = "8 word"
type_synonym ip = "byte list"

datatype addr = Addr4 "32 word" | Addr6 "128 word"

subsection \<open>Bytes and big-endian numbers\<close>

text \<open>The number a byte list spells and the bytes of a word, most significant byte first.\<close>

definition be_nat :: "byte list \<Rightarrow> nat" where
  "be_nat bs = foldl (\<lambda>a b. a * 256 + unat b) 0 bs"

definition be_word :: "byte list \<Rightarrow> 'a::len word" where
  "be_word bs = foldl (\<lambda>a b. a * 256 + ucast b) 0 bs"

fun word_bytes :: "nat \<Rightarrow> 'a::len word \<Rightarrow> byte list" where
  "word_bytes 0 w = []"
| "word_bytes (Suc k) w = word_bytes k (drop_bit 8 w) @ [ucast w]"

lemma be_nat_snoc [simp]: "be_nat (bs @ [b]) = be_nat bs * 256 + unat b"
  by (simp add: be_nat_def)

lemma be_nat_Nil [simp]: "be_nat [] = 0"
  by (simp add: be_nat_def)

lemma be_word_snoc [simp]: "be_word (bs @ [b]) = be_word bs * 256 + ucast b"
  by (simp add: be_word_def)

lemma be_word_Nil [simp]: "be_word [] = 0"
  by (simp add: be_word_def)

lemma length_word_bytes [simp]: "length (word_bytes k w) = k"
  by (induction k arbitrary: w) auto

lemma unat_byte_less [simp]: "unat (b :: byte) < 256"
  using unsigned_less [of b] by simp

lemma be_nat_less: "be_nat bs < 256 ^ length bs"
proof (induction bs rule: rev_induct)
  case Nil
  then show ?case by simp
next
  case (snoc b bs)
  have "be_nat bs * 256 + unat b < (be_nat bs + 1) * 256"
    by (simp add: algebra_simps)
  also have "\<dots> \<le> 256 ^ length bs * 256"
    using snoc.IH by (intro mult_le_mono1) simp
  finally show ?case by (simp add: mult.commute)
qed

lemma be_word_of_nat: "be_word bs = of_nat (be_nat bs)"
proof (induction bs rule: rev_induct)
  case Nil
  then show ?case by simp
next
  case (snoc b bs)
  have "ucast b = (of_nat (unat b) :: 'a word)"
    by (simp add: unsigned_word_eqI)
  with snoc show ?case by simp
qed

lemma unat_drop_bit_div: "unat (drop_bit n w) = unat w div 2 ^ n"
  by (simp only: unat_drop_bit_eq drop_bit_eq_div [where ?'a = nat])

lemma unat_be_word: "(256 :: nat) ^ length bs \<le> 2 ^ LENGTH('a) \<Longrightarrow> unat (be_word bs :: 'a::len word) = be_nat bs"
  using be_nat_less [of bs] by (simp add: be_word_of_nat unat_of_nat)

lemma be_nat_append: "be_nat (as @ bs) = be_nat as * 256 ^ length bs + be_nat bs"
proof (induction bs rule: rev_induct)
  case Nil
  then show ?case by simp
next
  case (snoc b bs)
  then show ?case
    by (simp flip: append_assoc add: algebra_simps)
qed

lemma word_bytes_unat: "unat w = be_nat bs \<Longrightarrow> word_bytes (length bs) w = bs"
proof (induction bs arbitrary: w rule: rev_induct)
  case Nil
  then show ?case by simp
next
  case (snoc b bs)
  have "unat (drop_bit 8 w) = be_nat bs"
    using snoc.prems by (simp add: unat_drop_bit_div)
  moreover have "ucast w = b"
    using snoc.prems
    by (simp add: word_unat_eq_iff unsigned_ucast_eq take_bit_eq_mod)
  ultimately show ?case using snoc.IH by simp
qed

lemma word_bytes_be_word:
  "(256 :: nat) ^ length bs \<le> 2 ^ LENGTH('a) \<Longrightarrow> word_bytes (length bs) (be_word bs :: 'a::len word) = bs"
  by (rule word_bytes_unat) (rule unat_be_word)

lemma be_nat_word_bytes: "be_nat (word_bytes k w) = unat w mod 256 ^ k"
proof (induction k arbitrary: w)
  case 0
  then show ?case by simp
next
  case (Suc k)
  have "unat (ucast w :: byte) = unat w mod 256"
    by (simp add: unsigned_ucast_eq take_bit_eq_mod)
  moreover have "unat (drop_bit 8 w) = unat w div 256"
    by (simp add: unat_drop_bit_div)
  ultimately show ?case
    using Suc.IH [of "drop_bit 8 w"] by (simp add: mod_mult2_eq algebra_simps)
qed

lemma be_word_word_bytes:
  "(2 :: nat) ^ LENGTH('a) \<le> 256 ^ k \<Longrightarrow> (be_word (word_bytes k (w :: 'a::len word)) :: 'a word) = w"
  using order.strict_trans2 [OF unsigned_less [of w, where ?'a = nat]]
  by (simp add: be_word_of_nat be_nat_word_bytes)

subsection \<open>net.IP\<close>

definition v4InV6Prefix :: "byte list" where
  "v4InV6Prefix = [0, 0, 0, 0, 0, 0, 0, 0, 0, 0, 255, 255]"

text \<open>\<open>ip.To4()\<close>; \<open>None\<close> is nil.\<close>

definition To4 :: "ip \<Rightarrow> ip option" where
  "To4 ip =
     (if length ip = 4 then Some ip
      else if length ip = 16 \<and> take 12 ip = v4InV6Prefix then Some (drop 12 ip)
      else None)"

definition ip_Equal :: "ip \<Rightarrow> ip \<Rightarrow> bool" where
  "ip_Equal ip x =
     (if length ip = length x then ip = x
      else if length ip = 4 \<and> length x = 16 then take 12 x = v4InV6Prefix \<and> ip = drop 12 x
      else if length ip = 16 \<and> length x = 4 then take 12 ip = v4InV6Prefix \<and> drop 12 ip = x
      else False)"

definition IPv4 :: "byte \<Rightarrow> byte \<Rightarrow> byte \<Rightarrow> byte \<Rightarrow> ip" where
  "IPv4 a b c d = v4InV6Prefix @ [a, b, c, d]"

definition IsUnspecified :: "ip \<Rightarrow> bool" where
  "IsUnspecified ip \<longleftrightarrow> ip_Equal ip (IPv4 0 0 0 0) \<or> ip_Equal ip (replicate 16 0)"

definition IsLoopback :: "ip \<Rightarrow> bool" where
  "IsLoopback ip =
     (case To4 ip of
        Some ip4 \<Rightarrow> ip4 ! 0 = 127
      | None \<Rightarrow> ip_Equal ip (replicate 15 0 @ [1]))"

definition IsMulticast :: "ip \<Rightarrow> bool" where
  "IsMulticast ip =
     (case To4 ip of
        Some ip4 \<Rightarrow> ip4 ! 0 AND 0xf0 = 0xe0
      | None \<Rightarrow> length ip = 16 \<and> ip ! 0 = 0xff)"

definition IsLinkLocalMulticast :: "ip \<Rightarrow> bool" where
  "IsLinkLocalMulticast ip =
     (case To4 ip of
        Some ip4 \<Rightarrow> ip4 ! 0 = 224 \<and> ip4 ! 1 = 0 \<and> ip4 ! 2 = 0
      | None \<Rightarrow> length ip = 16 \<and> ip ! 0 = 0xff \<and> ip ! 1 AND 0x0f = 0x02)"

definition IsLinkLocalUnicast :: "ip \<Rightarrow> bool" where
  "IsLinkLocalUnicast ip =
     (case To4 ip of
        Some ip4 \<Rightarrow> ip4 ! 0 = 169 \<and> ip4 ! 1 = 254
      | None \<Rightarrow> length ip = 16 \<and> ip ! 0 = 0xfe \<and> ip ! 1 AND 0xc0 = 0x80)"

subsection \<open>netip.Addr\<close>

definition AddrFromSlice :: "ip \<Rightarrow> addr option" where
  "AddrFromSlice ip =
     (if length ip = 4 then Some (Addr4 (be_word ip))
      else if length ip = 16 then Some (Addr6 (be_word ip))
      else None)"

fun Is4In6 :: "addr \<Rightarrow> bool" where
  "Is4In6 (Addr4 _) = False"
| "Is4In6 (Addr6 w) = (drop_bit 32 w = 0xffff)"

fun Unmap :: "addr \<Rightarrow> addr" where
  "Unmap (Addr4 w) = Addr4 w"
| "Unmap (Addr6 w) = (if Is4In6 (Addr6 w) then Addr4 (ucast w) else Addr6 w)"

fun Is6 :: "addr \<Rightarrow> bool" where
  "Is6 (Addr4 _) = False"
| "Is6 (Addr6 _) = True"

fun As16 :: "addr \<Rightarrow> byte list" where
  "As16 (Addr4 w) = v4InV6Prefix @ word_bytes 4 w"
| "As16 (Addr6 w) = word_bytes 16 w"

fun AsSlice :: "addr \<Rightarrow> byte list" where
  "AsSlice (Addr4 w) = word_bytes 4 w"
| "AsSlice (Addr6 w) = word_bytes 16 w"

lemma take12_mapped [simp]: "take 12 (v4InV6Prefix @ ip) = v4InV6Prefix" "drop 12 (v4InV6Prefix @ ip) = ip"
  "length v4InV6Prefix = 12"
  by (simp_all add: v4InV6Prefix_def)

lemma be_nat_v4InV6: "be_nat v4InV6Prefix = 0xffff"
  by (simp add: be_nat_def v4InV6Prefix_def)

lemma unat_be_word16: "length ip = 16 \<Longrightarrow> unat (be_word ip :: 128 word) = be_nat ip"
  by (rule unat_be_word) simp

lemma be_nat_inject: "length as = length bs \<Longrightarrow> be_nat as = be_nat bs \<longleftrightarrow> as = bs"
proof (induction as arbitrary: bs rule: rev_induct)
  case Nil
  then show ?case by simp
next
  case (snoc a as)
  obtain b bs' where bs: "bs = bs' @ [b]" using snoc.prems by (cases bs rule: rev_cases) auto
  have "x = y \<and> i = j" if "x * 256 + i = y * 256 + j" "i < 256" "j < 256" for x y i j :: nat
  proof -
    have "(x * 256 + i) div 256 = x" "(y * 256 + j) div 256 = y" using that(2,3) by simp_all
    with that(1) show ?thesis by simp
  qed
  from this [of "be_nat as" "unat a" "be_nat bs'" "unat b"] show ?case
    using snoc by (auto simp: bs word_unat_eq_iff)
qed

lemma Is4In6_iff: "length ip = 16 \<Longrightarrow> Is4In6 (Addr6 (be_word ip)) \<longleftrightarrow> take 12 ip = v4InV6Prefix"
proof -
  assume l: "length ip = 16"
  have "be_nat (take 12 ip @ drop 12 ip) div 2 ^ 32 = be_nat (take 12 ip)"
    using be_nat_less [of "drop 12 ip"] l unfolding be_nat_append by simp
  then have "unat (drop_bit 32 (be_word ip :: 128 word)) = be_nat (take 12 ip)"
    using l by (simp add: unat_drop_bit_div unat_be_word16)
  then have "Is4In6 (Addr6 (be_word ip)) \<longleftrightarrow> be_nat (take 12 ip) = be_nat v4InV6Prefix"
    by (simp add: word_unat_eq_iff be_nat_v4InV6)
  then show ?thesis using be_nat_inject [of "take 12 ip" v4InV6Prefix] l by (simp add: v4InV6Prefix_def)
qed

text \<open>\<open>netip.Addr.IsPrivate\<close>: RFC 1918 for an IPv4 address (also a mapped one) and fc00::/7 for IPv6.\<close>

definition v4_byte :: "32 word \<Rightarrow> nat \<Rightarrow> byte" where
  "v4_byte w i = ucast (drop_bit (24 - 8 * i) w)"

definition v4_IsPrivate :: "32 word \<Rightarrow> bool" where
  "v4_IsPrivate w \<longleftrightarrow>
     v4_byte w 0 = 10 \<or> (v4_byte w 0 = 172 \<and> v4_byte w 1 AND 0xf0 = 16) \<or>
     (v4_byte w 0 = 192 \<and> v4_byte w 1 = 168)"

fun addr_IsPrivate :: "addr \<Rightarrow> bool" where
  "addr_IsPrivate (Addr4 w) = v4_IsPrivate w"
| "addr_IsPrivate (Addr6 w) =
     (if Is4In6 (Addr6 w) then v4_IsPrivate (ucast w)
      else (ucast (drop_bit 120 w) :: byte) AND 0xfe = 0xfc)"

subsection \<open>netip.Prefix\<close>

datatype prefix = Prefix (prefix_addr: addr) (prefix_bits: nat)

fun prefix_Contains :: "prefix \<Rightarrow> addr \<Rightarrow> bool" where
  "prefix_Contains (Prefix (Addr4 p) n) (Addr4 a) = (drop_bit (32 - n) (a XOR p) = 0)"
| "prefix_Contains (Prefix (Addr6 p) n) (Addr6 a) = (drop_bit (128 - n) (a XOR p) = 0)"
| "prefix_Contains _ _ = False"

fun prefix_Masked :: "prefix \<Rightarrow> prefix" where
  "prefix_Masked (Prefix (Addr4 p) n) = Prefix (Addr4 (push_bit (32 - n) (drop_bit (32 - n) p))) n"
| "prefix_Masked (Prefix (Addr6 p) n) = Prefix (Addr6 (push_bit (128 - n) (drop_bit (128 - n) p))) n"

subsection \<open>Parsing addresses\<close>

text \<open>
  \<open>parseIPv4Fields\<close>: \<open>edge\<close> holds at the start of the text and after a dot, \<open>ndig\<close> counts the digits
  of the current octet, \<open>fields\<close> are the octets already read.
\<close>

fun parse4_loop :: "string \<Rightarrow> bool \<Rightarrow> int \<Rightarrow> nat \<Rightarrow> int list \<Rightarrow> int list option" where
  "parse4_loop [] edge val ndig fields =
     (if length fields < 3 then None else Some (fields @ [val]))"
| "parse4_loop (c # s) edge val ndig fields =
     (if is_digit c then
        if ndig = 1 \<and> val = 0 then None
        else if val * 10 + digit_val c > 255 then None
        else parse4_loop s False (val * 10 + digit_val c) (Suc ndig) fields
      else if c = CHR ''.'' then
        if edge \<or> s = [] then None
        else if length fields = 3 then None
        else parse4_loop s True 0 0 (fields @ [val])
      else None)"

definition parse4_fields :: "string \<Rightarrow> byte list option" where
  "parse4_fields s = map_option (map word_of_int) (parse4_loop s True 0 0 [])"

definition hex_val :: "char \<Rightarrow> int option" where
  "hex_val c =
     (if is_digit c then Some (ord c - 48)
      else if 97 \<le> ord c \<and> ord c \<le> 102 then Some (ord c - 87)
      else if 65 \<le> ord c \<and> ord c \<le> 70 then Some (ord c - 55)
      else None)"

definition is_hex :: "char \<Rightarrow> bool" where
  "is_hex c \<longleftrightarrow> hex_val c \<noteq> None"

definition hex_num :: "string \<Rightarrow> int" where
  "hex_num s = foldl (\<lambda>a c. a * 16 + the (hex_val c)) 0 s"

text \<open>
  The loop of \<open>parseIPv6\<close>. The first argument is the number of 16-bit groups that still fit, so the
  index \<open>i\<close> of the source is \<open>length ip\<close>. It returns the unread text, the bytes read and the position of
  the ellipsis.
\<close>

fun parse6_loop :: "nat \<Rightarrow> string \<Rightarrow> byte list \<Rightarrow> nat option
    \<Rightarrow> (string \<times> byte list \<times> nat option) option" where
  "parse6_loop 0 s ip ell = Some (s, ip, ell)"
| "parse6_loop (Suc k) s ip ell =
     (let digs = takeWhile is_hex s; rest = dropWhile is_hex s; acc = hex_num digs in
      if length digs > 4 \<or> digs = [] then None
      else if rest \<noteq> [] \<and> hd rest = CHR ''.'' then
        if ell = None \<and> length ip \<noteq> 12 then None
        else if length ip + 4 > 16 then None
        else (case parse4_fields s of
                None \<Rightarrow> None
              | Some q \<Rightarrow> Some ([], ip @ q, ell))
      else
        let ip' = ip @ [word_of_int (acc div 256), word_of_int acc] in
        (case rest of
           [] \<Rightarrow> Some ([], ip', ell)
         | c # s1 \<Rightarrow>
             if c \<noteq> CHR '':'' then None
             else if s1 = [] then None
             else if hd s1 = CHR '':'' then
               if ell \<noteq> None then None
               else if tl s1 = [] then Some ([], ip', Some (length ip'))
               else parse6_loop k (tl s1) ip' (Some (length ip'))
             else parse6_loop k s1 ip' ell))"

definition parse6_finish :: "string \<times> byte list \<times> nat option \<Rightarrow> byte list option" where
  "parse6_finish r =
     (case r of (s, ip, ell) \<Rightarrow>
        if s \<noteq> [] then None
        else if length ip < 16 then
          (case ell of
             None \<Rightarrow> None
           | Some e \<Rightarrow> Some (take e ip @ replicate (16 - length ip) 0 @ drop e ip))
        else if ell \<noteq> None then None
        else Some ip)"

definition parse6_bytes :: "string \<Rightarrow> byte list option" where
  "parse6_bytes s =
     (if s = ''::'' then Some (replicate 16 0)
      else
        case (if prefix ''::'' s then parse6_loop 8 (drop 2 s) [] (Some 0) else parse6_loop 8 s [] None) of
          None \<Rightarrow> None
        | Some r \<Rightarrow> parse6_finish r)"

text \<open>
  \<open>netip.ParseAddr\<close>, the address and its zone (\<open>[]\<close> for none): the first of dot, colon and percent
  in the text decides which parser reads it.
\<close>

definition parse_v6_zone :: "string \<Rightarrow> (addr \<times> string) option" where
  "parse_v6_zone s =
     (case IndexByte s (CHR ''%'') of
        None \<Rightarrow> map_option (\<lambda>bs. (Addr6 (be_word bs), [])) (parse6_bytes s)
      | Some i \<Rightarrow>
          if drop (Suc i) s = [] then None
          else map_option (\<lambda>bs. (Addr6 (be_word bs), drop (Suc i) s)) (parse6_bytes (take i s)))"

definition ParseAddrZone :: "string \<Rightarrow> (addr \<times> string) option" where
  "ParseAddrZone s =
     (case IndexAny s ''.:%'' of
        None \<Rightarrow> None
      | Some i \<Rightarrow>
          if s ! i = CHR ''.'' then map_option (\<lambda>bs. (Addr4 (be_word bs), [])) (parse4_fields s)
          else if s ! i = CHR '':'' then parse_v6_zone s
          else None)"

text \<open>\<open>net.ParseIP\<close>: the 16-byte form, and no zone.\<close>

definition ParseIP :: "string \<Rightarrow> ip option" where
  "ParseIP s =
     (case ParseAddrZone s of
        Some (a, z) \<Rightarrow> if z = [] then Some (As16 a) else None
      | None \<Rightarrow> None)"

subsection \<open>Printing addresses\<close>

definition string4 :: "32 word \<Rightarrow> string" where
  "string4 w =
     dec_str (uint (drop_bit 24 w)) @ ''.'' @ dec_str (uint (drop_bit 16 w AND 0xff)) @ ''.'' @
     dec_str (uint (drop_bit 8 w AND 0xff)) @ ''.'' @ dec_str (uint (w AND 0xff))"

definition hex_char :: "int \<Rightarrow> char" where
  "hex_char n = (if n < 10 then char_of (48 + n) else char_of (87 + n))"

function hex_str :: "int \<Rightarrow> string" where
  "hex_str n = (if n < 16 then [hex_char n] else hex_str (n div 16) @ [hex_char (n mod 16)])"
  by pat_completeness auto
termination
  by (relation "measure nat") auto

declare hex_str.simps [simp del]

text \<open>The eight 16-bit groups of an IPv6 address.\<close>

definition groups6 :: "128 word \<Rightarrow> int list" where
  "groups6 w = map (\<lambda>i. uint (drop_bit (16 * (7 - i)) w AND 0xffff)) [0..<8]"

text \<open>The first longest run of at least two zero groups: \<open>(start, stop)\<close>, or \<open>None\<close>.\<close>

definition zero_run_at :: "int list \<Rightarrow> nat \<Rightarrow> nat" where
  "zero_run_at gs i = length (takeWhile (\<lambda>g. g = 0) (drop i gs))"

definition best_zero_run :: "int list \<Rightarrow> (nat \<times> nat) option" where
  "best_zero_run gs =
     foldl (\<lambda>best i.
        let l = zero_run_at gs i; cur = (case best of None \<Rightarrow> 0 | Some (a, b) \<Rightarrow> b - a) in
        if l \<ge> 2 \<and> l > cur then Some (i, i + l) else best) None [0..<length gs]"

definition join_colon :: "string list \<Rightarrow> string" where
  "join_colon xs = (case xs of [] \<Rightarrow> [] | x # ys \<Rightarrow> x @ concat (map (\<lambda>y. CHR '':'' # y) ys))"

definition string6 :: "128 word \<Rightarrow> string" where
  "string6 w =
     (let gs = groups6 w in
      case best_zero_run gs of
        None \<Rightarrow> join_colon (map hex_str gs)
      | Some (a, b) \<Rightarrow> join_colon (map hex_str (take a gs)) @ ''::'' @ join_colon (map hex_str (drop b gs)))"

text \<open>\<open>netip.Addr.String\<close>, without a zone.\<close>

fun addr_String :: "addr \<Rightarrow> string" where
  "addr_String (Addr4 w) = string4 w"
| "addr_String (Addr6 w) =
     (if Is4In6 (Addr6 w) then ''::ffff:'' @ string4 (ucast w) else string6 w)"

definition hex_bytes :: "byte list \<Rightarrow> string" where
  "hex_bytes bs = concat (map (\<lambda>b. [hex_char (uint b div 16), hex_char (uint b mod 16)]) bs)"

text \<open>\<open>net.IP.String\<close>: a mapped address prints as the IPv4 address it is.\<close>

definition ip_String :: "ip \<Rightarrow> string" where
  "ip_String ip =
     (if ip = [] then ''<nil>''
      else if length ip \<noteq> 4 \<and> length ip \<noteq> 16 then CHR ''?'' # hex_bytes ip
      else case To4 ip of
             Some ip4 \<Rightarrow> string4 (be_word ip4)
           | None \<Rightarrow> addr_String (Addr6 (be_word ip)))"

subsection \<open>Prefixes and CIDR blocks as text\<close>

definition ParsePrefix :: "string \<Rightarrow> prefix option" where
  "ParsePrefix s =
     (case LastIndexByte s (CHR ''/'') of
        None \<Rightarrow> None
      | Some i \<Rightarrow>
          (case ParseAddrZone (take i s) of
             None \<Rightarrow> None
           | Some (a, z) \<Rightarrow>
               let bits = drop (Suc i) s; top = (if Is6 a then 128 else 32) in
               if z \<noteq> [] then None
               else if length bits > 1 \<and> \<not> (49 \<le> ord (hd bits) \<and> ord (hd bits) \<le> 57) then None
               else (case Atoi bits of
                       None \<Rightarrow> None
                     | Some n \<Rightarrow> if n < 0 \<or> n > int top then None else Some (Prefix a (nat n)))))"

definition MustParsePrefix :: "string \<Rightarrow> prefix" where
  "MustParsePrefix s = the (ParsePrefix s)"

fun prefix_String :: "prefix \<Rightarrow> string" where
  "prefix_String (Prefix a n) = addr_String a @ ''/'' @ dec_str (int n)"

text \<open>\<open>net.IPNet\<close>: a masked network number and its mask, both as bytes.\<close>

record ipnet =
  net_ip :: ip
  net_mask :: "byte list"

definition CIDRMask :: "nat \<Rightarrow> nat \<Rightarrow> byte list" where
  "CIDRMask ones bits =
     (if bits = 32 then word_bytes 4 (push_bit (32 - ones) (- 1 :: 32 word))
      else word_bytes 16 (push_bit (128 - ones) (- 1 :: 128 word)))"

definition and_bytes :: "byte list \<Rightarrow> byte list \<Rightarrow> byte list" where
  "and_bytes xs ys = map2 (AND) xs ys"

text \<open>\<open>dtoi\<close> on the whole of a mask text: decimal digits below 0xFFFFFF.\<close>

definition dtoi_all :: "string \<Rightarrow> nat option" where
  "dtoi_all s =
     (case atoi_digits s of Some n \<Rightarrow> if n < 0xFFFFFF then Some (nat n) else None | None \<Rightarrow> None)"

definition ParseCIDR :: "string \<Rightarrow> ipnet option" where
  "ParseCIDR s =
     (case Cut s (CHR ''/'') of (host, ones, found) \<Rightarrow>
        if \<not> found then None
        else (case ParseAddrZone host of
                None \<Rightarrow> None
              | Some (a, z) \<Rightarrow>
                  if z \<noteq> [] then None
                  else (case dtoi_all ones of
                          None \<Rightarrow> None
                        | Some n \<Rightarrow>
                            let bits = (if Is6 a then 128 else 32); m = CIDRMask n bits in
                            if n > bits then None
                            else Some \<lparr>net_ip = and_bytes (AsSlice a) m, net_mask = m\<rparr>)))"

text \<open>\<open>IPNet.Contains\<close> on a network as \<open>ParseCIDR\<close> makes it: the address is unmapped first, and a mapped
  IPv6 network of at least 96 bits is read as the IPv4 network it is.\<close>

definition ipnet_Contains :: "ipnet \<Rightarrow> ip \<Rightarrow> bool" where
  "ipnet_Contains n ip =
     (let nn = (case To4 (net_ip n) of Some x \<Rightarrow> x | None \<Rightarrow> net_ip n);
          m = (if length (net_mask n) = 16 \<and> length nn = 4 then drop 12 (net_mask n) else net_mask n);
          x = (case To4 ip of Some y \<Rightarrow> y | None \<Rightarrow> ip)
      in length nn = length m \<and> length x = length nn \<and> and_bytes nn m = and_bytes x m)"

subsection \<open>Host and port\<close>

text \<open>\<open>net.SplitHostPort\<close>; \<open>None\<close> is its error.\<close>

definition SplitHostPort :: "string \<Rightarrow> (string \<times> string) option" where
  "SplitHostPort s =
     (case LastIndexByte s (CHR '':'') of
        None \<Rightarrow> None
      | Some i \<Rightarrow>
          if hd s = CHR ''['' then
            (case IndexByte s (CHR '']'') of
               None \<Rightarrow> None
             | Some e \<Rightarrow>
                 if Suc e \<noteq> i then None
                 else if CHR ''['' \<in> set (drop 1 s) \<or> CHR '']'' \<in> set (drop (Suc e) s) then None
                 else Some (take (e - 1) (drop 1 s), drop (Suc i) s))
          else if CHR '':'' \<in> set (take i s) then None
          else if CHR ''['' \<in> set s \<or> CHR '']'' \<in> set s then None
          else Some (take i s, drop (Suc i) s))"

definition JoinHostPort :: "string \<Rightarrow> string \<Rightarrow> string" where
  "JoinHostPort h p =
     (if CHR '':'' \<in> set h then ''['' @ h @ '']:'' @ p else h @ '':'' @ p)"

end
