(* ===== verification/NetRoundTrip.thy ===== *)
theory NetRoundTrip
  imports GoNet
begin

unbundle bit_operations_syntax

section \<open>Printing and parsing an address are inverse\<close>

text \<open>
  \<open>net.ParseIP\<close> reads back what \<open>net.IP.String\<close> printed: the dotted quad of an IPv4 or mapped address and the
  compressed hexadecimal groups of an IPv6 address. It is what makes the canonical spelling of a host a fixed point,
  so a policy entry and a request that name one address meet in one key.
\<close>

subsection \<open>IPv4\<close>

lemma dec_str_1: "0 \<le> n \<Longrightarrow> n < 10 \<Longrightarrow> dec_str n = [digit_char n]"
  by (subst dec_str.simps) simp

lemma dec_str_2: "10 \<le> n \<Longrightarrow> n < 100 \<Longrightarrow> dec_str n = [digit_char (n div 10), digit_char (n mod 10)]"
  by (subst dec_str.simps) (simp add: dec_str_1)

lemma dec_str_3:
  "100 \<le> n \<Longrightarrow> n < 1000 \<Longrightarrow>
   dec_str n = [digit_char (n div 100), digit_char (n div 10 mod 10), digit_char (n mod 10)]"
  by (subst dec_str.simps) (simp add: dec_str_2 flip: zdiv_zmult2_eq)

lemma octet_cases:
  assumes "0 \<le> n" "n \<le> (255 :: int)"
  obtains (one) "0 \<le> n" "n < 10" "dec_str n = [digit_char n]"
    | (two) a b where "n = 10 * a + b" "1 \<le> a" "a \<le> 9" "0 \<le> b" "b \<le> 9" "dec_str n = [digit_char a, digit_char b]"
    | (three) a b c where "n \<le> 255" "n = 100 * a + 10 * b + c" "1 \<le> a" "a \<le> 9" "0 \<le> b" "b \<le> 9" "0 \<le> c" "c \<le> 9"
        "dec_str n = [digit_char a, digit_char b, digit_char c]"
proof -
  consider "n < 10" | "10 \<le> n" "n < 100" | "100 \<le> n" by linarith
  then show thesis
  proof cases
    case 1
    with assms show thesis by (intro one dec_str_1)
  next
    case 2
    have "1 \<le> n div 10" "n div 10 \<le> 9" using 2 by linarith+
    then show thesis using 2 by (intro two [of "n div 10" "n mod 10"] dec_str_2) auto
  next
    case 3
    have "n div 100 = n div 10 div 10" by (simp flip: zdiv_zmult2_eq)
    then have n: "n = 100 * (n div 100) + 10 * (n div 10 mod 10) + n mod 10"
      using div_mult_mod_eq [of n 10] div_mult_mod_eq [of "n div 10" 10] by linarith
    have "1 \<le> n div 100" "n div 100 \<le> 9" using 3 assms by linarith+
    then show thesis using 3 assms n by (intro three [of "n div 100" "n div 10 mod 10" "n mod 10"] dec_str_3) auto
  qed
qed

text \<open>One octet is read whole, and what follows it decides.\<close>

lemma parse4_octet:
  assumes "0 \<le> n" "n \<le> 255"
  shows "parse4_loop (dec_str n) e 0 0 fs = (if length fs < 3 then None else Some (fs @ [n]))"
    and "s \<noteq> [] \<Longrightarrow> length fs \<noteq> 3 \<Longrightarrow>
      parse4_loop (dec_str n @ CHR ''.'' # s) e 0 0 fs = parse4_loop s True 0 0 (fs @ [n])"
proof -
  note digits = digit_val_char digit_char_digit algebra_simps
  show "parse4_loop (dec_str n) e 0 0 fs = (if length fs < 3 then None else Some (fs @ [n]))"
    using assms by (cases n rule: octet_cases) (simp_all add: digits)
  show "parse4_loop (dec_str n @ CHR ''.'' # s) e 0 0 fs = parse4_loop s True 0 0 (fs @ [n])"
    if "s \<noteq> []" "length fs \<noteq> 3"
    using assms that by (cases n rule: octet_cases) (simp_all add: digits)
qed

lemma word_bytes_4:
  "word_bytes 4 w =
     [ucast (drop_bit 24 w), ucast (drop_bit 16 w), ucast (drop_bit 8 w), ucast w]"
  by (simp add: numeral_eq_Suc)

lemma octet_word:
  "word_of_int (uint (drop_bit 24 w)) = (ucast (drop_bit 24 w) :: byte)"
  "ucast (w AND 0xff) = (ucast w :: byte)"
  "0 \<le> uint (drop_bit 24 w)" "uint (drop_bit 24 w) \<le> 255" "0 \<le> uint (w AND 0xff)" "uint (w AND 0xff) \<le> 255"
  for w :: "32 word"
proof -
  have m: "w AND 0xff = take_bit 8 w" for w :: "32 word" by (simp add: take_bit_eq_mask mask_eq_exp_minus_1)
  show "word_of_int (uint (drop_bit 24 w)) = (ucast (drop_bit 24 w) :: byte)" by (rule bit_word_eqI) (simp add: bit_simps)
  show "ucast (w AND 0xff) = (ucast w :: byte)"
    unfolding m by (rule bit_word_eqI) (simp add: bit_simps)
  have "unat (drop_bit 24 w) < 256"
    using unsigned_less [of w, where ?'a = nat] by (simp add: unat_drop_bit_div)
  then show "uint (drop_bit 24 w) \<le> 255" by (simp only: uint_nat)
  show "uint (w AND 0xff) \<le> 255"
    unfolding m unsigned_take_bit_eq using take_bit_int_less_exp [of 8 "uint w"] by simp
qed simp_all


lemma is_digit_not_sep: "is_digit c \<Longrightarrow> c \<notin> set ''.:%''"
  by (auto simp: is_digit_def)

lemma IndexAny_append: "\<forall>c \<in> set a. c \<notin> set cs \<Longrightarrow> c \<in> set cs \<Longrightarrow> IndexAny (a @ c # b) cs = Some (length a)"
  by (induction a) auto

lemma parse4_string4: "parse4_fields (string4 w) = Some (word_bytes 4 w)"
  by (simp add: parse4_fields_def string4_def parse4_octet octet_word word_bytes_4)

lemma ParseAddrZone_string4: "ParseAddrZone (string4 w) = Some (Addr4 w, [])"
proof -
  have *: "\<forall>c \<in> set (dec_str (uint (drop_bit 24 w))). c \<notin> set ''.:%''"
    using dec_str_digits [OF octet_word(3)] is_digit_not_sep by blast
  have "IndexAny (string4 w) ''.:%'' = Some (length (dec_str (uint (drop_bit 24 w))))"
    unfolding string4_def using IndexAny_append [OF *, of "CHR ''.''"] by simp
  moreover have "string4 w ! length (dec_str (uint (drop_bit 24 w))) = CHR ''.''"
    by (simp add: string4_def nth_append)
  moreover have "be_word (word_bytes 4 w) = w" by (rule be_word_word_bytes) simp
  ultimately show ?thesis by (simp add: ParseAddrZone_def parse4_string4)
qed

subsection \<open>IPv6\<close>

lemma hex_char_hex:
  assumes "0 \<le> n" "n < 16"
  shows "hex_val (hex_char n) = Some n"
proof -
  have "list_all (\<lambda>n. hex_val (hex_char n) = Some n) [0..15]" by code_simp
  then show ?thesis using assms by (simp add: list_all_iff)
qed

lemma hex_str_hex: "0 \<le> n \<Longrightarrow> c \<in> set (hex_str n) \<Longrightarrow> is_hex c"
proof (induction n rule: hex_str.induct)
  case (1 n)
  then show ?case
    by (cases "n < 16") (auto simp: hex_str.simps [of n] is_hex_def hex_char_hex)
qed

lemma hex_str_nonempty [simp]: "hex_str n \<noteq> []"
  by (subst hex_str.simps) simp

lemma hex_num_hex_str: "0 \<le> n \<Longrightarrow> hex_num (hex_str n) = n"
proof (induction n rule: hex_str.induct)
  case (1 n)
  then show ?case
    by (cases "n < 16") (auto simp: hex_str.simps [of n] hex_num_def hex_char_hex)
qed

lemma hex_str_length: "0 \<le> n \<Longrightarrow> n < 16 ^ Suc k \<Longrightarrow> length (hex_str n) \<le> Suc k"
proof (induction k arbitrary: n)
  case 0
  then show ?case by (subst hex_str.simps) simp
next
  case (Suc k)
  have "n div 16 < 16 ^ Suc k" using Suc.prems by (simp add: div_less_iff_less_mult mult.commute)
  then show ?case using Suc.prems Suc.IH [of "n div 16"] by (subst hex_str.simps) simp
qed

lemma not_hex_sep [simp]: "\<not> is_hex (CHR '':'')" "\<not> is_hex (CHR ''.'')" "\<not> is_hex (CHR ''%'')"
  by code_simp+

definition group_bytes :: "int \<Rightarrow> byte list" where
  "group_bytes g = [word_of_int (g div 256), word_of_int g]"

text \<open>One group is read whole.\<close>

lemma parse6_group:
  assumes "0 \<le> g" "g < 65536"
  shows "parse6_loop (Suc k) (hex_str g) ip ell = Some ([], ip @ group_bytes g, ell)"
    and "s \<noteq> [] \<Longrightarrow> hd s \<noteq> CHR '':'' \<Longrightarrow>
      parse6_loop (Suc k) (hex_str g @ CHR '':'' # s) ip ell = parse6_loop k s (ip @ group_bytes g) ell"
    and "parse6_loop (Suc k) (hex_str g @ ''::'' @ s) ip None =
      (if s = [] then Some ([], ip @ group_bytes g, Some (length ip + 2))
       else parse6_loop k s (ip @ group_bytes g) (Some (length ip + 2)))"
proof -
  have len: "\<not> 4 < length (hex_str g)" using hex_str_length [of g 3] assms by simp
  have tw: "takeWhile is_hex (hex_str g @ t) = hex_str g @ takeWhile is_hex t"
    "dropWhile is_hex (hex_str g @ t) = dropWhile is_hex t" for t
    using hex_str_hex [OF assms(1)] by (simp_all add: takeWhile_append2 dropWhile_append2)
  have tw0: "takeWhile is_hex (hex_str g) = hex_str g" "dropWhile is_hex (hex_str g) = []"
    using hex_str_hex [OF assms(1)] by (simp_all add: takeWhile_eq_all_conv)
  note read = len tw tw0 hex_num_hex_str [OF assms(1)] group_bytes_def Let_def
  show "parse6_loop (Suc k) (hex_str g) ip ell = Some ([], ip @ group_bytes g, ell)"
    by (simp add: read)
  show "parse6_loop (Suc k) (hex_str g @ CHR '':'' # s) ip ell = parse6_loop k s (ip @ group_bytes g) ell"
    if "s \<noteq> []" "hd s \<noteq> CHR '':''"
    using that by (simp add: read)
  show "parse6_loop (Suc k) (hex_str g @ ''::'' @ s) ip None =
      (if s = [] then Some ([], ip @ group_bytes g, Some (length ip + 2))
       else parse6_loop k s (ip @ group_bytes g) (Some (length ip + 2)))"
    by (simp add: read)
qed


lemma join_colon_Cons [simp]:
  "join_colon [x] = x" "join_colon (x # y # ys) = x @ CHR '':'' # join_colon (y # ys)" "join_colon [] = []"
  by (simp_all add: join_colon_def)

abbreviation hex_groups :: "int list \<Rightarrow> string" where
  "hex_groups gs \<equiv> join_colon (map hex_str gs)"

definition group_ok :: "int \<Rightarrow> bool" where
  "group_ok g \<longleftrightarrow> 0 \<le> g \<and> g < 65536"

lemma hex_groups_start:
  assumes "gs \<noteq> []" "list_all group_ok gs"
  shows "hex_groups gs \<noteq> []" and "is_hex (hd (hex_groups gs @ t))" and "is_hex (hd (hex_groups gs))"
proof -
  obtain g gs' where gs: "gs = g # gs'" using assms by (cases gs) auto
  have "\<exists>r. hex_groups gs = hex_str g @ r" unfolding gs by (cases gs') auto
  then obtain r where r: "hex_groups gs = hex_str g @ r" ..
  have "is_hex (hd (hex_str g))"
    using hex_str_hex [of g "hd (hex_str g)"] assms by (simp add: gs group_ok_def)
  then show "hex_groups gs \<noteq> []" "is_hex (hd (hex_groups gs @ t))" "is_hex (hd (hex_groups gs))"
    by (simp_all add: r)
qed

lemma parse6_groups:
  "gs \<noteq> [] \<Longrightarrow> list_all group_ok gs \<Longrightarrow>
     parse6_loop (length gs + k) (hex_groups gs) ip ell = Some ([], ip @ concat (map group_bytes gs), ell)"
proof (induction gs arbitrary: ip)
  case Nil
  then show ?case by simp
next
  case (Cons g gs)
  show ?case
  proof (cases gs)
    case Nil
    with Cons.prems show ?thesis by (simp add: parse6_group group_ok_def del: parse6_loop.simps)
  next
    case (Cons h hs)
    have "hd (hex_groups gs) \<noteq> CHR '':''" "hex_groups gs \<noteq> []"
      using hex_groups_start [of gs] Cons Cons.prems by auto
    with Cons Cons.IH Cons.prems show ?thesis
      by (simp add: parse6_group group_ok_def del: parse6_loop.simps)
  qed
qed

lemma parse6_groups_ell:
  "gs \<noteq> [] \<Longrightarrow> list_all group_ok gs \<Longrightarrow>
     parse6_loop (length gs + k) (hex_groups gs @ ''::'' @ s) ip None =
       (let ip' = ip @ concat (map group_bytes gs) in
        if s = [] then Some ([], ip', Some (length ip')) else parse6_loop k s ip' (Some (length ip')))"
proof (induction gs arbitrary: ip)
  case Nil
  then show ?case by simp
next
  case (Cons g gs)
  show ?case
  proof (cases gs)
    case Nil
    with Cons.prems show ?thesis
      using parse6_group(3) [of g k s ip] by (simp add: group_ok_def group_bytes_def Let_def del: parse6_loop.simps)
  next
    case (Cons h hs)
    have "hd (hex_groups gs @ ''::'' @ s) \<noteq> CHR '':''"
      using hex_groups_start(2) [of gs "''::'' @ s"] Cons Cons.prems by auto
    with Cons Cons.IH Cons.prems parse6_group(2) [of g "hex_groups gs @ ''::'' @ s"] show ?thesis
      by (simp add: group_ok_def del: parse6_loop.simps)
  qed
qed


subsection \<open>The compressed run of zero groups\<close>

definition zero_run :: "int list \<Rightarrow> nat \<Rightarrow> nat \<Rightarrow> bool" where
  "zero_run gs a b \<longleftrightarrow> a + 2 \<le> b \<and> b \<le> length gs \<and> gs = take a gs @ replicate (b - a) 0 @ drop b gs"

lemma zero_run_at_run:
  assumes "i \<le> length gs" "2 \<le> zero_run_at gs i"
  shows "zero_run gs i (i + zero_run_at gs i)"
proof -
  let ?l = "zero_run_at gs i"
  have z: "takeWhile (\<lambda>g. g = 0) (drop i gs) = replicate ?l 0"
    by (rule replicate_eqI) (auto simp: zero_run_at_def dest: set_takeWhileD)
  have le: "?l \<le> length gs - i" unfolding zero_run_at_def
    using length_takeWhile_le [of _ "drop i gs"] by simp
  have "drop i gs = replicate ?l 0 @ drop ?l (drop i gs)"
    using z takeWhile_dropWhile_id [of "\<lambda>g. g = 0" "drop i gs"] dropWhile_eq_drop [of "\<lambda>g. g = 0" "drop i gs"]
    by (simp add: zero_run_at_def)
  then have "gs = take i gs @ replicate ?l 0 @ drop (i + ?l) gs"
    by (metis append_take_drop_id drop_drop add.commute)
  then show ?thesis using assms le by (simp add: zero_run_def)
qed

lemma best_zero_run_run: "best_zero_run gs = Some (a, b) \<Longrightarrow> zero_run gs a b"
proof -
  let ?f = "\<lambda>best i. let l = zero_run_at gs i; cur = (case best of None \<Rightarrow> 0 | Some (a, b) \<Rightarrow> b - a) in
        if l \<ge> 2 \<and> l > cur then Some (i, i + l) else best"
  let ?ok = "\<lambda>r. \<forall>a b. r = Some (a, b) \<longrightarrow> zero_run gs a b"
  have "?ok (foldl ?f r is)" if "?ok r" "\<forall>i \<in> set is. i \<le> length gs" for r "is"
    using that
  proof (induction "is" arbitrary: r)
    case (Cons i "is")
    have "?ok (?f r i)" using Cons.prems zero_run_at_run [of i gs] by (auto simp: Let_def)
    then show ?case using Cons by simp
  qed simp
  from this [of None "[0..<length gs]"] show "best_zero_run gs = Some (a, b) \<Longrightarrow> zero_run gs a b"
    by (simp add: best_zero_run_def)
qed

lemma concat_zero_groups: "concat (map group_bytes (replicate n 0)) = replicate (2 * n) 0"
  by (induction n) (simp_all add: group_bytes_def)

lemma length_concat_groups [simp]: "length (concat (map group_bytes gs)) = 2 * length gs"
  by (induction gs) (simp_all add: group_bytes_def)

lemma parse6_string6:
  assumes len: "length gs = 8" and ok: "list_all group_ok gs"
  shows "parse6_bytes (case best_zero_run gs of
        None \<Rightarrow> hex_groups gs
      | Some (a, b) \<Rightarrow> hex_groups (take a gs) @ ''::'' @ hex_groups (drop b gs)) = Some (concat (map group_bytes gs))"
proof (cases "best_zero_run gs")
  case None
  have "gs \<noteq> []" using len by auto
  from hex_groups_start [OF this ok] have h: "hex_groups gs \<noteq> []" "is_hex (hd (hex_groups gs))" by auto
  then have "hex_groups gs \<noteq> ''::''" "\<not> prefix ''::'' (hex_groups gs)"
    by (cases "hex_groups gs"; auto)+
  with None parse6_groups [OF \<open>gs \<noteq> []\<close> ok, of 0 "[]" None] len show ?thesis
    by (simp add: parse6_bytes_def parse6_finish_def del: parse6_loop.simps)
next
  case (Some ab)
  obtain a b where ab: "ab = (a, b)" by (cases ab)
  with Some have r: "zero_run gs a b" by (simp add: best_zero_run_run)
  let ?A = "take a gs" and ?B = "drop b gs"
  have gs: "concat (map group_bytes gs) =
      concat (map group_bytes ?A) @ replicate (2 * (b - a)) 0 @ concat (map group_bytes ?B)"
    using r unfolding zero_run_def by (metis concat_append concat_zero_groups map_append)
  have n: "b \<le> 8" "a + 2 \<le> b" "length ?A = a" "length ?B = 8 - b" using r len by (auto simp: zero_run_def)
  have okA: "list_all group_ok ?A" and okB: "list_all group_ok ?B"
    using ok by (auto simp: list_all_iff dest: in_set_takeD in_set_dropD)
  let ?t = "hex_groups ?B"
  have tB: "?t = [] \<longleftrightarrow> b = 8" using hex_groups_start(1) [OF _ okB] n len by auto
  have fin: "parse6_finish ([], concat (map group_bytes ?A) @ concat (map group_bytes ?B), Some (2 * a)) =
      Some (concat (map group_bytes gs))"
  proof -
    have "length (concat (map group_bytes ?A)) = 2 * a" "length (concat (map group_bytes ?B)) = 2 * (8 - b)"
      by (simp_all only: length_concat_groups n)
    moreover have "2 * a + 2 * (8 - b) < 16" "16 - (2 * a + 2 * (8 - b)) = 2 * (b - a)" using n by linarith+
    ultimately show ?thesis unfolding gs by (simp only: parse6_finish_def) simp
  qed
  show ?thesis
  proof (cases "a = 0")
    case True
    show ?thesis
    proof (cases "b = 8")
      case True
      with \<open>a = 0\<close> show ?thesis using Some ab gs tB n by (simp add: parse6_bytes_def)
    next
      case False
      then have "?t \<noteq> []" "?B \<noteq> []" using tB n by auto
      moreover have "parse6_loop 8 ?t [] (Some 0) = Some ([], concat (map group_bytes ?B), Some 0)"
        using parse6_groups [OF \<open>?B \<noteq> []\<close> okB, of b "[]" "Some 0"] n by (simp del: parse6_loop.simps)
      ultimately show ?thesis using Some ab fin \<open>a = 0\<close>
        by (simp add: parse6_bytes_def del: parse6_loop.simps)
    qed
  next
    case False
    then have ne: "?A \<noteq> []" using n by auto
    from hex_groups_start [OF ne okA] have h: "hex_groups ?A \<noteq> []" "is_hex (hd (hex_groups ?A))" by auto
    then have start: "hex_groups ?A @ ''::'' @ ?t \<noteq> ''::''" "\<not> prefix ''::'' (hex_groups ?A @ ''::'' @ ?t)"
      by (cases "hex_groups ?A"; auto)+
    have loop: "parse6_loop 8 (hex_groups ?A @ ''::'' @ ?t) [] None =
        (if ?t = [] then Some ([], concat (map group_bytes ?A), Some (2 * a))
         else parse6_loop (8 - a) ?t (concat (map group_bytes ?A)) (Some (2 * a)))"
      using parse6_groups_ell [OF ne okA, of "8 - a" ?t "[]"] n by (simp add: Let_def del: parse6_loop.simps)
    have "parse6_loop 8 (hex_groups ?A @ ''::'' @ ?t) [] None =
        Some ([], concat (map group_bytes ?A) @ concat (map group_bytes ?B), Some (2 * a))"
    proof (cases "b = 8")
      case True
      then show ?thesis using loop tB len by simp
    next
      case False
      then have "?B \<noteq> []" using n by auto
      then show ?thesis
        using loop tB False parse6_groups [OF \<open>?B \<noteq> []\<close> okB, of "b - a" "concat (map group_bytes ?A)" "Some (2 * a)"] n len
        by (simp del: parse6_loop.simps)
    qed
    with start fin Some ab show ?thesis by (simp add: parse6_bytes_def del: parse6_loop.simps)
  qed
qed


subsection \<open>ParseIP reads back IP.String\<close>

lemma groups6_ok: "length (groups6 w) = 8" "list_all group_ok (groups6 w)"
proof -
  have "0 \<le> uint (x AND 0xffff) \<and> uint (x AND 0xffff) < 65536" for x :: "128 word"
  proof -
    have m: "x AND 0xffff = take_bit 16 x" by (simp add: take_bit_eq_mask mask_eq_exp_minus_1)
    show ?thesis unfolding m unsigned_take_bit_eq using take_bit_int_less_exp [of 16 "uint x"] by simp
  qed
  then show "length (groups6 w) = 8" "list_all group_ok (groups6 w)"
    by (auto simp: groups6_def list_all_iff group_ok_def)
qed

lemma group_bytes_word: "group_bytes (uint (x AND 0xffff)) = [ucast (drop_bit 8 x), ucast x]" for x :: "128 word"
proof -
  have m: "x AND 0xffff = take_bit 16 x" by (simp add: take_bit_eq_mask mask_eq_exp_minus_1)
  have "uint (x AND 0xffff) div 256 = uint (drop_bit 8 (take_bit 16 x))"
    unfolding m by (simp only: uint_nat unat_drop_bit_div) (simp add: zdiv_int)
  moreover have "ucast (drop_bit 8 (take_bit 16 x)) = (ucast (drop_bit 8 x) :: byte)"
    by (rule bit_word_eqI) (auto simp: bit_simps)
  moreover have "ucast (x AND 0xffff) = (ucast x :: byte)"
    unfolding m by (rule bit_word_eqI) (auto simp: bit_simps)
  ultimately show ?thesis by (simp add: group_bytes_def)
qed

lemma groups6_bytes: "concat (map group_bytes (groups6 w)) = word_bytes 16 w"
proof -
  have "map f [0..<8] = [f 0, f 1, f 2, f 3, f 4, f 5, f 6, f 7]" for f :: "nat \<Rightarrow> byte list"
    by (simp add: upt_rec eval_nat_numeral)
  moreover have "word_bytes 16 w = word_bytes (Suc (Suc (Suc (Suc (Suc (Suc (Suc (Suc (Suc (Suc (Suc (Suc (Suc (Suc (Suc (Suc 0)))))))))))))))) w"
    by (simp add: numeral_eq_Suc)
  ultimately show ?thesis
    unfolding groups6_def by (simp add: comp_def group_bytes_word)
qed

lemma hex_groups_chars: "list_all group_ok gs \<Longrightarrow> c \<in> set (hex_groups gs) \<Longrightarrow> is_hex c \<or> c = CHR '':''"
proof (induction gs)
  case (Cons g gs)
  then show ?case
    using hex_str_hex [of g c] by (cases gs) (auto simp: group_ok_def)
qed simp

lemma string6_shape:
  "\<exists>a b. string6 w = a @ CHR '':'' # b \<and> (\<forall>c \<in> set a. is_hex c) \<and> CHR ''%'' \<notin> set (string6 w)"
proof -
  let ?s = "string6 w"
  have ok: "list_all group_ok (take i (groups6 w))" "list_all group_ok (drop i (groups6 w))" for i
    using groups6_ok(2) [of w] by (auto simp: list_all_iff dest: in_set_takeD in_set_dropD)
  have chars: "is_hex c \<or> c = CHR '':''" if "c \<in> set ?s" for c
    using that hex_groups_chars [OF ok(1)] hex_groups_chars [OF ok(2)] hex_groups_chars [OF groups6_ok(2) [of w]]
    by (auto simp: string6_def Let_def split: option.splits)
  obtain g h gs where "groups6 w = g # h # gs"
    using groups6_ok(1) [of w] by (cases "groups6 w"; cases "tl (groups6 w)") auto
  then have "CHR '':'' \<in> set ?s"
    by (auto simp: string6_def Let_def split: option.splits)
  then obtain a b where ab: "?s = a @ CHR '':'' # b" "CHR '':'' \<notin> set a" by (meson split_list_first)
  moreover have "\<forall>c \<in> set a. is_hex c" using chars ab by auto
  moreover have "CHR ''%'' \<notin> set ?s" using chars [of "CHR ''%''"] by auto
  ultimately show ?thesis by blast
qed

lemma ParseAddrZone_string6: "ParseAddrZone (string6 w) = Some (Addr6 w, [])"
proof -
  obtain a b where s: "string6 w = a @ CHR '':'' # b" "\<forall>c \<in> set a. is_hex c" "CHR ''%'' \<notin> set (string6 w)"
    using string6_shape by blast
  have "\<forall>c \<in> set a. c \<notin> set ''.:%''" using s(2) not_hex_sep by auto
  from IndexAny_append [OF this, of "CHR '':''" b] have "IndexAny (string6 w) ''.:%'' = Some (length a)"
    by (simp add: s(1))
  moreover have "string6 w ! length a = CHR '':''" by (simp add: s(1) nth_append)
  moreover have "parse6_bytes (string6 w) = Some (word_bytes 16 w)"
    using parse6_string6 [OF groups6_ok, of w] by (simp add: string6_def Let_def groups6_bytes)
  moreover have "(be_word (word_bytes 16 w) :: 128 word) = w" by (rule be_word_word_bytes) simp
  moreover have "IndexByte (string6 w) (CHR ''%'') = None" using s(3) by simp
  ultimately show ?thesis by (simp add: ParseAddrZone_def parse_v6_zone_def del: IndexByte_None)
qed

text \<open>The 16-byte form of an address of 4 or 16 bytes.\<close>

definition to16 :: "ip \<Rightarrow> ip" where
  "to16 ip = (if length ip = 4 then v4InV6Prefix @ ip else ip)"

lemma ip_String_to16: "length ip = 4 \<or> length ip = 16 \<Longrightarrow> ip_String (to16 ip) = ip_String ip"
  by (auto simp: to16_def ip_String_def To4_def v4InV6Prefix_def)

lemma ParseIP_ip_String:
  assumes "length ip = 4 \<or> length ip = 16"
  shows "ParseIP (ip_String ip) = Some (to16 ip)"
proof -
  have four: "ParseIP (string4 (be_word x)) = Some (v4InV6Prefix @ x)" if "length x = 4" for x
    using that word_bytes_be_word [of x, where ?'a = 32] by (simp add: ParseIP_def ParseAddrZone_string4)
  show ?thesis
  proof (cases "To4 ip")
    case (Some x)
    then have "length x = 4" "to16 ip = v4InV6Prefix @ x"
      using assms by (auto simp: To4_def to16_def split: if_splits) (metis append_take_drop_id)+
    with four Some assms show ?thesis by (auto simp: ip_String_def)
  next
    case None
    then have l: "length ip = 16" and nm: "take 12 ip \<noteq> v4InV6Prefix"
      using assms by (auto simp: To4_def split: if_splits)
    have "word_bytes 16 (be_word ip :: 128 word) = ip"
      using word_bytes_be_word [of ip, where ?'a = 128] l by simp
    moreover have "\<not> Is4In6 (Addr6 (be_word ip))" using Is4In6_iff [OF l] nm by simp
    ultimately show ?thesis using None l
      by (auto simp: ip_String_def to16_def ParseIP_def ParseAddrZone_string6 simp del: Is4In6.simps)
  qed
qed

subsection \<open>The printed form is canonical\<close>

lemma length_As16_16: "length (As16 a) = 16"
  by (cases a) (simp_all add: v4InV6Prefix_def)

lemma ParseIP_length: "ParseIP s = Some ip \<Longrightarrow> length ip = 16"
  by (auto simp: ParseIP_def length_As16_16 split: option.splits prod.splits if_splits)

text \<open>A character of a printed address: a digit, a lower-case hexadecimal digit, a dot or a colon.\<close>

definition addr_char :: "char \<Rightarrow> bool" where
  "addr_char c \<longleftrightarrow> \<not> is_upper c \<and> c \<noteq> CHR ''%'' \<and> c \<noteq> CHR ''/'' \<and> c \<noteq> CHR ''*'' \<and> c \<noteq> CHR '' '' \<and> c \<noteq> CHR 0x09 \<and>
    c \<noteq> CHR ''['' \<and> c \<noteq> CHR '']''"

lemma digit_addr_char: "is_digit c \<Longrightarrow> addr_char c"
  by (auto simp: addr_char_def is_digit_def is_upper_def)

lemma hex_char_addr_char: "0 \<le> n \<Longrightarrow> n < 16 \<Longrightarrow> addr_char (hex_char n) \<and> hex_char n \<noteq> CHR ''.''"
proof -
  assume n: "0 \<le> n" "n < 16"
  have "list_all (\<lambda>n. addr_char (hex_char n) \<and> hex_char n \<noteq> CHR ''.'') [0..15]" by code_simp
  then show ?thesis using n by (simp add: list_all_iff)
qed

lemma hex_str_addr_char: "0 \<le> n \<Longrightarrow> c \<in> set (hex_str n) \<Longrightarrow> addr_char c \<and> c \<noteq> CHR ''.''"
proof (induction n rule: hex_str.induct)
  case (1 n)
  then show ?case
    using hex_char_addr_char [of n] hex_char_addr_char [of "n mod 16"]
    by (cases "n < 16") (auto simp: hex_str.simps [of n] pos_imp_zdiv_nonneg_iff)
qed

lemma hex_groups_addr_char:
  "list_all group_ok gs \<Longrightarrow> c \<in> set (hex_groups gs) \<Longrightarrow> addr_char c \<and> c \<noteq> CHR ''.''"
proof (induction gs)
  case (Cons g gs)
  have "addr_char (CHR '':'')" by (simp add: addr_char_def is_upper_def)
  with Cons show ?case
    using hex_str_addr_char [of g c] by (cases gs) (auto simp: group_ok_def)
qed simp

lemma string6_chars: "c \<in> set (string6 w) \<Longrightarrow> addr_char c \<and> c \<noteq> CHR ''.''"
proof -
  have ok: "list_all group_ok (take i (groups6 w))" "list_all group_ok (drop i (groups6 w))" for i
    using groups6_ok(2) [of w] by (auto simp: list_all_iff dest: in_set_takeD in_set_dropD)
  have "addr_char (CHR '':'')" by (simp add: addr_char_def is_upper_def)
  then show "c \<in> set (string6 w) \<Longrightarrow> addr_char c \<and> c \<noteq> CHR ''.''"
    using hex_groups_addr_char [OF ok(1)] hex_groups_addr_char [OF ok(2)] hex_groups_addr_char [OF groups6_ok(2) [of w]]
    by (auto simp: string6_def Let_def split: option.splits)
qed

lemma string6_nonempty [simp]: "string6 w \<noteq> []"
  using string6_shape [of w] by auto

lemma string4_chars: "c \<in> set (string4 w) \<Longrightarrow> addr_char c"
proof -
  have "addr_char (CHR ''.'')" by (simp add: addr_char_def is_upper_def)
  then show "c \<in> set (string4 w) \<Longrightarrow> addr_char c"
    using dec_str_digits [OF octet_word(3)] dec_str_digits [OF octet_word(5)] digit_addr_char
    by (auto simp: string4_def)
qed

lemma string4_last: "last (string4 w) \<noteq> CHR ''.''"
proof -
  have "is_digit (last (dec_str (uint (w AND 0xff))))"
    using dec_str_digits [OF octet_word(5), of "last (dec_str (uint (w AND 0xff)))" w] by simp
  then show ?thesis by (auto simp: string4_def)
qed

lemma ip_String_canonical:
  assumes "length ip = 4 \<or> length ip = 16"
  shows "ip_String ip \<noteq> []" and "\<forall>c \<in> set (ip_String ip). addr_char c" and "last (ip_String ip) \<noteq> CHR ''.''"
proof -
  have "\<exists>w. ip_String ip = string4 w \<or> ip_String ip = string6 w'" if "To4 ip = Some x" for x w'
    using assms that by (auto simp: ip_String_def)
  moreover have "ip_String ip = string6 (be_word ip)" if "To4 ip = None"
  proof -
    have "length ip = 16" "take 12 ip \<noteq> v4InV6Prefix" using assms that by (auto simp: To4_def split: if_splits)
    then have "\<not> Is4In6 (Addr6 (be_word ip))" using Is4In6_iff by blast
    then show ?thesis using assms that by (auto simp: ip_String_def simp del: Is4In6.simps)
  qed
  ultimately obtain w v where "ip_String ip = string4 w \<or> ip_String ip = string6 v" by (cases "To4 ip") blast+
  moreover have "last (string6 v) \<noteq> CHR ''.''" using string6_chars [of "last (string6 v)" v] by simp
  moreover have "string4 w \<noteq> []" by (simp add: string4_def)
  ultimately show "ip_String ip \<noteq> []" "\<forall>c \<in> set (ip_String ip). addr_char c" "last (ip_String ip) \<noteq> CHR ''.''"
    using string4_chars string6_chars string4_last by auto
qed

lemma ToLower_id: "\<forall>c \<in> set s. \<not> is_upper c \<Longrightarrow> ToLower s = s"
  by (induction s) (auto simp: lower_char_def)

lemma TrimSuffix_dot_id: "s = [] \<or> last s \<noteq> CHR ''.'' \<Longrightarrow> TrimSuffix s ''.'' = s"
  by (auto simp: TrimSuffix_def HasSuffix_iff)

lemma ip_String_normal:
  assumes "length ip = 4 \<or> length ip = 16"
  shows "TrimSuffix (ToLower (ip_String ip)) ''.'' = ip_String ip"
  using ip_String_canonical [OF assms] ToLower_id [of "ip_String ip"]
  by (simp add: addr_char_def TrimSuffix_dot_id)

end
