(* ===== verification/IPGuard.thy ===== *)
theory IPGuard
  imports GoNet
begin

unbundle bit_operations_syntax

section \<open>The address guard: internal/ipguard and the proxy's isBlockedIP\<close>

text \<open>
  The membership tables of \<open>internal/ipguard/ipguard.go\<close> and the classification the egress proxy builds on
  them (\<open>isBlockedIP\<close> of \<open>internal/egress/proxy/policy.go\<close>). The lemmas give each table as intervals of
  address numbers, and then what the guard promises: an address it lets through is outside every private,
  local and reserved range, also when an IPv6 address carries that IPv4 address inside it.
\<close>

subsection \<open>Tables\<close>

definition ReservedV4 :: "prefix list" where
  "ReservedV4 = map MustParsePrefix
     [''100.64.0.0/10'', ''0.0.0.0/8'', ''192.0.0.0/24'', ''198.18.0.0/15'', ''255.255.255.255/32'',
      ''192.0.2.0/24'', ''198.51.100.0/24'', ''203.0.113.0/24'', ''192.88.99.0/24'', ''240.0.0.0/4'']"

definition ReservedV6 :: "prefix list" where
  "ReservedV6 = map MustParsePrefix
     [''fec0::/10'', ''2002::/16'', ''2001::/32'', ''2001:2::/48'', ''2001:10::/28'', ''2001:db8::/32'',
      ''3fff::/20'', ''5f00::/16'', ''100::/64'', ''100:0:0:1::/64'']"

definition NAT64Prefixes :: "prefix list" where
  "NAT64Prefixes = map MustParsePrefix [''64:ff9b::/96'', ''64:ff9b:1::/48'']"

definition Liftable :: "prefix list" where
  "Liftable = map MustParsePrefix
     [''10.0.0.0/8'', ''172.16.0.0/12'', ''192.168.0.0/16'', ''fc00::/7'', ''100.64.0.0/10'']"

definition NeverLift :: "prefix list" where
  "NeverLift = map MustParsePrefix [''fd00:ec2::/64'', ''fd20:ce::254/128'', ''100.100.100.200/32'']"

definition v4CompatiblePrefix :: prefix where
  "v4CompatiblePrefix = MustParsePrefix ''::/96''"

definition sixToFourPrefix :: prefix where
  "sixToFourPrefix = MustParsePrefix ''2002::/16''"

subsection \<open>Membership\<close>

definition addrOf :: "ip \<Rightarrow> addr option" where
  "addrOf ip = map_option Unmap (AddrFromSlice ip)"

definition in_any :: "prefix list \<Rightarrow> addr \<Rightarrow> bool" where
  "in_any ps a = list_ex (\<lambda>p. prefix_Contains p a) ps"

definition PrivateReserved :: "ip \<Rightarrow> bool \<times> string" where
  "PrivateReserved ip =
     (case addrOf ip of
        None \<Rightarrow> (False, [])
      | Some a \<Rightarrow>
          if addr_IsPrivate a then (True, ''rfc1918/ula'')
          else (case find (\<lambda>p. prefix_Contains p a) ReservedV4 of
                  Some p \<Rightarrow> (True, prefix_String p)
                | None \<Rightarrow>
                    (case find (\<lambda>p. prefix_Contains p a) ReservedV6 of
                       Some p \<Rightarrow> (True, prefix_String p)
                     | None \<Rightarrow> (False, []))))"

definition InLiftable :: "ip \<Rightarrow> bool" where
  "InLiftable ip =
     (case addrOf ip of
        None \<Rightarrow> False
      | Some a \<Rightarrow> if in_any NeverLift a then False else in_any Liftable a)"

definition NAT64EmbeddedV4 :: "ip \<Rightarrow> ip option" where
  "NAT64EmbeddedV4 ip =
     (case addrOf ip of
        None \<Rightarrow> None
      | Some a \<Rightarrow> if in_any NAT64Prefixes a then Some (drop 12 (As16 a)) else None)"

text \<open>\<open>GatewayIPRefused\<close>: the recursion is on the four bytes embedded in an IPv6 address, so it is at most
  one level deep.\<close>

function GatewayIPRefused :: "ip \<Rightarrow> bool" where
  "GatewayIPRefused ip =
     (case addrOf ip of
        None \<Rightarrow> True
      | Some a \<Rightarrow>
          if IsLoopback ip \<or> IsLinkLocalUnicast ip \<or> IsLinkLocalMulticast ip \<or> IsMulticast ip \<or>
             IsUnspecified ip then True
          else if in_any NeverLift a then True
          else if Is6 a \<and> prefix_Contains v4CompatiblePrefix a then GatewayIPRefused (drop 12 (As16 a))
          else if Is6 a \<and> prefix_Contains sixToFourPrefix a then
            GatewayIPRefused (take 4 (drop 2 (As16 a)))
          else NAT64EmbeddedV4 ip \<noteq> None)"
  by pat_completeness auto

lemma addrOf_Is6_length: "addrOf ip = Some a \<Longrightarrow> Is6 a \<Longrightarrow> length ip = 16"
  by (auto simp: addrOf_def AddrFromSlice_def split: if_splits)

lemma length_As16 [simp]: "length (As16 a) = 16"
  by (cases a) (simp_all add: v4InV6Prefix_def)

termination GatewayIPRefused
  by (relation "measure length") (auto dest: addrOf_Is6_length)

declare GatewayIPRefused.simps [simp del]

subsection \<open>The proxy's classification\<close>

datatype blockKind =
  blockNone | blockLocal | blockPrivate | blockReservedOther | blockNAT64 | blockV4Compat
  | blockHardDeny | blockOwnNetwork | blockExclusionUnknown

definition v4CompatibleEmbeddedV4 :: "ip \<Rightarrow> ip option" where
  "v4CompatibleEmbeddedV4 ip =
     (case AddrFromSlice ip of
        None \<Rightarrow> None
      | Some a0 \<Rightarrow>
          let a = Unmap a0 in
          if \<not> Is6 a \<or> \<not> prefix_Contains v4CompatiblePrefix a then None
          else Some (drop 12 (As16 a)))"

text \<open>The tables as parsed, checked once by evaluation.\<close>

lemma ReservedV4_eq:
  "ReservedV4 =
     [Prefix (Addr4 0x64400000) 10, Prefix (Addr4 0) 8, Prefix (Addr4 0xc0000000) 24,
      Prefix (Addr4 0xc6120000) 15, Prefix (Addr4 0xffffffff) 32, Prefix (Addr4 0xc0000200) 24,
      Prefix (Addr4 0xc6336400) 24, Prefix (Addr4 0xcb007100) 24, Prefix (Addr4 0xc0586300) 24,
      Prefix (Addr4 0xf0000000) 4]"
  by code_simp

lemma ReservedV6_eq:
  "ReservedV6 =
     [Prefix (Addr6 0xfec00000000000000000000000000000) 10,
      Prefix (Addr6 0x20020000000000000000000000000000) 16,
      Prefix (Addr6 0x20010000000000000000000000000000) 32,
      Prefix (Addr6 0x20010002000000000000000000000000) 48,
      Prefix (Addr6 0x20010010000000000000000000000000) 28,
      Prefix (Addr6 0x20010db8000000000000000000000000) 32,
      Prefix (Addr6 0x3fff0000000000000000000000000000) 20,
      Prefix (Addr6 0x5f000000000000000000000000000000) 16,
      Prefix (Addr6 0x01000000000000000000000000000000) 64,
      Prefix (Addr6 0x01000000000000010000000000000000) 64]"
  by code_simp

lemma NAT64Prefixes_eq:
  "NAT64Prefixes =
     [Prefix (Addr6 0x0064ff9b000000000000000000000000) 96,
      Prefix (Addr6 0x0064ff9b000100000000000000000000) 48]"
  by code_simp

lemma Liftable_eq:
  "Liftable =
     [Prefix (Addr4 0x0a000000) 8, Prefix (Addr4 0xac100000) 12, Prefix (Addr4 0xc0a80000) 16,
      Prefix (Addr6 0xfc000000000000000000000000000000) 7, Prefix (Addr4 0x64400000) 10]"
  by code_simp

lemma NeverLift_eq:
  "NeverLift =
     [Prefix (Addr6 0xfd000ec2000000000000000000000000) 64,
      Prefix (Addr6 0xfd2000ce000000000000000000000254) 128, Prefix (Addr4 0x646464c8) 32]"
  by code_simp

lemma v4CompatiblePrefix_eq: "v4CompatiblePrefix = Prefix (Addr6 0) 96"
  by code_simp

lemma sixToFourPrefix_eq: "sixToFourPrefix = Prefix (Addr6 0x20020000000000000000000000000000) 16"
  by code_simp

lemmas guard_tables = ReservedV4_eq ReservedV6_eq NAT64Prefixes_eq Liftable_eq NeverLift_eq
  v4CompatiblePrefix_eq sixToFourPrefix_eq

lemma NAT64_Is6: "in_any NAT64Prefixes a \<Longrightarrow> Is6 a"
  by (cases a) (auto simp: in_any_def guard_tables)

lemma NAT64EmbeddedV4_length:
  "NAT64EmbeddedV4 ip = Some e \<Longrightarrow> length e = 4 \<and> length ip = 16"
  by (auto simp: NAT64EmbeddedV4_def dest: NAT64_Is6 addrOf_Is6_length split: option.splits if_splits)

lemma v4CompatibleEmbeddedV4_length:
  "v4CompatibleEmbeddedV4 ip = Some e \<Longrightarrow> length e = 4 \<and> length ip = 16"
  by (auto simp: v4CompatibleEmbeddedV4_def AddrFromSlice_def Let_def split: option.splits if_splits)

function isBlockedIP :: "ip \<Rightarrow> blockKind \<times> string" where
  "isBlockedIP ip =
     (if ip = [] then (blockLocal, ''nil ip'')
      else if IsUnspecified ip \<or> IsLoopback ip \<or> IsLinkLocalUnicast ip \<or> IsLinkLocalMulticast ip \<or>
              IsMulticast ip then (blockLocal, ''loopback/link-local/multicast'')
      else if fst (PrivateReserved ip) then
        (if InLiftable ip then (blockPrivate, ''private/reserved '' @ snd (PrivateReserved ip))
         else (blockReservedOther, ''private/reserved '' @ snd (PrivateReserved ip)))
      else
        (case NAT64EmbeddedV4 ip of
           Some e \<Rightarrow>
             (case isBlockedIP e of (kind, why) \<Rightarrow>
                if kind \<noteq> blockNone then (blockNAT64, ''nat64-embedded '' @ why)
                else (blockNAT64, ''nat64 prefix (RFC 6052/8215)''))
         | None \<Rightarrow>
             (case v4CompatibleEmbeddedV4 ip of
                Some e \<Rightarrow>
                  (case isBlockedIP e of (kind, why) \<Rightarrow>
                     if kind \<noteq> blockNone then (blockV4Compat, ''ipv4-compatible-embedded '' @ why)
                     else (blockNone, []))
              | None \<Rightarrow> (blockNone, []))))"
  by pat_completeness auto
termination
  by (relation "measure length") (auto dest: NAT64EmbeddedV4_length v4CompatibleEmbeddedV4_length)

declare isBlockedIP.simps [simp del]

abbreviation block_kind :: "ip \<Rightarrow> blockKind" where
  "block_kind ip \<equiv> fst (isBlockedIP ip)"

subsection \<open>The reference classification\<close>

text \<open>
  The same classification written over the number an address spells, as intervals. \<open>v4num\<close> is the number of a
  dotted quad.
\<close>

definition v4num :: "nat \<Rightarrow> nat \<Rightarrow> nat \<Rightarrow> nat \<Rightarrow> nat" where
  "v4num a b c d = ((a * 256 + b) * 256 + c) * 256 + d"

definition in_range :: "nat \<Rightarrow> nat \<Rightarrow> nat \<Rightarrow> bool" where
  "in_range lo hi n \<longleftrightarrow> lo \<le> n \<and> n < hi"

definition v4_class :: "nat \<Rightarrow> blockKind" where
  "v4_class n =
     (if n = 0 \<or> in_range (v4num 127 0 0 0) (v4num 128 0 0 0) n \<or>
         in_range (v4num 169 254 0 0) (v4num 169 255 0 0) n \<or>
         in_range (v4num 224 0 0 0) (v4num 240 0 0 0) n then blockLocal
      else if n \<noteq> v4num 100 100 100 200 \<and>
         (in_range (v4num 10 0 0 0) (v4num 11 0 0 0) n \<or>
          in_range (v4num 172 16 0 0) (v4num 172 32 0 0) n \<or>
          in_range (v4num 192 168 0 0) (v4num 192 169 0 0) n \<or>
          in_range (v4num 100 64 0 0) (v4num 100 128 0 0) n) then blockPrivate
      else if n = v4num 100 100 100 200 \<or>
         in_range (v4num 0 0 0 0) (v4num 1 0 0 0) n \<or>
         in_range (v4num 192 0 0 0) (v4num 192 0 1 0) n \<or>
         in_range (v4num 198 18 0 0) (v4num 198 20 0 0) n \<or>
         in_range (v4num 192 0 2 0) (v4num 192 0 3 0) n \<or>
         in_range (v4num 198 51 100 0) (v4num 198 51 101 0) n \<or>
         in_range (v4num 203 0 113 0) (v4num 203 0 114 0) n \<or>
         in_range (v4num 192 88 99 0) (v4num 192 88 100 0) n \<or>
         v4num 240 0 0 0 \<le> n then blockReservedOther
      else blockNone)"

text \<open>An IPv6 address as a number.\<close>

definition v6_class :: "nat \<Rightarrow> blockKind" where
  "v6_class n =
     (if in_range (0xffff * 2 ^ 32) (0x10000 * 2 ^ 32) n then v4_class (n mod 2 ^ 32)
      else if n = 0 \<or> n = 1 \<or> in_range (0xff00 * 2 ^ 112) (0x10000 * 2 ^ 112) n \<or>
         in_range (0xfe80 * 2 ^ 112) (0xfec0 * 2 ^ 112) n then blockLocal
      else if in_range (0xfc00 * 2 ^ 112) (0xfe00 * 2 ^ 112) n then
        (if in_range (0xfd000ec200000000 * 2 ^ 64) (0xfd000ec200000001 * 2 ^ 64) n \<or>
            n = 0xfd2000ce000000000000000000000254 then blockReservedOther else blockPrivate)
      else if in_range (0xfec0 * 2 ^ 112) (0xff00 * 2 ^ 112) n \<or>
         in_range (0x2002 * 2 ^ 112) (0x2003 * 2 ^ 112) n \<or>
         in_range (0x20010000 * 2 ^ 96) (0x20010001 * 2 ^ 96) n \<or>
         in_range (0x200100020000 * 2 ^ 80) (0x200100020001 * 2 ^ 80) n \<or>
         in_range (0x20010010 * 2 ^ 96) (0x20010020 * 2 ^ 96) n \<or>
         in_range (0x20010db8 * 2 ^ 96) (0x20010db9 * 2 ^ 96) n \<or>
         in_range (0x3fff0 * 2 ^ 108) (0x3fff1 * 2 ^ 108) n \<or>
         in_range (0x5f00 * 2 ^ 112) (0x5f01 * 2 ^ 112) n \<or>
         in_range (0x0100000000000000 * 2 ^ 64) (0x0100000000000001 * 2 ^ 64) n \<or>
         in_range (0x0100000000000001 * 2 ^ 64) (0x0100000000000002 * 2 ^ 64) n then blockReservedOther
      else if in_range (0x0064ff9b0000000000000000 * 2 ^ 32) (0x0064ff9b0000000000000001 * 2 ^ 32) n \<or>
         in_range (0x0064ff9b0001 * 2 ^ 80) (0x0064ff9b0002 * 2 ^ 80) n then blockNAT64
      else if n < 2 ^ 32 \<and> v4_class n \<noteq> blockNone then blockV4Compat
      else blockNone)"

subsection \<open>Prefixes as intervals\<close>

lemma xor_eq_0: "x XOR y = 0 \<longleftrightarrow> x = y" for x y :: "'a::len word"
  by (auto simp: bit_eq_iff bit_simps)

lemma drop_bit_xor_zero: "drop_bit k (a XOR p) = 0 \<longleftrightarrow> unat a div 2 ^ k = unat p div 2 ^ k"
  for a p :: "'a::len word"
proof -
  have "drop_bit k (a XOR p) = 0 \<longleftrightarrow> drop_bit k a = drop_bit k p"
    by (simp only: drop_bit_xor xor_eq_0)
  also have "\<dots> \<longleftrightarrow> unat a div 2 ^ k = unat p div 2 ^ k"
    by (simp add: word_unat_eq_iff unat_drop_bit_div)
  finally show ?thesis .
qed

lemma nat_div_interval: "0 < k \<Longrightarrow> (n::nat) div k = q \<longleftrightarrow> q * k \<le> n \<and> n < Suc q * k" 
  by (metis div_nat_eqI dividend_less_div_times div_times_less_eq_dividend mult.commute mult_Suc)

lemma byte_cases:
  assumes "list_all P (map word_of_nat [0..<256])" shows "P (b :: byte)"
proof -
  have "b = word_of_nat (unat b)" by simp
  moreover have "unat b \<in> set [0..<256]" by simp
  ultimately show ?thesis using assms by (metis (no_types, lifting) list_all_iff image_eqI set_map)
qed
lemma byte_and_f0: "b AND 0xf0 = 0xe0 \<longleftrightarrow> 224 \<le> unat b \<and> unat b < 240" for b :: byte
  by (rule byte_cases) code_simp

lemma prefix4_iff: "prefix_Contains (Prefix (Addr4 p) n) (Addr4 a) \<longleftrightarrow>
    (let k = 2 ^ (32 - n); q = unat p div k in q * k \<le> unat a \<and> unat a < Suc q * k)"
  by (simp add: drop_bit_xor_zero nat_div_interval Let_def del: drop_bit_xor)

lemma v4_four: "length ip = 4 \<Longrightarrow> \<exists>a b c d. ip = [a, b, c, d]"
  by (auto simp: numeral_eq_Suc length_Suc_conv)

lemma be_nat_four: "be_nat [a, b, c, d] = v4num (unat a) (unat b) (unat c) (unat d)"
  by (simp add: be_nat_def v4num_def)

lemma be_nat_four_lt: "be_nat [a, b, c, d] < 2 ^ 32"
  using be_nat_less [of "[a,b,c,d]"] by simp

lemma addrOf_four: "length ip = 4 \<Longrightarrow> addrOf ip = Some (Addr4 (be_word ip))"
  by (simp add: addrOf_def AddrFromSlice_def)

lemma unat_be_word4: "length ip = 4 \<Longrightarrow> unat (be_word ip :: 32 word) = be_nat ip"
  by (rule unat_be_word) simp


lemma v4_byte_unat: "i \<le> 3 \<Longrightarrow> unat (v4_byte w i) = unat w div 2 ^ (24 - 8 * i) mod 256"
  by (simp add: v4_byte_def unsigned_ucast_eq take_bit_eq_mod unat_drop_bit_div)

lemma byte_and_f0_16: "b AND 0xf0 = 16 \<longleftrightarrow> 16 \<le> unat b \<and> unat b < 32" for b :: byte
  by (rule byte_cases) code_simp



lemma v4num_lex:
  fixes b c d :: nat
  assumes "b < 256" "c < 256" "d < 256"
  shows "v4num k 0 0 0 \<le> v4num a b c d \<longleftrightarrow> k \<le> a" "v4num a b c d < v4num k 0 0 0 \<longleftrightarrow> a < k"
    "v4num k l 0 0 \<le> v4num a b c d \<longleftrightarrow> k * 256 + l \<le> a * 256 + b"
    "v4num a b c d < v4num k l 0 0 \<longleftrightarrow> a * 256 + b < k * 256 + l"
    "v4num a b c d = 0 \<longleftrightarrow> a = 0 \<and> b = 0 \<and> c = 0 \<and> d = 0"
    "v4num a b c d div 2 ^ 24 = a" "v4num a b c d div 2 ^ 16 mod 256 = b"
proof -
  have low: "c * 256 + d < 65536" "b * 65536 + (c * 256 + d) < 16777216" using assms by linarith+
  have eq: "v4num a b c d = a * 16777216 + (b * 65536 + (c * 256 + d))"
    "v4num a b c d = (a * 256 + b) * 65536 + (c * 256 + d)"
    "v4num k 0 0 0 = k * 16777216" "v4num k l 0 0 = (k * 256 + l) * 65536" by (simp_all add: v4num_def)
  show "v4num k 0 0 0 \<le> v4num a b c d \<longleftrightarrow> k \<le> a" "v4num a b c d < v4num k 0 0 0 \<longleftrightarrow> a < k"
    using low(2) unfolding eq(1,3) by linarith+
  define x y where "x = k * 256 + l" and "y = a * 256 + b"
  have "x * 65536 \<le> y * 65536 + (c * 256 + d) \<longleftrightarrow> x \<le> y" "y * 65536 + (c * 256 + d) < x * 65536 \<longleftrightarrow> y < x"
    using low(1) by linarith+
  then show "v4num k l 0 0 \<le> v4num a b c d \<longleftrightarrow> k * 256 + l \<le> a * 256 + b"
    "v4num a b c d < v4num k l 0 0 \<longleftrightarrow> a * 256 + b < k * 256 + l"
    unfolding eq(2,4) x_def y_def by auto
  show "v4num a b c d = 0 \<longleftrightarrow> a = 0 \<and> b = 0 \<and> c = 0 \<and> d = 0" by (auto simp: v4num_def)
  show "v4num a b c d div 2 ^ 24 = a" using low(2) unfolding eq(1) by simp
  have "v4num a b c d div 2 ^ 16 = a * 256 + b" using low(1) unfolding eq(2) by simp
  then show "v4num a b c d div 2 ^ 16 mod 256 = b" using assms(1) by simp
qed

lemma unat_v4_bytes:
  assumes "length ip = 4"
  shows "v4_byte (be_word ip) 0 = ip ! 0" "v4_byte (be_word ip) 1 = ip ! 1"
proof -
  obtain a b c d where ip: "ip = [a, b, c, d]" using v4_four [OF assms] by blast
  have *: "unat (be_word [a, b, c, d] :: 32 word) = v4num (unat a) (unat b) (unat c) (unat d)"
    by (simp add: unat_be_word4 be_nat_four)
  show "v4_byte (be_word ip) 0 = ip ! 0" "v4_byte (be_word ip) 1 = ip ! 1"
    unfolding word_unat_eq_iff ip by (simp_all add: v4_byte_unat * v4num_lex [simplified])
qed
lemma find_None_in_any: "find (\<lambda>p. prefix_Contains p a) ps = None \<longleftrightarrow> \<not> in_any ps a"
  by (auto simp: in_any_def find_None_iff list_ex_iff)

lemma PrivateReserved_fst:
  "fst (PrivateReserved ip) \<longleftrightarrow>
     (case addrOf ip of
        None \<Rightarrow> False
      | Some a \<Rightarrow> addr_IsPrivate a \<or> in_any ReservedV4 a \<or> in_any ReservedV6 a)"
  using find_None_in_any [of "the (addrOf ip)" ReservedV4] find_None_in_any [of "the (addrOf ip)" ReservedV6]
  by (auto simp: PrivateReserved_def split: option.splits)

lemma in_any_simps [simp]: "in_any [] a = False" "in_any (p # ps) a \<longleftrightarrow> prefix_Contains p a \<or> in_any ps a"
  by (simp_all add: in_any_def)


lemma in_ReservedV4:
  "in_any ReservedV4 (Addr4 w) \<longleftrightarrow>
     in_range (v4num 100 64 0 0) (v4num 100 128 0 0) (unat w) \<or>
     in_range (v4num 0 0 0 0) (v4num 1 0 0 0) (unat w) \<or>
     in_range (v4num 192 0 0 0) (v4num 192 0 1 0) (unat w) \<or>
     in_range (v4num 198 18 0 0) (v4num 198 20 0 0) (unat w) \<or>
     in_range (v4num 192 0 2 0) (v4num 192 0 3 0) (unat w) \<or>
     in_range (v4num 198 51 100 0) (v4num 198 51 101 0) (unat w) \<or>
     in_range (v4num 203 0 113 0) (v4num 203 0 114 0) (unat w) \<or>
     in_range (v4num 192 88 99 0) (v4num 192 88 100 0) (unat w) \<or>
     v4num 240 0 0 0 \<le> unat w"
  using unsigned_less [of w, where ?'a = nat]
  by (simp add: ReservedV4_eq prefix4_iff Let_def in_range_def v4num_def del: prefix_Contains.simps) linarith

lemma in_NeverLift4: "in_any NeverLift (Addr4 w) \<longleftrightarrow> unat w = v4num 100 100 100 200"
  by (simp add: NeverLift_eq prefix4_iff Let_def v4num_def del: prefix_Contains.simps(1)) linarith

lemma in_Liftable4:
  "in_any Liftable (Addr4 w) \<longleftrightarrow>
     in_range (v4num 10 0 0 0) (v4num 11 0 0 0) (unat w) \<or>
     in_range (v4num 172 16 0 0) (v4num 172 32 0 0) (unat w) \<or>
     in_range (v4num 192 168 0 0) (v4num 192 169 0 0) (unat w) \<or>
     in_range (v4num 100 64 0 0) (v4num 100 128 0 0) (unat w)"
  by (simp add: Liftable_eq prefix4_iff Let_def in_range_def v4num_def del: prefix_Contains.simps(1))

text \<open>Two leading bytes fixed is one interval.\<close>

lemma in_range_16:
  assumes "b < 256" "c < 256" "d < 256" "l \<le> m" "m < 256"
  shows "in_range (v4num k l 0 0) (v4num k m 0 0) (v4num a b c d) \<longleftrightarrow> a = k \<and> l \<le> b \<and> b < m"
  using assms unfolding in_range_def v4num_lex(3,4) [OF assms(1-3)]
  by (cases "a = k"; cases "a < k") auto

lemma in_range_8:
  assumes "b < 256" "c < 256" "d < 256"
  shows "in_range (v4num k 0 0 0) (v4num m 0 0 0) (v4num a b c d) \<longleftrightarrow> k \<le> a \<and> a < m"
  unfolding in_range_def v4num_lex(1,2) [OF assms] ..

lemma unspecified_not_mapped: "take 12 (replicate 16 0) \<noteq> v4InV6Prefix"
  by code_simp

lemma local4:
  assumes "length ip = 4"
  shows "IsUnspecified ip \<or> IsLoopback ip \<or> IsLinkLocalUnicast ip \<or> IsLinkLocalMulticast ip \<or> IsMulticast ip \<longleftrightarrow>
     be_nat ip = 0 \<or> in_range (v4num 127 0 0 0) (v4num 128 0 0 0) (be_nat ip) \<or>
     in_range (v4num 169 254 0 0) (v4num 169 255 0 0) (be_nat ip) \<or>
     in_range (v4num 224 0 0 0) (v4num 240 0 0 0) (be_nat ip)"
proof -
  obtain a b c d where ip: "ip = [a, b, c, d]" using v4_four [OF assms] by blast
  note range = in_range_8 in_range_16 be_nat_four v4num_lex(5)
  have "IsUnspecified ip \<longleftrightarrow> be_nat ip = 0"
    using unspecified_not_mapped
    by (auto simp: range ip IsUnspecified_def ip_Equal_def IPv4_def v4InV6Prefix_def word_unat_eq_iff)
  moreover have "IsLoopback ip \<longleftrightarrow> in_range (v4num 127 0 0 0) (v4num 128 0 0 0) (be_nat ip)"
    by (auto simp: range ip IsLoopback_def To4_def word_unat_eq_iff)
  moreover have "IsLinkLocalUnicast ip \<longleftrightarrow> in_range (v4num 169 254 0 0) (v4num 169 255 0 0) (be_nat ip)"
    by (auto simp: range ip IsLinkLocalUnicast_def To4_def word_unat_eq_iff)
  moreover have "IsMulticast ip \<longleftrightarrow> in_range (v4num 224 0 0 0) (v4num 240 0 0 0) (be_nat ip)"
    by (simp add: range ip IsMulticast_def To4_def byte_and_f0)
  moreover have "IsLinkLocalMulticast ip \<Longrightarrow> IsMulticast ip"
    by (auto simp: ip IsLinkLocalMulticast_def IsMulticast_def To4_def)
  ultimately show ?thesis by blast
qed

lemma v4_IsPrivate_num: 
  assumes "length ip = 4"
  shows "v4_IsPrivate (be_word ip) \<longleftrightarrow>
     in_range (v4num 10 0 0 0) (v4num 11 0 0 0) (be_nat ip) \<or> 
     in_range (v4num 172 16 0 0) (v4num 172 32 0 0) (be_nat ip) \<or>
     in_range (v4num 192 168 0 0) (v4num 192 169 0 0) (be_nat ip)"
proof -
  obtain a b c d where ip: "ip = [a, b, c, d]" using v4_four [OF assms] by blast
  have "v4_IsPrivate (be_word ip) \<longleftrightarrow> unat a = 10 \<or> unat a = 172 \<and> 16 \<le> unat b \<and> unat b < 32 \<or> unat a = 192 \<and> unat b = 168"
    unfolding v4_IsPrivate_def unat_v4_bytes [OF assms] byte_and_f0_16 by (simp add: ip word_unat_eq_iff)
  then show ?thesis unfolding ip be_nat_four by (auto simp: in_range_8 in_range_16)
qed

lemma in_ReservedV6_4 [simp]: "\<not> in_any ReservedV6 (Addr4 w)" by (simp add: ReservedV6_eq)
lemma in_NAT64_4 [simp]: "\<not> in_any NAT64Prefixes (Addr4 w)" by (simp add: NAT64Prefixes_eq)

lemma embedded4: assumes "length ip = 4" shows "NAT64EmbeddedV4 ip = None" "v4CompatibleEmbeddedV4 ip = None"
  using assms by (auto simp: NAT64EmbeddedV4_def addrOf_four v4CompatibleEmbeddedV4_def AddrFromSlice_def)

lemma isBlockedIP_v4: assumes "length ip = 4" shows "block_kind ip = v4_class (be_nat ip)"
proof -
  let ?n = "be_nat ip"
  define local where "local \<longleftrightarrow> IsUnspecified ip \<or> IsLoopback ip \<or> IsLinkLocalUnicast ip \<or> IsLinkLocalMulticast ip \<or> IsMulticast ip"
  define rfc where "rfc \<longleftrightarrow> v4_IsPrivate (be_word ip)"
  define cgnat where "cgnat \<longleftrightarrow> in_range (v4num 100 64 0 0) (v4num 100 128 0 0) ?n"
  define oth where "oth \<longleftrightarrow> in_range (v4num 0 0 0 0) (v4num 1 0 0 0) ?n \<or>
         in_range (v4num 192 0 0 0) (v4num 192 0 1 0) ?n \<or>
         in_range (v4num 198 18 0 0) (v4num 198 20 0 0) ?n \<or>
         in_range (v4num 192 0 2 0) (v4num 192 0 3 0) ?n \<or>
         in_range (v4num 198 51 100 0) (v4num 198 51 101 0) ?n \<or>
         in_range (v4num 203 0 113 0) (v4num 203 0 114 0) ?n \<or>
         in_range (v4num 192 88 99 0) (v4num 192 88 100 0) ?n \<or>
         v4num 240 0 0 0 \<le> ?n"
  have "fst (PrivateReserved ip) \<longleftrightarrow> rfc \<or> cgnat \<or> oth"
    using assms by (simp only: PrivateReserved_fst addrOf_four option.case addr_IsPrivate.simps in_ReservedV6_4
      simp_thms in_ReservedV4 unat_be_word4 rfc_def cgnat_def oth_def)
  moreover have "InLiftable ip \<longleftrightarrow> ?n \<noteq> v4num 100 100 100 200 \<and> (rfc \<or> cgnat)"
    using assms by (simp add: InLiftable_def addrOf_four in_NeverLift4 in_Liftable4 unat_be_word4 rfc_def v4_IsPrivate_num cgnat_def)
  moreover have "?n = v4num 100 100 100 200 \<Longrightarrow> cgnat" by (simp add: cgnat_def in_range_def v4num_def)
  moreover have "block_kind ip = (if local then blockLocal else if fst (PrivateReserved ip) then 
     (if InLiftable ip then blockPrivate else blockReservedOther) else blockNone)"
    using embedded4 [OF assms] assms by (auto simp add: isBlockedIP.simps [of ip] local_def)
  moreover have "v4_class ?n = (if local then blockLocal else if ?n \<noteq> v4num 100 100 100 200 \<and> (rfc \<or> cgnat) then blockPrivate
     else if ?n = v4num 100 100 100 200 \<or> oth then blockReservedOther else blockNone)"
    using assms by (simp only: v4_class_def local_def local4 rfc_def v4_IsPrivate_num cgnat_def oth_def disj_assoc)
  ultimately show ?thesis by auto
qed

subsection \<open>IPv6\<close>

lemma addrOf_mapped:
  assumes "length ip = 4"
  shows "addrOf (v4InV6Prefix @ ip) = addrOf ip"
proof -
  have "ucast (be_word (v4InV6Prefix @ ip) :: 128 word) = (be_word ip :: 32 word)"
    using assms unat_be_word16 [of "v4InV6Prefix @ ip"] be_nat_less [of ip]
    by (simp add: word_unat_eq_iff unsigned_ucast_eq take_bit_eq_mod be_nat_append unat_be_word4)
  then show ?thesis
    using assms Is4In6_iff [of "v4InV6Prefix @ ip"] by (simp add: addrOf_def AddrFromSlice_def del: Is4In6.simps)
qed

lemma To4_mapped: "length ip = 4 \<Longrightarrow> To4 (v4InV6Prefix @ ip) = Some ip" "length ip = 4 \<Longrightarrow> To4 ip = Some ip"
  by (simp_all add: To4_def)

lemma ip_Equal_To4: "To4 ip = Some x \<Longrightarrow> ip_Equal ip y \<longleftrightarrow> To4 y = Some x"
  by (auto simp: To4_def ip_Equal_def split: if_splits) (metis append_take_drop_id)

text \<open>The guard sees an IPv4-mapped IPv6 address as the IPv4 address it carries.\<close>

lemma isBlockedIP_mapped:
  assumes "length ip = 4"
  shows "isBlockedIP (v4InV6Prefix @ ip) = isBlockedIP ip"
proof -
  let ?m = "v4InV6Prefix @ ip"
  have t: "To4 ?m = Some ip" "To4 ip = Some ip" using assms by (simp_all add: To4_mapped)
  have "IsUnspecified ?m = IsUnspecified ip" "IsLoopback ?m = IsLoopback ip" "IsLinkLocalUnicast ?m = IsLinkLocalUnicast ip"
    "IsLinkLocalMulticast ?m = IsLinkLocalMulticast ip" "IsMulticast ?m = IsMulticast ip"
    using t by (simp_all add: IsUnspecified_def IsLoopback_def IsLinkLocalUnicast_def IsLinkLocalMulticast_def IsMulticast_def
      ip_Equal_To4)
  moreover have "PrivateReserved ?m = PrivateReserved ip" "InLiftable ?m = InLiftable ip"
    "NAT64EmbeddedV4 ?m = NAT64EmbeddedV4 ip"
    using addrOf_mapped [OF assms] by (simp_all add: PrivateReserved_def InLiftable_def NAT64EmbeddedV4_def)
  moreover have "v4CompatibleEmbeddedV4 x = (case addrOf x of None \<Rightarrow> None | Some a \<Rightarrow>
          if \<not> Is6 a \<or> \<not> prefix_Contains v4CompatiblePrefix a then None else Some (drop 12 (As16 a)))" for x
    by (simp add: v4CompatibleEmbeddedV4_def addrOf_def Let_def split: option.splits)
  then have "v4CompatibleEmbeddedV4 ?m = v4CompatibleEmbeddedV4 ip"
    using addrOf_mapped [OF assms] by simp
  moreover have "?m \<noteq> []" "ip \<noteq> []" using assms by (auto simp: v4InV6Prefix_def)
  ultimately show ?thesis
    by (simp only: isBlockedIP.simps [of ?m] isBlockedIP.simps [of ip] if_False)
qed

lemma prefix6_iff: "prefix_Contains (Prefix (Addr6 p) n) (Addr6 a) \<longleftrightarrow>
    (let k = 2 ^ (128 - n); q = unat p div k in in_range (q * k) (Suc q * k) (unat a))"
  by (simp add: drop_bit_xor_zero nat_div_interval Let_def in_range_def del: drop_bit_xor)

lemma in_ReservedV6:
  "in_any ReservedV6 (Addr6 w) \<longleftrightarrow>
     in_range (0xfec0 * 2 ^ 112) (0xff00 * 2 ^ 112) (unat w) \<or>
         in_range (0x2002 * 2 ^ 112) (0x2003 * 2 ^ 112) (unat w) \<or>
         in_range (0x20010000 * 2 ^ 96) (0x20010001 * 2 ^ 96) (unat w) \<or>
         in_range (0x200100020000 * 2 ^ 80) (0x200100020001 * 2 ^ 80) (unat w) \<or>
         in_range (0x20010010 * 2 ^ 96) (0x20010020 * 2 ^ 96) (unat w) \<or>
         in_range (0x20010db8 * 2 ^ 96) (0x20010db9 * 2 ^ 96) (unat w) \<or>
         in_range (0x3fff0 * 2 ^ 108) (0x3fff1 * 2 ^ 108) (unat w) \<or>
         in_range (0x5f00 * 2 ^ 112) (0x5f01 * 2 ^ 112) (unat w) \<or>
         in_range (0x0100000000000000 * 2 ^ 64) (0x0100000000000001 * 2 ^ 64) (unat w) \<or>
         in_range (0x0100000000000001 * 2 ^ 64) (0x0100000000000002 * 2 ^ 64) (unat w)"
  by (simp add: ReservedV6_eq prefix6_iff Let_def del: prefix_Contains.simps(2))

lemma in_NAT64:
  "in_any NAT64Prefixes (Addr6 w) \<longleftrightarrow>
     in_range (0x0064ff9b0000000000000000 * 2 ^ 32) (0x0064ff9b0000000000000001 * 2 ^ 32) (unat w) \<or>
         in_range (0x0064ff9b0001 * 2 ^ 80) (0x0064ff9b0002 * 2 ^ 80) (unat w)"
  by (simp add: NAT64Prefixes_eq prefix6_iff Let_def del: prefix_Contains.simps(2))

lemma in_NeverLift6:
  "in_any NeverLift (Addr6 w) \<longleftrightarrow>
      in_range (0xfd000ec200000000 * 2 ^ 64) (0xfd000ec200000001 * 2 ^ 64) (unat w) \<or>
            unat w = 0xfd2000ce000000000000000000000254"
  by (simp add: NeverLift_eq prefix6_iff Let_def del: prefix_Contains.simps(2)) (auto simp: in_range_def)

lemma in_Liftable6: "in_any Liftable (Addr6 w) \<longleftrightarrow> in_range (0xfc00 * 2 ^ 112) (0xfe00 * 2 ^ 112) (unat w)"
  by (simp add: Liftable_eq prefix6_iff Let_def del: prefix_Contains.simps(2))

lemma in_ReservedV4_6 [simp]: "\<not> in_any ReservedV4 (Addr6 w)" by (simp add: ReservedV4_eq)

lemma in_v4Compat: "prefix_Contains v4CompatiblePrefix (Addr6 w) \<longleftrightarrow> unat w < 2 ^ 32"
  by (simp add: v4CompatiblePrefix_eq prefix6_iff in_range_def Let_def del: prefix_Contains.simps(2))

lemma byte_and_fe: "b AND 0xfe = 0xfc \<longleftrightarrow> 252 \<le> unat b \<and> unat b < 254" for b :: byte
  by (rule byte_cases) code_simp

lemma byte_and_c0: "b AND 0xc0 = 0x80 \<longleftrightarrow> 128 \<le> unat b \<and> unat b < 192" for b :: byte
  by (rule byte_cases) code_simp

lemma addr6_IsPrivate: "\<not> Is4In6 (Addr6 w) \<Longrightarrow> addr_IsPrivate (Addr6 w) \<longleftrightarrow> in_range (0xfc00 * 2 ^ 112) (0xfe00 * 2 ^ 112) (unat w)"
proof -
  assume n: "\<not> Is4In6 (Addr6 w)"
  have u: "unat w < 2 ^ 128" using unsigned_less [of w, where ?'a = nat] by simp
  then have "unat (ucast (drop_bit 120 w) :: byte) = unat w div 2 ^ 120"
    by (simp add: unsigned_ucast_eq take_bit_eq_mod unat_drop_bit_div)
  then show ?thesis using n u by (simp add: byte_and_fe in_range_def less_eq_div_iff_mult_less_eq div_less_iff_less_mult)
qed

lemma two_lead: "length ip = 16 \<Longrightarrow> be_nat ip div 2 ^ 112 = unat (ip ! 0) * 256 + unat (ip ! 1)"
proof -
  assume l: "length ip = 16"
  then obtain a b r where ip: "ip = [a, b] @ r" "length r = 14"
    by (cases ip; cases "tl ip") auto
  have "be_nat r < 2 ^ 112" using be_nat_less [of r] ip(2) by simp
  then show ?thesis using ip by (simp only: be_nat_append) (simp add: be_nat_def)
qed

lemma in_range_div: "0 < k \<Longrightarrow> in_range (a * k) (b * k) n \<longleftrightarrow> in_range a b (n div k)"
  by (simp add: in_range_def less_eq_div_iff_mult_less_eq div_less_iff_less_mult)

lemma local6:
  assumes l: "length ip = 16" and nm: "take 12 ip \<noteq> v4InV6Prefix"
  shows "IsUnspecified ip \<or> IsLoopback ip \<or> IsLinkLocalUnicast ip \<or> IsLinkLocalMulticast ip \<or> IsMulticast ip \<longleftrightarrow>
     be_nat ip = 0 \<or> be_nat ip = 1 \<or> in_range (0xff00 * 2 ^ 112) (0x10000 * 2 ^ 112) (be_nat ip) \<or>
         in_range (0xfe80 * 2 ^ 112) (0xfec0 * 2 ^ 112) (be_nat ip)"
proof -
  have t: "To4 ip = None" using l nm by (simp add: To4_def)
  have lead: "in_range (a * 2 ^ 112) (b * 2 ^ 112) (be_nat ip) \<longleftrightarrow>
      a \<le> unat (ip ! 0) * 256 + unat (ip ! 1) \<and> unat (ip ! 0) * 256 + unat (ip ! 1) < b" for a b
    unfolding two_lead [OF l, symmetric] by (subst in_range_div) (simp_all add: in_range_def)
  have lt: "unat (ip ! 1) < 256" "unat (ip ! 0) < 256" by simp_all
  have "be_nat (replicate 16 0) = 0" "be_nat (replicate 15 0 @ [1]) = 1" by (simp_all add: be_nat_def numeral_eq_Suc)
  then have z: "ip = replicate 16 0 \<longleftrightarrow> be_nat ip = 0" "ip = replicate 15 0 @ [1] \<longleftrightarrow> be_nat ip = 1"
    using be_nat_inject [of ip "replicate 16 0"] be_nat_inject [of ip "replicate 15 0 @ [1]"] l by simp_all
  have "ip \<noteq> IPv4 0 0 0 0" using nm by (auto simp: IPv4_def)
  then have "IsUnspecified ip \<longleftrightarrow> be_nat ip = 0" using l z by (simp add: IsUnspecified_def ip_Equal_def IPv4_def)
  moreover have "IsLoopback ip \<longleftrightarrow> be_nat ip = 1" using l z t by (simp add: IsLoopback_def ip_Equal_def)
  moreover have "IsMulticast ip \<longleftrightarrow> in_range (0xff00 * 2 ^ 112) (0x10000 * 2 ^ 112) (be_nat ip)"
    unfolding lead using l t lt by (auto simp: IsMulticast_def word_unat_eq_iff simp del: unat_byte_less)
  moreover have "IsLinkLocalMulticast ip \<Longrightarrow> IsMulticast ip" using t by (simp add: IsMulticast_def IsLinkLocalMulticast_def)
  moreover have "IsLinkLocalUnicast ip \<longleftrightarrow> in_range (0xfe80 * 2 ^ 112) (0xfec0 * 2 ^ 112) (be_nat ip)"
    unfolding lead using l t lt
    by (cases "unat (ip ! 0) = 254"; cases "unat (ip ! 0) < 254")
      (auto simp: IsLinkLocalUnicast_def byte_and_c0 word_unat_eq_iff [of "ip ! 0"] simp del: unat_byte_less)
  ultimately show ?thesis by blast
qed

lemma addrOf_16:
  assumes "length ip = 16" "take 12 ip \<noteq> v4InV6Prefix"
  shows "addrOf ip = Some (Addr6 (be_word ip))" "\<not> Is4In6 (Addr6 (be_word ip))"
  using assms Is4In6_iff [of ip] by (simp_all add: addrOf_def AddrFromSlice_def del: Is4In6.simps)

lemma v4CompatibleEmbeddedV4_16:
  assumes l: "length ip = 16" and nm: "take 12 ip \<noteq> v4InV6Prefix"
  shows "v4CompatibleEmbeddedV4 ip = (if be_nat ip < 2 ^ 32 then Some (drop 12 ip) else None)"
  using addrOf_16 [OF assms] l word_bytes_be_word [of ip, where ?'a = 128]
  by (simp add: v4CompatibleEmbeddedV4_def addrOf_def in_v4Compat AddrFromSlice_def unat_be_word16)

lemma mapped_range:
  assumes "length ip = 16"
  shows "take 12 ip = v4InV6Prefix \<longleftrightarrow> in_range (0xffff * 2 ^ 32) (0x10000 * 2 ^ 32) (be_nat ip)"
proof -
  have "unat (drop_bit 32 (be_word ip :: 128 word)) = be_nat ip div 2 ^ 32"
    using assms by (simp add: unat_drop_bit_div unat_be_word16)
  moreover have "take 12 ip = v4InV6Prefix \<longleftrightarrow> drop_bit 32 (be_word ip :: 128 word) = 0xffff"
    using Is4In6_iff [OF assms] by simp
  ultimately show ?thesis by (subst in_range_div) (auto simp: word_unat_eq_iff in_range_def)
qed

lemma be_nat_drop12: "length ip = 16 \<Longrightarrow> be_nat (drop 12 ip) = be_nat ip mod 2 ^ 32"
proof -
  assume l: "length ip = 16"
  have "be_nat (take 12 ip @ drop 12 ip) = be_nat (take 12 ip) * 2 ^ 32 + be_nat (drop 12 ip)"
    unfolding be_nat_append using l by simp
  then show ?thesis using be_nat_less [of "drop 12 ip"] l by simp
qed

lemma isBlockedIP_v6: assumes l: "length ip = 16" shows "block_kind ip = v6_class (be_nat ip)"
proof (cases "take 12 ip = v4InV6Prefix")
  case True
  then have "ip = v4InV6Prefix @ drop 12 ip" by (metis append_take_drop_id)
  then have "block_kind ip = v4_class (be_nat ip mod 2 ^ 32)"
    using isBlockedIP_mapped [of "drop 12 ip"] isBlockedIP_v4 [of "drop 12 ip"] l be_nat_drop12 [OF l] by simp
  with True mapped_range [OF l] show ?thesis by (simp add: v6_class_def)
next
  case False
  note a = addrOf_16 [OF l False]
  define local where "local \<longleftrightarrow> IsUnspecified ip \<or> IsLoopback ip \<or> IsLinkLocalUnicast ip \<or> IsLinkLocalMulticast ip \<or> IsMulticast ip"
  define ula where "ula \<longleftrightarrow> addr_IsPrivate (Addr6 (be_word ip))"
  define meta where "meta \<longleftrightarrow> in_any NeverLift (Addr6 (be_word ip))"
  define res where "res \<longleftrightarrow> in_any ReservedV6 (Addr6 (be_word ip))"
  define nat64 where "nat64 \<longleftrightarrow> in_any NAT64Prefixes (Addr6 (be_word ip))"
  note defs = local_def ula_def meta_def res_def nat64_def
  have "fst (PrivateReserved ip) \<longleftrightarrow> ula \<or> res"
    unfolding defs by (simp only: PrivateReserved_fst a option.case in_ReservedV4_6 simp_thms)
  moreover have "InLiftable ip \<longleftrightarrow> ula \<and> \<not> meta" unfolding defs addr6_IsPrivate [OF a(2)] 
    by (simp add: InLiftable_def a in_Liftable6 del: Is4In6.simps)
  moreover have "meta \<Longrightarrow> ula" unfolding defs addr6_IsPrivate [OF a(2)] in_NeverLift6 by (auto simp: in_range_def)
  moreover have "NAT64EmbeddedV4 ip \<noteq> None \<longleftrightarrow> nat64" unfolding defs by (simp add: NAT64EmbeddedV4_def a del: As16.simps Is4In6.simps)
  moreover have "v4_class (be_nat ip) = block_kind (drop 12 ip)" if "be_nat ip < 2 ^ 32"
    using that isBlockedIP_v4 [of "drop 12 ip"] l be_nat_drop12 [OF l] by simp
  moreover have "v6_class (be_nat ip) = (if local then blockLocal else if ula then (if meta then blockReservedOther else blockPrivate)
     else if res then blockReservedOther else if nat64 then blockNAT64 else if be_nat ip < 2 ^ 32 \<and> v4_class (be_nat ip) \<noteq> blockNone
      then blockV4Compat else blockNone)"
    using mapped_range [OF l] False unfolding defs v6_class_def local6 [OF l False] addr6_IsPrivate [OF a(2)] in_NeverLift6 in_ReservedV6
      in_NAT64 unat_be_word16 [OF l]
    by (simp only: if_False)
  ultimately show ?thesis
    using l unfolding isBlockedIP.simps [of ip] v4CompatibleEmbeddedV4_16 [OF l False] local_def [symmetric]
    by (auto split: option.splits prod.splits)
qed

text \<open>
  C21: the classification of an address equals the reference classification of the number it spells: the
  guard's tables and byte tests are exactly the listed intervals of IPv4 and IPv6 addresses, an
  IPv4-mapped address is read as the IPv4 address it carries, and a byte slice of another length is refused only
  when it is empty.
\<close>

theorem isBlockedIP_class:
  "block_kind ip =
     (if length ip = 4 then v4_class (be_nat ip)
      else if length ip = 16 then v6_class (be_nat ip)
      else if ip = [] then blockLocal else blockNone)"
proof -
  have "To4 ip = None" "addrOf ip = None" if "length ip \<noteq> 4" "length ip \<noteq> 16"
    using that by (simp_all add: To4_def addrOf_def AddrFromSlice_def)
  then have "block_kind ip = (if ip = [] then blockLocal else blockNone)" if "length ip \<noteq> 4" "length ip \<noteq> 16"
    using that
    by (simp add: isBlockedIP.simps [of ip] IsUnspecified_def IsLoopback_def IsLinkLocalUnicast_def
        IsLinkLocalMulticast_def IsMulticast_def ip_Equal_def IPv4_def v4InV6Prefix_def PrivateReserved_def
        NAT64EmbeddedV4_def v4CompatibleEmbeddedV4_def addrOf_def)
  then show ?thesis using isBlockedIP_v4 isBlockedIP_v6 by simp
qed

lemma v6_class_compat: "n < 2 ^ 32 \<Longrightarrow> v4_class n \<noteq> blockNone \<Longrightarrow> v6_class n \<noteq> blockNone"
  by (simp add: v6_class_def)

text \<open>
  C26: the IPv6 forms that carry an IPv4 address do not hide a blocked one. The mapped form has the IPv4 verdict, reason
  included; the IPv4-compatible form of a blocked address is blocked; and every address of the two NAT64 prefixes the guard
  knows (64:ff9b::/96 and 64:ff9b:1::/48), of 6to4 (2002::/16) and of Teredo (2001::/32) is refused, whatever it carries.
\<close>

theorem embedded_v4_blocked:
  assumes "length v4 = 4" and "length mid = 8" and "length tail = 10"
  shows "isBlockedIP (v4InV6Prefix @ v4) = isBlockedIP v4 \<and>
    (block_kind v4 \<noteq> blockNone \<longrightarrow> block_kind (replicate 12 0 @ v4) \<noteq> blockNone) \<and>
    block_kind ([0, 0x64, 0xff, 0x9b, 0, 0, 0, 0, 0, 0, 0, 0] @ v4) = blockNAT64 \<and>
    block_kind ([0, 0x64, 0xff, 0x9b, 0, 1] @ tail) = blockNAT64 \<and>
    block_kind ([0x20, 0x02] @ v4 @ tail) = blockReservedOther \<and>
    block_kind ([0x20, 0x01, 0, 0] @ mid @ v4) = blockReservedOther"
proof (intro conjI impI)
  have z: "be_nat (replicate 12 0) = 0" by (simp add: be_nat_def numeral_eq_Suc)
  have lt: "be_nat v4 < 2 ^ 32" using be_nat_less [of v4] assms by simp
  show "isBlockedIP (v4InV6Prefix @ v4) = isBlockedIP v4" using assms isBlockedIP_mapped by simp
  show "block_kind (replicate 12 0 @ v4) \<noteq> blockNone" if "block_kind v4 \<noteq> blockNone"
    using that assms lt isBlockedIP_v4 [of v4] isBlockedIP_v6 [of "replicate 12 0 @ v4"] v6_class_compat
    by (simp add: be_nat_append z)
  have n: "be_nat [0, 0x64, 0xff, 0x9b, 0, 0, 0, 0, 0, 0, 0, 0] = 0x0064ff9b0000000000000000"
    "be_nat [0, 0x64, 0xff, 0x9b, 0, 1] = 0x0064ff9b0001" "be_nat [0x20, 0x02] = 0x2002" "be_nat [0x20, 0x01, 0, 0] = 0x20010000"
    by (simp_all add: be_nat_def)
  show "block_kind ([0, 0x64, 0xff, 0x9b, 0, 0, 0, 0, 0, 0, 0, 0] @ v4) = blockNAT64"
    using assms lt isBlockedIP_v6 [of "[0, 0x64, 0xff, 0x9b, 0, 0, 0, 0, 0, 0, 0, 0] @ v4"]
    unfolding be_nat_append n by (simp add: v6_class_def in_range_def)
  have "be_nat tail < 2 ^ 80" using be_nat_less [of tail] assms by simp
  then show "block_kind ([0, 0x64, 0xff, 0x9b, 0, 1] @ tail) = blockNAT64"
    using assms isBlockedIP_v6 [of "[0, 0x64, 0xff, 0x9b, 0, 1] @ tail"]
    unfolding be_nat_append [of "[0, 0x64, 0xff, 0x9b, 0, 1]"] n by (simp add: v6_class_def in_range_def)
  have "be_nat (v4 @ tail) < 2 ^ 112" using be_nat_less [of "v4 @ tail"] assms by simp
  then show "block_kind ([0x20, 0x02] @ v4 @ tail) = blockReservedOther"
    using assms isBlockedIP_v6 [of "[0x20, 0x02] @ v4 @ tail"]
    unfolding be_nat_append [of "[0x20, 0x02]"] n by (simp add: v6_class_def in_range_def)
  have "be_nat (mid @ v4) < 2 ^ 96" using be_nat_less [of "mid @ v4"] assms by simp
  then show "block_kind ([0x20, 0x01, 0, 0] @ mid @ v4) = blockReservedOther"
    using assms isBlockedIP_v6 [of "[0x20, 0x01, 0, 0] @ mid @ v4"]
    unfolding be_nat_append [of "[0x20, 0x01, 0, 0]"] n by (simp add: v6_class_def in_range_def)
qed

theorem embedded_v4_blocked_witness:
  "block_kind (replicate 12 0 @ [169, 254, 169, 254]) \<noteq> blockNone \<and>
   block_kind ([0, 0x64, 0xff, 0x9b, 0, 1] @ replicate 10 0) = blockNAT64"
proof -
  have "block_kind [169, 254, 169, 254] = blockLocal" by code_simp
  then show ?thesis
    using embedded_v4_blocked [of "[169, 254, 169, 254]" "replicate 8 0" "replicate 10 0"] by simp
qed

text \<open>
  An address the gateway guard accepts has 4 or 16 bytes, is not local (loopback, link-local,
  multicast, unspecified), is not in a NAT64 prefix and is not one of the cloud metadata addresses.
\<close>

theorem gateway_refusal:
  assumes "\<not> GatewayIPRefused ip"
  shows "(length ip = 4 \<or> length ip = 16) \<and> block_kind ip \<noteq> blockLocal \<and> block_kind ip \<noteq> blockNAT64 \<and>
    \<not> in_any NeverLift (the (addrOf ip))"
proof -
  from assms obtain a where a: "addrOf ip = Some a" by (auto simp: GatewayIPRefused.simps [of ip] split: option.splits)
  then have len: "length ip = 4 \<or> length ip = 16" by (auto simp: addrOf_def AddrFromSlice_def split: if_splits)
  have *: "\<not> (IsLoopback ip \<or> IsLinkLocalUnicast ip \<or> IsLinkLocalMulticast ip \<or> IsMulticast ip \<or> IsUnspecified ip)"
    "\<not> in_any NeverLift a" using assms a by (auto simp: GatewayIPRefused.simps [of ip] split: if_splits)
  have "block_kind ip \<noteq> blockLocal"
    using * len by (auto simp: isBlockedIP.simps [of ip] split: option.splits prod.splits)
  moreover have "block_kind ip \<noteq> blockNAT64"
  proof
    assume b: "block_kind ip = blockNAT64"
    then have n: "NAT64EmbeddedV4 ip \<noteq> None" using * len
      by (auto simp: isBlockedIP.simps [of ip] split: option.splits prod.splits if_splits)
    then have "in_any NAT64Prefixes a" using a by (simp add: NAT64EmbeddedV4_def split: if_splits)
    then have "\<not> prefix_Contains v4CompatiblePrefix a" "\<not> prefix_Contains sixToFourPrefix a"
      by (cases a; auto simp: in_NAT64 in_range_def in_v4Compat sixToFourPrefix_eq prefix6_iff Let_def
          simp del: prefix_Contains.simps(2))+
    then show False using assms a n * by (simp add: GatewayIPRefused.simps [of ip] split: if_splits)
  qed
  ultimately show ?thesis using len a * by simp
qed

theorem gateway_refusal_witness: "block_kind [203, 0, 113, 7] \<noteq> blockLocal"
proof -
  have "\<not> GatewayIPRefused [203, 0, 113, 7]" by code_simp
  from gateway_refusal [OF this] show ?thesis by simp
qed

end
