(* ===== verification/DomainMatch.thy ===== *)
theory DomainMatch
  imports IPGuard NetRoundTrip
begin

section \<open>Domain entries: internal/egress/domainmatch\<close>

text \<open>
  The one reading of an allowed_domains/denied_domains entry (\<open>internal/egress/domainmatch/domainmatch.go\<close>):
  how a request host is spelled (\<open>CanonHost\<close>), how an entry is split into a host or a wildcard suffix and an
  optional port (\<open>Classify\<close>), and when a host falls under a wildcard. The lemmas give the normal forms of the
  three results of \<open>Classify\<close>, the label boundary of a wildcard match, and that every spelling of an IP literal
  has one key.
\<close>

record WildPort =
  wp_Suffix :: string
  wp_Port :: int

definition CanonHost :: "string \<Rightarrow> string" where
  "CanonHost h =
     (let h' = TrimSuffix (ToLower h) ''.'' in
      case ParseIP h' of Some ip \<Rightarrow> ip_String ip | None \<Rightarrow> h')"

text \<open>The optional \<open>:port\<close> qualifier of an entry: the host part and the port, 0 when there is none.\<close>

definition port_qualifier :: "string \<Rightarrow> string \<times> int" where
  "port_qualifier d =
     (case SplitHostPort d of
        None \<Rightarrow> (d, 0)
      | Some (h, ps) \<Rightarrow>
          (case Atoi ps of
             Some n \<Rightarrow> if 1 \<le> n \<and> n \<le> 65535 then (TrimRight h ''.'', n) else (d, 0)
           | None \<Rightarrow> (d, 0)))"

definition Classify :: "string \<Rightarrow> string \<times> string \<times> int" where
  "Classify d0 =
     (let d = TrimRight (ToLower (TrimSpace d0)) ''.'' in
      if d = [] then ([], [], 0)
      else case port_qualifier d of (d', port) \<Rightarrow>
        if HasPrefix d' ''*.'' then ([], drop 1 d', port)
        else (CanonHost d', [], port))"

fun MatchWild :: "string \<Rightarrow> string list \<Rightarrow> bool" where
  "MatchWild host [] = False"
| "MatchWild host (w # ws) = (if HasSuffix host w then True else MatchWild host ws)"

fun MatchWildPort :: "string \<Rightarrow> int \<Rightarrow> WildPort list \<Rightarrow> bool" where
  "MatchWildPort host port [] = False"
| "MatchWildPort host port (w # ws) =
     (if wp_Port w = port \<and> HasSuffix host (wp_Suffix w) then True else MatchWildPort host port ws)"

subsection \<open>Lemmas\<close>

lemma MatchWild_iff: "MatchWild host ws \<longleftrightarrow> (\<exists>w \<in> set ws. HasSuffix host w)"
  by (induction ws) auto

lemma MatchWildPort_iff:
  "MatchWildPort host port ws \<longleftrightarrow> (\<exists>w \<in> set ws. wp_Port w = port \<and> HasSuffix host (wp_Suffix w))"
  by (induction ws) auto

lemma CanonHost_lower: "CanonHost (ToLower h) = CanonHost h"
  by (simp add: CanonHost_def)

text \<open>A literal has one key, however it is written.\<close>

lemma CanonHost_literal:
  "ParseIP (TrimSuffix (ToLower h) ''.'') = Some ip \<Longrightarrow> CanonHost h = ip_String ip"
  by (simp add: CanonHost_def)

lemma CanonHost_name:
  "ParseIP (TrimSuffix (ToLower h) ''.'') = None \<Longrightarrow> CanonHost h = TrimSuffix (ToLower h) ''.''"
  by (simp add: CanonHost_def)

lemma port_qualifier_range:
  "port_qualifier d = (h, p) \<Longrightarrow> p = 0 \<and> h = d \<or> 1 \<le> p \<and> p \<le> 65535 \<and> h = TrimRight h ''.''"
  by (auto simp: port_qualifier_def split: option.splits prod.splits if_splits)

lemma Classify_port_range: "Classify d = (e, w, p) \<Longrightarrow> 0 \<le> p \<and> p \<le> 65535"
  by (auto simp: Classify_def Let_def split: if_splits prod.splits dest!: port_qualifier_range)

lemma Classify_exclusive: "Classify d = (e, w, p) \<Longrightarrow> e = [] \<or> w = []"
  by (auto simp: Classify_def Let_def split: if_splits prod.splits)

lemma Classify_wild_dot: "Classify d = (e, w, p) \<Longrightarrow> w \<noteq> [] \<Longrightarrow> \<exists>s. w = CHR ''.'' # s"
  by (auto simp: Classify_def Let_def HasPrefix_iff split: if_splits prod.splits)

lemma Classify_empty: "Classify [] = ([], [], 0)"
  by (simp add: Classify_def TrimSpace_def trim_left_by_def trim_right_by_def TrimRight_def)

text \<open>The key of a literal is a fixed point of \<open>CanonHost\<close>, and it parses back to the same address.\<close>

lemma CanonHost_ip_String:
  "length ip = 4 \<or> length ip = 16 \<Longrightarrow> CanonHost (ip_String ip) = ip_String ip"
  by (simp add: CanonHost_def ip_String_normal ParseIP_ip_String ip_String_to16)

lemma CanonHost_idem_trimmed:
  assumes "h = [] \<or> last h \<noteq> CHR ''.''"
  shows "CanonHost (CanonHost h) = CanonHost h"
proof (cases "ParseIP (TrimSuffix (ToLower h) ''.'')")
  case None
  have "ToLower h = [] \<or> last (ToLower h) \<noteq> CHR ''.''"
  proof (cases "h = []")
    case False
    then have "last (ToLower h) = lower_char (last h)" by (simp add: ToLower_def last_map)
    moreover have "c = CHR ''.''" if "lower_char c = CHR ''.''" for c
    proof -
      have "ord (lower_char c) = 46" by (simp add: that)
      then have "\<not> is_upper c" by (auto simp: ord_lower_char is_upper_def split: if_splits)
      with that show ?thesis by (simp add: lower_char_def)
    qed
    ultimately show ?thesis using assms False by auto
  qed simp
  then show ?thesis using None by (simp add: CanonHost_def TrimSuffix_dot_id)
next
  case (Some ip)
  then show ?thesis using ParseIP_length [OF Some] by (simp add: CanonHost_literal CanonHost_ip_String)
qed

lemma ip_String_inject_16: "length a = 16 \<Longrightarrow> length b = 16 \<Longrightarrow> ip_String a = ip_String b \<longleftrightarrow> a = b"
proof
  assume l: "length a = 16" "length b = 16" and eq: "ip_String a = ip_String b"
  have "Some (to16 a) = Some (to16 b)" using ParseIP_ip_String [of a] ParseIP_ip_String [of b] l eq by simp
  then show "a = b" using l by (simp add: to16_def)
qed simp

text \<open>
  Two spellings of IP literals have the same policy key exactly when they name the same address, so no spelling
  of an address escapes an entry for it and no entry for one address applies to another.
\<close>

theorem literal_key_iff_address:
  assumes "ParseIP (TrimSuffix (ToLower h) ''.'') = Some a" and "ParseIP (TrimSuffix (ToLower h') ''.'') = Some b"
  shows "CanonHost h = CanonHost h' \<longleftrightarrow> a = b"
  using assms by (simp add: CanonHost_literal ip_String_inject_16 ParseIP_length)

theorem literal_key_witness: "CanonHost ''::FFFF:93.184.216.34'' = CanonHost ''93.184.216.34.''"
proof -
  have "ParseIP (TrimSuffix (ToLower ''::FFFF:93.184.216.34'') ''.'') = Some (IPv4 93 184 216 34)"
    "ParseIP (TrimSuffix (ToLower ''93.184.216.34.'') ''.'') = Some (IPv4 93 184 216 34)" by code_simp+
  from literal_key_iff_address [OF this] show ?thesis by simp
qed

text \<open>
  A wildcard suffix matches on a label boundary only: a host under the suffix of an entry is some text
  followed by a dot and the entry's domain, so neither the domain itself nor a host that merely ends in the same
  letters matches.
\<close>

theorem wildcard_label_boundary:
  assumes "Classify d = (e, w, p)" and "w \<noteq> []"
  shows "(MatchWild host [w] \<longleftrightarrow> (\<exists>sub dom. w = ''.'' @ dom \<and> host = sub @ ''.'' @ dom)) \<and>
    \<not> MatchWild (drop 1 w) [w]"
proof -
  from Classify_wild_dot [OF assms] obtain s where w: "w = CHR ''.'' # s" by blast
  have "MatchWild host [w] \<longleftrightarrow> (\<exists>sub dom. w = ''.'' @ dom \<and> host = sub @ ''.'' @ dom)"
    by (auto simp: MatchWild_iff HasSuffix_iff w)
  moreover have "\<not> MatchWild (drop 1 w) [w]"
  proof
    assume "MatchWild (drop 1 w) [w]"
    then obtain t where "s = t @ CHR ''.'' # s" by (auto simp: MatchWild_iff HasSuffix_iff w)
    then have "length s = length t + Suc (length s)" by (metis length_append length_Cons)
    then show False by simp
  qed
  ultimately show ?thesis by blast
qed

theorem wildcard_label_boundary_witness: "\<not> MatchWild ''example.com'' [''.example.com'']"
proof -
  have "Classify ''*.Example.com.:443'' = ([], ''.example.com'', 443)" by code_simp
  from wildcard_label_boundary [OF this] show ?thesis by simp
qed

end
