(* ===== verification/PolicyTypes.thy ===== *)
theory PolicyTypes
  imports Prelude
begin

section \<open>The policy wire types: internal/types\<close>

text \<open>
  The records of \<open>internal/types\<close> that the egress proxy compiles and the governance composer narrows. A Go string
  type with named constants stays a string, because the readers give every unlisted value a meaning (usually the
  strictest one); a pointer field is an option; an overlay field carries its presence as an option around the value.
  A \<open>json.RawMessage\<close> is empty, holds bytes that are not JSON, or holds one JSON value.
\<close>

subsection \<open>JSON values\<close>

datatype json =
  JNull | JBool bool | JNumber string | JString string | JArray "json list" | JObject "(string \<times> json) list"

datatype raw_message = RawEmpty | RawInvalid | RawJSON json

subsection \<open>First-use mode\<close>

type_synonym FirstUseMode = string

definition FirstUseAlwaysDeny :: FirstUseMode where "FirstUseAlwaysDeny = ''always_deny''"
definition FirstUseDenyWithReview :: FirstUseMode where "FirstUseDenyWithReview = ''deny_with_review''"
definition FirstUseWaitForReview :: FirstUseMode where "FirstUseWaitForReview = ''wait_for_review''"

lemmas first_use_defs = FirstUseAlwaysDeny_def FirstUseDenyWithReview_def FirstUseWaitForReview_def

definition FirstUse_Normalize :: "FirstUseMode \<Rightarrow> FirstUseMode" where
  "FirstUse_Normalize m =
     (if m = FirstUseAlwaysDeny \<or> m = FirstUseDenyWithReview \<or> m = FirstUseWaitForReview then m
      else FirstUseAlwaysDeny)"

definition RaisesApproval :: "FirstUseMode \<Rightarrow> bool" where
  "RaisesApproval m =
     (let n = FirstUse_Normalize m in n = FirstUseDenyWithReview \<or> n = FirstUseWaitForReview)"

definition FirstUse_Valid :: "FirstUseMode \<Rightarrow> bool" where
  "FirstUse_Valid m =
     (m = [] \<or> m = FirstUseAlwaysDeny \<or> m = FirstUseDenyWithReview \<or> m = FirstUseWaitForReview)"

text \<open>\<open>UnmarshalJSON\<close> on a JSON value: the legacy boolean and the string form; \<open>None\<close> is the decode error.\<close>

fun FirstUse_UnmarshalJSON :: "json \<Rightarrow> FirstUseMode option" where
  "FirstUse_UnmarshalJSON JNull = Some FirstUseAlwaysDeny"
| "FirstUse_UnmarshalJSON (JBool legacy) =
     Some (if legacy then FirstUseDenyWithReview else FirstUseAlwaysDeny)"
| "FirstUse_UnmarshalJSON (JString s) = Some s"
| "FirstUse_UnmarshalJSON _ = None"

subsection \<open>Tool rules\<close>

type_synonym ToolEffect = string

definition ToolAllow :: ToolEffect where "ToolAllow = ''allow''"
definition ToolHold :: ToolEffect where "ToolHold = ''hold''"
definition ToolDeny :: ToolEffect where "ToolDeny = ''deny''"

lemmas tool_effect_defs = ToolAllow_def ToolHold_def ToolDeny_def

definition ValidToolEffect :: "ToolEffect \<Rightarrow> bool" where
  "ValidToolEffect e = (e = ToolAllow \<or> e = ToolHold \<or> e = ToolDeny)"

record ToolRule =
  Tool :: string
  Effect :: ToolEffect

record HarnessToolRules =
  Harness :: string
  HDefault :: ToolEffect
  HRules :: "ToolRule list"

text \<open>\<open>ToolEffectForHarness\<close>: the first set of the harness decides.\<close>

fun ToolEffectForHarness :: "HarnessToolRules list \<Rightarrow> string \<Rightarrow> string \<Rightarrow> ToolEffect \<times> bool" where
  "ToolEffectForHarness [] harness tool = ([], False)"
| "ToolEffectForHarness (s # sets) harness tool =
     (if Harness s \<noteq> harness then ToolEffectForHarness sets harness tool
      else case find (\<lambda>r. Tool r = tool) (HRules s) of
             Some r \<Rightarrow> (Effect r, True)
           | None \<Rightarrow> (HDefault s, HDefault s \<noteq> []))"

subsection \<open>Grants\<close>

type_synonym GrantKind = string

record GrantSpec =
  Kind :: GrantKind
  Scope :: raw_message
  TTLSeconds :: int
  RequiresApproval :: bool
  OwnerOnly :: bool
  OwnerOnlyRefs :: "string list"

definition OwnerOnlyFor :: "GrantSpec \<Rightarrow> string \<Rightarrow> bool" where
  "OwnerOnlyFor g ref = (OwnerOnly g \<or> ref \<in> set (OwnerOnlyRefs g))"

subsection \<open>Confinement, recording, autonomy\<close>

type_synonym ConfinementClass = string

definition Confinement_Rank :: "ConfinementClass \<Rightarrow> int" where
  "Confinement_Rank c = (if c = ''CC1'' then 1 else if c = ''CC2'' then 2 else if c = ''CC3'' then 3 else 0)"

type_synonym RecordingLevel = string

definition Recording_Valid :: "RecordingLevel \<Rightarrow> bool" where
  "Recording_Valid l = (l = [] \<or> l = ''off'' \<or> l = ''terminal'' \<or> l = ''screen_actions'')"

definition Recording_Rank :: "RecordingLevel \<Rightarrow> int" where
  "Recording_Rank l =
     (if l = ''off'' then 1 else if l = ''terminal'' then 2 else if l = ''screen_actions'' then 3 else 0)"

definition AtLeast :: "RecordingLevel \<Rightarrow> RecordingLevel \<Rightarrow> RecordingLevel" where
  "AtLeast l floor = (if Recording_Rank floor > Recording_Rank l then floor else l)"

type_synonym AutonomyLevel = string

definition Autonomy_Valid :: "AutonomyLevel \<Rightarrow> bool" where
  "Autonomy_Valid l = (l = ''L0'' \<or> l = ''L1'' \<or> l = ''L2'' \<or> l = ''L3'')"

definition Autonomy_Rank :: "AutonomyLevel \<Rightarrow> int" where
  "Autonomy_Rank l =
     (if l = ''L0'' then 0 else if l = ''L1'' then 1 else if l = ''L2'' then 2 else if l = ''L3'' then 3 else - 1)"

record AutonomyRubric =
  EgressOpen :: AutonomyLevel
  EgressReviewed :: AutonomyLevel
  EgressSealed :: AutonomyLevel
  SecretsPowerful :: AutonomyLevel
  SecretsBaseline :: AutonomyLevel
  SecretsNone :: AutonomyLevel
  ConfinementCC1 :: AutonomyLevel
  ConfinementCC2 :: AutonomyLevel
  ConfinementCC3 :: AutonomyLevel
  AgentGuardrailLocks :: bool

definition rubric_levels :: "AutonomyRubric \<Rightarrow> AutonomyLevel list" where
  "rubric_levels r =
     [EgressOpen r, EgressReviewed r, EgressSealed r, SecretsPowerful r, SecretsBaseline r, SecretsNone r,
      ConfinementCC1 r, ConfinementCC2 r, ConfinementCC3 r]"

definition Rubric_Validate :: "AutonomyRubric \<Rightarrow> bool" where
  "Rubric_Validate r = list_all (\<lambda>l. l = [] \<or> Autonomy_Valid l) (rubric_levels r)"

definition empty_rubric :: AutonomyRubric where
  "empty_rubric =
     \<lparr>EgressOpen = [], EgressReviewed = [], EgressSealed = [], SecretsPowerful = [], SecretsBaseline = [],
      SecretsNone = [], ConfinementCC1 = [], ConfinementCC2 = [], ConfinementCC3 = [],
      AgentGuardrailLocks = False\<rparr>"

subsection \<open>Desktop controls\<close>

type_synonym TransferRule = string

record DesktopControls =
  PasteIn :: TransferRule
  CopyOut :: TransferRule
  Upload :: TransferRule
  Download :: TransferRule

definition TransferAllowed :: TransferRule where "TransferAllowed = ''allowed''"
definition TransferBlocked :: TransferRule where "TransferBlocked = ''blocked''"

definition ValidTransferRule :: "TransferRule \<Rightarrow> bool" where
  "ValidTransferRule r = (r = [] \<or> r = TransferAllowed \<or> r = TransferBlocked)"

text \<open>\<open>cmp.Or\<close> on strings and on integers: the first value that is not the zero value.\<close>

definition or_str :: "string \<Rightarrow> string \<Rightarrow> string" where
  "or_str a b = (if a \<noteq> [] then a else b)"

definition or_int :: "int \<Rightarrow> int \<Rightarrow> int" where
  "or_int a b = (if a \<noteq> 0 then a else b)"

definition Desktop_Effective :: "DesktopControls option \<Rightarrow> DesktopControls" where
  "Desktop_Effective d =
     (let e = (case d of Some x \<Rightarrow> x | None \<Rightarrow> \<lparr>PasteIn = [], CopyOut = [], Upload = [], Download = []\<rparr>) in
      \<lparr>PasteIn = or_str (PasteIn e) TransferAllowed, CopyOut = or_str (CopyOut e) TransferBlocked,
       Upload = or_str (Upload e) TransferAllowed, Download = or_str (Download e) TransferBlocked\<rparr>)"

definition transfer_block :: "TransferRule \<Rightarrow> TransferRule \<Rightarrow> TransferRule" where
  "transfer_block x y = (if x = TransferBlocked \<or> y = TransferBlocked then TransferBlocked else TransferAllowed)"

definition Desktop_Meet :: "DesktopControls option \<Rightarrow> DesktopControls option \<Rightarrow> DesktopControls" where
  "Desktop_Meet d o' =
     (let a = Desktop_Effective d; b = Desktop_Effective o' in
      \<lparr>PasteIn = transfer_block (PasteIn a) (PasteIn b), CopyOut = transfer_block (CopyOut a) (CopyOut b),
       Upload = transfer_block (Upload a) (Upload b), Download = transfer_block (Download a) (Download b)\<rparr>)"

subsection \<open>The other parts of a run policy\<close>

record HarnessInnerWalls =
  SandboxMode :: string
  Approvals :: string

record PushRulesSpec =
  DenyPaths :: "string list"
  MaxInspectPackMiB :: int
  RequireReviewPaths :: "string list"
  HoldSeconds :: int
  DenyNewExecutables :: bool
  MaxFileSizeMiB :: int
  DenyAll :: bool

definition PushRules_IsSet :: "PushRulesSpec option \<Rightarrow> bool" where
  "PushRules_IsSet s =
     (case s of
        None \<Rightarrow> False
      | Some p \<Rightarrow> DenyPaths p \<noteq> [] \<or> RequireReviewPaths p \<noteq> [] \<or> MaxInspectPackMiB p > 0 \<or>
                  MaxFileSizeMiB p > 0 \<or> DenyNewExecutables p \<or> DenyAll p)"

definition empty_push :: PushRulesSpec where
  "empty_push =
     \<lparr>DenyPaths = [], MaxInspectPackMiB = 0, RequireReviewPaths = [], HoldSeconds = 0,
      DenyNewExecutables = False, MaxFileSizeMiB = 0, DenyAll = False\<rparr>"

record LLMInspectionSpec =
  Mode :: string
  WorkspaceSecretNames :: "string list"
  WorkspaceSecretValues :: "string list"
  DetectSecrets :: bool
  DetectSecretPatterns :: bool
  DetectEntropy :: bool
  DetectPII :: bool
  DetectorSidecarURL :: string
  ClassifiedMarkers :: "string list"
  ScanAttachments :: bool
  InspectForwardEgress :: bool
  MaxScanBytes :: int
  OnScannerError :: string
  RequireInspectableLLM :: bool
  InterceptTLS :: bool
  BlockMinSeverity :: string

record WorkspaceMount =
  MSource :: string
  MTarget :: string
  MReadOnly :: "bool option"

definition ReadOnlyOrDefault :: "WorkspaceMount \<Rightarrow> bool" where
  "ReadOnlyOrDefault m = (case MReadOnly m of None \<Rightarrow> True | Some b \<Rightarrow> b)"

record WorkspaceRepo =
  Repo :: string
  RTarget :: string
  Ref :: string

record UIApp =
  AName :: string
  APort :: int
  APath :: string
  Inbound :: bool
  Callers :: "string list"

definition PathOrRoot :: "UIApp \<Rightarrow> string" where
  "PathOrRoot a = (if APath a = [] then ''/'' else APath a)"

record ResourceLimits =
  CPUMillis :: int
  MemoryMiB :: int
  PidsLimit :: int
  DiskMiB :: int

definition empty_resources :: ResourceLimits where
  "empty_resources = \<lparr>CPUMillis = 0, MemoryMiB = 0, PidsLimit = 0, DiskMiB = 0\<rparr>"

subsection \<open>RunPolicySpec\<close>

record RunPolicySpec =
  AllowedDomains :: "string list"
  DeniedDomains :: "string list"
  AllowAllEgress :: bool
  FirstUseApproval :: FirstUseMode
  FirstUseHoldSeconds :: int
  MaxHolds :: int
  AllowedMethods :: "string list"
  MinConfinementClass :: ConfinementClass
  EligibleGrants :: "GrantSpec list"
  AutoStopAfterSec :: int
  WorkspaceMounts :: "WorkspaceMount list"
  WorkspaceRepos :: "WorkspaceRepo list"
  LLMInspection :: "LLMInspectionSpec option"
  UIApps :: "UIApp list"
  Resources :: "ResourceLimits option"
  ToolRules :: "ToolRule list"
  GitPushAnyBranch :: bool
  PushRules :: "PushRulesSpec option"
  AzureDevOpsCapabilities :: "string list"
  GitHubCapabilities :: "string list"
  InnerWalls :: "HarnessInnerWalls option"
  Desktop :: "DesktopControls option"
  Recording :: RecordingLevel

text \<open>The zero value of the struct, the start of every literal in the witnesses.\<close>

definition empty_spec :: RunPolicySpec where
  "empty_spec =
     \<lparr>AllowedDomains = [], DeniedDomains = [], AllowAllEgress = False, FirstUseApproval = [],
      FirstUseHoldSeconds = 0, MaxHolds = 0, AllowedMethods = [], MinConfinementClass = [],
      EligibleGrants = [], AutoStopAfterSec = 0, WorkspaceMounts = [], WorkspaceRepos = [],
      LLMInspection = None, UIApps = [], Resources = None, ToolRules = [], GitPushAnyBranch = False,
      PushRules = None, AzureDevOpsCapabilities = [], GitHubCapabilities = [], InnerWalls = None,
      Desktop = None, Recording = []\<rparr>"

subsection \<open>Lemmas\<close>

lemma FirstUse_Normalize_idem [simp]: "FirstUse_Normalize (FirstUse_Normalize m) = FirstUse_Normalize m"
  by (simp add: FirstUse_Normalize_def)

lemma FirstUse_Normalize_cases:
  "FirstUse_Normalize m = FirstUseAlwaysDeny \<or> FirstUse_Normalize m = FirstUseDenyWithReview \<or>
   FirstUse_Normalize m = FirstUseWaitForReview"
  by (simp add: FirstUse_Normalize_def)

lemma RaisesApproval_Normalize [simp]: "RaisesApproval (FirstUse_Normalize m) = RaisesApproval m"
  by (simp add: RaisesApproval_def)

lemma Recording_Rank_AtLeast: "Recording_Rank (AtLeast l f) = max (Recording_Rank l) (Recording_Rank f)"
  by (simp add: AtLeast_def)

lemma ToolEffectForHarness_no_set:
  "\<forall>s \<in> set sets. Harness s \<noteq> h \<Longrightarrow> ToolEffectForHarness sets h t = ([], False)"
  by (induction sets) auto

text \<open>The meet of two desktop settings is effective as it is, and blocks what either side blocks.\<close>

lemma transfer_block_nonempty [simp]: "transfer_block x y \<noteq> []"
  by (simp add: transfer_block_def TransferAllowed_def TransferBlocked_def)

lemma Desktop_Effective_Meet [simp]: "Desktop_Effective (Some (Desktop_Meet a b)) = Desktop_Meet a b"
  by (simp add: Desktop_Effective_def Desktop_Meet_def Let_def or_str_def)


subsection \<open>Approvals as the proxy keeps them\<close>

text \<open>\<open>approvalState\<close> of internal/egress/proxy/approvals.go, and an approval's id; \<open>uuid_Nil\<close> is \<open>uuid.Nil\<close>.\<close>

datatype approvalState =
  apNone | apPending | apApproved | apDenied | apCapped | apRefused | apExpired | apStale

type_synonym uuid = int

definition uuid_Nil :: uuid where "uuid_Nil = 0"

end
