(* ===== verification/PathGlob.thy ===== *)
theory PathGlob
  imports Prelude
begin

section \<open>Path patterns: the matcher of internal/egress/proxy/push_rules.go\<close>

text \<open>
  A pattern of push_rules is a list of segments; \<open>**\<close> stands for any number of whole segments and the other
  wildcards are \<open>path.Match\<close>'s inside one segment. The theory holds the model of \<open>path.Match\<close> with the UTF-8
  decoding it does, the budgeted matchers \<open>matchSegment\<close>, \<open>matchSegments\<close> and \<open>matchesBeneath\<close>, and their
  equivalence with a declarative reading of the patterns.
\<close>

subsection \<open>UTF-8\<close>

definition byte_of :: "char \<Rightarrow> int" where
  "byte_of c = of_char c"

definition cont_byte :: "char \<Rightarrow> bool" where
  "cont_byte c \<longleftrightarrow> 128 \<le> byte_of c \<and> byte_of c \<le> 191"

text \<open>\<open>utf8.DecodeRuneInString\<close> on a non-empty string: the rune, and the bytes left. A byte that starts no
  well-formed sequence is \<open>RuneError\<close> of width one (the flag).\<close>

definition RuneError :: int where "RuneError = 65533"

definition DecodeRune :: "string \<Rightarrow> (int \<times> string \<times> bool) option" where
  "DecodeRune s =
     (case s of
        [] \<Rightarrow> None
      | a # t \<Rightarrow>
          let x = byte_of a; bad = Some (RuneError, t, True) in
          if x < 128 then Some (x, t, False)
          else if 194 \<le> x \<and> x \<le> 223 then
            (case t of
               b # u \<Rightarrow> if cont_byte b then Some ((x - 192) * 64 + (byte_of b - 128), u, False) else bad
             | _ \<Rightarrow> bad)
          else if 224 \<le> x \<and> x \<le> 239 then
            (case t of
               b # c # u \<Rightarrow>
                 if cont_byte b \<and> cont_byte c \<and> (x = 224 \<longrightarrow> 160 \<le> byte_of b) \<and> (x = 237 \<longrightarrow> byte_of b \<le> 159)
                 then Some ((x - 224) * 4096 + (byte_of b - 128) * 64 + (byte_of c - 128), u, False) else bad
             | _ \<Rightarrow> bad)
          else if 240 \<le> x \<and> x \<le> 244 then
            (case t of
               b # c # d # u \<Rightarrow>
                 if cont_byte b \<and> cont_byte c \<and> cont_byte d \<and> (x = 240 \<longrightarrow> 144 \<le> byte_of b)
                    \<and> (x = 244 \<longrightarrow> byte_of b \<le> 143)
                 then Some ((x - 240) * 262144 + (byte_of b - 128) * 4096 + (byte_of c - 128) * 64
                            + (byte_of d - 128), u, False) else bad
             | _ \<Rightarrow> bad)
          else bad)"

lemma DecodeRune_shorter: "DecodeRune s = Some (r, t, b) \<Longrightarrow> length t < length s"
  by (auto simp: DecodeRune_def Let_def split: list.splits if_splits)

text \<open>\<open>utf8.ValidString\<close>: no byte decodes to an error of width one.\<close>

function ValidUTF8 :: "string \<Rightarrow> bool" where
  "ValidUTF8 s = (case DecodeRune s of None \<Rightarrow> True | Some (r, t, bad) \<Rightarrow> \<not> bad \<and> ValidUTF8 t)"
  by auto
termination
  by (relation "measure length") (auto dest: DecodeRune_shorter)

declare ValidUTF8.simps [simp del]


subsection \<open>path.Match\<close>

text \<open>\<open>getEsc\<close>: one character of a class, a backslash escaping it. \<open>None\<close> is \<open>ErrBadPattern\<close>.\<close>

definition getEsc :: "string \<Rightarrow> (int \<times> string) option" where
  "getEsc chunk =
     (if chunk = [] \<or> hd chunk = CHR ''-'' \<or> hd chunk = CHR '']'' then None
      else
        let c = (if hd chunk = CHR 0x5C then tl chunk else chunk) in
        case DecodeRune c of
          None \<Rightarrow> None
        | Some (r, rest, bad) \<Rightarrow> if bad \<or> rest = [] then None else Some (r, rest))"

lemma getEsc_shorter: "getEsc c = Some (r, rest) \<Longrightarrow> length rest < length c"
  by (cases c) (auto simp: getEsc_def Let_def split: option.splits if_splits dest!: DecodeRune_shorter)

text \<open>The ranges of a class up to its closing bracket: whether one holds the rune, and the rest of the chunk.\<close>

function class_ranges :: "string \<Rightarrow> int \<Rightarrow> bool \<Rightarrow> bool \<Rightarrow> (bool \<times> string) option" where
  "class_ranges chunk r started found =
     (if started \<and> chunk \<noteq> [] \<and> hd chunk = CHR '']'' then Some (found, tl chunk)
      else case getEsc chunk of
        None \<Rightarrow> None
      | Some (lo, c1) \<Rightarrow>
          if hd c1 = CHR ''-'' then
            (case getEsc (tl c1) of
               None \<Rightarrow> None
             | Some (hi, c2) \<Rightarrow> class_ranges c2 r True (found \<or> lo \<le> r \<and> r \<le> hi))
          else class_ranges c1 r True (found \<or> r = lo))"
  by auto
termination
proof (relation "measure (\<lambda>(c, r, s, f). length c)", goal_cases)
  case (2 chunk r started found p lo c1 q hi c2)
  then have "length c1 < length chunk" "length c2 < length (tl c1)"
    by (metis getEsc_shorter)+
  then show ?case by simp
qed (auto dest: getEsc_shorter)

declare class_ranges.simps [simp del]

lemma class_ranges_shorter:
  "class_ranges chunk r st f = Some (m, rest) \<Longrightarrow> length rest < length chunk"
proof (induction chunk r st f rule: class_ranges.induct)
  case (1 chunk r st f)
  show ?case
  proof (cases "st \<and> chunk \<noteq> [] \<and> hd chunk = CHR '']''")
    case True
    then show ?thesis using "1.prems" by (cases chunk) (auto simp: class_ranges.simps)
  next
    case False
    then obtain lo c1 where e: "getEsc chunk = Some (lo, c1)"
      using "1.prems" by (auto simp: class_ranges.simps [of chunk] split: option.splits)
    then have len: "length c1 < length chunk" by (rule getEsc_shorter)
    show ?thesis
    proof (cases "hd c1 = CHR ''-''")
      case True
      then obtain hi c2 where e2: "getEsc (tl c1) = Some (hi, c2)"
        using "1.prems" False e by (auto simp: class_ranges.simps [of chunk] split: option.splits)
      from getEsc_shorter [OF this] have "length c2 < length c1" by simp
      moreover have "length rest < length c2"
        using "1.IH" (1) [OF False e refl True e2 refl] "1.prems" False e e2 True
        by (simp add: class_ranges.simps [of chunk])
      ultimately show ?thesis using len by simp
    next
      case nd: False
      have "length rest < length c1"
        using "1.IH" (2) [OF False e refl nd] "1.prems" False e nd
        by (simp add: class_ranges.simps [of chunk])
      then show ?thesis using len by simp
    qed
  qed
qed


text \<open>\<open>matchChunk\<close>: a chunk holds no unbracketed star. \<open>None\<close> is \<open>ErrBadPattern\<close>, \<open>Some None\<close> no match; once
  the match has failed (second argument \<open>None\<close>) the rest of the chunk is still read, for its syntax.\<close>

function matchChunk :: "string \<Rightarrow> string option \<Rightarrow> string option option" where
  "matchChunk chunk s0 =
     (if chunk = [] then Some s0
      else
        let s = (if s0 = Some [] then None else s0) in
        if hd chunk = CHR ''['' then
          (let (r, s1) = (case s of None \<Rightarrow> (0, None)
                          | Some t \<Rightarrow> (case DecodeRune t of None \<Rightarrow> (0, None) | Some (r, u, bad) \<Rightarrow> (r, Some u)));
               negated = (tl chunk \<noteq> [] \<and> hd (tl chunk) = CHR ''^'');
               c1 = (if negated then tl (tl chunk) else tl chunk)
           in case class_ranges c1 r False False of
                None \<Rightarrow> None
              | Some (m, c2) \<Rightarrow> matchChunk c2 (if m = negated then None else s1))
        else if hd chunk = CHR ''?'' then
          matchChunk (tl chunk)
            (case s of None \<Rightarrow> None
             | Some t \<Rightarrow> if hd t = CHR ''/'' then None
                         else (case DecodeRune t of None \<Rightarrow> None | Some (r, u, bad) \<Rightarrow> Some u))
        else
          (let c1 = (if hd chunk = CHR 0x5C then tl chunk else chunk) in
           if c1 = [] then None
           else matchChunk (tl c1)
                  (case s of Some (x # t) \<Rightarrow> if x = hd c1 then Some t else None | _ \<Rightarrow> None)))"
  by auto
termination
proof (relation "measure (\<lambda>(c, s). length c)", goal_cases)
  case (2 chunk s0 s p r s1 neg c1 q m c2)
  then have "length c2 < length c1" by (metis class_ranges_shorter)
  moreover have "length c1 \<le> length chunk" using 2 by (simp split: if_splits)
  ultimately show ?case by simp
qed (auto simp: less_diff_conv length_greater_0_conv [symmetric] simp del: length_greater_0_conv)

declare matchChunk.simps [simp del]

text \<open>\<open>scanChunk\<close>: the leading stars, the chunk up to the next unbracketed star, the rest.\<close>

fun chunk_end :: "string \<Rightarrow> bool \<Rightarrow> string \<times> string" where
  "chunk_end [] inrange = ([], [])"
| "chunk_end [c] inrange = (if c = CHR ''*'' \<and> \<not> inrange then ([], [c]) else ([c], []))"
| "chunk_end (c # d # s) inrange =
     (if c = CHR 0x5C then (case chunk_end s inrange of (a, b) \<Rightarrow> (c # d # a, b))
      else if c = CHR ''*'' \<and> \<not> inrange then ([], c # d # s)
      else case chunk_end (d # s) (c = CHR ''['' \<or> c \<noteq> CHR '']'' \<and> inrange) of (a, b) \<Rightarrow> (c # a, b))"

definition scanChunk :: "string \<Rightarrow> bool \<times> string \<times> string" where
  "scanChunk pattern =
     (let p = dropWhile (\<lambda>c. c = CHR ''*'') pattern; (chunk, rest) = chunk_end p False
      in (p \<noteq> pattern, chunk, rest))"

lemma chunk_end_append: "chunk_end s b = (a, r) \<Longrightarrow> s = a @ r"
  by (induction s b arbitrary: a r rule: chunk_end.induct) (auto split: if_splits prod.splits)

lemma chunk_end_nonempty:
  "chunk_end s False = (a, r) \<Longrightarrow> s \<noteq> [] \<Longrightarrow> hd s \<noteq> CHR ''*'' \<Longrightarrow> a \<noteq> []"
  by (cases "(s, False)" rule: chunk_end.cases) (auto split: if_splits prod.splits)

lemma scanChunk_shorter:
  assumes "scanChunk p = (star, chunk, rest)" "p \<noteq> []"
  shows "length rest < length p"
proof -
  let ?q = "dropWhile (\<lambda>c. c = CHR ''*'') p"
  have ce: "chunk_end ?q False = (chunk, rest)"
    using assms by (simp add: scanChunk_def Let_def split: prod.splits)
  then have app: "?q = chunk @ rest" by (rule chunk_end_append)
  have le: "length ?q \<le> length p" by (rule length_dropWhile_le)
  show ?thesis
  proof (cases "?q = []")
    case True
    then show ?thesis using app assms(2) by simp
  next
    case False
    then have "hd ?q \<noteq> CHR ''*''" by (rule hd_dropWhile)
    then have "chunk \<noteq> []" using chunk_end_nonempty [OF ce False] by blast
    then show ?thesis using app le by (metis add_less_cancel_right length_append length_greater_0_conv
          less_add_same_cancel2 order_less_le_trans)
  qed
qed

text \<open>Under a star, the chunk tried at each later position up to a separator; the last chunk must exhaust the
  name.\<close>

fun skip_match :: "string \<Rightarrow> bool \<Rightarrow> string \<Rightarrow> string option option" where
  "skip_match chunk final [] = Some None"
| "skip_match chunk final (x # t) =
     (if x = CHR ''/'' then Some None
      else case matchChunk chunk (Some t) of
        None \<Rightarrow> None
      | Some None \<Rightarrow> skip_match chunk final t
      | Some (Some u) \<Rightarrow> if final \<and> u \<noteq> [] then skip_match chunk final t else Some (Some u))"

text \<open>What is left of a pattern that failed is read for its syntax.\<close>

function check_rest :: "string \<Rightarrow> bool option" where
  "check_rest pattern =
     (if pattern = [] then Some False
      else let (star, chunk, rest) = scanChunk pattern in
           if matchChunk chunk (Some []) = None then None else check_rest rest)"
  by auto
termination
  by (relation "measure length") (auto dest: scanChunk_shorter [OF sym])

declare check_rest.simps [simp del]

function Match :: "string \<Rightarrow> string \<Rightarrow> bool option" where
  "Match pattern name =
     (if pattern = [] then Some (name = [])
      else
        let (star, chunk, rest) = scanChunk pattern in
        if star \<and> chunk = [] then Some (CHR ''/'' \<notin> set name)
        else case matchChunk chunk (Some name) of
          None \<Rightarrow> None
        | Some ot \<Rightarrow>
            if ot \<noteq> None \<and> (ot = Some [] \<or> rest \<noteq> []) then Match rest (the ot)
            else if star then
              (case skip_match chunk (rest = []) name of
                 None \<Rightarrow> None
               | Some None \<Rightarrow> check_rest rest
               | Some (Some u) \<Rightarrow> Match rest u)
            else check_rest rest)"
  by auto
termination
  by (relation "measure (\<lambda>(p, n). length p)") (auto dest: scanChunk_shorter [OF sym])

declare Match.simps [simp del]

subsection \<open>The walk over segments\<close>

text \<open>\<open>matchSegment\<close>: one comparison, charged against the budget. \<open>None\<close> is \<open>errGlobBudget\<close>. A pattern
  segment \<open>path.Match\<close> cannot read is compared literally.\<close>

definition segment_matches :: "string \<Rightarrow> string \<Rightarrow> bool" where
  "segment_matches p seg = (case Match p seg of None \<Rightarrow> p = seg | Some ok \<Rightarrow> ok)"

definition matchSegment :: "string list \<Rightarrow> nat \<Rightarrow> string \<Rightarrow> int \<Rightarrow> (bool \<times> int) option" where
  "matchSegment pat i seg budget =
     (if i \<ge> length pat then Some (False, budget)
      else if budget \<le> 0 then None
      else Some (segment_matches (pat ! i) seg, budget - 1))"

text \<open>\<open>matchSegments\<close>: the loop over the positions \<open>i\<close> of the pattern and \<open>j\<close> of the path, with the last \<open>**\<close>
  met (\<open>star\<close>, \<open>None\<close> for Go's -1) and the position it resumes at.\<close>

definition dstar :: string where "dstar = ''**''"

function segments_loop ::
  "string list \<Rightarrow> string list \<Rightarrow> nat option \<Rightarrow> nat \<Rightarrow> nat \<Rightarrow> nat \<Rightarrow> int \<Rightarrow> (bool \<times> int) option" where
  "segments_loop pat name star retry i j budget =
     (if j < length name then
        if i < length pat \<and> pat ! i = dstar then segments_loop pat name (Some i) j (Suc i) j budget
        else case matchSegment pat i (name ! j) budget of
          None \<Rightarrow> None
        | Some (ok, budget') \<Rightarrow>
            if ok then segments_loop pat name star retry (Suc i) (Suc j) budget'
            else (case star of
                    None \<Rightarrow> Some (False, budget')
                  | Some s \<Rightarrow> segments_loop pat name star (Suc retry) (Suc s) (Suc retry) budget')
      else Some (dropWhile (\<lambda>p. p = dstar) (drop i pat) = [], budget))"
  by auto
termination
  by (relation "measures [\<lambda>(pat, name, star, retry, i, j, b). if retry \<le> j then 0 else 1,
                          \<lambda>(pat, name, star, retry, i, j, b). length name - retry,
                          \<lambda>(pat, name, star, retry, i, j, b). length pat - i]")
    (auto simp: matchSegment_def split: if_splits)

declare segments_loop.simps [simp del]

definition matchSegments :: "string list \<Rightarrow> string list \<Rightarrow> int \<Rightarrow> (bool \<times> int) option" where
  "matchSegments pat name budget = segments_loop pat name None 0 0 0 budget"

text \<open>\<open>matchesBeneath\<close>: the set of pattern positions reachable after the segments read so far, as the code keeps
  it in a vector of booleans.\<close>

fun spread_from :: "string list \<Rightarrow> bool list \<Rightarrow> nat \<Rightarrow> bool list" where
  "spread_from [] at i = at"
| "spread_from (p # ps) at i = spread_from ps (if at ! i \<and> p = dstar then at[Suc i := True] else at) (Suc i)"

definition spreadStars :: "string list \<Rightarrow> bool list \<Rightarrow> bool list" where
  "spreadStars pat at = spread_from pat at 0"

fun beneath_step :: "string list \<Rightarrow> bool list \<Rightarrow> string \<Rightarrow> nat list \<Rightarrow> bool list \<Rightarrow> int \<Rightarrow> (bool list \<times> int) option" where
  "beneath_step pat at seg [] nxt budget = Some (nxt, budget)"
| "beneath_step pat at seg (i # is) nxt budget =
     (if \<not> at ! i then beneath_step pat at seg is nxt budget
      else if pat ! i = dstar then beneath_step pat at seg is (nxt[i := True]) budget
      else case matchSegment pat i seg budget of
        None \<Rightarrow> None
      | Some (ok, budget') \<Rightarrow> beneath_step pat at seg is (nxt[Suc i := nxt ! Suc i \<or> ok]) budget')"

fun beneath_loop :: "string list \<Rightarrow> bool list \<Rightarrow> string list \<Rightarrow> int \<Rightarrow> (bool list \<times> int) option" where
  "beneath_loop pat at [] budget = Some (at, budget)"
| "beneath_loop pat at (seg # name) budget =
     (case beneath_step pat at seg [0..<length pat] (replicate (Suc (length pat)) False) budget of
        None \<Rightarrow> None
      | Some (nxt, budget') \<Rightarrow> beneath_loop pat (spreadStars pat nxt) name budget')"

definition matchesBeneath :: "string list \<Rightarrow> string list \<Rightarrow> int \<Rightarrow> (bool \<times> int) option" where
  "matchesBeneath pat name budget =
     map_option (\<lambda>(at, b). (True \<in> set (take (length pat) at), b))
       (beneath_loop pat (spreadStars pat ((replicate (Suc (length pat)) False)[0 := True])) name budget)"


subsection \<open>The declarative reading of a pattern\<close>

fun glob :: "(string \<Rightarrow> string \<Rightarrow> bool) \<Rightarrow> string list \<Rightarrow> string list \<Rightarrow> bool" where
  "glob seg [] name = (name = [])"
| "glob seg (p # ps) name =
     (if p = dstar then glob seg ps name \<or> (case name of [] \<Rightarrow> False | n # ns \<Rightarrow> glob seg (p # ps) ns)
      else case name of [] \<Rightarrow> False | n # ns \<Rightarrow> seg p n \<and> glob seg ps ns)"

text \<open>\<open>**\<close> consumes any number of segments.\<close>

lemma glob_dstar: "glob seg (dstar # ps) name \<longleftrightarrow> (\<exists>k\<le>length name. glob seg ps (drop k name))"
proof (induction name)
  case (Cons n ns)
  have "(\<exists>k\<le>length (n # ns). glob seg ps (drop k (n # ns)))
        \<longleftrightarrow> glob seg ps (n # ns) \<or> (\<exists>k\<le>length ns. glob seg ps (drop k ns))"
    by (metis Suc_le_mono drop0 drop_Suc_Cons length_Cons not0_implies_Suc zero_le)
  then show ?case using Cons by simp
qed simp

lemma glob_empty_name: "glob seg pat [] \<longleftrightarrow> dropWhile (\<lambda>p. p = dstar) pat = []"
  by (induction pat) auto

text \<open>A pattern without \<open>**\<close> consumes as many segments as it has.\<close>

lemma glob_plain_append:
  "list_all (\<lambda>p. p \<noteq> dstar) mid \<Longrightarrow>
   glob seg (mid @ ps) name \<Longrightarrow> length mid \<le> length name \<and> glob seg ps (drop (length mid) name)"
proof (induction mid arbitrary: name)
  case (Cons m mid)
  then show ?case by (cases name) auto
qed simp

lemma glob_dstar_mono:
  "glob seg (dstar # ps) (drop k name) \<Longrightarrow> j \<le> k \<Longrightarrow> glob seg (dstar # ps) (drop j name)"
proof -
  assume g: "glob seg (dstar # ps) (drop k name)" and jk: "j \<le> k"
  then obtain m where m: "m \<le> length name - k" "glob seg ps (drop (m + k) name)"
    using g [unfolded glob_dstar] by auto
  show ?thesis
  proof (cases "k \<le> length name")
    case True
    then have "m + k - j \<le> length (drop j name)" "drop (m + k - j) (drop j name) = drop (m + k) name"
      using m jk by auto
    then show ?thesis using m by (metis glob_dstar)
  next
    case False
    then have "drop (length name - j) (drop j name) = []" "glob seg ps []" using m by auto
    then show ?thesis unfolding glob_dstar by (metis length_drop order_refl)
  qed
qed

subsection \<open>The walk decides the reading\<close>

text \<open>The state of the walk: behind the last \<open>**\<close> the pattern is plain and in step with the path. What is still
  possible from a state is a match from the two positions, or from a later resumption of the last \<open>**\<close>.\<close>

definition walk_inv :: "string list \<Rightarrow> string list \<Rightarrow> nat option \<Rightarrow> nat \<Rightarrow> nat \<Rightarrow> nat \<Rightarrow> bool" where
  "walk_inv pat name star retry i j \<longleftrightarrow>
     i \<le> length pat \<and> j \<le> length name \<and> retry \<le> j \<and>
     (case star of None \<Rightarrow> True
      | Some s \<Rightarrow> s < i \<and> j = retry + (i - Suc s) \<and>
          list_all (\<lambda>p. p \<noteq> dstar) (take (i - Suc s) (drop (Suc s) pat)))"

definition walk_possible :: "string list \<Rightarrow> string list \<Rightarrow> nat option \<Rightarrow> nat \<Rightarrow> nat \<Rightarrow> nat \<Rightarrow> bool" where
  "walk_possible pat name star retry i j \<longleftrightarrow>
     glob segment_matches (drop i pat) (drop j name) \<or>
     (case star of None \<Rightarrow> False
      | Some s \<Rightarrow> \<exists>k. retry < k \<and> k \<le> length name \<and> glob segment_matches (drop (Suc s) pat) (drop k name))"

text \<open>A later resumption has to consume the plain part first.\<close>

lemma resume_past_plain:
  assumes "walk_inv pat name (Some s) retry i j" "retry < k" "k \<le> length name"
    "glob segment_matches (drop (Suc s) pat) (drop k name)"
  shows "j < length name \<and> glob segment_matches (drop i pat) (drop (k + (i - Suc s)) name)"
proof -
  let ?mid = "take (i - Suc s) (drop (Suc s) pat)"
  have split: "drop (Suc s) pat = ?mid @ drop i pat"
    using assms(1) by (simp add: walk_inv_def) (metis Suc_leI append_take_drop_id drop_drop le_add_diff_inverse2)
  have len: "length ?mid = i - Suc s" using assms(1) by (auto simp: walk_inv_def)
  have "length ?mid \<le> length (drop k name) \<and> glob segment_matches (drop i pat) (drop (length ?mid) (drop k name))"
    using assms(1,4) split by (intro glob_plain_append) (auto simp: walk_inv_def)
  then show ?thesis using assms len by (auto simp: walk_inv_def add.commute)
qed

lemma walk_star:
  assumes "walk_inv pat name star retry i j" "j < length name" "i < length pat" "pat ! i = dstar"
  shows "walk_inv pat name (Some i) j (Suc i) j"
    and "walk_possible pat name (Some i) j (Suc i) j = walk_possible pat name star retry i j"
proof -
  show "walk_inv pat name (Some i) j (Suc i) j" using assms by (auto simp: walk_inv_def)
  have drop_i: "drop i pat = dstar # drop (Suc i) pat"
    using assms by (metis Cons_nth_drop_Suc)
  have *: "glob segment_matches (drop i pat) (drop j name) \<longleftrightarrow> walk_possible pat name (Some i) j (Suc i) j"
  proof -
    have "glob segment_matches (drop i pat) (drop j name)
          \<longleftrightarrow> (\<exists>k. j \<le> k \<and> k \<le> length name \<and> glob segment_matches (drop (Suc i) pat) (drop k name))"
    proof -
      have "(\<exists>k\<le>length (drop j name). P (drop k (drop j name)))
            \<longleftrightarrow> (\<exists>k. j \<le> k \<and> k \<le> length name \<and> P (drop k name))" for P :: "string list \<Rightarrow> bool"
      proof
        assume "\<exists>k\<le>length (drop j name). P (drop k (drop j name))"
        then obtain k where "k \<le> length name - j" "P (drop (k + j) name)" by auto
        then show "\<exists>k. j \<le> k \<and> k \<le> length name \<and> P (drop k name)"
          using assms(2) by (intro exI [of _ "k + j"]) simp
      next
        assume "\<exists>k. j \<le> k \<and> k \<le> length name \<and> P (drop k name)"
        then obtain k where "j \<le> k" "k \<le> length name" "P (drop k name)" by blast
        then show "\<exists>k\<le>length (drop j name). P (drop k (drop j name))"
          by (intro exI [of _ "k - j"]) simp
      qed
      then show ?thesis unfolding drop_i glob_dstar .
    qed
    also have "\<dots> \<longleftrightarrow> walk_possible pat name (Some i) j (Suc i) j"
      using assms(2) by (auto simp: walk_possible_def le_less)
    finally show ?thesis .
  qed
  have "glob segment_matches (drop i pat) (drop j name)"
    if "star = Some s" "retry < k" "k \<le> length name" "glob segment_matches (drop (Suc s) pat) (drop k name)" for s k
  proof -
    have "glob segment_matches (dstar # drop (Suc i) pat) (drop (k + (i - Suc s)) name)"
      using resume_past_plain [of pat name s retry i j k] that assms(1) drop_i by simp
    moreover have "j \<le> k + (i - Suc s)" using assms(1) that by (auto simp: walk_inv_def)
    ultimately show ?thesis unfolding drop_i by (rule glob_dstar_mono)
  qed
  then show "walk_possible pat name (Some i) j (Suc i) j = walk_possible pat name star retry i j"
    unfolding * [symmetric] walk_possible_def [of pat name star] by (auto split: option.splits)
qed

lemma walk_success:
  assumes "walk_inv pat name star retry i j" "j < length name" "i < length pat" "pat ! i \<noteq> dstar"
    "segment_matches (pat ! i) (name ! j)"
  shows "walk_inv pat name star retry (Suc i) (Suc j)"
    and "walk_possible pat name star retry (Suc i) (Suc j) = walk_possible pat name star retry i j"
proof -
  have drops: "drop i pat = pat ! i # drop (Suc i) pat" "drop j name = name ! j # drop (Suc j) name"
    using assms by (metis Cons_nth_drop_Suc)+
  show "walk_possible pat name star retry (Suc i) (Suc j) = walk_possible pat name star retry i j"
    using assms by (simp add: walk_possible_def drops)
  have "take (Suc i - Suc s) (drop (Suc s) pat) = take (i - Suc s) (drop (Suc s) pat) @ [pat ! i]" if "s < i" for s
  proof -
    have eq: "Suc i - Suc s = Suc (i - Suc s)" and lt: "i - Suc s < length (drop (Suc s) pat)"
      and nth: "drop (Suc s) pat ! (i - Suc s) = pat ! i"
      using that assms(3) by auto
    show ?thesis unfolding eq take_Suc_conv_app_nth [OF lt] nth ..
  qed
  then show "walk_inv pat name star retry (Suc i) (Suc j)"
    using assms by (auto simp: walk_inv_def split: option.splits)
qed

lemma walk_fail:
  assumes "walk_inv pat name star retry i j" "j < length name" "i < length pat \<Longrightarrow> pat ! i \<noteq> dstar"
    "i < length pat \<Longrightarrow> \<not> segment_matches (pat ! i) (name ! j)"
  shows "star = None \<Longrightarrow> \<not> walk_possible pat name star retry i j"
    and "star = Some s \<Longrightarrow> walk_inv pat name star (Suc retry) (Suc s) (Suc retry)"
    and "star = Some s \<Longrightarrow>
         walk_possible pat name star (Suc retry) (Suc s) (Suc retry) = walk_possible pat name star retry i j"
proof -
  have drop_j: "drop j name = name ! j # drop (Suc j) name" using assms(2) by (metis Cons_nth_drop_Suc)
  have no: "\<not> glob segment_matches (drop i pat) (drop j name)"
  proof (cases "i < length pat")
    case True
    then have "drop i pat = pat ! i # drop (Suc i) pat" by (metis Cons_nth_drop_Suc)
    then show ?thesis using assms(3,4) True drop_j by simp
  qed (simp add: drop_j)
  then show "star = None \<Longrightarrow> \<not> walk_possible pat name star retry i j" by (simp add: walk_possible_def)
  show "star = Some s \<Longrightarrow> walk_inv pat name star (Suc retry) (Suc s) (Suc retry)"
    using assms(1,2) by (auto simp: walk_inv_def)
  show "star = Some s \<Longrightarrow>
         walk_possible pat name star (Suc retry) (Suc s) (Suc retry) = walk_possible pat name star retry i j"
  proof -
    assume star: "star = Some s"
    have "retry < length name" using assms(1,2) by (simp add: walk_inv_def)
    then have "P (Suc retry) \<or> (\<exists>k. Suc retry < k \<and> k \<le> length name \<and> P k)
        \<longleftrightarrow> (\<exists>k. retry < k \<and> k \<le> length name \<and> P k)" for P :: "nat \<Rightarrow> bool"
      by (metis Suc_leI Suc_lessD le_neq_implies_less lessI)
    then show ?thesis using no star by (simp add: walk_possible_def)
  qed
qed

lemma segments_loop_decides:
  "walk_inv pat name star retry i j \<Longrightarrow> segments_loop pat name star retry i j budget = Some (ok, b) \<Longrightarrow>
   ok = walk_possible pat name star retry i j"
proof (induction pat name star retry i j budget arbitrary: ok b rule: segments_loop.induct)
  case (1 pat name star retry i j budget)
  show ?case
  proof (cases "j < length name")
    case False
    have "\<not> (\<exists>k>retry. k \<le> length name \<and> glob segment_matches (drop (Suc s) pat) (drop k name))"
      if "star = Some s" for s
      using resume_past_plain [of pat name s retry i j] "1.prems"(1) that False by auto
    then show ?thesis
      using "1.prems" False
      by (auto simp: segments_loop.simps [of pat] walk_possible_def glob_empty_name split: option.splits)
  next
    case j: True
    show ?thesis
    proof (cases "i < length pat \<and> pat ! i = dstar")
      case True
      note star = walk_star [OF "1.prems"(1) j conjunct1 [OF True] conjunct2 [OF True]]
      show ?thesis
        using "1.IH"(1) [OF j True star(1)] "1.prems"(2) j True star(2)
        by (simp add: segments_loop.simps [of pat _ star])
    next
      case ns: False
      obtain m budget' where m: "matchSegment pat i (name ! j) budget = Some (m, budget')"
        using "1.prems"(2) j ns by (auto simp: segments_loop.simps [of pat] split: option.splits)
      show ?thesis
      proof (cases m)
        case True
        then have i: "i < length pat" "segment_matches (pat ! i) (name ! j)"
          using m by (auto simp: matchSegment_def split: if_splits)
        note suc = walk_success [OF "1.prems"(1) j i(1) _ i(2)]
        show ?thesis
          using "1.IH"(2) [OF j ns m refl True suc(1)] "1.prems"(2) j ns True m suc(2) i
          by (simp add: segments_loop.simps [of pat _ _ _ i])
      next
        case False
        then have no: "i < length pat \<Longrightarrow> \<not> segment_matches (pat ! i) (name ! j)"
          using m by (auto simp: matchSegment_def split: if_splits)
        note fail = walk_fail [OF "1.prems"(1) j _ no]
        show ?thesis
        proof (cases star)
          case None
          then show ?thesis
            using fail(1) "1.prems"(2) j ns m False by (simp add: segments_loop.simps [of pat])
        next
          case (Some s)
          show ?thesis
            using "1.IH"(3) [OF j ns m refl _ Some fail(2)] fail(3) "1.prems"(2) j ns m False Some
            by (simp add: segments_loop.simps [of pat _ _ retry])
        qed
      qed
    qed
  qed
qed

text \<open>The walk costs at most the product of the two lengths, so a budget of that size is never exceeded.\<close>

definition walk_cost :: "string list \<Rightarrow> string list \<Rightarrow> nat \<Rightarrow> nat \<Rightarrow> int" where
  "walk_cost pat name retry i = (int (length name) - int retry) * (int (length pat) + 1) + (int (length pat) - int i)"

lemma segments_loop_budget:
  "walk_inv pat name star retry i j \<Longrightarrow> walk_cost pat name retry i \<le> budget \<Longrightarrow>
   \<exists>ok b. segments_loop pat name star retry i j budget = Some (ok, b) \<and> budget - walk_cost pat name retry i \<le> b"
proof (induction pat name star retry i j budget rule: segments_loop.induct)
  case (1 pat name star retry i j budget)
  have nonneg: "0 \<le> walk_cost pat name retry i"
    using "1.prems"(1) by (auto simp: walk_inv_def walk_cost_def intro!: add_nonneg_nonneg mult_nonneg_nonneg)
  show ?case
  proof (cases "j < length name")
    case False
    then show ?thesis using nonneg by (simp add: segments_loop.simps [of pat])
  next
    case j: True
    show ?thesis
    proof (cases "i < length pat \<and> pat ! i = dstar")
      case True
      note star = walk_star [OF "1.prems"(1) j conjunct1 [OF True] conjunct2 [OF True]]
      have "retry \<le> j" using "1.prems"(1) by (simp add: walk_inv_def)
      then have "(int (length name) - int j) * (int (length pat) + 1)
                 \<le> (int (length name) - int retry) * (int (length pat) + 1)" by (intro mult_right_mono) auto
      then have le: "walk_cost pat name j (Suc i) \<le> walk_cost pat name retry i"
        unfolding walk_cost_def by linarith
      show ?thesis
        using "1.IH"(1) [OF j True star(1)] le "1.prems"(2) j True
        by (force simp: segments_loop.simps [of pat _ star retry])
    next
      case ns: False
      have r1: "retry < length name" using j "1.prems"(1) by (simp add: walk_inv_def)
      have lt: "walk_cost pat name (Suc retry) (Suc s) + 1 \<le> walk_cost pat name retry i" if "star = Some s" for s
        using "1.prems"(1) that by (auto simp: walk_cost_def walk_inv_def algebra_simps)
      show ?thesis
      proof (cases "i < length pat")
        case i: True
        then have "0 < walk_cost pat name retry i"
          using r1 by (auto simp: walk_cost_def intro!: add_nonneg_pos mult_nonneg_nonneg)
        then have m: "matchSegment pat i (name ! j) budget = Some (segment_matches (pat ! i) (name ! j), budget - 1)"
          using i "1.prems"(2) by (simp add: matchSegment_def)
        show ?thesis
        proof (cases "segment_matches (pat ! i) (name ! j)")
          case True
          note suc = walk_success [OF "1.prems"(1) j i _ True]
          have cost: "walk_cost pat name retry (Suc i) = walk_cost pat name retry i - 1"
            by (simp add: walk_cost_def)
          obtain ok b where "segments_loop pat name star retry (Suc i) (Suc j) (budget - 1) = Some (ok, b)"
            "budget - 1 - walk_cost pat name retry (Suc i) \<le> b"
            using "1.IH"(2) [OF j ns m refl True suc(1)] "1.prems"(2) ns i cost by auto
          then show ?thesis
            using j ns m True cost by (auto simp: segments_loop.simps [of pat _ _ _ i])
        next
          case False
          note fail = walk_fail [OF "1.prems"(1) j]
          show ?thesis
          proof (cases star)
            case None
            then show ?thesis using False j ns m nonneg "1.prems"(2) \<open>0 < walk_cost pat name retry i\<close>
              by (auto simp: segments_loop.simps [of pat _ _ _ i])
          next
            case (Some s)
            show ?thesis
            proof -
              obtain ok b where "segments_loop pat name star (Suc retry) (Suc s) (Suc retry) (budget - 1) = Some (ok, b)"
                "budget - 1 - walk_cost pat name (Suc retry) (Suc s) \<le> b"
                using "1.IH"(3) [OF j ns m refl False Some fail(2)] lt [OF Some] "1.prems"(2) ns False Some i by auto
              then show ?thesis
                using lt [OF Some] j ns m False Some by (auto simp: segments_loop.simps [of pat _ _ retry])
            qed
          qed
        qed
      next
        case i: False
        then have m: "matchSegment pat i (name ! j) budget = Some (False, budget)" by (simp add: matchSegment_def)
        note fail = walk_fail [OF "1.prems"(1) j]
        show ?thesis
        proof (cases star)
          case None
          then show ?thesis using j ns m nonneg by (auto simp: segments_loop.simps [of pat _ _ _ i])
        next
          case (Some s)
          show ?thesis
          proof -
            obtain ok b where "segments_loop pat name star (Suc retry) (Suc s) (Suc retry) budget = Some (ok, b)"
              "budget - walk_cost pat name (Suc retry) (Suc s) \<le> b"
              using "1.IH"(3) [OF j ns m refl _ Some fail(2)] lt [OF Some] "1.prems"(2) Some i by auto
            then show ?thesis
              using lt [OF Some] j ns m Some by (auto simp: segments_loop.simps [of pat _ _ retry])
          qed
        qed
      qed
    qed
  qed
qed

lemma walk_start: "walk_inv pat name None 0 0 0" "walk_possible pat name None 0 0 0 = glob segment_matches pat name"
  by (simp_all add: walk_inv_def walk_possible_def)

lemma matchSegments_decides: "matchSegments pat name budget = Some (ok, b) \<Longrightarrow> ok = glob segment_matches pat name"
  unfolding matchSegments_def using segments_loop_decides [OF walk_start(1)] walk_start(2) by blast

lemma matchSegments_returns:
  assumes "walk_cost pat name 0 0 \<le> budget"
  shows "\<exists>b. matchSegments pat name budget = Some (glob segment_matches pat name, b)
             \<and> budget - walk_cost pat name 0 0 \<le> b"
  using segments_loop_budget [OF walk_start(1) assms] matchSegments_decides [of pat name budget]
  unfolding matchSegments_def by blast

subsection \<open>The reachable positions\<close>

lemma glob_append:
  "glob seg (a @ b) name \<longleftrightarrow> (\<exists>k\<le>length name. glob seg a (take k name) \<and> glob seg b (drop k name))"
proof (induction seg a name rule: glob.induct)
  case (1 seg name)
  then show ?case by (auto intro: exI [of _ 0])
next
  case (2 seg p ps name)
  show ?case
  proof (cases name)
    case Nil
    then show ?thesis using 2 by (cases "p = dstar") auto
  next
    case (Cons n ns)
    have ex: "(\<exists>k\<le>length (n # ns). P k) \<longleftrightarrow> P 0 \<or> (\<exists>k\<le>length ns. P (Suc k))" for P
      by (metis Suc_le_mono length_Cons not0_implies_Suc zero_le)
    show ?thesis
    proof (cases "p = dstar")
      case True
      have step: "glob seg (p # q) (n # ms) \<longleftrightarrow> glob seg q (n # ms) \<or> glob seg (p # q) ms" for q ms
        using True by simp
      have A: "glob seg (ps @ b) (n # ns) \<longleftrightarrow> (glob seg ps [] \<and> glob seg b (n # ns)) \<or>
               (\<exists>k\<le>length ns. glob seg ps (n # take k ns) \<and> glob seg b (drop k ns))"
        using "2.IH"(1) [OF True] Cons by (simp only: ex take_0 drop_0 take_Suc_Cons drop_Suc_Cons)
      have B: "glob seg (p # ps @ b) ns \<longleftrightarrow>
               (\<exists>k\<le>length ns. glob seg (p # ps) (take k ns) \<and> glob seg b (drop k ns))"
        using "2.IH"(2) [OF True Cons] by (simp only: append_Cons)
      have "glob seg (p # ps) [] \<longleftrightarrow> glob seg ps []" using True by simp
      then show ?thesis
        unfolding Cons append_Cons step ex take_0 drop_0 take_Suc_Cons drop_Suc_Cons A B by blast
    next
      case False
      have "glob seg (p # q) (n # ms) \<longleftrightarrow> seg p n \<and> glob seg q ms" "\<not> glob seg (p # q) []" for q ms
        using False by simp_all
      then show ?thesis
        unfolding Cons append_Cons ex take_0 drop_0 take_Suc_Cons drop_Suc_Cons
        using "2.IH"(3) [OF False Cons] by blast
    qed
  qed
qed

lemma glob_snoc_dstar: "glob seg (a @ [dstar]) name \<longleftrightarrow> (\<exists>k\<le>length name. glob seg a (take k name))"
proof -
  have "glob seg [dstar] ns" for ns by (induction ns) auto
  then show ?thesis unfolding glob_append by blast
qed

lemma glob_snoc_plain:
  "p \<noteq> dstar \<Longrightarrow> glob seg (a @ [p]) (name @ [s]) \<longleftrightarrow> glob seg a name \<and> seg p s"
proof -
  assume p: "p \<noteq> dstar"
  have "glob seg [p] (drop k (name @ [s])) \<longleftrightarrow> k = length name \<and> seg p s" if "k \<le> length (name @ [s])" for k
  proof -
    have "glob seg [p] ns \<longleftrightarrow> (\<exists>x. ns = [x] \<and> seg p x)" for ns
      using p by (cases ns) auto
    then show ?thesis
      using that by (cases "k \<le> length name") (auto simp: append_eq_Cons_conv)
  qed
  then have "glob seg (a @ [p]) (name @ [s])
      \<longleftrightarrow> (\<exists>k\<le>length (name @ [s]). glob seg a (take k (name @ [s])) \<and> k = length name \<and> seg p s)"
    unfolding glob_append by blast
  then show ?thesis by simp
qed

text \<open>Position \<open>i\<close> is reachable by a path when the pattern's first \<open>i\<close> segments match it, or when a \<open>**\<close> at \<open>i\<close>
  is in the middle of consuming it.\<close>

definition pos :: "string list \<Rightarrow> string list \<Rightarrow> nat \<Rightarrow> bool" where
  "pos pat name i \<longleftrightarrow> glob segment_matches (take i pat) name \<or>
     (i < length pat \<and> pat ! i = dstar \<and> glob segment_matches (take (Suc i) pat) name)"

lemma pos_dstar:
  assumes "i < length pat" "pat ! i = dstar"
  shows "pos pat name i \<longleftrightarrow> (\<exists>k\<le>length name. glob segment_matches (take i pat) (take k name))"
  using assms by (auto simp: pos_def take_Suc_conv_app_nth glob_snoc_dstar)

lemma pos_plain: "\<not> (i < length pat \<and> pat ! i = dstar) \<Longrightarrow> pos pat name i \<longleftrightarrow> glob segment_matches (take i pat) name"
  by (auto simp: pos_def)

lemma take_Suc_pos:
  assumes "i < length pat"
  shows "pat ! i = dstar \<Longrightarrow> glob segment_matches (take (Suc i) pat) name \<longleftrightarrow> pos pat name i"
    and "pat ! i \<noteq> dstar \<Longrightarrow>
         glob segment_matches (take (Suc i) pat) (name @ [s]) \<longleftrightarrow> pos pat name i \<and> segment_matches (pat ! i) s"
  using assms by (auto simp: pos_dstar pos_plain take_Suc_conv_app_nth glob_snoc_dstar glob_snoc_plain)

text \<open>The recurrence the code computes: a \<open>**\<close> stays in place, a plain segment moves on, and a \<open>**\<close> may match no
  segment.\<close>

definition moved :: "string list \<Rightarrow> (nat \<Rightarrow> bool) \<Rightarrow> string \<Rightarrow> nat \<Rightarrow> bool" where
  "moved pat at s i \<longleftrightarrow> (i < length pat \<and> pat ! i = dstar \<and> at i) \<or>
     (\<exists>i'. i = Suc i' \<and> pat ! i' \<noteq> dstar \<and> at i' \<and> segment_matches (pat ! i') s)"

lemma pos_snoc:
  assumes "i \<le> length pat"
  shows "pos pat (name @ [s]) i \<longleftrightarrow> moved pat (pos pat name) s i \<or>
           (\<exists>i'. i = Suc i' \<and> pat ! i' = dstar \<and> pos pat (name @ [s]) i')"
proof -
  have G: "glob segment_matches (take i pat) (name @ [s]) \<longleftrightarrow>
           (\<exists>i'. i = Suc i' \<and> (if pat ! i' = dstar then pos pat (name @ [s]) i'
                               else pos pat name i' \<and> segment_matches (pat ! i') s))"
    using assms take_Suc_pos by (cases i) auto
  show ?thesis
  proof (cases "i < length pat \<and> pat ! i = dstar")
    case True
    then have "pos pat (name @ [s]) i \<longleftrightarrow> pos pat name i \<or> glob segment_matches (take i pat) (name @ [s])"
      by (auto simp: pos_dstar le_Suc_eq)
    then show ?thesis using True unfolding G moved_def by auto
  next
    case False
    then show ?thesis unfolding pos_plain [OF False] G moved_def by auto
  qed
qed

lemma pos_Nil:
  assumes "i \<le> length pat"
  shows "pos pat [] i \<longleftrightarrow> i = 0 \<or> (\<exists>i'. i = Suc i' \<and> pat ! i' = dstar \<and> pos pat [] i')"
proof (cases i)
  case 0
  then show ?thesis by (simp add: pos_def)
next
  case (Suc i')
  have "pos pat [] i \<longleftrightarrow> glob segment_matches (take i pat) []"
    by (cases "i < length pat \<and> pat ! i = dstar") (auto simp: pos_dstar pos_plain)
  moreover have "glob segment_matches (take (Suc i') pat) [] \<longleftrightarrow> pat ! i' = dstar \<and> pos pat [] i'"
    using assms Suc by (cases "pat ! i' = dstar")
      (auto simp: take_Suc_pos(1), auto simp: take_Suc_conv_app_nth glob_append)
  ultimately show ?thesis using Suc by simp
qed

subsection \<open>The vector of reachable positions\<close>

lemma length_spread_from [simp]: "length (spread_from ps at i) = length at"
  by (induction ps at i rule: spread_from.induct) auto

lemma spread_from_below: "j \<le> i \<Longrightarrow> spread_from ps at i ! j = at ! j"
  by (induction ps at i rule: spread_from.induct) auto

lemma spread_from_nth:
  "i + length ps < length at \<Longrightarrow> i < j \<Longrightarrow> j \<le> i + length ps \<Longrightarrow>
   spread_from ps at i ! j \<longleftrightarrow> at ! j \<or> (ps ! (j - Suc i) = dstar \<and> spread_from ps at i ! (j - 1))"
proof (induction ps at i rule: spread_from.induct)
  case (2 p ps at i)
  let ?at = "if at ! i \<and> p = dstar then at[Suc i := True] else at"
  show ?case
  proof (cases "j = Suc i")
    case True
    then show ?thesis using 2 by (auto simp: spread_from_below)
  next
    case False
    then have "j - Suc i = Suc (j - Suc (Suc i))" using "2.prems" by simp
    then show ?thesis using "2.IH" "2.prems" False by simp
  qed
qed simp

lemma spreadStars_nth:
  "length at = Suc (length pat) \<Longrightarrow> i \<le> length pat \<Longrightarrow>
   spreadStars pat at ! i \<longleftrightarrow> at ! i \<or> (\<exists>i'. i = Suc i' \<and> pat ! i' = dstar \<and> spreadStars pat at ! i')"
  unfolding spreadStars_def by (cases i) (auto simp: spread_from_nth spread_from_below)

definition sets_bit :: "string list \<Rightarrow> bool list \<Rightarrow> string \<Rightarrow> nat \<Rightarrow> nat \<Rightarrow> bool" where
  "sets_bit pat at seg i j \<longleftrightarrow>
     at ! i \<and> (if pat ! i = dstar then j = i else j = Suc i \<and> segment_matches (pat ! i) seg)"

lemma beneath_step_nth:
  "beneath_step pat at seg is nxt budget = Some (out, b) \<Longrightarrow> list_all (\<lambda>i. i < length pat) is \<Longrightarrow>
   length nxt = Suc (length pat) \<Longrightarrow>
   length out = Suc (length pat) \<and> (\<forall>j\<le>length pat. out ! j \<longleftrightarrow> nxt ! j \<or> list_ex (\<lambda>i. sets_bit pat at seg i j) is)"
proof (induction pat at seg "is" nxt budget arbitrary: out b rule: beneath_step.induct)
  case (2 pat at seg i "is" nxt budget)
  consider (off) "\<not> at ! i" | (star) "at ! i" "pat ! i = dstar" | (plain) "at ! i" "pat ! i \<noteq> dstar" by blast
  then show ?case
  proof cases
    case off
    then show ?thesis using "2.IH"(1) "2.prems" by (simp add: sets_bit_def)
  next
    case star
    have "nxt[i := True] ! j \<longleftrightarrow> nxt ! j \<or> sets_bit pat at seg i j" if "j \<le> length pat" for j
      using star that "2.prems" by (auto simp: sets_bit_def nth_list_update)
    then show ?thesis using "2.IH"(2) [of out b] "2.prems" star by simp
  next
    case plain
    obtain ok b' where m: "matchSegment pat i seg budget = Some (ok, b')"
      using "2.prems"(1) plain by (auto split: option.splits)
    then have ok: "ok = segment_matches (pat ! i) seg"
      using "2.prems"(2) by (auto simp: matchSegment_def split: if_splits)
    have "nxt[Suc i := nxt ! Suc i \<or> ok] ! j \<longleftrightarrow> nxt ! j \<or> sets_bit pat at seg i j" if "j \<le> length pat" for j
      using plain that "2.prems" ok by (auto simp: sets_bit_def nth_list_update)
    then show ?thesis using "2.IH"(3) [OF _ plain(2) m refl, of out b] "2.prems" plain m by simp
  qed
qed simp

lemma beneath_step_moved:
  assumes "beneath_step pat at seg [0..<length pat] (replicate (Suc (length pat)) False) budget = Some (out, b)"
  shows "length out = Suc (length pat)" "j \<le> length pat \<Longrightarrow> out ! j \<longleftrightarrow> moved pat ((!) at) seg j"
proof -
  have len: "length (replicate (Suc (length pat)) False) = Suc (length pat)"
    and lt: "list_all (\<lambda>i. i < length pat) [0..<length pat]" by (simp_all add: list_all_iff)
  note step = beneath_step_nth [OF assms lt len]
  show "length out = Suc (length pat)" using step by blast
  assume j: "j \<le> length pat"
  then have "\<not> replicate (Suc (length pat)) False ! j" by (simp del: replicate.simps)
  then have "out ! j \<longleftrightarrow> list_ex (\<lambda>i. sets_bit pat at seg i j) [0..<length pat]" using step j by blast
  also have "\<dots> \<longleftrightarrow> (\<exists>i<length pat. sets_bit pat at seg i j)" by (simp add: list_ex_iff Bex_def)
  also have "\<dots> \<longleftrightarrow> (j < length pat \<and> pat ! j = dstar \<and> at ! j) \<or>
      (\<exists>i<length pat. j = Suc i \<and> pat ! i \<noteq> dstar \<and> at ! i \<and> segment_matches (pat ! i) seg)"
    unfolding sets_bit_def if_bool_eq_disj by blast
  also have "\<dots> \<longleftrightarrow> moved pat ((!) at) seg j" using j by (cases j) (auto simp: moved_def)
  finally show "out ! j \<longleftrightarrow> moved pat ((!) at) seg j" .
qed

lemma recurrence_unique:
  assumes "\<And>i. i \<le> n \<Longrightarrow> f i \<longleftrightarrow> base i \<or> (\<exists>i'. i = Suc i' \<and> q i' \<and> f i')"
    and "\<And>i. i \<le> n \<Longrightarrow> g i \<longleftrightarrow> base i \<or> (\<exists>i'. i = Suc i' \<and> q i' \<and> g i')"
  shows "i \<le> n \<Longrightarrow> f i \<longleftrightarrow> g i"
  by (induction i) (use assms in auto)

text \<open>After any path the vector holds the reachable positions.\<close>

lemma beneath_loop_pos:
  "beneath_loop pat at name budget = Some (out, b) \<Longrightarrow> length at = Suc (length pat) \<Longrightarrow>
   \<forall>i\<le>length pat. at ! i \<longleftrightarrow> pos pat done i \<Longrightarrow>
   length out = Suc (length pat) \<and> (\<forall>i\<le>length pat. out ! i \<longleftrightarrow> pos pat (done @ name) i)"
proof (induction pat at name budget arbitrary: "done" out b rule: beneath_loop.induct)
  case (2 pat at seg name budget)
  obtain nxt budget' where s: "beneath_step pat at seg [0..<length pat] (replicate (Suc (length pat)) False) budget
      = Some (nxt, budget')"
    using "2.prems"(1) by (auto split: option.splits)
  note nxt = beneath_step_moved [OF s]
  have "moved pat ((!) at) seg i \<longleftrightarrow> moved pat (pos pat done) seg i" if "i \<le> length pat" for i
    using "2.prems"(3) that by (auto simp: moved_def)
  then have "spreadStars pat nxt ! i \<longleftrightarrow> pos pat (done @ [seg]) i" if "i \<le> length pat" for i
    using recurrence_unique [of "length pat" "(!) (spreadStars pat nxt)" "moved pat (pos pat done) seg"
        "\<lambda>i'. pat ! i' = dstar" "pos pat (done @ [seg])" i] nxt that spreadStars_nth [OF nxt(1)] pos_snoc by simp
  then show ?case
    using "2.IH" [OF s refl, of out b "done @ [seg]"] "2.prems" s nxt by (simp add: spreadStars_def)
qed simp

lemma matchesBeneath_pos:
  assumes "matchesBeneath pat name budget = Some (ok, b)"
  shows "ok \<longleftrightarrow> (\<exists>i<length pat. pos pat name i)"
proof -
  let ?at0 = "(replicate (Suc (length pat)) False)[0 := True]"
  obtain out b' where o: "beneath_loop pat (spreadStars pat ?at0) name budget = Some (out, b')"
    and ok: "ok = (True \<in> set (take (length pat) out))"
    using assms by (auto simp: matchesBeneath_def)
  have "?at0 ! i \<longleftrightarrow> i = 0" if "i \<le> length pat" for i using that by (cases i) auto
  then have "spreadStars pat ?at0 ! i \<longleftrightarrow> pos pat [] i" if "i \<le> length pat" for i
    using recurrence_unique [of "length pat" "(!) (spreadStars pat ?at0)" "\<lambda>i. i = 0" "\<lambda>i'. pat ! i' = dstar"
        "pos pat []" i] that spreadStars_nth [of ?at0 pat] pos_Nil by (simp del: list_update.simps replicate.simps)
  then have "length out = Suc (length pat)" "\<forall>i\<le>length pat. out ! i \<longleftrightarrow> pos pat name i"
    using beneath_loop_pos [OF o, of "[]"] by (auto simp: spreadStars_def)
  then show ?thesis unfolding ok by (auto simp: in_set_conv_nth)
qed

text \<open>The cost: one comparison for each pattern position and path segment.\<close>

lemma beneath_step_budget:
  "int (length is) \<le> budget \<Longrightarrow> \<exists>out b. beneath_step pat at seg is nxt budget = Some (out, b) \<and> budget - int (length is) \<le> b"
proof (induction "is" arbitrary: nxt budget)
  case (Cons i "is")
  have IH: "\<exists>out b. beneath_step pat at seg is nxt' b' = Some (out, b) \<and> budget - int (length (i # is)) \<le> b"
    if "budget - 1 \<le> b'" for nxt' b'
    using Cons.IH [of b' nxt'] Cons.prems that by force
  obtain ok b' where "matchSegment pat i seg budget = Some (ok, b')" "budget - 1 \<le> b'"
    using Cons.prems by (cases "length pat \<le> i") (auto simp: matchSegment_def)
  then show ?case using IH by simp
qed simp

lemma beneath_loop_budget:
  "int (length name) * int (length pat) \<le> budget \<Longrightarrow>
   \<exists>out b. beneath_loop pat at name budget = Some (out, b) \<and> budget - int (length name) * int (length pat) \<le> b"
proof (induction name arbitrary: at budget)
  case (Cons seg name)
  have eq: "int (length (seg # name)) * int (length pat) = int (length pat) + int (length name) * int (length pat)"
    by (simp add: algebra_simps)
  have "0 \<le> int (length name) * int (length pat)" by simp
  then have "int (length [0..<length pat]) \<le> budget"
    using Cons.prems unfolding eq length_upt diff_zero by linarith
  then obtain out b where s: "beneath_step pat at seg [0..<length pat] (replicate (Suc (length pat)) False) budget
      = Some (out, b)" "budget - int (length pat) \<le> b"
    using beneath_step_budget [of "[0..<length pat]" budget pat at seg "replicate (Suc (length pat)) False"] by auto
  then obtain out' b' where "beneath_loop pat (spreadStars pat out) name b = Some (out', b')"
    "b - int (length name) * int (length pat) \<le> b'"
    using Cons.IH [of b "spreadStars pat out"] Cons.prems eq by fastforce
  then show ?case using s eq by simp
qed simp


subsection \<open>What lies beneath\<close>

lemma glob_cong:
  "\<forall>p. \<forall>n\<in>set name. seg p n = seg' p n \<Longrightarrow> glob seg pat name = glob seg' pat name"
  by (induction seg pat name rule: glob.induct) (auto split: list.splits)

lemma glob_consume: "glob seg (dstar # ps) ns \<Longrightarrow> glob seg (dstar # ps) (n # ns)"
  by simp

lemma glob_skip: "glob seg ps ns \<Longrightarrow> glob seg (dstar # ps) ns"
  by simp

text \<open>A match of a longer path leaves the pattern somewhere when the shorter one is read.\<close>

lemma glob_path_append:
  "glob seg pat name \<Longrightarrow> name = a @ b \<Longrightarrow>
   \<exists>i\<le>length pat. glob seg (drop i pat) b \<and>
     (glob seg (take i pat) a \<or> (i < length pat \<and> pat ! i = dstar \<and> glob seg (take (Suc i) pat) a))"
proof (induction seg pat name arbitrary: a rule: glob.induct)
  case (2 seg p ps name)
  show ?case
  proof (cases a)
    case Nil
    then show ?thesis using "2.prems" by (intro exI [of _ 0]) simp
  next
    case (Cons n a')
    show ?thesis
    proof (cases "p = dstar")
      case True
      then consider "glob seg ps name" | "glob seg (p # ps) (a' @ b)" using "2.prems" Cons by auto
      then show ?thesis
      proof cases
        case 1
        then obtain i where "i \<le> length ps" "glob seg (drop i ps) b"
          "glob seg (take i ps) a \<or> (i < length ps \<and> ps ! i = dstar \<and> glob seg (take (Suc i) ps) a)"
          using "2.IH"(1) [OF True 1 "2.prems"(2)] by blast
        then show ?thesis using True by (intro exI [of _ "Suc i"]) (auto simp del: glob.simps intro: glob_skip)
      next
        case 2
        from "2.IH"(2) [OF True _ this refl] "2.prems"(2) Cons
        obtain i where i: "i \<le> length (p # ps)" "glob seg (drop i (p # ps)) b"
          "glob seg (take i (p # ps)) a' \<or> (i < length (p # ps) \<and> (p # ps) ! i = dstar \<and> glob seg (take (Suc i) (p # ps)) a')"
          by auto
        have "glob seg (take (Suc k) (p # ps)) a' \<Longrightarrow> glob seg (take (Suc k) (p # ps)) a" for k
          using True Cons by simp
        moreover have "glob seg (take (Suc 0) (p # ps)) a"
          using True glob_dstar [of seg "[]" a] by auto
        ultimately show ?thesis using i True by (intro exI [of _ i]) (cases i; auto simp del: glob.simps)
      qed
    next
      case False
      then have "seg p n" "glob seg ps (a' @ b)" using "2.prems" Cons by auto
      moreover from this obtain i where "i \<le> length ps" "glob seg (drop i ps) b"
        "glob seg (take i ps) a' \<or> (i < length ps \<and> ps ! i = dstar \<and> glob seg (take (Suc i) ps) a')"
        using "2.IH"(3) [OF False, of n "a' @ b" a'] "2.prems"(2) Cons by auto
      ultimately show ?thesis using False Cons by (intro exI [of _ "Suc i"]) auto
    qed
  qed
qed simp

lemma glob_all_match: "(\<And>p. seg p x) \<Longrightarrow> glob seg pat (replicate (length pat) x)"
  by (induction pat) auto

text \<open>A path beneath \<open>name\<close> can be claimed when the pattern matches it under some reading of the segments that are
  not known.\<close>

definition could_match_beneath :: "string list \<Rightarrow> string list \<Rightarrow> bool" where
  "could_match_beneath pat name \<longleftrightarrow>
     (\<exists>seg rest. rest \<noteq> [] \<and> (\<forall>p. \<forall>n\<in>set name. seg p n = segment_matches p n) \<and> glob seg pat (name @ rest))"

lemma reachable_iff_could_match: "(\<exists>i<length pat. pos pat name i) \<longleftrightarrow> could_match_beneath pat name"
proof
  assume "could_match_beneath pat name"
  then obtain seg rest where rest: "rest \<noteq> []" and agree: "\<forall>p. \<forall>n\<in>set name. seg p n = segment_matches p n"
    and g: "glob seg pat (name @ rest)" by (auto simp: could_match_beneath_def)
  obtain i where i: "i \<le> length pat" "glob seg (drop i pat) rest"
    "glob seg (take i pat) name \<or> (i < length pat \<and> pat ! i = dstar \<and> glob seg (take (Suc i) pat) name)"
    using glob_path_append [OF g refl] by blast
  have "i \<noteq> length pat" using i(2) rest by auto
  then have "i < length pat" "pos pat name i" using i glob_cong [OF agree] by (auto simp: pos_def)
  then show "\<exists>i<length pat. pos pat name i" by blast
next
  assume "\<exists>i<length pat. pos pat name i"
  then obtain i where i: "i < length pat" "pos pat name i" by blast
  obtain x where x: "x \<notin> set name" using ex_new_if_finite [OF infinite_UNIV_listI finite_set] by blast
  define seg where "seg p n = (n = x \<or> segment_matches p n)" for p n
  have agree: "\<forall>p. \<forall>n\<in>set name. seg p n = segment_matches p n" using x by (auto simp: seg_def)
  let ?rest = "replicate (length (drop i pat)) x"
  have "glob seg (drop i pat) ?rest" by (rule glob_all_match) (simp add: seg_def)
  moreover have "pat = take i pat @ drop i pat" by simp
  ultimately have "glob seg pat (name @ ?rest)"
  proof (cases "glob segment_matches (take i pat) name")
    case True
    then have "glob seg (take i pat) (take (length name) (name @ ?rest))"
      "glob seg (drop i pat) (drop (length name) (name @ ?rest))"
      using glob_cong [OF agree] \<open>glob seg (drop i pat) ?rest\<close> by auto
    then show ?thesis
      using glob_append [of seg "take i pat" "drop i pat" "name @ ?rest"] by (metis append_take_drop_id le_add1 length_append)
  next
    case False
    then have d: "pat ! i = dstar" "\<exists>k\<le>length name. glob segment_matches (take i pat) (take k name)"
      using i pos_dstar [of i pat name] by (auto simp: pos_def)
    then obtain k where k: "k \<le> length name" "glob segment_matches (take i pat) (take k name)" by blast
    have "glob seg (take i pat) (take k (name @ ?rest))"
      using k glob_cong [of "take k name" seg segment_matches] agree by (auto dest: in_set_takeD)
    moreover have "glob seg (drop i pat) (drop (length name) (name @ ?rest))"
      using \<open>glob seg (drop i pat) ?rest\<close> by simp
    then have "glob seg (drop i pat) (drop k (name @ ?rest))"
      using glob_dstar_mono [of seg "drop (Suc i) pat" "length name" "name @ ?rest" k] k d i(1)
      by (metis Cons_nth_drop_Suc)
    ultimately show ?thesis
      using glob_append [of seg "take i pat" "drop i pat" "name @ ?rest"] k
      by (metis append_take_drop_id le_add1 length_append order_trans)
  qed
  then show "could_match_beneath pat name"
    using agree i(1) unfolding could_match_beneath_def by (intro exI [of _ seg] exI [of _ ?rest]) auto
qed

lemma matchesBeneath_decides: "matchesBeneath pat name budget = Some (ok, b) \<Longrightarrow> ok = could_match_beneath pat name"
  using matchesBeneath_pos reachable_iff_could_match by blast

lemma matchesBeneath_returns:
  assumes "int (length name) * int (length pat) \<le> budget"
  shows "\<exists>b. matchesBeneath pat name budget = Some (could_match_beneath pat name, b)
             \<and> budget - int (length name) * int (length pat) \<le> b"
  using beneath_loop_budget [OF assms, of "spreadStars pat ((replicate (Suc (length pat)) False)[0 := True])"]
    matchesBeneath_decides [of pat name budget]
  by (auto simp: matchesBeneath_def)

end
