(* ===== verification/PushRules.thy ===== *)
theory PushRules
  imports PolicyTypes PathGlob
begin

section \<open>Push content rules: internal/egress/proxy/push_rules.go\<close>

text \<open>
  A run's push_rules compiled once (\<open>compilePushRules\<close>), and the claims its rules make on the entries a push
  changes: the path patterns (\<open>match\<close>, with the matcher of PathGlob), the file size (\<open>oversize\<close>) and new executables
  (\<open>newExecutables\<close>). Durations are in nanoseconds, as Go's \<open>time.Duration\<close>; the products that set them are
  64-bit (\<open>wrap64\<close>).
\<close>

subsection \<open>Reading a pattern\<close>

text \<open>\<open>types.DenyPathSegments\<close>; \<open>None\<close> is its error.\<close>

definition DenyPathSegments :: "string \<Rightarrow> string list option" where
  "DenyPathSegments pattern =
     (if \<not> ValidUTF8 pattern then None
      else
        let p = TrimPrefix pattern ''/'' in
        if TrimSpace p \<noteq> p then None
        else
          let q = (if HasSuffix p ''/'' then p @ ''**'' else p);
              segs = Split q (CHR ''/'') in
          if list_ex (\<lambda>seg. seg = [] \<or> seg = ''.'' \<or> seg = ''..'') segs then None
          else Some segs)"

record pushRuleSet =
  ps_deny :: "string list list"
  ps_review :: "string list list"
  ps_hold :: int
  ps_unreadable :: string
  ps_inspectMax :: int
  ps_maxFileBytes :: int
  ps_denyNewExec :: bool
  ps_denyAll :: bool

text \<open>\<open>rs.compile\<close>: the readable entries split, and the first entry that could not be read.\<close>

fun compile_paths :: "string \<Rightarrow> string list \<Rightarrow> string list list \<times> string" where
  "compile_paths unreadable [] = ([], unreadable)"
| "compile_paths unreadable (pat # pats) =
     (case DenyPathSegments pat of
        None \<Rightarrow> compile_paths (or_str unreadable pat) pats
      | Some segs \<Rightarrow> (case compile_paths unreadable pats of (out, u) \<Rightarrow> (segs # out, u)))"

definition MiB :: int where "MiB = 1048576"

text \<open>\<open>maxHoldTimeout\<close> is \<open>types.HoldWindowPush\<close>.\<close>

definition pushHoldSecond :: int where "pushHoldSecond = 1000000000"
definition maxHoldTimeout :: int where "maxHoldTimeout = 600 * pushHoldSecond"
definition defaultPushHold :: int where "defaultPushHold = 120 * pushHoldSecond"
definition defaultInspectPackMiB :: int where "defaultInspectPackMiB = 32"

definition compilePushRules :: "PushRulesSpec option \<Rightarrow> pushRuleSet option" where
  "compilePushRules s =
     (if \<not> PushRules_IsSet s then None
      else
        let p = the s;
            inspect = (if MaxInspectPackMiB p > 0 then wrap64 (MaxInspectPackMiB p * MiB) else defaultInspectPackMiB * MiB);
            hold = (if HoldSeconds p > 0 then min (wrap64 (HoldSeconds p * pushHoldSecond)) maxHoldTimeout else defaultPushHold);
            (deny, u1) = compile_paths [] (DenyPaths p);
            (review, u2) = compile_paths u1 (RequireReviewPaths p)
        in Some \<lparr>ps_deny = deny, ps_review = review, ps_hold = hold, ps_unreadable = u2,
                 ps_inspectMax = inspect, ps_maxFileBytes = wrap64 (MaxFileSizeMiB p * MiB),
                 ps_denyNewExec = DenyNewExecutables p, ps_denyAll = DenyAll p\<rparr>)"

subsection \<open>The entries a push changes (internal/gitpack)\<close>

text \<open>\<open>gitpack.Change\<close>; the size is -1 where the pack does not carry the blob.\<close>

record Change =
  ch_Path :: string
  ch_Mode :: string
  ch_size :: int
  ch_OID :: string
  ch_BaseMode :: string

definition ModeUncarried :: string where "ModeUncarried = ''40000''"
definition ModeAbsent :: string where "ModeAbsent = ''0''"
definition modeGitlink :: string where "modeGitlink = ''160000''"

text \<open>\<open>strconv.ParseUint(s, 8, 32)\<close>.\<close>

fun octal_digits :: "int \<Rightarrow> string \<Rightarrow> int option" where
  "octal_digits n [] = Some n"
| "octal_digits n (c # s) =
     (let d = byte_of c - 48 in
      if d < 0 \<or> 7 < d then None
      else if 4294967295 < n * 8 + d then None
      else octal_digits (n * 8 + d) s)"

definition ParseOctal32 :: "string \<Rightarrow> int option" where
  "ParseOctal32 s = (if s = [] then None else octal_digits 0 s)"

text \<open>\<open>m & modeFormat == modeRegular\<close> (0o170000, 0o100000) and \<open>m & 0o100 != 0\<close>, on the parsed value.\<close>

definition mode_regular :: "int \<Rightarrow> bool" where
  "mode_regular m \<longleftrightarrow> (m div 4096) mod 16 = 8"

definition mode_user_exec :: "int \<Rightarrow> bool" where
  "mode_user_exec m \<longleftrightarrow> (m div 64) mod 2 = 1"

definition IsExecutable :: "string \<Rightarrow> bool" where
  "IsExecutable mode = (case ParseOctal32 mode of None \<Rightarrow> False | Some m \<Rightarrow> mode_regular m \<and> mode_user_exec m)"

definition Opaque :: "Change \<Rightarrow> bool" where
  "Opaque c = (case ParseOctal32 (ch_Mode c) of None \<Rightarrow> True | Some m \<Rightarrow> \<not> mode_regular m)"

definition Carried :: "Change \<Rightarrow> bool" where
  "Carried c \<longleftrightarrow> ch_size c \<ge> 0"

lemma modes:
  "mode_regular 33188" "mode_regular 33261" "\<not> mode_regular 40960" "\<not> mode_regular 57344" "\<not> mode_regular 16384"
  by (simp_all add: mode_regular_def)


subsection \<open>The claims of the rules\<close>

definition shownPath :: "Change \<Rightarrow> string" where
  "shownPath c = (if ch_Mode c = ModeUncarried then ch_Path c @ ''/'' else ch_Path c)"

definition maxDeniedPathsLogged :: nat where "maxDeniedPathsLogged = 100"

definition sampleOf :: "string list \<Rightarrow> string list" where
  "sampleOf paths = take (min (length paths) maxDeniedPathsLogged) paths"

definition maxGlobOps :: int where "maxGlobOps = 8388608"

definition path_segments :: "Change \<Rightarrow> string list" where
  "path_segments c = (if ch_Path c = [] then [] else Split (ch_Path c) (CHR ''/''))"

text \<open>The patterns tried on one entry: whether one claims it, and the budget left. \<open>None\<close> is \<open>errGlobBudget\<close>.\<close>

fun claim_entry :: "string list list \<Rightarrow> string list \<Rightarrow> bool \<Rightarrow> int \<Rightarrow> (bool \<times> int) option" where
  "claim_entry [] segs opaque budget = Some (False, budget)"
| "claim_entry (pat # pats) segs opaque budget =
     (case matchSegments pat segs budget of
        None \<Rightarrow> None
      | Some (ok, b1) \<Rightarrow>
          (case (if \<not> ok \<and> opaque then matchesBeneath pat segs b1 else Some (ok, b1)) of
             None \<Rightarrow> None
           | Some (ok', b2) \<Rightarrow> if ok' then Some (True, b2) else claim_entry pats segs opaque b2))"

fun match_loop :: "string list list \<Rightarrow> Change list \<Rightarrow> int \<Rightarrow> string list \<Rightarrow> Change list \<Rightarrow>
    (string list \<times> Change list) option" where
  "match_loop pats [] budget hits unknown = Some (hits, unknown)"
| "match_loop pats (c # cs) budget hits unknown =
     (case claim_entry pats (path_segments c) (Opaque c) budget of
        None \<Rightarrow> None
      | Some (claimed, b) \<Rightarrow>
          if \<not> claimed then match_loop pats cs b hits unknown
          else if Carried c then match_loop pats cs b (hits @ [shownPath c]) unknown
          else match_loop pats cs b hits (unknown @ [c]))"

definition match :: "string list list \<Rightarrow> Change list \<Rightarrow> (string list \<times> Change list) option" where
  "match pats changes = match_loop pats changes maxGlobOps [] []"

text \<open>\<open>oversize\<close>: the size is rounded up to a whole MiB in the name of a hit.\<close>

definition oversize_name :: "Change \<Rightarrow> string" where
  "oversize_name c = ch_Path c @ '' ('' @ Itoa ((ch_size c + (MiB - 1)) div MiB) @ '' MiB)''"

fun oversize :: "int \<Rightarrow> Change list \<Rightarrow> string list \<times> Change list" where
  "oversize limit [] = ([], [])"
| "oversize limit (c # cs) =
     (case oversize limit cs of (hits, unknown) \<Rightarrow>
        if ch_Mode c = modeGitlink then (hits, unknown)
        else if \<not> Carried c then (hits, c # unknown)
        else if ch_size c > limit then (oversize_name c # hits, unknown)
        else (hits, unknown))"

fun newExecutables :: "Change list \<Rightarrow> string list \<times> Change list" where
  "newExecutables [] = ([], [])"
| "newExecutables (c # cs) =
     (case newExecutables cs of (hits, unknown) \<Rightarrow>
        if ch_Mode c = ModeUncarried then (hits, c # unknown)
        else if \<not> IsExecutable (ch_Mode c) then (hits, unknown)
        else if ch_BaseMode c = [] then (hits, c # unknown)
        else if \<not> IsExecutable (ch_BaseMode c) then (ch_Path c # hits, unknown)
        else (hits, unknown))"


subsection \<open>What a pattern list claims\<close>

text \<open>The declarative claim: a pattern matches the entry's path, or could match something beneath an entry whose
  content the push does not show.\<close>

definition claims :: "string list list \<Rightarrow> Change \<Rightarrow> bool" where
  "claims pats c \<longleftrightarrow> (\<exists>pat\<in>set pats. glob segment_matches pat (path_segments c) \<or>
                          (Opaque c \<and> could_match_beneath pat (path_segments c)))"

definition entry_cost :: "string list list \<Rightarrow> Change \<Rightarrow> int" where
  "entry_cost pats c = (\<Sum>pat\<leftarrow>pats. walk_cost pat (path_segments c) 0 0
                                   + int (length (path_segments c)) * int (length pat))"

lemma claim_entry_decides:
  "claim_entry pats segs opaque budget = Some (ok, b) \<Longrightarrow>
   ok \<longleftrightarrow> (\<exists>pat\<in>set pats. glob segment_matches pat segs \<or> (opaque \<and> could_match_beneath pat segs))"
proof (induction pats segs opaque budget arbitrary: ok b rule: claim_entry.induct)
  case (2 pat pats segs opaque budget)
  obtain ok1 b1 where m: "matchSegments pat segs budget = Some (ok1, b1)"
    using "2.prems" by (auto split: option.splits)
  obtain ok2 b2 where m2: "(if \<not> ok1 \<and> opaque then matchesBeneath pat segs b1 else Some (ok1, b1)) = Some (ok2, b2)"
    using "2.prems" m by (cases "if \<not> ok1 \<and> opaque then matchesBeneath pat segs b1 else Some (ok1, b1)") auto
  have ok2: "ok2 \<longleftrightarrow> glob segment_matches pat segs \<or> (opaque \<and> could_match_beneath pat segs)"
    using matchSegments_decides [OF m] m2 matchesBeneath_decides by (auto split: if_splits)
  show ?case
  proof (cases ok2)
    case True
    then show ?thesis using "2.prems" m m2 ok2 by auto
  next
    case False
    then have "claim_entry pats segs opaque b2 = Some (ok, b)" using "2.prems" m m2 by simp
    then show ?thesis using "2.IH" [OF m refl m2 refl False] ok2 False by auto
  qed
qed simp

lemma walk_cost_nonneg: "0 \<le> walk_cost pat name 0 0"
  by (simp add: walk_cost_def)

lemma claim_entry_budget:
  "(\<Sum>pat\<leftarrow>pats. walk_cost pat segs 0 0 + int (length segs) * int (length pat)) \<le> budget \<Longrightarrow>
   \<exists>ok b. claim_entry pats segs opaque budget = Some (ok, b) \<and>
          budget - (\<Sum>pat\<leftarrow>pats. walk_cost pat segs 0 0 + int (length segs) * int (length pat)) \<le> b"
proof (induction pats arbitrary: budget)
  case (Cons pat pats)
  let ?rest = "\<Sum>pat\<leftarrow>pats. walk_cost pat segs 0 0 + int (length segs) * int (length pat)"
  let ?walk = "walk_cost pat segs 0 0" and ?beneath = "int (length segs) * int (length pat)"
  have nonneg: "0 \<le> ?rest" by (intro sum_list_nonneg) (auto simp: walk_cost_nonneg)
  have le: "?walk + ?beneath + ?rest \<le> budget" and b0: "0 \<le> ?beneath" using Cons.prems by (auto simp: add_ac)
  obtain ok b1 where m: "matchSegments pat segs budget = Some (ok, b1)" "budget - ?walk \<le> b1"
    using matchSegments_returns [of pat segs budget] nonneg b0 le by force
  obtain ok' b2 where m2: "(if \<not> ok \<and> opaque then matchesBeneath pat segs b1 else Some (ok, b1)) = Some (ok', b2)"
    "b1 - ?beneath \<le> b2"
    using matchesBeneath_returns [of segs pat b1] m(2) nonneg le b0 by (cases "\<not> ok \<and> opaque") force+
  obtain ok3 b3 where "claim_entry pats segs opaque b2 = Some (ok3, b3)" "b2 - ?rest \<le> b3"
    using Cons.IH [of b2] m(2) m2(2) le by force
  moreover have "budget - (?walk + ?beneath + ?rest) \<le> b2" using m(2) m2(2) nonneg by simp
  ultimately show ?case using m m2 by (cases ok') (auto simp: add_ac)
qed (auto intro: exI [of _ False])

lemma match_loop_result:
  "match_loop pats cs budget hits unknown = Some (h, u) \<Longrightarrow>
   h = hits @ map shownPath (filter (\<lambda>c. claims pats c \<and> Carried c) cs) \<and>
   u = unknown @ filter (\<lambda>c. claims pats c \<and> \<not> Carried c) cs"
proof (induction pats cs budget hits unknown arbitrary: h u rule: match_loop.induct)
  case (2 pats c cs budget hits unknown)
  obtain cl b where e: "claim_entry pats (path_segments c) (Opaque c) budget = Some (cl, b)"
    using "2.prems" by (auto split: option.splits)
  then have cl: "cl = claims pats c" using claim_entry_decides by (auto simp: claims_def)
  show ?case using "2.IH" [OF e refl] "2.prems" e cl by (cases cl) (auto split: if_splits)
qed simp

lemma match_loop_budget:
  "(\<Sum>c\<leftarrow>cs. entry_cost pats c) \<le> budget \<Longrightarrow> \<exists>r. match_loop pats cs budget hits unknown = Some r"
proof (induction cs arbitrary: budget hits unknown)
  case (Cons c cs)
  have "0 \<le> (\<Sum>c\<leftarrow>cs. entry_cost pats c)"
    by (intro sum_list_nonneg) (auto simp: entry_cost_def walk_cost_nonneg intro!: sum_list_nonneg)
  then have "entry_cost pats c \<le> budget" using Cons.prems by simp
  from claim_entry_budget [OF this [unfolded entry_cost_def], of "Opaque c"]
  obtain cl b where "claim_entry pats (path_segments c) (Opaque c) budget = Some (cl, b)"
    "budget - entry_cost pats c \<le> b" by (auto simp: entry_cost_def)
  moreover from this have "(\<Sum>c\<leftarrow>cs. entry_cost pats c) \<le> b" using Cons.prems by simp
  ultimately show ?case using Cons.IH by simp
qed simp

text \<open>
  C22: the pattern matcher of a push decides the declarative reading of the patterns. When it answers, the hits are
  exactly the carried entries a pattern claims, in the push's order, and the unknown entries exactly the claimed ones
  the pack does not carry. It answers whenever the push costs at most \<open>maxGlobOps\<close> comparisons by the stated bound
  (for each pattern and entry, the product of the two lengths, twice), and otherwise the only other outcome is the
  refusal \<open>None\<close>.
\<close>

theorem match_decides_claims:
  "(\<forall>h u. match pats changes = Some (h, u) \<longrightarrow>
       h = map shownPath (filter (\<lambda>c. claims pats c \<and> Carried c) changes) \<and>
       u = filter (\<lambda>c. claims pats c \<and> \<not> Carried c) changes) \<and>
   ((\<Sum>c\<leftarrow>changes. entry_cost pats c) \<le> maxGlobOps \<longrightarrow> match pats changes \<noteq> None)"
  using match_loop_result [of pats changes maxGlobOps "[]" "[]"]
    match_loop_budget [of pats changes maxGlobOps "[]" "[]"]
  by (fastforce simp: match_def)

lemma match_decides_claims_witness:
  "(let pats = [[''.github'', ''**''], [''*.key'']];
        file = \<lparr>ch_Path = ''.github/ci.yml'', ch_Mode = ''100644'', ch_size = 10, ch_OID = ''a'', ch_BaseMode = []\<rparr>;
        tree = \<lparr>ch_Path = ''.github'', ch_Mode = ModeUncarried, ch_size = - 1, ch_OID = ''b'', ch_BaseMode = []\<rparr>;
        other = \<lparr>ch_Path = ''src/a.key'', ch_Mode = ''100644'', ch_size = 3, ch_OID = ''c'', ch_BaseMode = []\<rparr>
    in match pats [file, tree, other] = Some ([''.github/ci.yml''], [tree])
       \<and> [''.github/ci.yml''] = map shownPath (filter (\<lambda>c. claims pats c \<and> Carried c) [file, tree, other]))"
proof -
  let ?pats = "[[''.github'', ''**''], [''*.key'']]"
  let ?cs = "[\<lparr>ch_Path = ''.github/ci.yml'', ch_Mode = ''100644'', ch_size = 10, ch_OID = ''a'', ch_BaseMode = []\<rparr>,
              \<lparr>ch_Path = ''.github'', ch_Mode = ModeUncarried, ch_size = - 1, ch_OID = ''b'', ch_BaseMode = []\<rparr>,
              \<lparr>ch_Path = ''src/a.key'', ch_Mode = ''100644'', ch_size = 3, ch_OID = ''c'', ch_BaseMode = []\<rparr>] :: Change list"
  have "match ?pats ?cs = Some ([''.github/ci.yml''], [?cs ! 1])" by code_simp
  then show ?thesis using match_decides_claims [of ?pats ?cs] by (simp add: Let_def)
qed

end
