(* ===== verification/EgressPolicy.thy ===== *)
theory EgressPolicy
  imports DomainMatch PushRules "HOL-Library.AList"
begin

section \<open>The compiled egress policy: internal/egress/proxy/policy.go\<close>

text \<open>
  \<open>CompilePolicy\<close> turns a \<open>RunPolicySpec\<close> into the maps and lists a request is looked up in, \<open>evalHost\<close> and
  \<open>methodAllowed\<close> answer for a host, a port and a method. A Go map used as a set is a list without order here, read
  only through membership; the tool rules are an association list updated in place. The lemmas give the compiled policy back as a statement about the entries of the spec
  (\<open>entry_matches\<close>), and from it: deny beats allow, default deny, and one verdict for every spelling of an address.
\<close>

datatype hostDecision = hostAllow | hostDeny | hostUnknown

record Policy =
  allowedExact :: "string list"
  allowedWild :: "string list"
  deniedExact :: "string list"
  deniedWild :: "string list"
  allowedExactPort :: "string list"
  allowedExactAnyPort :: "(string \<times> int) list"
  allowedWildPort :: "WildPort list"
  deniedExactPort :: "string list"
  deniedWildPort :: "WildPort list"
  allowedMeth :: "string list"
  firstUse :: FirstUseMode
  toolRules :: "(string \<times> ToolEffect) list"
  allowAll :: bool
  gitPushAnyBranch :: bool
  pushRules :: "pushRuleSet option"

definition hostPortKey :: "string \<Rightarrow> int \<Rightarrow> string" where
  "hostPortKey host port = host @ '':'' @ Itoa port"

text \<open>One step of the loop over \<open>spec.AllowedDomains\<close>, and of the one over \<open>spec.DeniedDomains\<close>.\<close>

definition compile_allowed :: "string \<Rightarrow> Policy \<Rightarrow> Policy" where
  "compile_allowed d p =
     (case Classify d of (exact, wild, port) \<Rightarrow>
        if wild \<noteq> [] \<and> port > 0 then
          p\<lparr>allowedWildPort := allowedWildPort p @ [\<lparr>wp_Suffix = wild, wp_Port = port\<rparr>]\<rparr>
        else if wild \<noteq> [] then p\<lparr>allowedWild := allowedWild p @ [wild]\<rparr>
        else if exact \<noteq> [] \<and> port > 0 then
          p\<lparr>allowedExactPort := hostPortKey exact port # allowedExactPort p,
            allowedExactAnyPort := (exact, port) # allowedExactAnyPort p\<rparr>
        else if exact \<noteq> [] then p\<lparr>allowedExact := exact # allowedExact p\<rparr>
        else p)"

definition compile_denied :: "string \<Rightarrow> Policy \<Rightarrow> Policy" where
  "compile_denied d p =
     (case Classify d of (exact, wild, port) \<Rightarrow>
        if wild \<noteq> [] \<and> port > 0 then
          p\<lparr>deniedWildPort := deniedWildPort p @ [\<lparr>wp_Suffix = wild, wp_Port = port\<rparr>]\<rparr>
        else if wild \<noteq> [] then p\<lparr>deniedWild := deniedWild p @ [wild]\<rparr>
        else if exact \<noteq> [] \<and> port > 0 then
          p\<lparr>deniedExactPort := hostPortKey exact port # deniedExactPort p\<rparr>
        else if exact \<noteq> [] then p\<lparr>deniedExact := exact # deniedExact p\<rparr>
        else p)"

definition compile_method :: "string \<Rightarrow> Policy \<Rightarrow> Policy" where
  "compile_method m p =
     (let m' = ToUpper (TrimSpace m) in if m' \<noteq> [] then p\<lparr>allowedMeth := m' # allowedMeth p\<rparr> else p)"

definition CompilePolicy :: "RunPolicySpec \<Rightarrow> Policy" where
  "CompilePolicy spec =
     (let p0 = \<lparr>allowedExact = [], allowedWild = [], deniedExact = [], deniedWild = [],
                allowedExactPort = [], allowedExactAnyPort = [], allowedWildPort = [],
                deniedExactPort = [], deniedWildPort = [], allowedMeth = [],
                firstUse = FirstUse_Normalize (FirstUseApproval spec),
                toolRules = foldl (\<lambda>m r. AList.update (Tool r) (Effect r) m) [] (ToolRules spec),
                allowAll = AllowAllEgress spec,
                gitPushAnyBranch = GitPushAnyBranch spec, pushRules = compilePushRules (PushRules spec)\<rparr>;
          p1 = fold compile_allowed (AllowedDomains spec) p0;
          p2 = fold compile_denied (DeniedDomains spec) p1
      in fold compile_method (AllowedMethods spec) p2)"

text \<open>\<open>ToolEffectFor\<close> on a non-nil policy; the second component is \<open>ok\<close>.\<close>

definition ToolEffectFor :: "Policy \<Rightarrow> string \<Rightarrow> ToolEffect \<times> bool" where
  "ToolEffectFor p tool =
     (if toolRules p = [] then ([], False)
      else case map_of (toolRules p) tool of
             Some e \<Rightarrow> (e, True)
           | None \<Rightarrow> (case map_of (toolRules p) ''*'' of Some e \<Rightarrow> (e, True) | None \<Rightarrow> ([], False)))"

definition evalHost :: "Policy \<Rightarrow> string \<Rightarrow> int \<Rightarrow> hostDecision" where
  "evalHost p host0 port =
     (let host = CanonHost host0; key = hostPortKey host port in
      if host \<in> set (deniedExact p) then hostDeny
      else if key \<in> set (deniedExactPort p) then hostDeny
      else if MatchWild host (deniedWild p) \<or> MatchWildPort host port (deniedWildPort p) then hostDeny
      else if host \<in> set (allowedExact p) then hostAllow
      else if key \<in> set (allowedExactPort p) then hostAllow
      else if MatchWild host (allowedWild p) \<or> MatchWildPort host port (allowedWildPort p) then hostAllow
      else if allowAll p then hostAllow
      else hostUnknown)"

definition methodAllowed :: "Policy \<Rightarrow> string \<Rightarrow> bool" where
  "methodAllowed p method = (if allowedMeth p = [] then True else ToUpper method \<in> set (allowedMeth p))"

definition AllowsLiteralIP :: "Policy \<Rightarrow> string \<Rightarrow> int \<Rightarrow> bool" where
  "AllowsLiteralIP p host0 port =
     (let host = CanonHost host0; key = hostPortKey host port in
      if host \<in> set (deniedExact p) then False
      else if key \<in> set (deniedExactPort p) then False
      else if host \<in> set (allowedExact p) then True
      else key \<in> set (allowedExactPort p))"

definition ExceedsLiteralTrust :: "Policy \<Rightarrow> string \<Rightarrow> bool" where
  "ExceedsLiteralTrust p entry =
     (case Classify entry of (addr, _, port) \<Rightarrow>
        case ParseIP addr of
          None \<Rightarrow> False
        | Some ip \<Rightarrow>
            if block_kind ip \<noteq> blockPrivate then False
            else if addr \<in> set (allowedExact p) then False
            else if port = 0 then True
            else hostPortKey addr port \<notin> set (allowedExactPort p))"

definition AuthoredPortFor :: "Policy \<Rightarrow> string \<Rightarrow> int \<Rightarrow> bool" where
  "AuthoredPortFor p host0 port =
     (let host = CanonHost host0; key = hostPortKey host port in
      if host \<in> set (deniedExact p) then False
      else if key \<in> set (deniedExactPort p) then False
      else if MatchWildPort host port (deniedWildPort p) then False
      else if key \<in> set (allowedExactPort p) then True
      else MatchWildPort host port (allowedWildPort p))"

subsection \<open>Entries a request can never match\<close>

definition ldhHost :: "string \<Rightarrow> bool" where
  "ldhHost h = list_all (\<lambda>c. is_lower c \<or> is_digit c \<or> c = CHR ''-'' \<or> c = CHR ''.'') h"

definition deadCharsetEntry :: "string \<Rightarrow> string \<Rightarrow> bool" where
  "deadCharsetEntry exact wild =
     (if exact \<noteq> [] \<and> ParseIP exact = None \<and> \<not> ldhHost exact then True
      else wild \<noteq> [] \<and> \<not> ldhHost wild)"

text \<open>\<open>ValidDomainEntry\<close>: \<open>Some why\<close> is the error, with the cause it names.\<close>

datatype dead_entry = EmptyEntry | StarNotLeading | NotBareHost | BracketedIPv6 | BadPort | BadCharset

definition ValidDomainEntry :: "string \<Rightarrow> dead_entry option" where
  "ValidDomainEntry d =
     (case Classify d of (exact, wild, _) \<Rightarrow>
        if exact = [] \<and> wild = [] then Some EmptyEntry
        else if Contains exact ''*'' \<or> Contains wild ''*'' then Some StarNotLeading
        else if ContainsAny exact (''/ '' @ [CHR 0x09]) \<or> ContainsAny wild (''/ '' @ [CHR 0x09]) then Some NotBareHost
        else if HasPrefix exact ''['' then Some BracketedIPv6
        else if Contains exact '':'' \<and> ParseIP exact = None then Some BadPort
        else if Contains wild '':'' then Some BadPort
        else if deadCharsetEntry exact wild then Some BadCharset
        else None)"

text \<open>\<open>warnDeadDomainEntries\<close>: the field and the entry of every warning, in order.\<close>

definition warnDeadDomainEntries :: "RunPolicySpec \<Rightarrow> (string \<times> string \<times> dead_entry) list" where
  "warnDeadDomainEntries spec =
     concat (map (\<lambda>(field, entries).
        concat (map (\<lambda>d. case ValidDomainEntry d of None \<Rightarrow> [] | Some why \<Rightarrow> [(field, d, why)]) entries))
       [(''allowed_domains'', AllowedDomains spec), (''denied_domains'', DeniedDomains spec)])"

subsection \<open>The port rule\<close>

definition PortRuleOff :: string where "PortRuleOff = ''off''"
definition PortRuleDryRun :: string where "PortRuleDryRun = ''dry_run''"
definition PortRuleOn :: string where "PortRuleOn = ''on''"

lemmas port_rule_defs = PortRuleOff_def PortRuleDryRun_def PortRuleOn_def

definition ValidPortRule :: "string \<Rightarrow> bool" where
  "ValidPortRule s = (s = [] \<or> s = PortRuleOff \<or> s = PortRuleDryRun \<or> s = PortRuleOn)"

definition effectivePortRule :: "bool \<Rightarrow> string \<Rightarrow> string" where
  "effectivePortRule vm rule = (if vm then PortRuleOn else if rule = [] then PortRuleOff else rule)"

definition portRuleRefuses :: "string \<Rightarrow> Policy \<Rightarrow> string \<Rightarrow> int \<Rightarrow> bool" where
  "portRuleRefuses rule pol host port =
     (if rule \<noteq> PortRuleOn \<and> rule \<noteq> PortRuleDryRun then False
      else port \<noteq> 80 \<and> port \<noteq> 443 \<and> \<not> AuthoredPortFor pol host port)"

subsection \<open>The compiled policy as a statement about entries\<close>

text \<open>A canonical host and a port under one entry, as the entry is classified.\<close>

definition entry_matches :: "string \<Rightarrow> string \<Rightarrow> int \<Rightarrow> bool" where
  "entry_matches d host port =
     (case Classify d of (exact, wild, p) \<Rightarrow>
        (p = 0 \<or> p = port) \<and> (if wild \<noteq> [] then HasSuffix host wild else exact \<noteq> [] \<and> host = exact))"

lemma Itoa_no_colon: "CHR '':'' \<notin> set (Itoa i)"
proof -
  have "CHR '':'' \<notin> set (dec_str n)" if "0 \<le> n" for n
    using dec_str_digits [OF that, of "CHR '':''"] by auto
  then show ?thesis by (auto simp: Itoa_def)
qed

lemma hostPortKey_inject [simp]: "hostPortKey h p = hostPortKey h' p' \<longleftrightarrow> h = h' \<and> p = p'"
proof
  assume eq: "hostPortKey h p = hostPortKey h' p'"
  have "length h = length h'"
    using LastIndexByte_append [OF Itoa_no_colon, of h p] LastIndexByte_append [OF Itoa_no_colon, of h' p'] eq
    by (simp add: hostPortKey_def)
  with eq show "h = h' \<and> p = p'" by (simp add: hostPortKey_def)
qed simp

lemmas entry_conv = MatchWild_iff MatchWildPort_iff

text \<open>What each loop of \<open>CompilePolicy\<close> adds to the four places a host is looked up in.\<close>

definition allow_lookup :: "Policy \<Rightarrow> string \<Rightarrow> int \<Rightarrow> bool" where
  "allow_lookup p host port \<longleftrightarrow>
     host \<in> set (allowedExact p) \<or> hostPortKey host port \<in> set (allowedExactPort p) \<or>
     MatchWild host (allowedWild p) \<or> MatchWildPort host port (allowedWildPort p)"

definition deny_lookup :: "Policy \<Rightarrow> string \<Rightarrow> int \<Rightarrow> bool" where
  "deny_lookup p host port \<longleftrightarrow>
     host \<in> set (deniedExact p) \<or> hostPortKey host port \<in> set (deniedExactPort p) \<or>
     MatchWild host (deniedWild p) \<or> MatchWildPort host port (deniedWildPort p)"

lemma allow_lookup_compile_allowed:
  "allow_lookup (compile_allowed d p) host port \<longleftrightarrow> allow_lookup p host port \<or> entry_matches d host port"
proof (cases "Classify d")
  case (fields e w q)
  have "0 \<le> q" using Classify_port_range [OF fields] by simp
  then show ?thesis
    by (auto simp: fields allow_lookup_def compile_allowed_def entry_matches_def entry_conv)
qed

lemma deny_lookup_compile_denied:
  "deny_lookup (compile_denied d p) host port \<longleftrightarrow> deny_lookup p host port \<or> entry_matches d host port"
proof (cases "Classify d")
  case (fields e w q)
  have "0 \<le> q" using Classify_port_range [OF fields] by simp
  then show ?thesis
    by (auto simp: fields deny_lookup_def compile_denied_def entry_matches_def entry_conv)
qed

lemma lookup_other [simp]:
  "deny_lookup (compile_allowed d p) host port = deny_lookup p host port"
  "allow_lookup (compile_denied d p) host port = allow_lookup p host port"
  "deny_lookup (compile_method m p) host port = deny_lookup p host port"
  "allow_lookup (compile_method m p) host port = allow_lookup p host port"
  by (auto simp: deny_lookup_def allow_lookup_def compile_allowed_def compile_denied_def compile_method_def
      Let_def split: prod.splits)

lemma fold_allowed:
  "allow_lookup (fold compile_allowed ds p) host port \<longleftrightarrow>
     allow_lookup p host port \<or> (\<exists>d \<in> set ds. entry_matches d host port)"
  "deny_lookup (fold compile_allowed ds p) host port = deny_lookup p host port"
  by (induction ds arbitrary: p) (auto simp: allow_lookup_compile_allowed)

lemma fold_denied:
  "deny_lookup (fold compile_denied ds p) host port \<longleftrightarrow>
     deny_lookup p host port \<or> (\<exists>d \<in> set ds. entry_matches d host port)"
  "allow_lookup (fold compile_denied ds p) host port = allow_lookup p host port"
  by (induction ds arbitrary: p) (auto simp: deny_lookup_compile_denied)

lemma fold_method:
  "deny_lookup (fold compile_method ms p) host port = deny_lookup p host port"
  "allow_lookup (fold compile_method ms p) host port = allow_lookup p host port"
  by (induction ms arbitrary: p) auto

lemma compile_lookup:
  "allow_lookup (CompilePolicy s) host port \<longleftrightarrow> (\<exists>d \<in> set (AllowedDomains s). entry_matches d host port)"
  "deny_lookup (CompilePolicy s) host port \<longleftrightarrow> (\<exists>d \<in> set (DeniedDomains s). entry_matches d host port)"
  by (simp_all add: CompilePolicy_def Let_def fold_method fold_denied fold_allowed)
    (simp_all add: allow_lookup_def deny_lookup_def)

subsection \<open>Where a credential may be attached: exact_host_binding.go\<close>

definition exactHostDenied :: "Policy \<Rightarrow> string \<Rightarrow> bool" where
  "exactHostDenied p host = (if host \<in> set (deniedExact p) then True else MatchWild host (deniedWild p))"

definition AllowedExactHost :: "Policy \<Rightarrow> string \<Rightarrow> bool" where
  "AllowedExactHost p host0 =
     (let host = CanonHost host0 in
      if exactHostDenied p host then False
      else if host \<in> set (allowedExact p) then True
      else list_ex (\<lambda>(h, port). h = host \<and> hostPortKey host port \<notin> set (deniedExactPort p) \<and>
                                 \<not> MatchWildPort host port (deniedWildPort p)) (allowedExactAnyPort p))"

definition AllowedBareExactHost :: "Policy \<Rightarrow> string \<Rightarrow> bool" where
  "AllowedBareExactHost p host0 =
     (let host = CanonHost host0 in
      if exactHostDenied p host then False else CanonHost host \<in> set (allowedExact p))"

subsection \<open>The evaluator seam: internal/egress/evaluator.go\<close>

text \<open>The verdict is a string in the source; \<open>VerdictOther\<close> is any other text an engine may answer.\<close>

datatype HostVerdict = VerdictAllow | VerdictDeny | VerdictUnknown | VerdictOther string

text \<open>
  The contract the proxy relies on, as the conformance suite (\<open>evaluatortest.RunConformance\<close>) states it, for every
  spec and every host rather than for its samples: deny beats allow, an empty allowlist allows nothing, an entry
  allows what it matches, allow-all keeps the deny list, and the method restriction. \<open>None\<close> is an error of the
  engine.
\<close>

locale Evaluator =
  fixes EvaluateHost :: "RunPolicySpec \<Rightarrow> string \<Rightarrow> int \<Rightarrow> HostVerdict option"
    and MethodAllowed :: "RunPolicySpec \<Rightarrow> string \<Rightarrow> bool"
  assumes deny_beats_allow:
      "d \<in> set (DeniedDomains s) \<Longrightarrow> entry_matches d (CanonHost h) port \<Longrightarrow> EvaluateHost s h port = Some VerdictDeny"
    and allow_then_allow:
      "d \<in> set (AllowedDomains s) \<Longrightarrow> entry_matches d (CanonHost h) port \<Longrightarrow>
       \<forall>d' \<in> set (DeniedDomains s). \<not> entry_matches d' (CanonHost h) port \<Longrightarrow> EvaluateHost s h port = Some VerdictAllow"
    and allow_all:
      "AllowAllEgress s \<Longrightarrow> \<forall>d' \<in> set (DeniedDomains s). \<not> entry_matches d' (CanonHost h) port \<Longrightarrow>
       EvaluateHost s h port = Some VerdictAllow"
    and default_deny:
      "\<not> AllowAllEgress s \<Longrightarrow> \<forall>d \<in> set (AllowedDomains s). \<not> entry_matches d (CanonHost h) port \<Longrightarrow>
       EvaluateHost s h port \<noteq> Some VerdictAllow"
    and method_restriction:
      "MethodAllowed s m \<longleftrightarrow>
         (\<forall>x \<in> set (AllowedMethods s). ToUpper (TrimSpace x) = []) \<or>
         (\<exists>x \<in> set (AllowedMethods s). ToUpper (TrimSpace x) \<noteq> [] \<and> ToUpper (TrimSpace x) = ToUpper m)"
begin

lemma allow_cause:
  "EvaluateHost s h port = Some VerdictAllow \<Longrightarrow>
     AllowAllEgress s \<or> (\<exists>d \<in> set (AllowedDomains s). entry_matches d (CanonHost h) port)"
  using default_deny by blast

lemma allow_not_denied:
  "EvaluateHost s h port = Some VerdictAllow \<Longrightarrow> d \<in> set (DeniedDomains s) \<Longrightarrow> \<not> entry_matches d (CanonHost h) port"
  using deny_beats_allow [of d s h port] by auto

text \<open>A spec that denies more and allows less admits less.\<close>

lemma narrower_allows:
  assumes "EvaluateHost a h port = Some VerdictAllow"
    and "AllowAllEgress a \<Longrightarrow> AllowAllEgress b"
    and "\<And>d. d \<in> set (AllowedDomains a) \<Longrightarrow> entry_matches d (CanonHost h) port \<Longrightarrow>
           \<exists>e \<in> set (AllowedDomains b). entry_matches e (CanonHost h) port"
    and "\<And>d. d \<in> set (DeniedDomains b) \<Longrightarrow> entry_matches d (CanonHost h) port \<Longrightarrow>
           \<exists>e \<in> set (DeniedDomains a). entry_matches e (CanonHost h) port"
  shows "EvaluateHost b h port = Some VerdictAllow"
proof -
  have no_deny: "\<forall>d \<in> set (DeniedDomains b). \<not> entry_matches d (CanonHost h) port"
    using assms(4) allow_not_denied [OF assms(1)] by blast
  from allow_cause [OF assms(1)] show ?thesis
  proof
    assume "AllowAllEgress a"
    then show ?thesis using allow_all [OF assms(2) no_deny] by simp
  next
    assume "\<exists>d \<in> set (AllowedDomains a). entry_matches d (CanonHost h) port"
    then obtain e where "e \<in> set (AllowedDomains b)" "entry_matches e (CanonHost h) port"
      using assms(3) by blast
    then show ?thesis using allow_then_allow [OF _ _ no_deny] by simp
  qed
qed

end

definition builtin_EvaluateHost :: "RunPolicySpec \<Rightarrow> string \<Rightarrow> int \<Rightarrow> HostVerdict option" where
  "builtin_EvaluateHost spec host port =
     (case evalHost (CompilePolicy spec) host port of
        hostDeny \<Rightarrow> Some VerdictDeny
      | hostAllow \<Rightarrow> Some VerdictAllow
      | hostUnknown \<Rightarrow> Some VerdictUnknown)"

definition builtin_MethodAllowed :: "RunPolicySpec \<Rightarrow> string \<Rightarrow> bool" where
  "builtin_MethodAllowed spec method = methodAllowed (CompilePolicy spec) method"

subsection \<open>The builtin evaluator meets the contract\<close>

lemma compile_step_fields [simp]:
  "firstUse (compile_allowed d p) = firstUse p" "firstUse (compile_denied d p) = firstUse p"
  "firstUse (compile_method d p) = firstUse p"
  "allowAll (compile_allowed d p) = allowAll p" "allowAll (compile_denied d p) = allowAll p"
  "allowAll (compile_method d p) = allowAll p"
  "toolRules (compile_allowed d p) = toolRules p" "toolRules (compile_denied d p) = toolRules p"
  "toolRules (compile_method d p) = toolRules p"
  "allowedMeth (compile_allowed d p) = allowedMeth p" "allowedMeth (compile_denied d p) = allowedMeth p"
  by (auto simp: compile_allowed_def compile_denied_def compile_method_def Let_def split: prod.splits)

lemma fold_keeps: "(\<And>d p. f (g d p) = f p) \<Longrightarrow> f (fold g ds p) = f p"
  by (induction ds arbitrary: p) auto

lemmas fold_fields [simp] =
  fold_keeps [of firstUse compile_allowed, simplified] fold_keeps [of firstUse compile_denied, simplified]
  fold_keeps [of firstUse compile_method, simplified]
  fold_keeps [of allowAll compile_allowed, simplified] fold_keeps [of allowAll compile_denied, simplified]
  fold_keeps [of allowAll compile_method, simplified]
  fold_keeps [of toolRules compile_allowed, simplified] fold_keeps [of toolRules compile_denied, simplified]
  fold_keeps [of toolRules compile_method, simplified]
  fold_keeps [of allowedMeth compile_allowed, simplified] fold_keeps [of allowedMeth compile_denied, simplified]

lemma compile_fields [simp]:
  "firstUse (CompilePolicy s) = FirstUse_Normalize (FirstUseApproval s)"
  "allowAll (CompilePolicy s) = AllowAllEgress s"
  "toolRules (CompilePolicy s) = foldl (\<lambda>m r. AList.update (Tool r) (Effect r) m) [] (ToolRules s)"
  by (simp_all add: CompilePolicy_def Let_def)

lemma fold_method_meths:
  "set (allowedMeth (fold compile_method ms p)) =
     set (allowedMeth p) \<union> {m. m \<noteq> [] \<and> (\<exists>x \<in> set ms. m = ToUpper (TrimSpace x))}"
  by (induction ms arbitrary: p) (auto simp: compile_method_def Let_def)

lemma compile_methods:
  "set (allowedMeth (CompilePolicy s)) = {m. m \<noteq> [] \<and> (\<exists>x \<in> set (AllowedMethods s). m = ToUpper (TrimSpace x))}"
  by (simp add: CompilePolicy_def Let_def fold_method_meths)

lemma evalHost_lookup:
  "evalHost p h port =
     (if deny_lookup p (CanonHost h) port then hostDeny
      else if allow_lookup p (CanonHost h) port \<or> allowAll p then hostAllow else hostUnknown)"
  by (simp add: evalHost_def deny_lookup_def allow_lookup_def Let_def)

lemma evalHost_compile:
  "evalHost (CompilePolicy s) h port =
     (if \<exists>d \<in> set (DeniedDomains s). entry_matches d (CanonHost h) port then hostDeny
      else if (\<exists>d \<in> set (AllowedDomains s). entry_matches d (CanonHost h) port) \<or> AllowAllEgress s then hostAllow
      else hostUnknown)"
  by (simp add: evalHost_lookup compile_lookup)

lemma methodAllowed_compile:
  "methodAllowed (CompilePolicy s) m \<longleftrightarrow>
     (\<forall>x \<in> set (AllowedMethods s). ToUpper (TrimSpace x) = []) \<or>
     (\<exists>x \<in> set (AllowedMethods s). ToUpper (TrimSpace x) \<noteq> [] \<and> ToUpper (TrimSpace x) = ToUpper m)"
proof -
  have "allowedMeth (CompilePolicy s) = [] \<longleftrightarrow> (\<forall>x \<in> set (AllowedMethods s). ToUpper (TrimSpace x) = [])"
    using compile_methods [of s] by (auto simp flip: set_empty)
  then show ?thesis by (auto simp: methodAllowed_def compile_methods) metis+
qed

interpretation builtin: Evaluator builtin_EvaluateHost builtin_MethodAllowed
  by unfold_locales
    (auto simp: builtin_EvaluateHost_def builtin_MethodAllowed_def evalHost_compile methodAllowed_compile)

text \<open>
  C4: the builtin evaluator's verdict, for every spec, host and port: denied when an entry of denied_domains matches
  the canonical host, else allowed when an entry of allowed_domains matches or the run allows all egress, else
  unknown; it never fails. So deny always beats allow, and a spec with no entries and no allow-all allows nothing.
\<close>

theorem builtin_verdict:
  "builtin_EvaluateHost s h port = Some
     (if \<exists>d \<in> set (DeniedDomains s). entry_matches d (CanonHost h) port then VerdictDeny
      else if (\<exists>d \<in> set (AllowedDomains s). entry_matches d (CanonHost h) port) \<or> AllowAllEgress s
        then VerdictAllow
      else VerdictUnknown)"
  by (simp add: builtin_EvaluateHost_def evalHost_compile)

subsection \<open>Which entries can match a request\<close>

text \<open>What an entry's host part looks like after \<open>Classify\<close>: lower case, and no root dot.\<close>

lemma ToLower_fixed_iff: "ToLower s = s \<longleftrightarrow> (\<forall>c \<in> set s. lower_char c = c)"
  by (induction s) auto

lemma TrimRight_set: "set (TrimRight s cs) \<subseteq> set s"
  unfolding TrimRight_def trim_right_by_def by (auto dest: set_dropWhileD)

lemma TrimRight_last: "TrimRight s ''.'' = [] \<or> last (TrimRight s ''.'') \<noteq> CHR ''.''"
  using trim_right_by_last [of "\<lambda>c. c \<in> set ''.''" s] by (simp add: TrimRight_def)

lemma SplitHostPort_set: "SplitHostPort s = Some (h, p) \<Longrightarrow> set h \<subseteq> set s"
  unfolding SplitHostPort_def
  by (auto split: option.splits if_splits dest: in_set_takeD in_set_dropD)

lemma port_qualifier_host:
  assumes "port_qualifier d = (d', p)" and "d = TrimRight d0 ''.''"
  shows "set d' \<subseteq> set d \<and> (d' = [] \<or> last d' \<noteq> CHR ''.'')"
  using assms TrimRight_last [of d0] TrimRight_last SplitHostPort_set [of d] TrimRight_set
  by (fastforce simp: port_qualifier_def split: option.splits prod.splits if_splits)

lemma Classify_host:
  assumes "Classify d = (e, w, p)"
  obtains d' where "ToLower d' = d'" "d' = [] \<or> last d' \<noteq> CHR ''.''"
    "(w = [] \<and> (e = [] \<or> e = CanonHost d')) \<or> (e = [] \<and> d' = CHR ''*'' # w \<and> HasPrefix w ''.'')"
proof -
  let ?d = "TrimRight (ToLower (TrimSpace d)) ''.''"
  show thesis
  proof (cases "?d = []")
    case True
    with assms show thesis by (intro that [of "[]"]) (auto simp: Classify_def)
  next
    case False
    obtain d' q where pq: "port_qualifier ?d = (d', q)" by (cases "port_qualifier ?d")
    from port_qualifier_host [OF this refl] have s: "set d' \<subseteq> set ?d" and l: "d' = [] \<or> last d' \<noteq> CHR ''.''" by auto
    have "ToLower (ToLower (TrimSpace d)) = ToLower (TrimSpace d)" by simp
    then have "ToLower d' = d'"
      using s TrimRight_set [of "ToLower (TrimSpace d)" "''.''"] unfolding ToLower_fixed_iff by blast
    with l assms False pq show thesis
      by (intro that [of d']) (auto simp: Classify_def HasPrefix_iff split: if_splits)
  qed
qed

lemma Classify_exact_normal:
  assumes "Classify d = (e, w, p)" and "e \<noteq> []"
  shows "TrimSuffix (ToLower e) ''.'' = e" and "CanonHost e = e"
proof -
  obtain d' where d': "ToLower d' = d'" "d' = [] \<or> last d' \<noteq> CHR ''.''" "e = CanonHost d'"
    by (rule Classify_host [OF assms(1)]) (use assms(2) in auto)
  then show "CanonHost e = e" using CanonHost_idem_trimmed [of d'] by simp
  show "TrimSuffix (ToLower e) ''.'' = e"
  proof (cases "ParseIP d'")
    case None
    with d' show ?thesis by (simp add: CanonHost_def TrimSuffix_dot_id)
  next
    case (Some ip)
    with d' have "e = ip_String ip" by (simp add: CanonHost_def TrimSuffix_dot_id)
    then show ?thesis using ip_String_normal [of ip] ParseIP_length [OF Some] by simp
  qed
qed

text \<open>A host as it can stand on the wire: an IP literal, or letters, digits, hyphens and dots.\<close>

definition wire_host :: "string \<Rightarrow> bool" where
  "wire_host h \<longleftrightarrow> ParseIP (TrimSuffix (ToLower h) ''.'') \<noteq> None \<or> ldhHost (CanonHost h)"

lemma ParseIP_a_dot: "ParseIP (CHR ''a'' # CHR ''.'' # s) = None"
  by (simp add: ParseIP_def ParseAddrZone_def parse4_fields_def is_digit_def)

lemma wild_matches_host:
  assumes "Classify d = (e, w, p)" and "w \<noteq> []" and "ldhHost w"
  shows "CanonHost (CHR ''a'' # w) = CHR ''a'' # w" and "wire_host (CHR ''a'' # w)"
proof -
  obtain d' where d': "ToLower d' = d'" "d' = [] \<or> last d' \<noteq> CHR ''.''" "d' = CHR ''*'' # w" "HasPrefix w ''.''"
    by (rule Classify_host [OF assms(1)]) (use assms(2) in auto)
  then obtain s where w: "w = CHR ''.'' # s" by (auto simp: HasPrefix_iff)
  have "ToLower (CHR ''a'' # w) = CHR ''a'' # w" using d' by (simp add: lower_char_def is_upper_def)
  moreover have "last (CHR ''a'' # w) \<noteq> CHR ''.''" using d' assms(2) by auto
  ultimately have "TrimSuffix (ToLower (CHR ''a'' # w)) ''.'' = CHR ''a'' # w" using TrimSuffix_dot_id by simp
  then show c: "CanonHost (CHR ''a'' # w) = CHR ''a'' # w" using ParseIP_a_dot [of s] by (simp add: CanonHost_def w)
  show "wire_host (CHR ''a'' # w)" using assms(3) unfolding wire_host_def c by (simp add: ldhHost_def is_lower_def)
qed


lemma dec_str_ldh: "0 \<le> n \<Longrightarrow> ldhHost (dec_str n)"
  using dec_str_digits by (auto simp: ldhHost_def list_all_iff)

lemma literal_key_shape:
  assumes "length ip = 16"
  shows "ldhHost (ip_String ip) \<or> CHR ''.'' \<notin> set (ip_String ip)"
proof (cases "To4 ip")
  case None
  then have "take 12 ip \<noteq> v4InV6Prefix" using assms by (auto simp: To4_def)
  then have "\<not> Is4In6 (Addr6 (be_word ip))" using Is4In6_iff [OF assms] by blast
  then have "ip_String ip = string6 (be_word ip)" using None assms by (auto simp: ip_String_def simp del: Is4In6.simps)
  then show ?thesis using string6_chars by metis
next
  case (Some x)
  then have "ip_String ip = string4 (be_word x)" using assms by (auto simp: ip_String_def)
  moreover have "ldhHost (string4 v)" for v
    using dec_str_ldh [OF octet_word(3)] dec_str_ldh [OF octet_word(5)] by (simp add: string4_def ldhHost_def)
  ultimately show ?thesis by simp
qed

lemma ldhHost_clean:
  assumes "ldhHost s"
  shows "CHR ''*'' \<notin> set s" "\<not> ContainsAny s (''/ '' @ [CHR 0x09])" "\<not> HasPrefix s ''[''" "CHR '':'' \<notin> set s"
proof -
  have "\<not> (is_lower c \<or> is_digit c \<or> c = CHR ''-'' \<or> c = CHR ''.'')"
    if "c \<in> set ''*/ [:'' \<or> c = CHR 0x09" for c
    using that by (auto simp: is_lower_def is_digit_def)
  with assms show "CHR ''*'' \<notin> set s" "\<not> ContainsAny s (''/ '' @ [CHR 0x09])" "\<not> HasPrefix s ''[''" "CHR '':'' \<notin> set s"
    unfolding ldhHost_def list_all_iff ContainsAny_def HasPrefix_iff by fastforce+
qed

lemma wire_key:
  assumes "wire_host h"
  shows "ldhHost (CanonHost h) \<or> (\<exists>ip. length ip = 16 \<and> CanonHost h = ip_String ip)"
  using assms unfolding wire_host_def by (metis CanonHost_literal ParseIP_length not_None_eq)

lemma dead_entry_matches_nothing:
  assumes "wire_host h" and "entry_matches d (CanonHost h) port"
  shows "ValidDomainEntry d = None"
proof -
  obtain e w p where c: "Classify d = (e, w, p)" by (cases "Classify d")
  let ?k = "CanonHost h"
  show ?thesis
  proof (cases "w = []")
    case True
    then have k: "e = ?k" "e \<noteq> []" using assms(2) by (auto simp: entry_matches_def c)
    from wire_key [OF assms(1)] show ?thesis
    proof
      assume "ldhHost ?k"
      then show ?thesis using ldhHost_clean [of e] k True
        by (simp add: ValidDomainEntry_def c Contains_one deadCharsetEntry_def ContainsAny_def HasPrefix_iff)
    next
      assume "\<exists>ip. length ip = 16 \<and> ?k = ip_String ip"
      then obtain ip where ip: "length ip = 16" "e = ip_String ip" using k by auto
      have "ParseIP e \<noteq> None" using ParseIP_ip_String [of ip] ip by simp
      moreover have "\<forall>c \<in> set e. addr_char c" using ip_String_canonical(2) [of ip] ip by simp
      then have "CHR ''*'' \<notin> set e" "\<not> ContainsAny e (''/ '' @ [CHR 0x09])" "\<not> HasPrefix e ''[''"
        by (fastforce simp: addr_char_def ContainsAny_def HasPrefix_iff)+
      ultimately show ?thesis using k True
        by (simp add: ValidDomainEntry_def c Contains_one deadCharsetEntry_def ContainsAny_def HasPrefix_iff)
    qed
  next
    case False
    then have e: "e = []" using Classify_exclusive [OF c] by simp
    have suf: "HasSuffix ?k w" using assms(2) False by (auto simp: entry_matches_def c)
    obtain s where "w = CHR ''.'' # s" using Classify_wild_dot [OF c False] by blast
    then have "CHR ''.'' \<in> set ?k" using suf by (auto simp: HasSuffix_iff)
    then have "ldhHost ?k" using wire_key [OF assms(1)] literal_key_shape by metis
    then have "ldhHost w" using suf by (auto simp: HasSuffix_iff ldhHost_def)
    then show ?thesis using ldhHost_clean [of w] e False
      by (simp add: ValidDomainEntry_def c Contains_one deadCharsetEntry_def ContainsAny_def HasPrefix_iff)
  qed
qed

lemma valid_entry_matchable:
  assumes v: "ValidDomainEntry d = None"
  shows "\<exists>h port. wire_host h \<and> 1 \<le> port \<and> port \<le> 65535 \<and> entry_matches d (CanonHost h) port"
proof -
  obtain e w p where c: "Classify d = (e, w, p)" by (cases "Classify d")
  define port where "port = (if p = 0 then 443 else p)"
  have port: "1 \<le> port" "port \<le> 65535" "p = 0 \<or> p = port" using Classify_port_range [OF c] by (auto simp: port_def)
  show "\<exists>h port. wire_host h \<and> 1 \<le> port \<and> port \<le> 65535 \<and> entry_matches d (CanonHost h) port"
  proof (cases "w = []")
    case False
    then have "ldhHost w" using v by (auto simp: ValidDomainEntry_def c deadCharsetEntry_def split: if_splits)
    from wild_matches_host [OF c False this] have "wire_host (CHR ''a'' # w)" "entry_matches d (CanonHost (CHR ''a'' # w)) port"
      using port False by (auto simp: entry_matches_def c HasSuffix_iff)
    then show ?thesis using port by blast
  next
    case True
    then have e: "e \<noteq> []" using v by (auto simp: ValidDomainEntry_def c split: if_splits)
    have "wire_host e" using v True e Classify_exact_normal [OF c e]
      by (auto simp: wire_host_def ValidDomainEntry_def c deadCharsetEntry_def split: if_splits)
    moreover have "entry_matches d (CanonHost e) port"
      using port e True Classify_exact_normal [OF c e] by (simp add: entry_matches_def c)
    ultimately show ?thesis using port by blast
  qed
qed

text \<open>
  C27: the shape check of a domain entry is exact. \<open>ValidDomainEntry\<close> accepts an entry if and only if some host that
  can stand on the wire (an IP literal, or letters, digits, hyphens and dots) matches it on some port from 1 to 65535:
  an accepted entry is never dead, and a refused one never matches a request.
\<close>

theorem valid_entry_iff_matchable:
  "ValidDomainEntry d = None \<longleftrightarrow>
     (\<exists>h port. wire_host h \<and> 1 \<le> port \<and> port \<le> 65535 \<and> entry_matches d (CanonHost h) port)"
  using valid_entry_matchable [of d] dead_entry_matches_nothing [of _ d] by blast

subsection \<open>Where a credential may be attached\<close>

lemma compile_any_port:
  "(h, port) \<in> set (allowedExactAnyPort (CompilePolicy s)) \<longleftrightarrow>
     0 < port \<and> h \<noteq> [] \<and> (\<exists>d \<in> set (AllowedDomains s). Classify d = (h, [], port))"
proof -
  have step: "(h, port) \<in> set (allowedExactAnyPort (fold compile_allowed ds p)) \<longleftrightarrow>
      (h, port) \<in> set (allowedExactAnyPort p) \<or>
      0 < port \<and> h \<noteq> [] \<and> (\<exists>d \<in> set ds. Classify d = (h, [], port))" for ds p
    by (induction ds arbitrary: p) (auto simp: compile_allowed_def split: prod.splits)
  have keep: "allowedExactAnyPort (fold compile_denied ds p) = allowedExactAnyPort p"
    "allowedExactAnyPort (fold compile_method ds p) = allowedExactAnyPort p" for ds p
    by (rule fold_keeps; simp add: compile_denied_def compile_method_def Let_def split: prod.splits)+
  show ?thesis by (simp add: CompilePolicy_def Let_def keep step)
qed

lemma compile_exact:
  "h \<in> set (allowedExact (CompilePolicy s)) \<longleftrightarrow> h \<noteq> [] \<and> (\<exists>d \<in> set (AllowedDomains s). Classify d = (h, [], 0))"
proof -
  have step: "h \<in> set (allowedExact (fold compile_allowed ds p)) \<longleftrightarrow>
      h \<in> set (allowedExact p) \<or> h \<noteq> [] \<and> (\<exists>d \<in> set ds. Classify d = (h, [], 0))" for ds p
  proof (induction ds arbitrary: p)
    case (Cons d ds)
    obtain e w q where c: "Classify d = (e, w, q)" by (cases "Classify d")
    then have "0 \<le> q" using Classify_port_range by blast
    then show ?case using Cons c by (auto simp: compile_allowed_def)
  qed simp
  have keep: "allowedExact (fold compile_denied ds p) = allowedExact p"
    "allowedExact (fold compile_method ds p) = allowedExact p" for ds p
    by (rule fold_keeps; simp add: compile_denied_def compile_method_def Let_def split: prod.splits)+
  show ?thesis by (simp add: CompilePolicy_def Let_def keep step)
qed

lemma compile_exact_port:
  "hostPortKey h port \<in> set (allowedExactPort (CompilePolicy s)) \<longleftrightarrow>
     0 < port \<and> h \<noteq> [] \<and> (\<exists>d \<in> set (AllowedDomains s). Classify d = (h, [], port))"
proof -
  have step: "hostPortKey h port \<in> set (allowedExactPort (fold compile_allowed ds p)) \<longleftrightarrow>
      hostPortKey h port \<in> set (allowedExactPort p) \<or>
      0 < port \<and> h \<noteq> [] \<and> (\<exists>d \<in> set ds. Classify d = (h, [], port))" for ds p
    by (induction ds arbitrary: p) (auto simp: compile_allowed_def split: prod.splits)
  have keep: "allowedExactPort (fold compile_denied ds p) = allowedExactPort p"
    "allowedExactPort (fold compile_method ds p) = allowedExactPort p" for ds p
    by (rule fold_keeps; simp add: compile_denied_def compile_method_def Let_def split: prod.splits)+
  show ?thesis by (simp add: CompilePolicy_def Let_def keep step)
qed

lemma compile_wild_port:
  "MatchWildPort h port (allowedWildPort (CompilePolicy s)) \<longleftrightarrow>
     0 < port \<and> (\<exists>d \<in> set (AllowedDomains s). \<exists>w. Classify d = ([], w, port) \<and> w \<noteq> [] \<and> HasSuffix h w)"
proof -
  have one: "MatchWildPort h port (allowedWildPort (compile_allowed d p)) \<longleftrightarrow>
      MatchWildPort h port (allowedWildPort p) \<or>
      0 < port \<and> (\<exists>w. Classify d = ([], w, port) \<and> w \<noteq> [] \<and> HasSuffix h w)" for d p
  proof -
    obtain e w q where c: "Classify d = (e, w, q)" by (cases "Classify d")
    then show ?thesis using Classify_exclusive [OF c] by (auto simp: compile_allowed_def MatchWildPort_iff)
  qed
  have step: "MatchWildPort h port (allowedWildPort (fold compile_allowed ds p)) \<longleftrightarrow>
      MatchWildPort h port (allowedWildPort p) \<or>
      0 < port \<and> (\<exists>d \<in> set ds. \<exists>w. Classify d = ([], w, port) \<and> w \<noteq> [] \<and> HasSuffix h w)" for ds p
    by (induction ds arbitrary: p) (auto simp: one)
  have keep: "allowedWildPort (fold compile_denied ds p) = allowedWildPort p"
    "allowedWildPort (fold compile_method ds p) = allowedWildPort p" for ds p
    by (rule fold_keeps; simp add: compile_denied_def compile_method_def Let_def split: prod.splits)+
  show ?thesis by (simp add: CompilePolicy_def Let_def keep step)
qed

text \<open>The deny entries that name no port.\<close>

lemma exactHostDenied_step: "exactHostDenied (compile_denied d p) k \<longleftrightarrow> exactHostDenied p k \<or> entry_matches d k 0"
proof (cases "Classify d")
  case (fields e w q)
  have "0 \<le> q" using Classify_port_range [OF fields] by simp
  then show ?thesis
    by (auto simp: fields exactHostDenied_def compile_denied_def entry_matches_def entry_conv)
qed

lemma exactHostDenied_compile:
  "exactHostDenied (CompilePolicy s) k \<longleftrightarrow> (\<exists>d \<in> set (DeniedDomains s). entry_matches d k 0)"
proof -
  have step: "exactHostDenied (fold compile_denied ds p) k \<longleftrightarrow> exactHostDenied p k \<or> (\<exists>d \<in> set ds. entry_matches d k 0)" for ds p
    by (induction ds arbitrary: p) (auto simp: exactHostDenied_step)
  have keep: "exactHostDenied (fold compile_allowed ds p) k = exactHostDenied p k"
    "exactHostDenied (fold compile_method ds p) k = exactHostDenied p k" for ds p
    by (rule fold_keeps [of "\<lambda>p. exactHostDenied p k"];
        simp add: exactHostDenied_def compile_allowed_def compile_method_def Let_def split: prod.splits)+
  show ?thesis by (simp add: CompilePolicy_def Let_def keep step) (simp add: exactHostDenied_def)
qed

text \<open>
  C28: where a credential may be attached, exactly. \<open>AllowedExactHost\<close> says yes if and only if no deny entry without a port
  matches the host and an exact entry of allowed_domains names it (never a wildcard, never allow-all): one without a port,
  or one with a port on which a request to that host is allowed by the whole policy. \<open>AllowedBareExactHost\<close> says yes if and
  only if no deny entry without a port matches and the exact entry has no port.
\<close>

theorem injection_host_iff:
  "(AllowedExactHost (CompilePolicy s) h \<longleftrightarrow>
      \<not> (\<exists>d \<in> set (DeniedDomains s). entry_matches d (CanonHost h) 0) \<and> CanonHost h \<noteq> [] \<and>
      (\<exists>d \<in> set (AllowedDomains s). \<exists>port. Classify d = (CanonHost h, [], port) \<and>
         (port = 0 \<or> evalHost (CompilePolicy s) h port = hostAllow))) \<and>
   (AllowedBareExactHost (CompilePolicy s) h \<longleftrightarrow>
      \<not> (\<exists>d \<in> set (DeniedDomains s). entry_matches d (CanonHost h) 0) \<and> CanonHost (CanonHost h) \<noteq> [] \<and>
      (\<exists>d \<in> set (AllowedDomains s). Classify d = (CanonHost (CanonHost h), [], 0)))"
proof -
  let ?p = "CompilePolicy s" and ?k = "CanonHost h"
  have authored: "(\<exists>port. (?k, port) \<in> set (allowedExactAnyPort ?p) \<and> hostPortKey ?k port \<notin> set (deniedExactPort ?p) \<and>
        \<not> MatchWildPort ?k port (deniedWildPort ?p)) \<longleftrightarrow>
      ?k \<noteq> [] \<and> (\<exists>d \<in> set (AllowedDomains s). \<exists>port. 0 < port \<and> Classify d = (?k, [], port) \<and> evalHost ?p h port = hostAllow)"
    if nd: "\<not> exactHostDenied ?p ?k"
  proof -
    have "evalHost ?p h port = hostAllow \<longleftrightarrow>
        hostPortKey ?k port \<notin> set (deniedExactPort ?p) \<and> \<not> MatchWildPort ?k port (deniedWildPort ?p)"
      if "d \<in> set (AllowedDomains s)" "Classify d = (?k, [], port)" "?k \<noteq> []" for d port
    proof -
      have "entry_matches d ?k port" using that by (simp add: entry_matches_def)
      then have "allow_lookup ?p ?k port" using that(1) by (auto simp: compile_lookup)
      then show ?thesis using nd by (auto simp: evalHost_lookup deny_lookup_def exactHostDenied_def split: if_splits)
    qed
    then show ?thesis unfolding compile_any_port by blast
  qed
  have pos: "0 \<le> port" if "Classify d = (e, w, port)" for d e w port using Classify_port_range [OF that] by simp
  have "AllowedExactHost ?p h \<longleftrightarrow> \<not> exactHostDenied ?p ?k \<and> ?k \<noteq> [] \<and>
      (\<exists>d \<in> set (AllowedDomains s). \<exists>port. Classify d = (?k, [], port) \<and> (port = 0 \<or> evalHost ?p h port = hostAllow))"
  proof (cases "exactHostDenied ?p ?k")
    case False
    then have "AllowedExactHost ?p h \<longleftrightarrow> ?k \<in> set (allowedExact ?p) \<or>
        (\<exists>port. (?k, port) \<in> set (allowedExactAnyPort ?p) \<and> hostPortKey ?k port \<notin> set (deniedExactPort ?p) \<and>
           \<not> MatchWildPort ?k port (deniedWildPort ?p))"
      by (auto simp: AllowedExactHost_def Let_def list_ex_iff)
    then show ?thesis unfolding authored [OF False] compile_exact using False pos
      by (metis linorder_not_less order_antisym)
  qed (simp add: AllowedExactHost_def Let_def)
  moreover have "AllowedBareExactHost ?p h \<longleftrightarrow> \<not> exactHostDenied ?p ?k \<and> CanonHost ?k \<noteq> [] \<and>
      (\<exists>d \<in> set (AllowedDomains s). Classify d = (CanonHost ?k, [], 0))"
    by (simp add: AllowedBareExactHost_def Let_def compile_exact)
  ultimately show ?thesis by (simp only: exactHostDenied_compile)
qed

text \<open>
  With the port rule on, a request the policy allows and the rule does not refuse goes to port 80 or 443, or to a
  port some allowed_domains entry matching the host names explicitly.
\<close>

theorem port_rule_needs_authored_port:
  assumes "evalHost (CompilePolicy s) h port = hostAllow" and "\<not> portRuleRefuses PortRuleOn (CompilePolicy s) h port"
  shows "port = 80 \<or> port = 443 \<or>
    (\<exists>d \<in> set (AllowedDomains s). entry_matches d (CanonHost h) port \<and> snd (snd (Classify d)) = port)"
proof -
  have "port = 80 \<or> port = 443 \<or> AuthoredPortFor (CompilePolicy s) h port"
    using assms(2) by (auto simp: portRuleRefuses_def port_rule_defs split: if_splits)
  moreover have "AuthoredPortFor (CompilePolicy s) h port \<Longrightarrow> ?thesis"
    unfolding AuthoredPortFor_def Let_def compile_exact_port compile_wild_port
    by (fastforce simp: entry_matches_def split: if_splits)
  ultimately show ?thesis by blast
qed

theorem port_rule_witness:
  "\<exists>d \<in> set [''*.example.com:8443'']. entry_matches d (CanonHost ''a.example.com'') 8443 \<and> snd (snd (Classify d)) = 8443"
proof -
  let ?s = "empty_spec\<lparr>AllowedDomains := [''*.example.com:8443'']\<rparr>"
  have "evalHost (CompilePolicy ?s) ''a.example.com'' 8443 = hostAllow"
    "\<not> portRuleRefuses PortRuleOn (CompilePolicy ?s) ''a.example.com'' 8443" by code_simp+
  from port_rule_needs_authored_port [OF this] show ?thesis by (simp add: empty_spec_def)
qed

end
