(* ===== verification/EgressGuard.thy ===== *)
theory EgressGuard
  imports EgressPolicy
begin

section \<open>The dial guard: literal_ip_guard.go, hard_deny.go and egress_target.go\<close>

text \<open>
  Which address a forward-egress call may dial. \<open>vetHostLift\<close> resolves a name and refuses it when any answer is
  blocked, \<open>egressTarget\<close> composes the runner's hard deny, the operator's trusted literals, the corporate upstream with
  its bypass list, and the internal-host lift with its clamp on the proxy's own networks. The DNS resolver is an
  argument (a field of the proxy's record): it maps a name to its answers, \<open>None\<close> being a failed lookup. The reasons
  printed in a refusal are not modelled, its kind and lift hint are.
\<close>

subsection \<open>Spellings of an address that net.ParseIP refuses\<close>

text \<open>\<open>strconv.ParseUint(s, base, 32)\<close> for the bases 8, 10 and 16.\<close>

definition base_digit :: "char \<Rightarrow> int option" where
  "base_digit c =
     (let x = byte_of c in
      if 48 \<le> x \<and> x \<le> 57 then Some (x - 48)
      else if 97 \<le> x \<and> x \<le> 122 then Some (x - 87)
      else if 65 \<le> x \<and> x \<le> 90 then Some (x - 55)
      else None)"

fun uint_digits :: "int \<Rightarrow> int \<Rightarrow> string \<Rightarrow> int option" where
  "uint_digits base n [] = Some n"
| "uint_digits base n (c # s) =
     (case base_digit c of
        None \<Rightarrow> None
      | Some d \<Rightarrow> if d \<ge> base \<or> n * base + d > 4294967295 then None else uint_digits base (n * base + d) s)"

definition ParseUint32 :: "string \<Rightarrow> int \<Rightarrow> int option" where
  "ParseUint32 s base = (if s = [] then None else uint_digits base 0 s)"

definition inetAtonPart :: "string \<Rightarrow> int option" where
  "inetAtonPart s =
     (if HasPrefix s ''0x'' then ParseUint32 (drop 2 s) 16
      else if length s > 1 \<and> hd s = CHR ''0'' then ParseUint32 (tl s) 8
      else ParseUint32 s 10)"

text \<open>The host as the guards read it: lower case, one trailing dot dropped, surrounding space trimmed.\<close>

definition norm_host :: "string \<Rightarrow> string" where
  "norm_host host = TrimSuffix (ToLower (TrimSpace host)) ''.''"

text \<open>The parts before the last are one byte each, the last fills the remaining bytes.\<close>

fun aton_value :: "int \<Rightarrow> int list \<Rightarrow> int option" where
  "aton_value room [] = None"
| "aton_value room [v] = (if v < room then Some v else None)"
| "aton_value room (v # vs) =
     (if v > 255 then None else map_option (\<lambda>r. v * (room div 256) + r) (aton_value (room div 256) vs))"

definition nonCanonicalIPv4 :: "string \<Rightarrow> ip option" where
  "nonCanonicalIPv4 host =
     (let h = norm_host host in
      if h = [] \<or> ParseIP h \<noteq> None then None
      else
        let parts = Split h (CHR ''.''); vals = map inetAtonPart parts in
        if length parts > 4 \<or> None \<in> set vals then None
        else map_option (\<lambda>a. IPv4 (word_of_int (a div 16777216)) (word_of_int (a div 65536))
                                  (word_of_int (a div 256)) (word_of_int a))
               (aton_value 4294967296 (map the vals)))"

definition zonedIPv6Literal :: "string \<Rightarrow> ip option" where
  "zonedIPv6Literal host =
     (let h0 = norm_host host in
      if h0 = [] \<or> ParseIP h0 \<noteq> None then None
      else
        let h = (case Index h0 ''%25'' of None \<Rightarrow> h0 | Some i \<Rightarrow> take i h0 @ ''%'' @ drop (i + 3) h0) in
        case ParseAddrZone h of
          None \<Rightarrow> None
        | Some (a, z) \<Rightarrow> if z = [] then None else Some (AsSlice a))"

definition nonCanonicalLiteralIP :: "string \<Rightarrow> ip option" where
  "nonCanonicalLiteralIP host =
     (case nonCanonicalIPv4 host of Some ip \<Rightarrow> Some ip | None \<Rightarrow> zonedIPv6Literal host)"


subsection \<open>hard_deny.go\<close>

record HardDenyConfig =
  hdc_Suffixes :: "string list"
  hdc_Hosts :: "string list"
  hdc_CIDRs :: "string list"

text \<open>An address of the set with its zone, as \<open>netip.Addr\<close> keeps it.\<close>

record hardDeny =
  hd_suffixes :: "string list"
  hd_names :: "string list"
  hd_ips :: "(addr \<times> string) list"
  hd_cidrs :: "prefix list"

definition normalizeHost :: "string \<Rightarrow> string" where
  "normalizeHost h = TrimRight (ToLower (TrimSpace h)) ''.''"

text \<open>\<open>Addr.Unmap\<close> on an address with its zone: a mapped address loses both.\<close>

definition unmap_zone :: "addr \<times> string \<Rightarrow> addr \<times> string" where
  "unmap_zone az = (case az of (a, z) \<Rightarrow> if Is4In6 a then (Unmap a, []) else (a, z))"

fun compile_deny_hosts :: "string list \<Rightarrow> hardDeny \<Rightarrow> hardDeny option" where
  "compile_deny_hosts [] h = Some h"
| "compile_deny_hosts (s # ss) h =
     (let n = normalizeHost s in
      if n = [] then None
      else case ParseAddrZone (Trim n ''[]'') of
        Some az \<Rightarrow> compile_deny_hosts ss (h\<lparr>hd_ips := hd_ips h @ [unmap_zone az]\<rparr>)
      | None \<Rightarrow> compile_deny_hosts ss (h\<lparr>hd_names := hd_names h @ [n]\<rparr>))"

fun compile_deny_cidrs :: "string list \<Rightarrow> prefix list option" where
  "compile_deny_cidrs [] = Some []"
| "compile_deny_cidrs (s # ss) =
     (case ParsePrefix (TrimSpace s) of
        None \<Rightarrow> None
      | Some p \<Rightarrow> map_option (\<lambda>ps. prefix_Masked p # ps) (compile_deny_cidrs ss))"

text \<open>The outer \<open>None\<close> is the error, \<open>Some None\<close> no deny set.\<close>

definition compileHardDeny :: "HardDenyConfig option \<Rightarrow> hardDeny option option" where
  "compileHardDeny c =
     (case c of
        None \<Rightarrow> Some None
      | Some c \<Rightarrow>
          if hdc_Suffixes c = [] \<and> hdc_Hosts c = [] \<and> hdc_CIDRs c = [] then Some None
          else
            let sfx = map normalizeHost (hdc_Suffixes c) in
            if [] \<in> set sfx then None
            else case compile_deny_hosts (hdc_Hosts c) \<lparr>hd_suffixes = sfx, hd_names = [], hd_ips = [], hd_cidrs = []\<rparr> of
              None \<Rightarrow> None
            | Some h \<Rightarrow> map_option (\<lambda>ps. Some (h\<lparr>hd_cidrs := ps\<rparr>)) (compile_deny_cidrs (hdc_CIDRs c)))"

definition hardDeny_ip :: "hardDeny option \<Rightarrow> ip \<Rightarrow> bool" where
  "hardDeny_ip hdeny ip =
     (case hdeny of
        None \<Rightarrow> False
      | Some h \<Rightarrow>
          (case AddrFromSlice ip of
             None \<Rightarrow> True
           | Some a0 \<Rightarrow> let a = Unmap a0 in (a, []) \<in> set (hd_ips h) \<or> list_ex (\<lambda>p. prefix_Contains p a) (hd_cidrs h)))"

definition hardDeny_name :: "hardDeny option \<Rightarrow> string \<Rightarrow> bool" where
  "hardDeny_name hdeny host0 =
     (case hdeny of
        None \<Rightarrow> False
      | Some h \<Rightarrow>
          let host = normalizeHost host0 in
          case ParseIP (Trim host ''[]'') of
            Some ip \<Rightarrow> hardDeny_ip hdeny ip
          | None \<Rightarrow> host \<in> set (hd_names h) \<or>
                    list_ex (\<lambda>s. host = s \<or> HasSuffix host (CHR ''.'' # s)) (hd_suffixes h))"


subsection \<open>The proxy's own state, as far as the guard reads it\<close>

datatype noProxyRule = NoProxySuffix string | NoProxyCIDR ipnet

record internalHostRule =
  ih_suffix :: string
  ih_cidrs :: "ipnet list"

record localModel =
  lm_plaintext :: bool
  lm_relayed :: bool

record Proxy =
  px_policy :: "Policy option"
  px_hardDeny :: "hardDeny option"
  px_upstream :: bool
  px_noProxy :: "noProxyRule list"
  px_internalHosts :: "internalHostRule list"
  px_exclusionUnknown :: bool
  px_controlPlaneIPs :: "ip list"
  px_localSubnets :: "ipnet list"
  px_localModels :: "(string \<times> localModel) list"
  px_res :: "string \<Rightarrow> ip list option"

definition onOwnSubnetOrControlPlane :: "Proxy \<Rightarrow> ip \<Rightarrow> bool" where
  "onOwnSubnetOrControlPlane p ip =
     (if px_exclusionUnknown p then True
      else list_ex (\<lambda>cp. ip_Equal cp ip) (px_controlPlaneIPs p) \<or> list_ex (\<lambda>n. ipnet_Contains n ip) (px_localSubnets p))"

definition onControlPlane :: "Proxy \<Rightarrow> ip \<Rightarrow> bool" where
  "onControlPlane p ip = (px_exclusionUnknown p \<or> list_ex (\<lambda>cp. ip_Equal ip cp) (px_controlPlaneIPs p))"

definition liftInternalHost :: "Proxy \<Rightarrow> string \<Rightarrow> ip \<Rightarrow> bool" where
  "liftInternalHost p host ip =
     (if onOwnSubnetOrControlPlane p ip then False
      else list_ex (\<lambda>r. (host = ih_suffix r \<or> HasSuffix host (CHR ''.'' # ih_suffix r)) \<and>
                        (ih_cidrs r = [] \<or> list_ex (\<lambda>c. ipnet_Contains c ip) (ih_cidrs r))) (px_internalHosts p))"

text \<open>\<open>net.IPMask.Size\<close>: the leading ones, and (0, 0) for a mask that is not ones followed by zeros.\<close>

fun leading_ones :: "bool list \<Rightarrow> nat" where
  "leading_ones (True # bs) = Suc (leading_ones bs)"
| "leading_ones bs = 0"

definition mask_bits :: "byte list \<Rightarrow> bool list" where
  "mask_bits m = concat (map (\<lambda>b. map (\<lambda>i. bit b i) [7, 6, 5, 4, 3, 2, 1, 0]) m)"

definition mask_size :: "byte list \<Rightarrow> nat \<times> nat" where
  "mask_size m =
     (let bs = mask_bits m; n = leading_ones bs in if True \<in> set (drop n bs) then (0, 0) else (n, length bs))"

definition netipPrefix :: "ipnet \<Rightarrow> (addr \<times> int) option" where
  "netipPrefix n =
     (case AddrFromSlice (net_ip n) of
        None \<Rightarrow> None
      | Some a0 \<Rightarrow>
          let (ones, bits) = mask_size (net_mask n); a = Unmap a0 in
          Some (a, if \<not> Is6 a \<and> bits = 128 then int ones - 96 else int ones))"

fun addr_Next :: "addr \<Rightarrow> addr option" where
  "addr_Next (Addr4 w) = (if w = - 1 then None else Some (Addr4 (w + 1)))"
| "addr_Next (Addr6 w) = (if w = - 1 then None else Some (Addr6 (w + 1)))"

text \<open>\<open>PrefixFrom(addr, ones).Masked().Addr().Next()\<close>; an invalid prefix has no first address.\<close>

definition first_host :: "addr \<times> int \<Rightarrow> addr option" where
  "first_host ab =
     (case ab of (a, ones) \<Rightarrow>
        if ones < 0 \<or> ones > (if Is6 a then 128 else 32) then None
        else addr_Next (prefix_addr (prefix_Masked (Prefix a (nat ones)))))"

definition ownSubnetGateway :: "Proxy \<Rightarrow> ip \<Rightarrow> bool" where
  "ownSubnetGateway p ip =
     (if px_exclusionUnknown p then False
      else case AddrFromSlice ip of
        None \<Rightarrow> False
      | Some a0 \<Rightarrow>
          list_ex (\<lambda>n. case netipPrefix n of None \<Rightarrow> False | Some ab \<Rightarrow> first_host ab = Some (Unmap a0)) (px_localSubnets p))"

definition trustsExactLiteralIP :: "Proxy \<Rightarrow> ip \<Rightarrow> int \<Rightarrow> bool" where
  "trustsExactLiteralIP p ip port =
     (block_kind ip = blockPrivate \<and> \<not> onOwnSubnetOrControlPlane p ip \<and>
      (case px_policy p of None \<Rightarrow> False | Some pol \<Rightarrow> AllowsLiteralIP pol (ip_String ip) port))"

subsection \<open>policy.go: resolving and vetting a host\<close>

record IPGuardResult =
  gr_IP :: "ip option"
  gr_Denied :: bool
  gr_kind :: blockKind
  gr_blocked :: "ip option"
  gr_Lifted :: bool
  gr_Unresolved :: bool

definition guard_admit :: "ip \<Rightarrow> bool \<Rightarrow> IPGuardResult" where
  "guard_admit ip lifted = \<lparr>gr_IP = Some ip, gr_Denied = False, gr_kind = blockNone, gr_blocked = None,
                            gr_Lifted = lifted, gr_Unresolved = False\<rparr>"

definition guard_deny :: "blockKind \<Rightarrow> ip option \<Rightarrow> bool \<Rightarrow> IPGuardResult" where
  "guard_deny kind blocked unresolved = \<lparr>gr_IP = None, gr_Denied = True, gr_kind = kind, gr_blocked = blocked,
                                         gr_Lifted = False, gr_Unresolved = unresolved\<rparr>"

text \<open>The lift predicate a caller passes. \<open>vetHost\<close>'s closure sets a flag when it refused for the clamp: the flag is
  threaded through.\<close>

type_synonym lift = "ip \<Rightarrow> bool \<Rightarrow> bool \<times> bool"

text \<open>\<open>admit\<close>: whether the address may be dialled, whether it was lifted, the kind that refused, the flag.\<close>

definition admit_ip :: "lift option \<Rightarrow> ip \<Rightarrow> bool \<Rightarrow> bool \<times> bool \<times> blockKind \<times> bool" where
  "admit_ip lift ip flag =
     (let kind = block_kind ip in
      if kind = blockNone then (True, False, blockNone, flag)
      else if kind = blockPrivate then
        (case lift of
           None \<Rightarrow> (False, False, kind, flag)
         | Some f \<Rightarrow> (case f ip flag of (ok, flag') \<Rightarrow> if ok then (True, True, blockNone, flag') else (False, False, kind, flag')))
      else (False, False, kind, flag))"

fun vet_answers :: "lift option \<Rightarrow> ip list \<Rightarrow> ip \<Rightarrow> bool \<Rightarrow> bool \<Rightarrow> IPGuardResult \<times> bool" where
  "vet_answers lift [] first anyLifted flag = (guard_admit first anyLifted, flag)"
| "vet_answers lift (ip # ips) first anyLifted flag =
     (case admit_ip lift ip flag of (ok, lifted, kind, flag') \<Rightarrow>
        if \<not> ok then (guard_deny kind (Some ip) False, flag')
        else vet_answers lift ips first (anyLifted \<or> lifted) flag')"

definition vetHostLift :: "string \<Rightarrow> (string \<Rightarrow> ip list option) \<Rightarrow> lift option \<Rightarrow> IPGuardResult \<times> bool" where
  "vetHostLift host0 lookup lift =
     (let host = TrimSuffix (ToLower host0) ''.'' in
      if host = [] then (guard_deny blockNone None False, False)
      else case ParseIP host of
        Some ip \<Rightarrow>
          (case admit_ip lift ip False of (ok, lifted, kind, flag) \<Rightarrow>
             if \<not> ok then (guard_deny kind None False, flag) else (guard_admit ip lifted, flag))
      | None \<Rightarrow>
          (case lookup host of
             None \<Rightarrow> (guard_deny blockNone None True, False)
           | Some [] \<Rightarrow> (guard_deny blockNone None True, False)
           | Some (ip # ips) \<Rightarrow> vet_answers lift (ip # ips) ip False False))"

definition VetHost :: "string \<Rightarrow> (string \<Rightarrow> ip list option) \<Rightarrow> IPGuardResult" where
  "VetHost host lookup = fst (vetHostLift host lookup None)"

text \<open>\<open>hardDenyVet\<close>: the resolver the guard goes on with, or the refusal.\<close>

definition hardDenyVet :: "Proxy \<Rightarrow> string \<Rightarrow> IPGuardResult + (string \<Rightarrow> ip list option)" where
  "hardDenyVet p host =
     (if px_hardDeny p = None then Inr (px_res p)
      else if hardDeny_name (px_hardDeny p) host then Inl (guard_deny blockHardDeny None False)
      else
        let name = normalizeHost host in
        if ParseIP (Trim name ''[]'') \<noteq> None then Inr (px_res p)
        else case px_res p name of
          None \<Rightarrow> Inl (guard_deny blockNone None True)
        | Some ips \<Rightarrow>
            if ips = [] then Inl (guard_deny blockNone None True)
            else if list_ex (hardDeny_ip (px_hardDeny p)) ips then Inl (guard_deny blockHardDeny None False)
            else Inr (\<lambda>_. Some ips))"

definition clampKind :: "Proxy \<Rightarrow> blockKind" where
  "clampKind p = (if px_exclusionUnknown p then blockExclusionUnknown else blockOwnNetwork)"

definition vetHost_lift :: "Proxy \<Rightarrow> string \<Rightarrow> lift" where
  "vetHost_lift p normalized ip clamped =
     (if onOwnSubnetOrControlPlane p ip then (False, True) else (liftInternalHost p normalized ip, clamped))"

definition vetHost :: "Proxy \<Rightarrow> string \<Rightarrow> IPGuardResult" where
  "vetHost p host =
     (case hardDenyVet p host of
        Inl refused \<Rightarrow> refused
      | Inr res \<Rightarrow>
          (case vetHostLift host res (Some (vetHost_lift p (norm_host host))) of (guard, clamped) \<Rightarrow>
             if gr_Denied guard \<and> clamped then guard\<lparr>gr_kind := clampKind p\<rparr> else guard))"


subsection \<open>egress_target.go: the dial target\<close>

definition noProxyRulesCoverHost :: "noProxyRule list \<Rightarrow> string \<Rightarrow> bool" where
  "noProxyRulesCoverHost rules host =
     (let h = norm_host host; ip = ParseIP h in
      if h = [] then False
      else list_ex (\<lambda>r. case r of
             NoProxyCIDR c \<Rightarrow> (case ip of None \<Rightarrow> False | Some x \<Rightarrow> ipnet_Contains c x)
           | NoProxySuffix s \<Rightarrow> h = s \<or> HasSuffix h (CHR ''.'' # s)) rules)"

definition bypassUpstream :: "Proxy \<Rightarrow> string \<Rightarrow> bool" where
  "bypassUpstream p host = (if px_noProxy p = [] then False else noProxyRulesCoverHost (px_noProxy p) host)"

definition normalizeNoProxyEntry :: "string \<Rightarrow> string" where
  "normalizeNoProxyEntry raw = TrimPrefix (norm_host raw) ''.''"

text \<open>The regular expression \<open>^[a-z0-9]([a-z0-9.-]{0,251}[a-z0-9])?$\<close>.\<close>

definition lower_alnum :: "char \<Rightarrow> bool" where
  "lower_alnum c \<longleftrightarrow> is_digit c \<or> is_lower c"

definition noProxyHostRE :: "string \<Rightarrow> bool" where
  "noProxyHostRE s \<longleftrightarrow>
     s \<noteq> [] \<and> length s \<le> 253 \<and> lower_alnum (hd s) \<and> lower_alnum (last s) \<and>
     list_all (\<lambda>c. lower_alnum c \<or> c = CHR ''.'' \<or> c = CHR ''-'') s"

definition ValidNoProxyEntry :: "string \<Rightarrow> bool" where
  "ValidNoProxyEntry raw =
     (let e = normalizeNoProxyEntry raw in
      if e = [] then False else if ParseCIDR e \<noteq> None then True else noProxyHostRE e)"

fun compileNoProxy :: "string list \<Rightarrow> noProxyRule list" where
  "compileNoProxy [] = []"
| "compileNoProxy (raw # entries) =
     (if \<not> ValidNoProxyEntry raw then compileNoProxy entries
      else (case ParseCIDR (normalizeNoProxyEntry raw) of
              Some n \<Rightarrow> NoProxyCIDR n
            | None \<Rightarrow> NoProxySuffix (normalizeNoProxyEntry raw)) # compileNoProxy entries)"

fun parseInternalHostCIDRs :: "string list \<Rightarrow> ipnet list option" where
  "parseInternalHostCIDRs [] = Some []"
| "parseInternalHostCIDRs (c # cs) =
     (case ParseCIDR c of None \<Rightarrow> None | Some n \<Rightarrow> map_option ((#) n) (parseInternalHostCIDRs cs))"

record InternalHost =
  HostSuffix :: string
  InternalCIDRs :: "string list"

fun compileInternalHosts :: "InternalHost list \<Rightarrow> internalHostRule list" where
  "compileInternalHosts [] = []"
| "compileInternalHosts (h # hs) =
     (let suffix = norm_host (HostSuffix h) in
      if suffix = [] then compileInternalHosts hs
      else case parseInternalHostCIDRs (InternalCIDRs h) of
        None \<Rightarrow> compileInternalHosts hs
      | Some cs \<Rightarrow> \<lparr>ih_suffix = suffix, ih_cidrs = cs\<rparr> # compileInternalHosts hs)"

definition internalHostsLiftHint :: "string \<Rightarrow> prefix \<Rightarrow> string" where
  "internalHostsLiftHint host block =
     ''an operator may lift this guard for '' @ host @ '' with site_config.internal_hosts, scoped to '' @ prefix_String block"

definition liftHint :: "Proxy \<Rightarrow> string \<Rightarrow> IPGuardResult \<Rightarrow> string" where
  "liftHint p host guard =
     (let name = norm_host host in
      case gr_blocked guard of
        None \<Rightarrow> []
      | Some ip \<Rightarrow>
          if gr_kind guard \<noteq> blockPrivate \<or> ParseIP name \<noteq> None \<or> onOwnSubnetOrControlPlane p ip then []
          else (case AddrFromSlice ip of
                  None \<Rightarrow> []
                | Some a \<Rightarrow> (case find (\<lambda>b. prefix_Contains b (Unmap a)) Liftable of
                               None \<Rightarrow> [] | Some b \<Rightarrow> internalHostsLiftHint name b)))"

datatype target_error = hostBlockedError blockKind string | errHostUnresolved

definition ruleSourceInternalHost :: string where "ruleSourceInternalHost = ''site-config:internal-host''"
definition ruleSourceEgressRedirect :: string where "ruleSourceEgressRedirect = ''site-config:egress-redirect''"

definition egressTarget :: "Proxy \<Rightarrow> string \<Rightarrow> int \<Rightarrow> target_error + string \<times> string" where
  "egressTarget p host port =
     (if hardDeny_name (px_hardDeny p) host then Inl (hostBlockedError blockHardDeny [])
      else case (case ParseIP (TrimSuffix (ToLower host) ''.'') of
                   None \<Rightarrow> None
                 | Some ip \<Rightarrow> if trustsExactLiteralIP p ip port then Some ip else None) of
        Some ip \<Rightarrow> Inr (JoinHostPort (ip_String ip) (Itoa port), ruleSourceEgressRedirect)
      | None \<Rightarrow>
          let guard = vetHost p host;
              blocked = Inl (hostBlockedError (gr_kind guard) (liftHint p host guard));
              rs = (if gr_Lifted guard then ruleSourceInternalHost else [])
          in
          if px_upstream p \<and> \<not> bypassUpstream p host then
            (case nonCanonicalLiteralIP host of
               Some ip \<Rightarrow>
                 if block_kind ip \<noteq> blockNone then Inl (hostBlockedError (block_kind ip) [])
                 else if gr_Denied guard \<and> \<not> gr_Unresolved guard then blocked
                 else Inr (JoinHostPort host (Itoa port), rs)
             | None \<Rightarrow>
                 if gr_Denied guard \<and> \<not> gr_Unresolved guard then blocked
                 else Inr (JoinHostPort host (Itoa port), rs))
          else if gr_Denied guard then (if gr_Unresolved guard then Inl errHostUnresolved else blocked)
          else Inr (JoinHostPort (ip_String (the (gr_IP guard))) (Itoa port), rs))"

definition localModelKey :: "string \<Rightarrow> int \<Rightarrow> string" where
  "localModelKey host port = TrimSuffix (ToLower host) ''.'' @ CHR 0x00 # Itoa port"

definition localModelAt :: "Proxy \<Rightarrow> string \<Rightarrow> int \<Rightarrow> localModel option" where
  "localModelAt p host port = map_of (px_localModels p) (localModelKey host port)"

definition gateway_refuses :: "Proxy \<Rightarrow> localModel option \<Rightarrow> ip \<Rightarrow> bool" where
  "gateway_refuses p lm ip =
     (case lm of
        Some m \<Rightarrow>
          if lm_relayed m \<and> \<not> px_exclusionUnknown p \<and> list_ex (\<lambda>cp. ip_Equal ip cp) (px_controlPlaneIPs p)
          then GatewayIPRefused ip
          else if ownSubnetGateway p ip \<and> \<not> onControlPlane p ip then GatewayIPRefused ip
          else GatewayIPRefused ip \<or> onOwnSubnetOrControlPlane p ip
      | None \<Rightarrow> GatewayIPRefused ip \<or> onOwnSubnetOrControlPlane p ip)"

text \<open>\<open>None\<close> is \<open>errGatewayVet\<close>.\<close>

definition vetTrustedHost :: "Proxy \<Rightarrow> string \<Rightarrow> int \<Rightarrow> string option" where
  "vetTrustedHost p host port =
     (let h = TrimSuffix (ToLower host) ''.''; lm = localModelAt p h port in
      case ParseIP h of
        Some ip \<Rightarrow> if gateway_refuses p lm ip then None else Some (JoinHostPort (ip_String ip) (Itoa port))
      | None \<Rightarrow>
          (case px_res p h of
             None \<Rightarrow> None
           | Some [] \<Rightarrow> None
           | Some (ip # ips) \<Rightarrow>
               if list_ex (gateway_refuses p lm) (ip # ips) then None
               else Some (JoinHostPort (ip_String ip) (Itoa port))))"

definition gatewayTarget :: "Proxy \<Rightarrow> string \<Rightarrow> int \<Rightarrow> string option" where
  "gatewayTarget p host port =
     (if px_upstream p \<and> \<not> bypassUpstream p host then Some (JoinHostPort host (Itoa port))
      else vetTrustedHost p host port)"


subsection \<open>literal_ip_guard.go: step 0 of a decision\<close>

datatype literal_verdict = LiteralDeny | LiteralTrusted ip | LiteralContinue

definition literalIPGuard :: "Proxy \<Rightarrow> string \<Rightarrow> int \<Rightarrow> literal_verdict" where
  "literalIPGuard p host port =
     (case ParseIP (TrimSuffix (ToLower host) ''.'') of
        Some ip \<Rightarrow>
          if hardDeny_ip (px_hardDeny p) ip then LiteralDeny
          else if block_kind ip \<noteq> blockNone then
            (if \<not> trustsExactLiteralIP p ip port then LiteralDeny else LiteralTrusted ip)
          else LiteralContinue
      | None \<Rightarrow>
          (case nonCanonicalLiteralIP host of
             Some ip \<Rightarrow> if block_kind ip \<noteq> blockNone then LiteralDeny else LiteralContinue
           | None \<Rightarrow> LiteralContinue))"

subsection \<open>The text of an address\<close>

text \<open>What \<open>net.ParseIP\<close> reads is made of hexadecimal digits, colons and dots and does not end in a dot: the
  normalizations of the guards leave it alone.\<close>

definition ip_text :: "string \<Rightarrow> bool" where
  "ip_text s \<longleftrightarrow> (\<forall>c\<in>set s. is_hex c \<or> c = CHR '':'' \<or> c = CHR ''.'') \<and> (s = [] \<or> last s \<noteq> CHR ''.'')"

lemma is_digit_is_hex: "is_digit c \<Longrightarrow> is_hex c"
  by (simp add: is_hex_def hex_val_def)

lemma parse4_loop_text: "parse4_loop s e v n fs = Some r \<Longrightarrow> ip_text s"
proof (induction s e v n fs rule: parse4_loop.induct)
  case (2 c s e v n fs)
  then have "ip_text s" "is_digit c \<or> c = CHR ''.'' \<and> s \<noteq> []" by (auto split: if_splits)
  then show ?case by (auto simp: ip_text_def is_digit_is_hex)
qed (simp add: ip_text_def)

lemma parse4_fields_text: "parse4_fields s = Some r \<Longrightarrow> ip_text s"
  by (auto simp: parse4_fields_def dest: parse4_loop_text)

lemma hex_text: "\<forall>c\<in>set s. is_hex c \<Longrightarrow> ip_text s"
proof -
  assume hex: "\<forall>c\<in>set s. is_hex c"
  have "last s \<noteq> CHR ''.''" if "s \<noteq> []"
    using hex last_in_set [OF that] not_hex_sep by metis
  then show ?thesis using hex by (auto simp: ip_text_def)
qed

lemma parse6_loop_text: "parse6_loop k s ip ell = Some ([], ip', ell') \<Longrightarrow> ip_text s"
proof (induction k s ip ell rule: parse6_loop.induct)
  case (1 s ip ell)
  then show ?case by (simp add: ip_text_def)
next
  case (2 k s ip ell)
  have s: "s = takeWhile is_hex s @ dropWhile is_hex s" by simp
  have hex: "\<forall>c\<in>set (takeWhile is_hex s). is_hex c" by (auto dest: set_takeWhileD)
  show ?case
  proof (cases "dropWhile is_hex s")
    case Nil
    then have "\<forall>c\<in>set s. is_hex c" using s hex by (metis append_Nil2)
    then show ?thesis by (rule hex_text)
  next
    case (Cons c s1)
    show ?thesis
    proof (cases "c = CHR ''.''")
      case True
      then show ?thesis using "2.prems" Cons
        by (auto simp: Let_def split: if_splits option.splits dest: parse4_fields_text)
    next
      case False
      have c: "c = CHR '':''" "s1 \<noteq> []" using "2.prems" Cons False by (auto simp: Let_def split: if_splits)
      have rest: "ip_text s1"
      proof (cases "hd s1 = CHR '':''")
        case True
        then have "s1 = CHR '':'' # tl s1" using c(2) by (metis list.collapse)
        moreover have "ip_text (tl s1)"
          using "2.prems" "2.IH"(1) Cons False c True by (auto simp: Let_def ip_text_def split: if_splits)
        ultimately show ?thesis by (cases "tl s1") (auto simp: ip_text_def)
      next
        case nc: False
        then show ?thesis using "2.prems" "2.IH"(2) Cons False c by (auto simp: Let_def split: if_splits)
      qed
      have "s = takeWhile is_hex s @ c # s1" using s Cons by metis
      then show ?thesis using hex rest c unfolding ip_text_def
        by (metis (no_types, lifting) Un_iff last_append last_ConsR list.distinct(1) set_ConsD set_append)
    qed
  qed
qed

lemma parse6_done: "parse6_loop k s ip ell = Some t \<Longrightarrow> parse6_finish t = Some r \<Longrightarrow> ip_text s"
  by (cases t) (auto simp: parse6_finish_def split: if_splits dest: parse6_loop_text)

lemma ip_text_cons2: "ip_text s \<Longrightarrow> ip_text (CHR '':'' # CHR '':'' # s)"
  by (auto simp: ip_text_def)

lemma parse6_bytes_text: "parse6_bytes s = Some r \<Longrightarrow> ip_text s"
proof -
  assume a: "parse6_bytes s = Some r"
  show ?thesis
  proof (cases "prefix ''::'' s")
    case True
    then obtain t where t: "s = ''::'' @ t" by (auto simp: prefix_def)
    have "t = [] \<or> ip_text t" using a t
      by (auto simp: parse6_bytes_def simp del: parse6_loop.simps split: if_splits option.splits dest: parse6_done)
    then show ?thesis using t ip_text_cons2 [of t] by (auto simp: ip_text_def)
  next
    case False
    then show ?thesis using a
      by (auto simp: parse6_bytes_def simp del: parse6_loop.simps split: if_splits option.splits dest: parse6_done)
  qed
qed

lemma ParseIP_text: "ParseIP s = Some ip \<Longrightarrow> ip_text s"
  by (auto simp: ParseIP_def ParseAddrZone_def parse_v6_zone_def dest: parse4_fields_text parse6_bytes_text
      split: option.splits if_splits prod.splits)

lemma trim_left_by_id: "s = [] \<or> \<not> P (hd s) \<Longrightarrow> trim_left_by P s = s"
  by (cases s) (auto simp: trim_left_by_def)

lemma Trim_id: "\<forall>c\<in>set s. c \<notin> set cs \<Longrightarrow> Trim s cs = s"
  unfolding Trim_def by (subst trim_left_by_id, (cases s; simp), rule trim_right_by_id, metis last_in_set)

lemma TrimSpace_id: "\<forall>c\<in>set s. \<not> is_space c \<Longrightarrow> TrimSpace s = s"
  unfolding TrimSpace_def by (subst trim_left_by_id, (cases s; simp), rule trim_right_by_id, metis last_in_set)

lemma is_space_lower: "is_space c \<Longrightarrow> is_space (lower_char c)"
  by (auto simp: is_space_def lower_char_def is_upper_def)

lemma ip_text_no_space: "is_hex c \<or> c = CHR '':'' \<or> c = CHR ''.'' \<Longrightarrow> \<not> is_space c \<and> c \<notin> set ''[]''"
  by (auto simp: is_space_def is_hex_def hex_val_def is_digit_def split: if_splits)

lemma ParseIP_Nil [simp]: "ParseIP [] = None"
  by (simp add: ParseIP_def ParseAddrZone_def)

text \<open>An address read at one normalization of the host is read at the others.\<close>

lemma literal_normal:
  assumes "ParseIP (TrimSuffix (ToLower host) ''.'') = Some ip"
  shows "normalizeHost host = TrimSuffix (ToLower host) ''.''" and "norm_host host = TrimSuffix (ToLower host) ''.''"
    and "Trim (normalizeHost host) ''[]'' = TrimSuffix (ToLower host) ''.''"
proof -
  let ?s = "TrimSuffix (ToLower host) ''.''"
  have tx: "ip_text ?s" using assms by (rule ParseIP_text)
  have "ToLower host = ?s \<or> ToLower host = ?s @ ''.''" using TrimSuffix_cases [of "ToLower host" "''.''"] by metis
  then have "set (ToLower host) \<subseteq> insert (CHR ''.'') (set ?s)"
    by (metis Un_insert_right append_Nil2 list.simps(15) order_refl set_append subset_insertI sup_bot.right_neutral list.set(1))
  then have chars: "\<forall>c\<in>set (ToLower host). is_hex c \<or> c = CHR '':'' \<or> c = CHR ''.''"
    using tx by (auto simp: ip_text_def)
  have "\<not> is_space c" if "c \<in> set host" for c
  proof -
    have "lower_char c \<in> set (ToLower host)" using that by (simp add: ToLower_def)
    then have "\<not> is_space (lower_char c)" using chars ip_text_no_space by blast
    then show ?thesis using is_space_lower by blast
  qed
  then have "\<forall>c\<in>set host. \<not> is_space c" by blast
  then have sp: "TrimSpace host = host" by (rule TrimSpace_id)
  then show "norm_host host = ?s" by (simp add: norm_host_def)
  have "?s \<noteq> []" using assms by auto
  then have last: "?s = [] \<or> last ?s \<notin> set ''.''" using tx by (auto simp: ip_text_def)
  have "TrimRight ?s ''.'' = ?s" unfolding TrimRight_def by (rule trim_right_by_id) (use last in auto)
  then have "TrimRight (ToLower host) ''.'' = ?s"
    using \<open>ToLower host = ?s \<or> ToLower host = ?s @ ''.''\<close> TrimRight_snoc_in [of "CHR ''.''" "''.''" ?s]
    by (metis list.set_intros(1))
  then show n: "normalizeHost host = ?s" using sp by (simp add: normalizeHost_def)
  have "\<forall>c\<in>set ?s. c \<notin> set ''[]''" using tx ip_text_no_space unfolding ip_text_def by blast
  then show "Trim (normalizeHost host) ''[]'' = ?s" unfolding n by (rule Trim_id)
qed

lemma hardDeny_name_literal:
  "ParseIP (TrimSuffix (ToLower host) ''.'') = Some ip \<Longrightarrow> hardDeny_name hdeny host = hardDeny_ip hdeny ip"
  using literal_normal(3) [of host ip] by (cases hdeny) (auto simp: hardDeny_name_def hardDeny_ip_def Let_def)


subsection \<open>What a vetted host answers\<close>

definition admissible :: "lift option \<Rightarrow> ip \<Rightarrow> bool" where
  "admissible lift ip \<longleftrightarrow> block_kind ip = blockNone \<or>
     (block_kind ip = blockPrivate \<and> (\<exists>f flag. lift = Some f \<and> fst (f ip flag)))"

lemma admit_ip_ok: "admit_ip lift ip flag = (True, lifted, k, flag') \<Longrightarrow>
   admissible lift ip \<and> (lifted \<longleftrightarrow> block_kind ip \<noteq> blockNone)"
proof -
  assume a: "admit_ip lift ip flag = (True, lifted, k, flag')"
  show ?thesis
  proof (cases "block_kind ip = blockPrivate")
    case True
    then obtain f where f: "lift = Some f" "fst (f ip flag)" "lifted"
      using a by (auto simp: admit_ip_def Let_def split: option.splits prod.splits if_splits)
    then show ?thesis using True by (auto simp: admissible_def)
  qed (use a in \<open>auto simp: admit_ip_def Let_def admissible_def split: if_splits\<close>)
qed

lemma vet_answers_ok:
  "vet_answers lift ips first anyLifted flag = (g, flag') \<Longrightarrow> \<not> gr_Denied g \<Longrightarrow>
   g = guard_admit first (anyLifted \<or> (\<exists>ip\<in>set ips. block_kind ip \<noteq> blockNone)) \<and> (\<forall>ip\<in>set ips. admissible lift ip)"
proof (induction lift ips first anyLifted flag rule: vet_answers.induct)
  case (2 lift ip ips first anyLifted flag)
  obtain ok lifted k f where a: "admit_ip lift ip flag = (ok, lifted, k, f)" by (metis prod_cases4)
  then have ok: ok using "2.prems" by (cases ok) (auto simp: guard_deny_def)
  have ip: "admissible lift ip" "lifted \<longleftrightarrow> block_kind ip \<noteq> blockNone" using admit_ip_ok a ok by auto
  have "vet_answers lift ips first (anyLifted \<or> lifted) f = (g, flag')" using "2.prems"(1) a ok by simp
  from "2.IH" [OF a [symmetric] refl refl _ this "2.prems"(2)] ok ip show ?case by auto
qed (auto simp: guard_admit_def)

text \<open>The addresses a vetted host stands for: the literal itself, or the resolver's answers.\<close>

definition answers :: "(string \<Rightarrow> ip list option) \<Rightarrow> string \<Rightarrow> ip list option" where
  "answers lookup host =
     (let h = TrimSuffix (ToLower host) ''.'' in case ParseIP h of Some ip \<Rightarrow> Some [ip] | None \<Rightarrow> lookup h)"

lemma vetHostLift_ok:
  assumes "vetHostLift host lookup lift = (g, flag)" "\<not> gr_Denied g"
  shows "\<exists>ip ips. answers lookup host = Some (ip # ips) \<and> (\<forall>a\<in>set (ip # ips). admissible lift a) \<and>
           g = guard_admit ip (\<exists>a\<in>set (ip # ips). block_kind a \<noteq> blockNone)"
proof -
  let ?h = "TrimSuffix (ToLower host) ''.''"
  have ne: "?h \<noteq> []" using assms by (auto simp: vetHostLift_def Let_def guard_deny_def split: if_splits)
  show ?thesis
  proof (cases "ParseIP ?h")
    case (Some ip)
    obtain ok lifted k f where a: "admit_ip lift ip False = (ok, lifted, k, f)" by (metis prod_cases4)
    then have "ok" "g = guard_admit ip lifted"
      using assms ne Some by (auto simp: vetHostLift_def Let_def guard_deny_def split: if_splits)
    then show ?thesis using admit_ip_ok a Some by (auto simp: answers_def)
  next
    case None
    then obtain ip ips where l: "lookup ?h = Some (ip # ips)" "vet_answers lift (ip # ips) ip False False = (g, flag)"
      using assms ne by (auto simp: vetHostLift_def Let_def guard_deny_def split: if_splits option.splits list.splits)
    then show ?thesis using vet_answers_ok [OF l(2) assms(2)] None by (auto simp: answers_def)
  qed
qed

text \<open>
  Without a lift, \<open>VetHost\<close> admits a host exactly when it answers and every answer is unblocked, and then the pinned
  address is the first of them: one private answer among public ones refuses the name.
\<close>

theorem VetHost_all_public:
  "\<not> gr_Denied (VetHost host lookup) \<longleftrightarrow>
     TrimSuffix (ToLower host) ''.'' \<noteq> [] \<and>
     (\<exists>ip ips. answers lookup host = Some (ip # ips) \<and> list_all (\<lambda>a. block_kind a = blockNone) (ip # ips) \<and>
               gr_IP (VetHost host lookup) = Some ip)"
proof -
  have all: "list_all (\<lambda>a. block_kind a = blockNone) ips \<Longrightarrow> vet_answers None ips first False flag = (guard_admit first False, flag)"
    for ips first flag
    by (induction ips) (auto simp: admit_ip_def)
  show ?thesis
  proof
    assume nd: "\<not> gr_Denied (VetHost host lookup)"
    obtain g flag where g: "vetHostLift host lookup None = (g, flag)" by force
    then have nd': "\<not> gr_Denied g" using nd by (simp add: VetHost_def)
    have "TrimSuffix (ToLower host) ''.'' \<noteq> []"
      using g nd' by (auto simp: vetHostLift_def guard_deny_def split: if_splits)
    then show "TrimSuffix (ToLower host) ''.'' \<noteq> [] \<and>
     (\<exists>ip ips. answers lookup host = Some (ip # ips) \<and> list_all (\<lambda>a. block_kind a = blockNone) (ip # ips) \<and>
               gr_IP (VetHost host lookup) = Some ip)"
      using vetHostLift_ok [OF g nd'] g
      by (auto simp: VetHost_def admissible_def guard_admit_def list_all_iff)
  next
    assume "TrimSuffix (ToLower host) ''.'' \<noteq> [] \<and>
     (\<exists>ip ips. answers lookup host = Some (ip # ips) \<and> list_all (\<lambda>a. block_kind a = blockNone) (ip # ips) \<and>
               gr_IP (VetHost host lookup) = Some ip)"
    then obtain ip ips where h: "TrimSuffix (ToLower host) ''.'' \<noteq> []" "answers lookup host = Some (ip # ips)"
      "list_all (\<lambda>a. block_kind a = blockNone) (ip # ips)" by blast
    then show "\<not> gr_Denied (VetHost host lookup)"
      using all [OF h(3), of ip False]
      by (cases "ParseIP (TrimSuffix (ToLower host) ''.'')")
        (auto simp: VetHost_def vetHostLift_def answers_def Let_def admit_ip_def guard_admit_def
          simp del: vet_answers.simps)
  qed
qed


subsection \<open>What is dialled\<close>

text \<open>An address a direct dial may go to.\<close>

definition dial_ok :: "Proxy \<Rightarrow> string \<Rightarrow> int \<Rightarrow> ip \<Rightarrow> bool" where
  "dial_ok p host port ip \<longleftrightarrow> \<not> hardDeny_ip (px_hardDeny p) ip \<and>
     (block_kind ip = blockNone \<or>
      (block_kind ip = blockPrivate \<and> \<not> onOwnSubnetOrControlPlane p ip \<and>
       (liftInternalHost p (norm_host host) ip \<or>
        (\<exists>pol. px_policy p = Some pol \<and> AllowsLiteralIP pol (ip_String ip) port))))"

lemma admissible_vetHost:
  "admissible (Some (vetHost_lift p h)) ip \<longleftrightarrow>
     block_kind ip = blockNone \<or> (block_kind ip = blockPrivate \<and> liftInternalHost p h ip)"
  by (auto simp: admissible_def vetHost_lift_def liftInternalHost_def)

lemma lift_off_own_network: "liftInternalHost p h ip \<Longrightarrow> \<not> onOwnSubnetOrControlPlane p ip"
  by (auto simp: liftInternalHost_def)

text \<open>A host as the request parser hands it on (\<open>splitHostPort\<close>): lower case and no trailing dot, and, as in any
  request line, no white space and no brackets.\<close>

definition normal_host :: "string \<Rightarrow> bool" where
  "normal_host host \<longleftrightarrow> ToLower host = host \<and> (host = [] \<or> last host \<noteq> CHR ''.'') \<and>
     list_all (\<lambda>c. \<not> is_space c \<and> c \<noteq> CHR ''['' \<and> c \<noteq> CHR '']'') host"

lemma normal_host_forms:
  assumes "normal_host host"
  shows "TrimSuffix (ToLower host) ''.'' = host" "norm_host host = host" "normalizeHost host = host"
    "Trim host ''[]'' = host"
proof -
  have sp: "TrimSpace host = host" using assms by (intro TrimSpace_id) (simp add: normal_host_def list_all_iff)
  show s: "TrimSuffix (ToLower host) ''.'' = host" using assms TrimSuffix_dot_id [of host] by (simp add: normal_host_def)
  then show "norm_host host = host" by (simp add: norm_host_def sp)
  show "normalizeHost host = host"
    using assms sp unfolding normalizeHost_def TrimRight_def by (auto simp: normal_host_def intro: trim_right_by_id)
  show "Trim host ''[]'' = host" using assms by (intro Trim_id) (auto simp: normal_host_def list_all_iff)
qed

lemma hardDenyVet_answers:
  assumes "hardDenyVet p host = Inr res" "normal_host host" "answers res host = Some ips" "ip \<in> set ips"
  shows "\<not> hardDeny_ip (px_hardDeny p) ip"
proof (cases "px_hardDeny p")
  case None
  then show ?thesis by (simp add: hardDeny_ip_def)
next
  case (Some h)
  note forms = normal_host_forms [OF assms(2)]
  have name: "\<not> hardDeny_name (px_hardDeny p) host"
    using assms(1) Some by (auto simp: hardDenyVet_def split: if_splits)
  show ?thesis
  proof (cases "ParseIP host")
    case lit: (Some lit)
    then show ?thesis using name hardDeny_name_literal [of host lit] assms(3,4) forms by (auto simp: answers_def)
  next
    case None
    then obtain as where as: "px_res p host = Some as" "\<not> list_ex (hardDeny_ip (px_hardDeny p)) as" "res = (\<lambda>_. Some as)"
      using assms(1) Some name forms by (auto simp: hardDenyVet_def Let_def split: option.splits if_splits)
    then show ?thesis using assms(3,4) None forms by (auto simp: answers_def list_ex_iff)
  qed
qed

text \<open>The answers the guard judged are the literal or the resolver's for the host.\<close>

lemma hardDenyVet_same_answers:
  assumes "hardDenyVet p host = Inr res" "normal_host host"
  shows "answers res host = answers (px_res p) host"
  using assms normal_host_forms [OF assms(2)]
  by (auto simp: hardDenyVet_def answers_def Let_def split: option.splits if_splits)

lemma vetHost_ok:
  assumes "\<not> gr_Denied (vetHost p host)" "normal_host host"
  shows "\<exists>ip ips. answers (px_res p) host = Some (ip # ips) \<and>
           (\<forall>a\<in>set (ip # ips). \<not> hardDeny_ip (px_hardDeny p) a \<and>
              (block_kind a = blockNone \<or> (block_kind a = blockPrivate \<and> liftInternalHost p host a))) \<and>
           vetHost p host = guard_admit ip (\<exists>a\<in>set (ip # ips). block_kind a \<noteq> blockNone)"
proof -
  obtain res where res: "hardDenyVet p host = Inr res"
    using assms(1) by (auto simp: vetHost_def hardDenyVet_def guard_deny_def Let_def
        split: sum.splits option.splits if_splits)
  obtain g clamped where g: "vetHostLift host res (Some (vetHost_lift p host)) = (g, clamped)" by force
  have v: "vetHost p host = (if gr_Denied g \<and> clamped then g\<lparr>gr_kind := clampKind p\<rparr> else g)"
    using res g normal_host_forms [OF assms(2)] by (simp add: vetHost_def)
  then have nd: "\<not> gr_Denied g" using assms(1) by (auto split: if_splits)
  then have vg: "vetHost p host = g" using v by simp
  obtain ip ips where ans: "answers res host = Some (ip # ips)" "\<forall>a\<in>set (ip # ips). admissible (Some (vetHost_lift p host)) a"
    "g = guard_admit ip (\<exists>a\<in>set (ip # ips). block_kind a \<noteq> blockNone)"
    using vetHostLift_ok [OF g nd] by blast
  have "\<forall>a\<in>set (ip # ips). \<not> hardDeny_ip (px_hardDeny p) a"
    using hardDenyVet_answers [OF res assms(2) ans(1)] by blast
  then show ?thesis
    using ans vg hardDenyVet_same_answers [OF res assms(2)] unfolding admissible_vetHost by auto
qed

lemma vet_answers_resolved: "gr_Unresolved (fst (vet_answers lift ips first al flag)) = False"
  by (induction lift ips first al flag rule: vet_answers.induct)
    (auto simp: guard_admit_def guard_deny_def split: prod.splits)

lemma vetHost_unresolved:
  assumes "gr_Unresolved (vetHost p host)" "normal_host host"
  shows "answers (px_res p) host = None \<or> answers (px_res p) host = Some []"
proof (cases "hardDenyVet p host")
  case (Inl r)
  then have "gr_Unresolved r" using assms(1) by (simp add: vetHost_def)
  then show ?thesis using Inl normal_host_forms [OF assms(2)]
    by (auto simp: hardDenyVet_def answers_def guard_deny_def Let_def split: option.splits if_splits)
next
  case (Inr res)
  obtain g c where g: "vetHostLift host res (Some (vetHost_lift p host)) = (g, c)" by force
  then have "gr_Unresolved g" using assms(1) Inr normal_host_forms [OF assms(2)]
    by (auto simp: vetHost_def split: if_splits)
  then have "answers res host = None \<or> answers res host = Some []"
    using g vet_answers_resolved [of "Some (vetHost_lift p host)"]
    by (auto simp: vetHostLift_def answers_def Let_def guard_deny_def guard_admit_def
        split: option.splits list.splits if_splits prod.splits simp del: vet_answers.simps) (metis fst_conv)
  then show ?thesis using hardDenyVet_same_answers [OF Inr assms(2)] by simp
qed

text \<open>
  A direct dial goes only to an address the guard admits. When \<open>egressTarget\<close> gives a target and this proxy dials
  it itself (no upstream, or the host is on the bypass list), the target names one address, which is not in the
  runner's hard deny and is either public, or private (RFC 1918, unique local, shared), off the proxy's own networks and
  the control plane, and either lifted for this host by a declared internal host or trusted as the exact literal the
  policy allows on this port. An unmarked target is a public address.
\<close>

lemma egressTarget_direct:
  assumes "egressTarget p host port = Inr (target, rs)" "normal_host host" "px_upstream p \<longrightarrow> bypassUpstream p host"
  shows "\<exists>ip. target = JoinHostPort (ip_String ip) (Itoa port) \<and> dial_ok p host port ip \<and>
              (rs = [] \<longrightarrow> block_kind ip = blockNone)"
proof -
  note forms = normal_host_forms [OF assms(2)]
  have name: "\<not> hardDeny_name (px_hardDeny p) host" using assms(1) by (auto simp: egressTarget_def split: if_splits)
  show ?thesis
  proof (cases "\<exists>ip. ParseIP host = Some ip \<and> trustsExactLiteralIP p ip port")
    case True
    then obtain ip where ip: "ParseIP host = Some ip" "trustsExactLiteralIP p ip port" by blast
    then have "target = JoinHostPort (ip_String ip) (Itoa port)" "rs = ruleSourceEgressRedirect"
      using assms(1) name forms by (auto simp: egressTarget_def)
    moreover have "dial_ok p host port ip"
      using ip name hardDeny_name_literal [of host ip] forms
      by (auto simp: dial_ok_def trustsExactLiteralIP_def split: option.splits)
    ultimately show ?thesis by (auto simp: ruleSourceEgressRedirect_def)
  next
    case False
    then have none: "(case ParseIP host of None \<Rightarrow> None
        | Some ip \<Rightarrow> if trustsExactLiteralIP p ip port then Some ip else None) = None"
      by (auto split: option.splits)
    let ?g = "vetHost p host"
    have g: "\<not> gr_Denied ?g" "target = JoinHostPort (ip_String (the (gr_IP ?g))) (Itoa port)"
      "rs = (if gr_Lifted ?g then ruleSourceInternalHost else [])"
      using assms(1,3) name none forms by (auto simp: egressTarget_def Let_def split: if_splits)
    obtain ip ips where ip: "\<forall>a\<in>set (ip # ips). \<not> hardDeny_ip (px_hardDeny p) a \<and>
              (block_kind a = blockNone \<or> (block_kind a = blockPrivate \<and> liftInternalHost p host a))"
      "?g = guard_admit ip (\<exists>a\<in>set (ip # ips). block_kind a \<noteq> blockNone)"
      using vetHost_ok [OF g(1) assms(2)] by blast
    have "dial_ok p host port ip"
      using ip(1) lift_off_own_network [of p host ip] forms by (auto simp: dial_ok_def)
    moreover have "rs = [] \<longrightarrow> block_kind ip = blockNone"
      using g(3) ip(2) by (auto simp: guard_admit_def ruleSourceInternalHost_def split: if_splits)
    ultimately show ?thesis using g(2) ip(2) by (intro exI [of _ ip]) (simp add: guard_admit_def)
  qed
qed

text \<open>A sample proxy: no upstream, one declared internal host, one hard-denied network.\<close>

definition sample_proxy :: Proxy where
  "sample_proxy = \<lparr>px_policy = None,
     px_hardDeny = Some \<lparr>hd_suffixes = [''svc.cluster.local''], hd_names = [], hd_ips = [],
                         hd_cidrs = [Prefix (Addr4 0x34010200) 24]\<rparr>,
     px_upstream = False, px_noProxy = [],
     px_internalHosts = [\<lparr>ih_suffix = ''corp.example'', ih_cidrs = []\<rparr>],
     px_exclusionUnknown = False, px_controlPlaneIPs = [], px_localSubnets = [], px_localModels = [],
     px_res = (\<lambda>h. if h = ''git.corp.example'' then Some [[10, 1, 2, 3]] else None)\<rparr>"

lemma egressTarget_direct_example:
  "egressTarget sample_proxy ''git.corp.example'' 443 = Inr (''10.1.2.3:443'', ruleSourceInternalHost) \<and>
   (\<exists>ip. ''10.1.2.3:443'' = JoinHostPort (ip_String ip) (Itoa 443) \<and> dial_ok sample_proxy ''git.corp.example'' 443 ip)"
proof -
  have t: "egressTarget sample_proxy ''git.corp.example'' 443 = Inr (''10.1.2.3:443'', ruleSourceInternalHost)"
    by code_simp
  have "normal_host ''git.corp.example''" by code_simp
  moreover have "px_upstream sample_proxy \<longrightarrow> bypassUpstream sample_proxy ''git.corp.example''" by code_simp
  ultimately show ?thesis using t egressTarget_direct [OF t] by blast
qed

text \<open>
  Chained to a corporate upstream, the guard still binds the name. When \<open>egressTarget\<close> hands the upstream a host it
  does not bypass, the target is the host and port as requested, the host is not hard-denied and is not a non-canonical
  spelling of a blocked address, and if this proxy can resolve it then every answer is clear of the hard deny and either
  public or lifted for this host; the exact literal the policy trusts is the one other target.
\<close>

lemma egressTarget_upstream:
  assumes "egressTarget p host port = Inr (target, rs)" "normal_host host" "px_upstream p" "\<not> bypassUpstream p host"
  shows "\<not> hardDeny_name (px_hardDeny p) host \<and>
    ((\<exists>ip. ParseIP host = Some ip \<and> target = JoinHostPort (ip_String ip) (Itoa port) \<and> dial_ok p host port ip) \<or>
     (target = JoinHostPort host (Itoa port) \<and>
      (\<forall>ip. nonCanonicalLiteralIP host = Some ip \<longrightarrow> block_kind ip = blockNone) \<and>
      (\<forall>ips. answers (px_res p) host = Some ips \<longrightarrow> (\<forall>a\<in>set ips. dial_ok p host port a))))"
proof -
  note forms = normal_host_forms [OF assms(2)]
  have name: "\<not> hardDeny_name (px_hardDeny p) host" using assms(1) by (auto simp: egressTarget_def split: if_splits)
  show ?thesis
  proof (cases "\<exists>ip. ParseIP host = Some ip \<and> trustsExactLiteralIP p ip port")
    case True
    then obtain ip where ip: "ParseIP host = Some ip" "trustsExactLiteralIP p ip port" by blast
    then have "target = JoinHostPort (ip_String ip) (Itoa port)"
      using assms(1) name forms by (auto simp: egressTarget_def)
    moreover have "dial_ok p host port ip"
      using ip name hardDeny_name_literal [of host ip] forms
      by (auto simp: dial_ok_def trustsExactLiteralIP_def split: option.splits)
    ultimately show ?thesis using name ip by blast
  next
    case False
    then have none: "(case ParseIP host of None \<Rightarrow> None
        | Some ip \<Rightarrow> if trustsExactLiteralIP p ip port then Some ip else None) = None"
      by (auto split: option.splits)
    let ?g = "vetHost p host"
    have g: "\<not> gr_Denied ?g \<or> gr_Unresolved ?g" "target = JoinHostPort host (Itoa port)"
      "\<forall>ip. nonCanonicalLiteralIP host = Some ip \<longrightarrow> block_kind ip = blockNone"
      using assms(1,3,4) name none forms by (auto simp: egressTarget_def Let_def split: if_splits option.splits)
    have "dial_ok p host port a" if "answers (px_res p) host = Some ips" "a \<in> set ips" for ips a
    proof (cases "gr_Denied ?g")
      case False
      then show ?thesis using vetHost_ok [OF False assms(2)] that lift_off_own_network [of p host] forms
        by (fastforce simp: dial_ok_def)
    next
      case True
      then have "gr_Unresolved ?g" using g(1) by blast
      then have "answers (px_res p) host = None \<or> answers (px_res p) host = Some []"
        by (rule vetHost_unresolved [OF _ assms(2)])
      then show ?thesis using that by auto
    qed
    then show ?thesis using name g by blast
  qed
qed

lemma egressTarget_upstream_example:
  "let p = sample_proxy\<lparr>px_upstream := True, px_res := (\<lambda>h. Some [[93, 184, 216, 34]])\<rparr>
   in egressTarget p ''example.com'' 443 = Inr (''example.com:443'', []) \<and> dial_ok p ''example.com'' 443 [93, 184, 216, 34]"
proof -
  let ?p = "sample_proxy\<lparr>px_upstream := True, px_res := (\<lambda>h. Some [[93, 184, 216, 34]])\<rparr>"
  have t: "egressTarget ?p ''example.com'' 443 = Inr (''example.com:443'', [])" by code_simp
  have n: "normal_host ''example.com''" by code_simp
  have u: "px_upstream ?p" "\<not> bypassUpstream ?p ''example.com''" by code_simp+
  have a: "answers (px_res ?p) ''example.com'' = Some [[93, 184, 216, 34]]" by code_simp
  have "ParseIP ''example.com'' = None" by code_simp
  then have "dial_ok ?p ''example.com'' 443 [93, 184, 216, 34]"
    using egressTarget_upstream [OF t n u] a by auto
  then show ?thesis using t by (simp add: Let_def)
qed

text \<open>The non-canonical arm of the upstream branch reads the address guard alone: a spelling of a public address inside
  the hard deny that this proxy cannot resolve goes to the upstream.\<close>

lemma hard_deny_noncanonical_gap:
  "let p = sample_proxy\<lparr>px_upstream := True, px_res := (\<lambda>_. None)\<rparr>
   in nonCanonicalLiteralIP ''0x34010203'' = Some (IPv4 52 1 2 3) \<and> hardDeny_ip (px_hardDeny p) (IPv4 52 1 2 3) \<and>
      literalIPGuard p ''0x34010203'' 443 = LiteralContinue \<and>
      egressTarget p ''0x34010203'' 443 = Inr (''0x34010203:443'', [])"
  unfolding Let_def by code_simp

text \<open>
  The model gateway's own vet. An address \<open>vetTrustedHost\<close> hands out is the literal or the first answer of the
  configured host, no answer is refused for a gateway (loopback, link-local, metadata, NAT64 and the like), and none is
  on the proxy's own networks or the control plane, except for a registered local model server: the gateway of one of
  the proxy's own subnets, or, for a relayed server, the control-plane address itself.
\<close>

lemma gateway_vet_guarded:
  assumes "vetTrustedHost p host port = Some target"
  shows "\<exists>ip ips. answers (px_res p) host = Some (ip # ips) \<and> target = JoinHostPort (ip_String ip) (Itoa port) \<and>
    (\<forall>a\<in>set (ip # ips). \<not> GatewayIPRefused a \<and>
       (onOwnSubnetOrControlPlane p a \<longrightarrow>
          (\<exists>lm. localModelAt p (TrimSuffix (ToLower host) ''.'') port = Some lm \<and> \<not> px_exclusionUnknown p \<and>
             (lm_relayed lm \<and> list_ex (\<lambda>cp. ip_Equal a cp) (px_controlPlaneIPs p) \<or>
              ownSubnetGateway p a \<and> \<not> onControlPlane p a))))"
proof -
  let ?h = "TrimSuffix (ToLower host) ''.''"
  let ?lm = "localModelAt p ?h port"
  have ok: "\<not> GatewayIPRefused a \<and>
       (onOwnSubnetOrControlPlane p a \<longrightarrow>
          (\<exists>lm. ?lm = Some lm \<and> \<not> px_exclusionUnknown p \<and>
             (lm_relayed lm \<and> list_ex (\<lambda>cp. ip_Equal a cp) (px_controlPlaneIPs p) \<or>
              ownSubnetGateway p a \<and> \<not> onControlPlane p a)))" if "\<not> gateway_refuses p ?lm a" for a
    using that by (auto simp: gateway_refuses_def ownSubnetGateway_def split: option.splits if_splits)
  show ?thesis
  proof (cases "ParseIP ?h")
    case (Some ip)
    then have "\<not> gateway_refuses p ?lm ip" "target = JoinHostPort (ip_String ip) (Itoa port)"
      using assms by (auto simp: vetTrustedHost_def Let_def split: if_splits)
    then show ?thesis using ok [of ip] Some by (auto simp: answers_def)
  next
    case None
    then obtain ip ips where r: "px_res p ?h = Some (ip # ips)" "\<not> list_ex (gateway_refuses p ?lm) (ip # ips)"
      "target = JoinHostPort (ip_String ip) (Itoa port)"
      using assms by (auto simp: vetTrustedHost_def Let_def split: option.splits list.splits if_splits)
    then have "\<forall>a\<in>set (ip # ips). \<not> gateway_refuses p ?lm a" by (auto simp: list_ex_iff)
    then show ?thesis using ok r None by (auto simp: answers_def)
  qed
qed

text \<open>
  C25: where the model gateway is dialled. \<open>gatewayTarget\<close> hands out one of two things. With a corporate upstream and a host
  that does not bypass it, the host and port themselves, which the upstream resolves. Otherwise an address it vetted: the
  literal or the first answer of the configured host, where no answer is refused for a gateway (loopback, link-local,
  metadata, NAT64 and the like) and none is on the proxy's own networks or the control plane, except for a registered local
  model server: the gateway of one of the proxy's own subnets, or, for a relayed server, the control-plane address itself.
\<close>

theorem gateway_target_guarded:
  assumes "gatewayTarget p host port = Some target"
  shows "(px_upstream p \<and> \<not> bypassUpstream p host \<and> target = JoinHostPort host (Itoa port)) \<or>
    ((\<not> px_upstream p \<or> bypassUpstream p host) \<and>
     (\<exists>ip ips. answers (px_res p) host = Some (ip # ips) \<and> target = JoinHostPort (ip_String ip) (Itoa port) \<and>
      (\<forall>a\<in>set (ip # ips). \<not> GatewayIPRefused a \<and>
         (onOwnSubnetOrControlPlane p a \<longrightarrow>
            (\<exists>lm. localModelAt p (TrimSuffix (ToLower host) ''.'') port = Some lm \<and> \<not> px_exclusionUnknown p \<and>
               (lm_relayed lm \<and> list_ex (\<lambda>cp. ip_Equal a cp) (px_controlPlaneIPs p) \<or>
                ownSubnetGateway p a \<and> \<not> onControlPlane p a))))))"
proof (cases "px_upstream p \<and> \<not> bypassUpstream p host")
  case True
  then show ?thesis using assms by (simp add: gatewayTarget_def)
next
  case False
  then have "vetTrustedHost p host port = Some target" using assms by (auto simp: gatewayTarget_def split: if_splits)
  from gateway_vet_guarded [OF this] False show ?thesis by blast
qed

lemma gateway_target_witness:
  "gatewayTarget sample_proxy ''git.corp.example'' 443 = Some ''10.1.2.3:443'' \<and> \<not> GatewayIPRefused [10, 1, 2, 3]"
proof -
  have t: "gatewayTarget sample_proxy ''git.corp.example'' 443 = Some ''10.1.2.3:443''" "\<not> px_upstream sample_proxy" by code_simp+
  have a: "answers (px_res sample_proxy) ''git.corp.example'' = Some [[10, 1, 2, 3]]" by code_simp
  show ?thesis using gateway_target_guarded [OF t(1)] t a by auto
qed

end
