(* ===== verification/PushInspect.thy ===== *)
theory PushInspect
  imports PushRules
begin

section \<open>Inspecting a push: internal/egress/proxy/push_rules.go and push_forge.go\<close>

text \<open>
  The content-rules step of a brokered push: what the inspector reads in the request, what the rules claim of it, what
  the forge clears of what the pack does not carry, and the verdict (\<open>inspectPush\<close>, \<open>applyPushRules\<close>). The reads of
  the body, the inspection slot, the parsed pack (\<open>gitpack.Inspect\<close>, \<open>Result.Settle\<close>) and the forge's answers are
  arguments: a body that cannot be read, a pack that cannot be parsed and a read of the forge that fails are values of
  them; \<open>GitSettle\<close> puts the pack reader and the settling in their place. The texts of the refusals are not modelled; a
  refusal is its rule source and status.
\<close>

subsection \<open>What a push carries, and the forge's answers\<close>

record Command =
  cmd_Old :: string
  cmd_New :: string
  cmd_Ref :: string

record Result =
  res_Commands :: "Command list"
  res_Changes :: "Change list"
  res_Bases :: "string list"

datatype inspect_error =
    TooLarge
  | MissingObject (missing_refs: "string list") (missing_commands: "Command list option")
  | Unreadable

text \<open>\<open>ghTreeEntry\<close>.\<close>

record ghTreeEntry =
  te_Path :: string
  te_Mode :: string
  te_Type :: string
  te_SHA :: string

text \<open>The reader of one repository for one push (\<open>forgeRepo\<close>): whether a commit is in counted history (\<open>vouch\<close>: its
  root tree, empty when it is not), a directory listing, whether one commit's history holds another (\<open>adoContains\<close>) and
  the settled form of a result. \<open>None\<close> is a read that failed.\<close>

record forgeRepo =
  fr_ado :: bool
  fr_vouch :: "string \<Rightarrow> string option"
  fr_listing :: "string \<Rightarrow> (string \<Rightarrow> ghTreeEntry option) option"
  fr_adoContains :: "string \<Rightarrow> string \<Rightarrow> string option"
  fr_Settle :: "Result \<Rightarrow> Result option"

text \<open>Why the forge did not clear an entry; \<open>WhyNone\<close> is the empty string.\<close>

datatype why = WhyNone | WhyChanged | WhyNoBase | WhyNoForgeReader | WhyUnread | WhyUnsettled | WhyForced
  | WhyHeldNoForgeReader | WhyHeldUnread | WhyNotHeld "string list" | WhyHeldForced string

definition zero_oid :: "string \<Rightarrow> bool" where
  "zero_oid s \<longleftrightarrow> Trim s ''0'' = []"

text \<open>\<open>fastForwards\<close>: every branch the push moves starts at a base.\<close>

definition fastForwards :: "Result \<Rightarrow> bool" where
  "fastForwards res =
     list_all (\<lambda>c. zero_oid (cmd_Old c) \<or> zero_oid (cmd_New c) \<or> cmd_Old c \<in> set (res_Bases res)) (res_Commands res)"


subsection \<open>push_forge.go: clearing what the pack does not carry\<close>

text \<open>\<open>entryAt\<close>: one directory level per listing. The outer option is a failed read.\<close>

fun walk_entry :: "forgeRepo \<Rightarrow> ghTreeEntry \<Rightarrow> string list \<Rightarrow> ghTreeEntry option option" where
  "walk_entry f e [] = Some (Some e)"
| "walk_entry f e (seg # segs) =
     (if te_Type e \<noteq> ''tree'' then Some None
      else case fr_listing f (te_SHA e) of
        None \<Rightarrow> None
      | Some entries \<Rightarrow> (case entries seg of None \<Rightarrow> Some None | Some e' \<Rightarrow> walk_entry f e' segs))"

definition entryAt :: "forgeRepo \<Rightarrow> string \<Rightarrow> string \<Rightarrow> ghTreeEntry option option" where
  "entryAt f root path =
     (let e = \<lparr>te_Path = [], te_Mode = [], te_Type = ''tree'', te_SHA = root\<rparr> in
      if path = [] then Some (Some e) else walk_entry f e (Split path (CHR ''/'')))"

definition held_entry :: "Change \<Rightarrow> ghTreeEntry \<Rightarrow> bool" where
  "held_entry c e \<longleftrightarrow> te_SHA e = ch_OID c \<and>
     (ch_Mode c = ModeUncarried \<and> te_Type e = ''tree'' \<or> ch_Mode c = te_Mode e)"

fun heldAtAny :: "forgeRepo \<Rightarrow> string list \<Rightarrow> Change \<Rightarrow> bool option" where
  "heldAtAny f [] c = Some False"
| "heldAtAny f (root # roots) c =
     (case entryAt f root (ch_Path c) of
        None \<Rightarrow> None
      | Some None \<Rightarrow> heldAtAny f roots c
      | Some (Some e) \<Rightarrow> if held_entry c e then Some True else heldAtAny f roots c)"

fun executable_file_at :: "forgeRepo \<Rightarrow> string list \<Rightarrow> Change \<Rightarrow> bool option" where
  "executable_file_at f [] c = Some False"
| "executable_file_at f (root # roots) c =
     (case entryAt f root (ch_Path c) of
        None \<Rightarrow> None
      | Some None \<Rightarrow> executable_file_at f roots c
      | Some (Some e) \<Rightarrow> if IsExecutable (te_Mode e) then Some True else executable_file_at f roots c)"

definition executableAtAny :: "forgeRepo \<Rightarrow> string list \<Rightarrow> Change \<Rightarrow> bool option" where
  "executableAtAny f roots c =
     (if ch_Mode c = ModeUncarried then heldAtAny f roots c else executable_file_at f roots c)"

type_synonym forgeClear = "forgeRepo \<Rightarrow> string list \<Rightarrow> Change \<Rightarrow> bool option"

text \<open>The root trees of the counted bases; \<open>None\<close> when a read failed.\<close>

fun counted_roots :: "forgeRepo \<Rightarrow> string list \<Rightarrow> string list option" where
  "counted_roots f [] = Some []"
| "counted_roots f (b # bs) =
     (case fr_vouch f b of
        None \<Rightarrow> None
      | Some root \<Rightarrow> map_option (\<lambda>rs. if root \<noteq> [] then root # rs else rs) (counted_roots f bs))"

fun clear_entries :: "forgeClear \<Rightarrow> forgeRepo \<Rightarrow> string list \<Rightarrow> Change list \<Rightarrow> Change list \<times> why" where
  "clear_entries clear f roots [] = ([], WhyChanged)"
| "clear_entries clear f roots (c # cs) =
     (case clear f roots c of
        None \<Rightarrow> (c # cs, WhyUnread)
      | Some held \<Rightarrow>
          (case clear_entries clear f roots cs of (rest, why) \<Rightarrow> (if held then rest else c # rest, why)))"

definition unchanged :: "forgeRepo option \<Rightarrow> Change list \<Rightarrow> Result \<Rightarrow> forgeClear \<Rightarrow> Change list \<times> why" where
  "unchanged forge entries res clear =
     (case forge of
        None \<Rightarrow> (entries, WhyNoForgeReader)
      | Some f \<Rightarrow>
          if fr_ado f \<and> \<not> fastForwards res then (entries, WhyForced)
          else case counted_roots f (res_Bases res) of
            None \<Rightarrow> (entries, WhyUnread)
          | Some roots \<Rightarrow> if roots = [] then (entries, WhyNoBase) else clear_entries clear f roots entries)"

definition settle :: "forgeRepo option \<Rightarrow> Result \<Rightarrow> Result \<times> why" where
  "settle forge res =
     (case forge of
        None \<Rightarrow> (res, WhyNone)
      | Some f \<Rightarrow> (case fr_Settle f res of None \<Rightarrow> (res, WhyUnsettled) | Some r \<Rightarrow> (r, WhyNone)))"

fun held_commands :: "forgeRepo \<Rightarrow> Command list \<Rightarrow> string list \<Rightarrow> why" where
  "held_commands f [] unheld = (if unheld \<noteq> [] then WhyNotHeld unheld else WhyNone)"
| "held_commands f (c # cs) unheld =
     (if zero_oid (cmd_New c) then held_commands f cs unheld
      else case fr_vouch f (cmd_New c) of
        None \<Rightarrow> WhyHeldUnread
      | Some root \<Rightarrow>
          let unheld' = (if root = [] then unheld @ [cmd_Ref c] else unheld) in
          if fr_ado f \<and> \<not> zero_oid (cmd_Old c) \<and> root \<noteq> [] then
            (case fr_adoContains f (cmd_New c) (cmd_Old c) of
               None \<Rightarrow> WhyHeldUnread
             | Some forward \<Rightarrow> if forward = [] then WhyHeldForced (cmd_Ref c) else held_commands f cs unheld')
          else held_commands f cs unheld')"

definition held :: "forgeRepo option \<Rightarrow> Command list \<Rightarrow> why" where
  "held forge cmds = (case forge of None \<Rightarrow> WhyHeldNoForgeReader | Some f \<Rightarrow> held_commands f cmds [])"


subsection \<open>push_rules.go: the verdict\<close>

type_synonym claim = "Change list \<Rightarrow> (string list \<times> Change list) option"

definition claimedEntries ::
  "claim \<Rightarrow> forgeClear \<Rightarrow> Result \<Rightarrow> forgeRepo option \<Rightarrow> (string list \<times> Change list \<times> why) option" where
  "claimedEntries claim clear res forge =
     (case claim (res_Changes res) of
        None \<Rightarrow> None
      | Some (hits, unknown) \<Rightarrow>
          if hits = [] \<and> unknown = [] then Some ([], [], WhyNone)
          else
            let (res', why) = settle forge res in
            if why \<noteq> WhyNone then Some (hits, unknown, why)
            else case claim (res_Changes res') of
              None \<Rightarrow> None
            | Some (hits', unknown') \<Rightarrow>
                if hits' = [] \<and> unknown' \<noteq> [] then
                  (case unchanged forge unknown' res' clear of (left, why') \<Rightarrow> Some ([], left, why'))
                else Some (hits', [], WhyNone))"

definition matchedPaths :: "string list list \<Rightarrow> Result \<Rightarrow> forgeRepo option \<Rightarrow> (string list \<times> why) option" where
  "matchedPaths pats res forge =
     (if pats = [] then Some ([], WhyNone)
      else map_option (\<lambda>(paths, left, why). (paths @ map shownPath left, why))
             (claimedEntries (match pats) heldAtAny res forge))"

datatype ruleSource =
    ruleSourceGitPackBlind
  | ruleSourceGitPackBig
  | ruleSourceGitRules
  | ruleSourceGitPushEntry
  | ruleSourceGitPushDenyAll
  | ruleSourceGitPushHeld
  | ruleSourceGitPushHeldUnattended

text \<open>A verdict: refused, or passed with the paths a review rule matched.\<close>

datatype push_verdict = Refused ruleSource int | Passed (review_paths: "string list") (review_cmds: "Command list") (review_why: why)

text \<open>\<open>nonIdentityEncoding\<close>, on the values of the Content-Encoding header.\<close>

definition nonIdentityEncoding :: "string list \<Rightarrow> bool" where
  "nonIdentityEncoding encs =
     (case encs of [] \<Rightarrow> False | [e] \<Rightarrow> e \<noteq> [] \<and> ToLower e \<noteq> ''identity'' | _ \<Rightarrow> True)"

text \<open>What \<open>scan.readBody\<close> comes to: busy, unreadable, or the bytes.\<close>

datatype 'b body_read = BodyBusy | BodyError | Body 'b

record 'b push_request =
  pr_encodings :: "string list"
  pr_body :: "'b body_read"
  pr_length :: "'b \<Rightarrow> int"
  pr_slot :: bool
  pr_inspect :: "'b \<Rightarrow> inspect_error + Result"

text \<open>The result \<open>gitpack.Inspect\<close> gives, with the push that carries no object settled by the forge.\<close>

definition inspected :: "forgeRepo option \<Rightarrow> inspect_error + Result \<Rightarrow> push_verdict + Result" where
  "inspected forge r =
     (case r of
        Inr res \<Rightarrow> Inr res
      | Inl TooLarge \<Rightarrow> Inl (Refused ruleSourceGitPackBig 413)
      | Inl Unreadable \<Rightarrow> Inl (Refused ruleSourceGitPackBlind 415)
      | Inl (MissingObject refs cmds) \<Rightarrow>
          (case cmds of
             None \<Rightarrow> Inl (Refused ruleSourceGitPackBlind 415)
           | Some cs \<Rightarrow>
               if held forge cs \<noteq> WhyNone then Inl (Refused ruleSourceGitPackBlind 415)
               else Inr \<lparr>res_Commands = cs, res_Changes = [], res_Bases = []\<rparr>))"

definition refuseLargeFiles :: "int \<Rightarrow> Result \<Rightarrow> forgeRepo option \<Rightarrow> push_verdict option" where
  "refuseLargeFiles limit res forge =
     (case claimedEntries (\<lambda>cs. Some (oversize limit cs)) heldAtAny res forge of
        None \<Rightarrow> Some (Refused ruleSourceGitPackBlind 415)
      | Some (over, left, why) \<Rightarrow> if over = [] \<and> left = [] then None else Some (Refused ruleSourceGitRules 403))"

definition refuseNewExecutables :: "Result \<Rightarrow> forgeRepo option \<Rightarrow> push_verdict option" where
  "refuseNewExecutables res forge =
     (case claimedEntries (\<lambda>cs. Some (newExecutables cs)) executableAtAny res forge of
        None \<Rightarrow> Some (Refused ruleSourceGitPackBlind 415)
      | Some (added, left, why) \<Rightarrow>
          if added @ map shownPath left = [] then None else Some (Refused ruleSourceGitRules 403))"

definition judge :: "pushRuleSet \<Rightarrow> Result \<Rightarrow> forgeRepo option \<Rightarrow> push_verdict" where
  "judge rules res forge =
     (case matchedPaths (ps_deny rules) res forge of
        None \<Rightarrow> Refused ruleSourceGitPackBlind 415
      | Some (denied, why) \<Rightarrow>
          if denied \<noteq> [] then Refused ruleSourceGitRules 403
          else case (if ps_maxFileBytes rules > 0 then refuseLargeFiles (ps_maxFileBytes rules) res forge else None) of
            Some v \<Rightarrow> v
          | None \<Rightarrow>
              (case (if ps_denyNewExec rules then refuseNewExecutables res forge else None) of
                 Some v \<Rightarrow> v
               | None \<Rightarrow>
                   (case matchedPaths (ps_review rules) res forge of
                      None \<Rightarrow> Refused ruleSourceGitPackBlind 415
                    | Some (paths, why) \<Rightarrow> Passed paths (res_Commands res) why)))"

definition inspectPush :: "'b push_request \<Rightarrow> pushRuleSet \<Rightarrow> forgeRepo option \<Rightarrow> push_verdict" where
  "inspectPush r rules forge =
     (if ps_unreadable rules \<noteq> [] then Refused ruleSourceGitPackBlind 415
      else if nonIdentityEncoding (pr_encodings r) then Refused ruleSourceGitPackBlind 415
      else case pr_body r of
        BodyBusy \<Rightarrow> Refused ruleSourceGitPackBlind 503
      | BodyError \<Rightarrow> Refused ruleSourceGitPackBlind 415
      | Body buf \<Rightarrow>
          if pr_length r buf > ps_inspectMax rules then Refused ruleSourceGitPackBig 413
          else if \<not> pr_slot r then Refused ruleSourceGitPackBlind 503
          else (case inspected forge (pr_inspect r buf) of Inl v \<Rightarrow> v | Inr res \<Rightarrow> judge rules res forge))"

text \<open>\<open>applyPushRules\<close>: the entry that could not be derived, no rules, deny_all, the inspection, and the hold for what
  needs a review (\<open>holdPush\<close>, an argument). \<open>True\<close> is a push that is forwarded.\<close>

definition applyPushRules ::
  "'b push_request \<Rightarrow> pushRuleSet option \<Rightarrow> bool \<Rightarrow> forgeRepo option \<Rightarrow> (string list \<Rightarrow> bool) \<Rightarrow> bool" where
  "applyPushRules r rules entryErr forge holdPush =
     (if entryErr then False
      else case rules of
        None \<Rightarrow> True
      | Some rs \<Rightarrow>
          if ps_denyAll rs then False
          else (case inspectPush r rs forge of
                  Refused src st \<Rightarrow> False
                | Passed paths cmds why \<Rightarrow> paths = [] \<or> holdPush paths))"

subsection \<open>What a passed push satisfies\<close>

text \<open>The result the rules were judged on: the push as inspected, or with the history the forge already holds taken
  out.\<close>

definition judged_results :: "Result \<Rightarrow> forgeRepo option \<Rightarrow> Result set" where
  "judged_results res forge = {res} \<union> {r. \<exists>f. forge = Some f \<and> fr_Settle f res = Some r}"

definition counted_root :: "forgeRepo \<Rightarrow> Result \<Rightarrow> string \<Rightarrow> bool" where
  "counted_root f res root \<longleftrightarrow> root \<noteq> [] \<and> (\<exists>b\<in>set (res_Bases res). fr_vouch f b = Some root)"

text \<open>A rule holds of a push when some judged form of it has no hit, and the forge showed each entry the rule could
  not decide to be cleared at the root of a commit it counts.\<close>

definition rule_respected ::
  "(Change \<Rightarrow> bool) \<Rightarrow> (Change \<Rightarrow> bool) \<Rightarrow> (forgeRepo \<Rightarrow> string \<Rightarrow> Change \<Rightarrow> bool) \<Rightarrow> Result \<Rightarrow> forgeRepo option \<Rightarrow> bool" where
  "rule_respected hit unknown cleared res forge \<longleftrightarrow>
     (\<exists>r\<in>judged_results res forge. \<forall>c\<in>set (res_Changes r).
        \<not> hit c \<and> (unknown c \<longrightarrow> (\<exists>f root. forge = Some f \<and> counted_root f r root \<and> cleared f root c)))"

text \<open>The forge holds the same mode and object at the entry's path, or an executable file there.\<close>

definition held_at :: "forgeRepo \<Rightarrow> string \<Rightarrow> Change \<Rightarrow> bool" where
  "held_at f root c \<longleftrightarrow> (\<exists>e. entryAt f root (ch_Path c) = Some (Some e) \<and> held_entry c e)"

definition executable_at :: "forgeRepo \<Rightarrow> string \<Rightarrow> Change \<Rightarrow> bool" where
  "executable_at f root c \<longleftrightarrow>
     (if ch_Mode c = ModeUncarried then held_at f root c
      else \<exists>e. entryAt f root (ch_Path c) = Some (Some e) \<and> IsExecutable (te_Mode e))"

lemma heldAtAny_True: "heldAtAny f roots c = Some True \<Longrightarrow> \<exists>root\<in>set roots. held_at f root c"
  by (induction f roots c rule: heldAtAny.induct) (auto simp: held_at_def split: option.splits if_splits)

lemma executable_file_at_True:
  "executable_file_at f roots c = Some True \<Longrightarrow>
   \<exists>root\<in>set roots. \<exists>e. entryAt f root (ch_Path c) = Some (Some e) \<and> IsExecutable (te_Mode e)"
  by (induction f roots c rule: executable_file_at.induct) (auto split: option.splits if_splits)

lemma executableAtAny_True: "executableAtAny f roots c = Some True \<Longrightarrow> \<exists>root\<in>set roots. executable_at f root c"
  using heldAtAny_True executable_file_at_True
  by (fastforce simp: executableAtAny_def executable_at_def split: if_splits)

lemma counted_roots_counted: "counted_roots f (res_Bases res) = Some roots \<Longrightarrow> \<forall>root\<in>set roots. counted_root f res root"
proof -
  have "counted_roots f bs = Some roots \<Longrightarrow> \<forall>root\<in>set roots. root \<noteq> [] \<and> (\<exists>b\<in>set bs. fr_vouch f b = Some root)" for bs
    by (induction bs arbitrary: roots) (fastforce split: option.splits if_splits)+
  then show "counted_roots f (res_Bases res) = Some roots \<Longrightarrow> \<forall>root\<in>set roots. counted_root f res root"
    unfolding counted_root_def by blast
qed

lemma clear_entries_all:
  "clear_entries clear f roots cs = ([], why) \<Longrightarrow> \<forall>c\<in>set cs. clear f roots c = Some True"
  by (induction clear f roots cs rule: clear_entries.induct) (auto split: option.splits prod.splits if_splits)

text \<open>The interface of a content rule: what its claim reports, and what its forge test shows.\<close>

locale content_rule =
  fixes claim :: claim and clear :: forgeClear
    and hit unknown :: "Change \<Rightarrow> bool" and cleared :: "forgeRepo \<Rightarrow> string \<Rightarrow> Change \<Rightarrow> bool"
  assumes claim_hits: "claim cs = Some (h, u) \<Longrightarrow> h = [] \<longleftrightarrow> (\<forall>c\<in>set cs. \<not> hit c)"
    and claim_unknown: "claim cs = Some (h, u) \<Longrightarrow> u = filter unknown cs"
    and clear_sound: "clear f roots c = Some True \<Longrightarrow> \<exists>root\<in>set roots. cleared f root c"
begin

lemma unchanged_all_cleared:
  assumes "unchanged forge us res clear = ([], why)" "us \<noteq> []" "c \<in> set us"
  shows "\<exists>f root. forge = Some f \<and> counted_root f res root \<and> cleared f root c"
proof -
  obtain f roots where f: "forge = Some f" and roots: "counted_roots f (res_Bases res) = Some roots"
    and cl: "clear_entries clear f roots us = ([], why)"
    using assms(1,2) by (auto simp: unchanged_def split: option.splits if_splits)
  have "clear f roots c = Some True" using clear_entries_all [OF cl] assms(3) by blast
  then obtain root where "root \<in> set roots" "cleared f root c" using clear_sound by blast
  then show ?thesis using f counted_roots_counted [OF roots] by blast
qed

lemma passes_respects:
  assumes "claimedEntries claim clear res forge = Some ([], [], why)"
  shows "rule_respected hit unknown cleared res forge"
proof -
  obtain h u where first: "claim (res_Changes res) = Some (h, u)"
    using assms by (auto simp: claimedEntries_def split: option.splits)
  show ?thesis
  proof (cases "h = [] \<and> u = []")
    case True
    then have "\<forall>c\<in>set (res_Changes res). \<not> hit c \<and> \<not> unknown c"
      using claim_hits [OF first] claim_unknown [OF first] by (auto simp: filter_empty_conv dest: sym)
    then show ?thesis unfolding rule_respected_def judged_results_def by blast
  next
    case False
    obtain r w where st: "settle forge res = (r, w)" by force
    have w: "w = WhyNone" using assms first False st by (auto simp: claimedEntries_def split: if_splits)
    then have judged: "r \<in> judged_results res forge"
      using st by (auto simp: settle_def judged_results_def split: option.splits)
    obtain h' u' where second: "claim (res_Changes r) = Some (h', u')"
      using assms first False st w by (auto simp: claimedEntries_def split: option.splits if_splits)
    have h': "h' = []" using assms first False st w second
      by (auto simp: claimedEntries_def split: if_splits prod.splits)
    have "\<exists>f root. forge = Some f \<and> counted_root f r root \<and> cleared f root c" if "c \<in> set u'" for c
      using assms first False st w second h' that
        unchanged_all_cleared [of forge u' r why c]
      by (auto simp: claimedEntries_def split: if_splits prod.splits)
    then show ?thesis
      using judged h' claim_hits [OF second] claim_unknown [OF second] unfolding rule_respected_def by auto
  qed
qed

end

lemma match_result:
  assumes "match pats cs = Some (h, u)"
  shows "h = map shownPath (filter (\<lambda>c. claims pats c \<and> Carried c) cs)" "u = filter (\<lambda>c. claims pats c \<and> \<not> Carried c) cs"
  using match_loop_result [of pats cs maxGlobOps "[]" "[]"] assms by (auto simp: match_def)

interpretation path_rule: content_rule "match pats" heldAtAny "\<lambda>c. claims pats c \<and> Carried c"
  "\<lambda>c. claims pats c \<and> \<not> Carried c" held_at for pats
  by unfold_locales (auto dest: match_result heldAtAny_True simp: filter_empty_conv)

definition too_large :: "int \<Rightarrow> Change \<Rightarrow> bool" where
  "too_large limit c \<longleftrightarrow> ch_Mode c \<noteq> modeGitlink \<and> Carried c \<and> ch_size c > limit"

definition unsized :: "Change \<Rightarrow> bool" where
  "unsized c \<longleftrightarrow> ch_Mode c \<noteq> modeGitlink \<and> \<not> Carried c"

lemma oversize_result:
  "oversize limit cs = (h, u) \<Longrightarrow> (h = [] \<longleftrightarrow> (\<forall>c\<in>set cs. \<not> too_large limit c)) \<and> u = filter unsized cs"
  by (induction limit cs arbitrary: h u rule: oversize.induct)
    (auto simp: too_large_def unsized_def split: prod.splits if_splits)

interpretation size_rule: content_rule "\<lambda>cs. Some (oversize limit cs)" heldAtAny "too_large limit" unsized held_at
  for limit
  by unfold_locales (auto dest: oversize_result heldAtAny_True)

definition new_executable :: "Change \<Rightarrow> bool" where
  "new_executable c \<longleftrightarrow> ch_Mode c \<noteq> ModeUncarried \<and> IsExecutable (ch_Mode c) \<and> ch_BaseMode c \<noteq> []
                        \<and> \<not> IsExecutable (ch_BaseMode c)"

definition base_unknown :: "Change \<Rightarrow> bool" where
  "base_unknown c \<longleftrightarrow> ch_Mode c = ModeUncarried \<or> IsExecutable (ch_Mode c) \<and> ch_BaseMode c = []"

lemma newExecutables_result:
  "newExecutables cs = (h, u) \<Longrightarrow> (h = [] \<longleftrightarrow> (\<forall>c\<in>set cs. \<not> new_executable c)) \<and> u = filter base_unknown cs"
  by (induction cs arbitrary: h u rule: newExecutables.induct)
    (auto simp: new_executable_def base_unknown_def split: prod.splits if_splits)

interpretation exec_rule: content_rule "\<lambda>cs. Some (newExecutables cs)" executableAtAny new_executable base_unknown
  executable_at
  by unfold_locales (auto dest: newExecutables_result executableAtAny_True)

text \<open>What the rules promise of a push that is forwarded.\<close>

definition respects_rules :: "pushRuleSet \<Rightarrow> Result \<Rightarrow> forgeRepo option \<Rightarrow> bool" where
  "respects_rules rs res forge \<longleftrightarrow>
     rule_respected (\<lambda>c. claims (ps_deny rs) c \<and> Carried c) (\<lambda>c. claims (ps_deny rs) c \<and> \<not> Carried c) held_at res forge \<and>
     (ps_maxFileBytes rs > 0 \<longrightarrow> rule_respected (too_large (ps_maxFileBytes rs)) unsized held_at res forge) \<and>
     (ps_denyNewExec rs \<longrightarrow> rule_respected new_executable base_unknown executable_at res forge)"

lemma matchedPaths_none:
  assumes "matchedPaths pats res forge = Some ([], why)"
  shows "rule_respected (\<lambda>c. claims pats c \<and> Carried c) (\<lambda>c. claims pats c \<and> \<not> Carried c) held_at res forge"
proof (cases "pats = []")
  case True
  then show ?thesis by (auto simp: rule_respected_def judged_results_def claims_def)
next
  case False
  then show ?thesis using assms path_rule.passes_respects [of pats res forge]
    by (auto simp: matchedPaths_def)
qed

lemma judge_passed:
  assumes "judge rs res forge = Passed paths cmds why"
  shows "respects_rules rs res forge" and "matchedPaths (ps_review rs) res forge = Some (paths, why)"
proof -
  obtain w where deny: "matchedPaths (ps_deny rs) res forge = Some ([], w)"
    using assms by (auto simp: judge_def split: option.splits if_splits prod.splits)
  have size: "ps_maxFileBytes rs > 0 \<Longrightarrow> refuseLargeFiles (ps_maxFileBytes rs) res forge = None"
    using assms deny by (auto simp: judge_def refuseLargeFiles_def split: option.splits if_splits prod.splits)
  have exec: "ps_denyNewExec rs \<Longrightarrow> refuseNewExecutables res forge = None"
    using assms deny size by (auto simp: judge_def refuseNewExecutables_def split: option.splits if_splits prod.splits)
  show "matchedPaths (ps_review rs) res forge = Some (paths, why)"
    using assms deny size exec by (auto simp: judge_def split: option.splits if_splits prod.splits)
  have "ps_maxFileBytes rs > 0 \<Longrightarrow> rule_respected (too_large (ps_maxFileBytes rs)) unsized held_at res forge"
    using size size_rule.passes_respects [of "ps_maxFileBytes rs" res forge]
    by (auto simp: refuseLargeFiles_def split: option.splits if_splits prod.splits)
  moreover have "ps_denyNewExec rs \<Longrightarrow> rule_respected new_executable base_unknown executable_at res forge"
    using exec exec_rule.passes_respects [of res forge]
    by (auto simp: refuseNewExecutables_def split: option.splits if_splits prod.splits)
  ultimately show "respects_rules rs res forge"
    using matchedPaths_none [OF deny] by (simp add: respects_rules_def)
qed


lemma applied_judged:
  assumes "applyPushRules r (Some rs) entryErr forge holdPush"
  shows "\<not> entryErr \<and> \<not> ps_denyAll rs \<and> ps_unreadable rs = [] \<and> \<not> nonIdentityEncoding (pr_encodings r) \<and>
         (\<exists>buf res paths cmds why. pr_body r = Body buf \<and> pr_length r buf \<le> ps_inspectMax rs \<and> pr_slot r \<and>
            inspected forge (pr_inspect r buf) = Inr res \<and> judge rs res forge = Passed paths cmds why \<and>
            (paths = [] \<or> holdPush paths))"
proof -
  have top: "\<not> entryErr" "\<not> ps_denyAll rs" using assms by (auto simp: applyPushRules_def split: if_splits)
  obtain paths cmds why where v: "inspectPush r rs forge = Passed paths cmds why" and h: "paths = [] \<or> holdPush paths"
    using assms top by (auto simp: applyPushRules_def split: push_verdict.splits)
  have pre: "ps_unreadable rs = []" "\<not> nonIdentityEncoding (pr_encodings r)"
    using v by (auto simp: inspectPush_def split: if_splits)
  obtain buf where buf: "pr_body r = Body buf" "pr_length r buf \<le> ps_inspectMax rs" "pr_slot r"
    using v pre by (auto simp: inspectPush_def split: body_read.splits if_splits)
  have "inspected forge x \<noteq> Inl (Passed paths cmds why)" for x
    by (auto simp: inspected_def split: sum.splits inspect_error.splits option.splits if_splits)
  then obtain res where res: "inspected forge (pr_inspect r buf) = Inr res" "judge rs res forge = Passed paths cmds why"
    using v pre buf by (auto simp: inspectPush_def split: sum.splits)
  show ?thesis using top pre buf h res by blast
qed

text \<open>
  C15: a push the content rules let through was read whole and satisfies them. If a brokered push with content rules is
  forwarded, the rules do not deny every push and were all readable, the body was read within the inspection limit
  under an encoding the inspector reads, and the pack was parsed (or carried no object and the forge holds every commit
  it sets). On a judged form of the push no carried entry is claimed by a deny pattern, no carried file is over the size
  limit and none is a new executable, and every entry these rules could not decide was shown by the forge to be the same
  at the root of a commit it counts. If a review pattern matched, the push was held and approved. Every failure to read
  the body, the pack or the forge is a refusal.
\<close>

theorem forwarded_push_respects_rules:
  assumes "applyPushRules r (Some rs) entryErr forge holdPush"
  shows "\<not> entryErr \<and> \<not> ps_denyAll rs \<and> ps_unreadable rs = [] \<and> \<not> nonIdentityEncoding (pr_encodings r) \<and>
         (\<exists>buf res. pr_body r = Body buf \<and> pr_length r buf \<le> ps_inspectMax rs \<and> pr_slot r \<and>
            inspected forge (pr_inspect r buf) = Inr res \<and> respects_rules rs res forge \<and>
            (\<exists>paths why. matchedPaths (ps_review rs) res forge = Some (paths, why) \<and> (paths = [] \<or> holdPush paths)))"
  using applied_judged [OF assms] judge_passed by blast

text \<open>A sample: a push that builds on a counted commit, leaves \<open>.github\<close> as it is there and adds a source file.\<close>

definition sample_rules :: pushRuleSet where
  "sample_rules = \<lparr>ps_deny = [[''.github'', ''**'']], ps_review = [], ps_hold = defaultPushHold, ps_unreadable = [],
     ps_inspectMax = 1024, ps_maxFileBytes = 100, ps_denyNewExec = True, ps_denyAll = False\<rparr>"

definition sample_forge :: forgeRepo where
  "sample_forge = \<lparr>fr_ado = False, fr_vouch = (\<lambda>b. Some (if b = ''b1'' then ''r1'' else [])),
     fr_listing = (\<lambda>t. Some (\<lambda>s. if s = ''.github''
        then Some \<lparr>te_Path = s, te_Mode = ''040000'', te_Type = ''tree'', te_SHA = ''t1''\<rparr> else None)),
     fr_adoContains = (\<lambda>_ _. None), fr_Settle = Some\<rparr>"

definition sample_result :: Result where
  "sample_result = \<lparr>res_Commands = [\<lparr>cmd_Old = ''b1'', cmd_New = ''c1'', cmd_Ref = ''refs/heads/x''\<rparr>],
     res_Changes = [\<lparr>ch_Path = ''.github'', ch_Mode = ModeUncarried, ch_size = - 1, ch_OID = ''t1'', ch_BaseMode = []\<rparr>,
                    \<lparr>ch_Path = ''a.go'', ch_Mode = ''100644'', ch_size = 7, ch_OID = ''o1'', ch_BaseMode = ''0''\<rparr>],
     res_Bases = [''b1'']\<rparr>"

definition sample_request :: "unit push_request" where
  "sample_request = \<lparr>pr_encodings = [], pr_body = Body (), pr_length = (\<lambda>_. 10), pr_slot = True,
     pr_inspect = (\<lambda>_. Inr sample_result)\<rparr>"

lemma forwarded_push_witness:
  "applyPushRules sample_request (Some sample_rules) False (Some sample_forge) (\<lambda>_. False) \<and>
   respects_rules sample_rules sample_result (Some sample_forge)"
proof -
  have ok: "applyPushRules sample_request (Some sample_rules) False (Some sample_forge) (\<lambda>_. False)"
    by code_simp
  have "inspected (Some sample_forge) (pr_inspect sample_request ()) = Inr sample_result"
    by (simp add: inspected_def sample_request_def)
  then show ?thesis using forwarded_push_respects_rules [OF ok] ok by auto
qed

end
