(* ===== verification/PushHold.thy ===== *)
theory PushHold
  imports PushInspect "HOL-Library.AList"
begin

section \<open>Held pushes: internal/egress/proxy/push_hold.go\<close>

text \<open>
  A push a review rule matched waits for an admin's decision. The run's held-push state (\<open>pushHolds\<close>) is shared by the
  connections that hold a push: each files its question under a key, takes one of a bounded number of slots, raises or
  rejoins the approval and polls it. The operations under the lock are the definitions below; the goroutine that runs
  them is a small state machine, and the connections interleave at the lock (\<open>hold_step\<close>). The control plane's answers
  are the labels of the steps: an id for a raised request, the state a poll reads.
\<close>

subsection \<open>The shared state and the operations under its lock\<close>

record heldPush =
  hp_id :: uuid
  hp_state :: approvalState

record pushHolds =
  unattended :: bool
  byKey :: "(string \<times> heldPush) list"
  active :: nat

definition maxPushHoldsActive :: nat where "maxPushHoldsActive = 16"
definition maxPushHoldKeys :: nat where "maxPushHoldKeys = 256"

datatype admission = Admitted uuid | Decided uuid approvalState | TooManyKeys | TooManyActive

definition admit :: "string \<Rightarrow> pushHolds \<Rightarrow> admission \<times> pushHolds" where
  "admit key h =
     (case map_of (byKey h) key of
        Some e \<Rightarrow>
          if hp_state e \<noteq> apPending then (Decided (hp_id e) (hp_state e), h)
          else if active h \<ge> maxPushHoldsActive then (TooManyActive, h)
          else (Admitted (hp_id e), h\<lparr>active := active h + 1\<rparr>)
      | None \<Rightarrow>
          if length (byKey h) \<ge> maxPushHoldKeys then (TooManyKeys, h)
          else if active h \<ge> maxPushHoldsActive then (TooManyActive, h)
          else (Admitted uuid_Nil, h\<lparr>active := active h + 1\<rparr>))"

definition leave :: "pushHolds \<Rightarrow> pushHolds" where
  "leave h = h\<lparr>active := active h - 1\<rparr>"

definition record_state :: "string \<Rightarrow> uuid \<Rightarrow> approvalState \<Rightarrow> pushHolds \<Rightarrow> pushHolds" where
  "record_state key aid state h =
     (case map_of (byKey h) key of
        None \<Rightarrow> if state \<noteq> apNone then h\<lparr>byKey := AList.update key \<lparr>hp_id = aid, hp_state = state\<rparr> (byKey h)\<rparr> else h
      | Some e \<Rightarrow>
          if hp_id e \<noteq> aid then h
          else if state = apNone then h\<lparr>byKey := AList.delete key (byKey h)\<rparr>
          else h\<lparr>byKey := AList.update key (e\<lparr>hp_state := state\<rparr>) (byKey h)\<rparr>)"


subsection \<open>One connection: holdPush and awaitPushDecision\<close>

text \<open>Where a connection stands: before the lock, with a slot and no approval raised yet, polling an approval, about
  to give the slot back with its outcome, and done (\<open>True\<close>: the push is forwarded).\<close>

datatype holder =
    Start (holder_key: string)
  | Raising (holder_key: string)
  | Polling (holder_key: string) uuid
  | Leaving (holder_key: string) bool
  | Done (holder_key: string) bool

text \<open>\<open>holdPush\<close> up to the wait: an unattended run is refused before the lock; a push already decided is answered from
  the state.\<close>

definition holdPush_admit :: "string \<Rightarrow> pushHolds \<Rightarrow> holder \<times> pushHolds" where
  "holdPush_admit key h =
     (if unattended h then (Done key False, h)
      else case admit key h of
        (Decided aid st, h') \<Rightarrow> (Done key (st = apApproved), h')
      | (TooManyKeys, h') \<Rightarrow> (Done key False, h')
      | (TooManyActive, h') \<Rightarrow> (Done key False, h')
      | (Admitted aid, h') \<Rightarrow> (if aid = uuid_Nil then Raising key else Polling key aid, h'))"

text \<open>The answer of the control plane to the raise: refused, failed, or an id.\<close>

definition await_raise :: "string \<Rightarrow> uuid option \<Rightarrow> pushHolds \<Rightarrow> holder \<times> pushHolds" where
  "await_raise key answer h =
     (case answer of
        None \<Rightarrow> (Leaving key False, h)
      | Some aid \<Rightarrow> (Polling key aid, record_state key aid apPending h))"

text \<open>What one poll reads: nothing yet, a decision, a request closed without one; or the hold runs out.\<close>

datatype poll = Undecided | Approved | Denied | Closed | TimedOut

definition await_poll :: "string \<Rightarrow> uuid \<Rightarrow> poll \<Rightarrow> pushHolds \<Rightarrow> holder \<times> pushHolds" where
  "await_poll key aid p h =
     (case p of
        Undecided \<Rightarrow> (Polling key aid, h)
      | Approved \<Rightarrow> (Leaving key True, record_state key aid apApproved h)
      | Denied \<Rightarrow> (Leaving key False, record_state key aid apDenied h)
      | Closed \<Rightarrow> (Leaving key False, record_state key aid apNone h)
      | TimedOut \<Rightarrow> (Leaving key False, h))"


subsection \<open>The connections interleaved\<close>

text \<open>The state of a run's held pushes, with the history the properties speak of: which id was raised for which key,
  and which ids a poll read as approved.\<close>

record holds_system =
  shared :: pushHolds
  holders :: "holder list"
  raised_for :: "(uuid \<times> string) set"
  approved_ids :: "uuid set"

inductive hold_step :: "holds_system \<Rightarrow> holds_system \<Rightarrow> bool" where
  arrive: "hold_step s (s\<lparr>holders := holders s @ [Start key]\<rparr>)"
| admit: "i < length (holders s) \<Longrightarrow> holders s ! i = Start key \<Longrightarrow> holdPush_admit key (shared s) = (t, h) \<Longrightarrow>
    hold_step s (s\<lparr>shared := h, holders := (holders s)[i := t]\<rparr>)"
| raise_fails: "i < length (holders s) \<Longrightarrow> holders s ! i = Raising key \<Longrightarrow> await_raise key None (shared s) = (t, h) \<Longrightarrow>
    hold_step s (s\<lparr>shared := h, holders := (holders s)[i := t]\<rparr>)"
| raise: "i < length (holders s) \<Longrightarrow> holders s ! i = Raising key \<Longrightarrow> await_raise key (Some aid) (shared s) = (t, h) \<Longrightarrow>
    hold_step s (s\<lparr>shared := h, holders := (holders s)[i := t], raised_for := insert (aid, key) (raised_for s)\<rparr>)"
| poll: "i < length (holders s) \<Longrightarrow> holders s ! i = Polling key aid \<Longrightarrow> await_poll key aid p (shared s) = (t, h) \<Longrightarrow>
    hold_step s (s\<lparr>shared := h, holders := (holders s)[i := t],
      approved_ids := (if p = Approved then insert aid (approved_ids s) else approved_ids s)\<rparr>)"
| leave: "i < length (holders s) \<Longrightarrow> holders s ! i = Leaving key b \<Longrightarrow>
    hold_step s (s\<lparr>shared := leave (shared s), holders := (holders s)[i := Done key b]\<rparr>)"

definition holds_start :: "bool \<Rightarrow> holds_system" where
  "holds_start u = \<lparr>shared = \<lparr>unattended = u, byKey = [], active = 0\<rparr>, holders = [], raised_for = {}, approved_ids = {}\<rparr>"

definition holds_reachable :: "bool \<Rightarrow> holds_system \<Rightarrow> bool" where
  "holds_reachable u s \<longleftrightarrow> hold_step\<^sup>*\<^sup>* (holds_start u) s"

subsection \<open>Slots and keys\<close>

lemma length_filter_update:
  "i < length xs \<Longrightarrow> length (filter P (xs[i := x])) + (if P (xs ! i) then 1 else 0) =
     length (filter P xs) + (if P x then 1 else 0)"
proof (induction xs arbitrary: i)
  case (Cons y ys)
  then show ?case by (cases i) auto
qed simp

definition in_slot :: "holder \<Rightarrow> bool" where
  "in_slot t = (case t of Raising k \<Rightarrow> True | Polling k aid \<Rightarrow> True | Leaving k b \<Rightarrow> True | _ \<Rightarrow> False)"

text \<open>A connection that may still file its key.\<close>

definition asking :: "holder \<Rightarrow> bool" where
  "asking t = (case t of Raising k \<Rightarrow> True | Polling k aid \<Rightarrow> True | _ \<Rightarrow> False)"

lemmas holder_kinds = in_slot_def asking_def

definition n_slots :: "holds_system \<Rightarrow> nat" where
  "n_slots s = length (filter in_slot (holders s))"

definition filed_keys :: "pushHolds \<Rightarrow> string set" where
  "filed_keys h = fst ` set (byKey h)"

definition live_keys :: "holds_system \<Rightarrow> string set" where
  "live_keys s = filed_keys (shared s) \<union> holder_key ` {t \<in> set (holders s). asking t}"

text \<open>The slots taken are the connections that hold one, at most \<open>maxPushHoldsActive\<close>. The keys filed and those about
  to be filed stay under the two limits together.\<close>

definition slots_inv :: "holds_system \<Rightarrow> bool" where
  "slots_inv s \<longleftrightarrow> active (shared s) = n_slots s \<and> n_slots s \<le> maxPushHoldsActive \<and>
     distinct (map fst (byKey (shared s))) \<and> card (live_keys s) < maxPushHoldKeys + maxPushHoldsActive"

lemma finite_live_keys [simp]: "finite (live_keys s)"
  by (simp add: live_keys_def filed_keys_def)

lemma card_asking_le: "card (holder_key ` {t \<in> set ts. asking t}) \<le> length (filter in_slot ts)"
proof -
  have "{t \<in> set ts. asking t} \<subseteq> set (filter in_slot ts)"
    by (auto simp: holder_kinds split: holder.splits)
  then have "card (holder_key ` {t \<in> set ts. asking t}) \<le> card (holder_key ` set (filter in_slot ts))"
    by (intro card_mono) auto
  also have "\<dots> \<le> length (filter in_slot ts)"
    by (metis card_image_le card_length finite_set le_trans)
  finally show ?thesis .
qed

lemma card_filed: "distinct (map fst (byKey h)) \<Longrightarrow> card (filed_keys h) = length (byKey h)"
  by (metis filed_keys_def distinct_card length_map list.set_map)

lemma record_state_frame:
  "active (record_state key aid st h) = active h"
  "unattended (record_state key aid st h) = unattended h"
  "distinct (map fst (byKey h)) \<Longrightarrow> distinct (map fst (byKey (record_state key aid st h)))"
  "filed_keys (record_state key aid st h) \<subseteq> insert key (filed_keys h)"
proof -
  have "fst ` set (AList.delete key xs) \<subseteq> fst ` set xs" for xs :: "(string \<times> heldPush) list"
    by (auto simp: AList.delete_eq)
  then show "filed_keys (record_state key aid st h) \<subseteq> insert key (filed_keys h)"
    by (auto simp: record_state_def filed_keys_def dom_update split: option.splits if_splits)
qed (auto simp: record_state_def distinct_update AList.distinct_delete split: option.splits if_splits)

lemma asking_update:
  "holder_key ` {u \<in> set (ts[i := t]). asking u} \<subseteq>
     holder_key ` {u \<in> set ts. asking u} \<union> (if asking t then {holder_key t} else {})"
  using set_update_subset_insert [of ts i t] by auto

text \<open>A step that takes or gives back no slot: the connection's key was already live.\<close>

lemma slots_inv_update:
  assumes inv: "slots_inv s" and i: "i < length (holders s)" and same: "in_slot t" "in_slot (holders s ! i)"
    and key: "asking (holders s ! i)" "holder_key t = holder_key (holders s ! i)"
    and h: "active h = active (shared s)" "distinct (map fst (byKey h))"
      "filed_keys h \<subseteq> insert (holder_key t) (filed_keys (shared s))"
  shows "slots_inv (s\<lparr>shared := h, holders := (holders s)[i := t], raised_for := r, approved_ids := a\<rparr>)"
proof -
  have "n_slots (s\<lparr>holders := (holders s)[i := t]\<rparr>) = n_slots s"
    using length_filter_update [OF i, of in_slot t] same by (simp add: n_slots_def)
  moreover have "holder_key t \<in> live_keys s" using i key by (force simp: live_keys_def)
  then have "live_keys (s\<lparr>shared := h, holders := (holders s)[i := t]\<rparr>) \<subseteq> live_keys s"
    using h(3) asking_update [of "holders s" i t] by (auto simp: live_keys_def split: if_splits)
  then have "card (live_keys (s\<lparr>shared := h, holders := (holders s)[i := t]\<rparr>)) \<le> card (live_keys s)"
    by (intro card_mono) auto
  ultimately show ?thesis using inv h(1,2) by (simp add: slots_inv_def n_slots_def live_keys_def)
qed

lemma admit_slots:
  assumes inv: "slots_inv s" and i: "i < length (holders s)" and st: "holders s ! i = Start key"
    and ad: "holdPush_admit key (shared s) = (t, h)"
  shows "slots_inv (s\<lparr>shared := h, holders := (holders s)[i := t]\<rparr>)"
proof -
  let ?s = "s\<lparr>shared := h, holders := (holders s)[i := t]\<rparr>"
  have len: "n_slots ?s = n_slots s + (if in_slot t then 1 else 0)"
    using length_filter_update [OF i, of in_slot t] st by (simp add: n_slots_def in_slot_def)
  show ?thesis
  proof (cases "in_slot t")
    case False
    then have "h = shared s \<and> \<not> asking t"
      using ad by (auto simp: holdPush_admit_def admit_def holder_kinds split: if_splits option.splits admission.splits)
    then have "live_keys ?s \<subseteq> live_keys s"
      using asking_update [of "holders s" i t] by (auto simp: live_keys_def split: if_splits)
    then have "card (live_keys ?s) \<le> card (live_keys s)" by (intro card_mono) auto
    then show ?thesis using inv len False \<open>h = _ \<and> _\<close> by (simp add: slots_inv_def)
  next
    case True
    then have h: "h = shared s\<lparr>active := active (shared s) + 1\<rparr>" "active (shared s) < maxPushHoldsActive"
      and k: "holder_key t = key" "asking t"
      and room: "key \<in> filed_keys (shared s) \<or> length (byKey (shared s)) < maxPushHoldKeys"
      using ad by (auto simp: holdPush_admit_def admit_def holder_kinds filed_keys_def dom_map_of_conv_image_fst [symmetric]
          split: if_splits option.splits admission.splits)
    have slots: "n_slots ?s \<le> maxPushHoldsActive" using h len True inv by (simp add: slots_inv_def)
    have "card (live_keys ?s) < maxPushHoldKeys + maxPushHoldsActive"
    proof (cases "key \<in> filed_keys (shared s)")
      case True
      moreover have "filed_keys h = filed_keys (shared s)" using h by (simp add: filed_keys_def)
      ultimately have "live_keys ?s \<subseteq> live_keys s"
        using asking_update [of "holders s" i t] k unfolding live_keys_def by auto
      then have "card (live_keys ?s) \<le> card (live_keys s)" by (intro card_mono) auto
      then show ?thesis using inv by (simp add: slots_inv_def)
    next
      case False
      have "card (live_keys ?s) \<le> card (filed_keys (shared s)) + n_slots ?s"
        using card_asking_le [of "(holders s)[i := t]"] card_Un_le [of "filed_keys (shared s)"] h
        unfolding live_keys_def n_slots_def by (simp add: filed_keys_def) (meson add_left_mono le_trans)
      then show ?thesis using False room slots inv card_filed [of "shared s"] by (simp add: slots_inv_def)
    qed
    then show ?thesis using inv h len True slots by (simp add: slots_inv_def)
  qed
qed

lemma slots_inv_step: "hold_step s s' \<Longrightarrow> slots_inv s \<Longrightarrow> slots_inv s'"
proof (induction rule: hold_step.induct)
  case (arrive s key)
  have "live_keys (s\<lparr>holders := holders s @ [Start key]\<rparr>) = live_keys s"
    by (auto simp: live_keys_def asking_def)
  then show ?case using arrive by (simp add: slots_inv_def n_slots_def in_slot_def)
next
  case (admit i s key t h)
  then show ?case by (intro admit_slots)
next
  case (raise_fails i s key t h)
  then show ?case
    by (intro slots_inv_update [where s = s and r = "raised_for s" and a = "approved_ids s", simplified])
      (auto simp: await_raise_def holder_kinds slots_inv_def)
next
  case (raise i s key aid t h)
  then show ?case
    by (intro slots_inv_update [where s = s and a = "approved_ids s", simplified])
      (auto simp: await_raise_def holder_kinds slots_inv_def record_state_frame(1,3)
        dest!: subsetD [OF record_state_frame(4)])
next
  case (poll i s key aid p t h)
  have "in_slot t \<and> holder_key t = key \<and> active h = active (shared s) \<and> distinct (map fst (byKey h))
        \<and> filed_keys h \<subseteq> insert key (filed_keys (shared s))"
    using poll(3,4) by (auto simp: await_poll_def holder_kinds slots_inv_def record_state_frame(1,3)
        split: poll.splits dest!: subsetD [OF record_state_frame(4)])
  then show ?case using poll
    by (intro slots_inv_update [where s = s and r = "raised_for s", simplified]) (auto simp: holder_kinds)
next
  case (leave i s key b)
  have "n_slots (s\<lparr>holders := (holders s)[i := Done key b]\<rparr>) + 1 = n_slots s"
    using length_filter_update [of i "holders s" in_slot "Done key b"] leave by (simp add: n_slots_def in_slot_def)
  moreover have "live_keys (s\<lparr>shared := PushHold.leave (shared s), holders := (holders s)[i := Done key b]\<rparr>) \<subseteq> live_keys s"
    using asking_update [of "holders s" i "Done key b"]
    by (auto simp: live_keys_def filed_keys_def PushHold.leave_def asking_def)
  then have "card (live_keys (s\<lparr>shared := PushHold.leave (shared s), holders := (holders s)[i := Done key b]\<rparr>))
      \<le> card (live_keys s)" by (intro card_mono) auto
  ultimately show ?case using leave
    by (auto simp: slots_inv_def n_slots_def PushHold.leave_def)
qed

lemma slots_inv_reachable: "holds_reachable u s \<Longrightarrow> slots_inv s"
  unfolding holds_reachable_def
proof (induction rule: rtranclp_induct)
  case base
  show ?case by (simp add: slots_inv_def holds_start_def n_slots_def live_keys_def filed_keys_def maxPushHoldKeys_def)
qed (rule slots_inv_step)


subsection \<open>Only an approval forwards a push\<close>

definition has_approval :: "(uuid \<times> string) set \<Rightarrow> uuid set \<Rightarrow> string \<Rightarrow> bool" where
  "has_approval raised app key \<longleftrightarrow> (\<exists>aid. (aid, key) \<in> raised \<and> aid \<in> app)"

fun justified :: "(uuid \<times> string) set \<Rightarrow> uuid set \<Rightarrow> holder \<Rightarrow> bool" where
  "justified raised app (Polling key aid) \<longleftrightarrow> (aid, key) \<in> raised"
| "justified raised app (Leaving key b) \<longleftrightarrow> (b \<longrightarrow> has_approval raised app key)"
| "justified raised app (Done key b) \<longleftrightarrow> (b \<longrightarrow> has_approval raised app key)"
| "justified raised app t \<longleftrightarrow> True"

definition justified_entries :: "(uuid \<times> string) set \<Rightarrow> uuid set \<Rightarrow> pushHolds \<Rightarrow> bool" where
  "justified_entries raised app h \<longleftrightarrow>
     (\<forall>key e. map_of (byKey h) key = Some e \<longrightarrow>
        (hp_id e, key) \<in> raised \<and> (hp_state e = apApproved \<longrightarrow> hp_id e \<in> app))"

definition approval_inv :: "holds_system \<Rightarrow> bool" where
  "approval_inv s \<longleftrightarrow> justified_entries (raised_for s) (approved_ids s) (shared s) \<and>
     (\<forall>t\<in>set (holders s). justified (raised_for s) (approved_ids s) t)"

lemma justified_mono:
  "justified raised app t \<Longrightarrow> raised \<subseteq> raised' \<Longrightarrow> app \<subseteq> app' \<Longrightarrow> justified raised' app' t"
  by (cases t) (auto simp: has_approval_def)

lemma map_of_record_state:
  "map_of (byKey (record_state key aid st h)) k = Some e \<Longrightarrow>
   map_of (byKey h) k = Some e \<or> (k = key \<and> hp_id e = aid \<and> hp_state e = st)"
  by (auto simp: record_state_def update_conv' AList.delete_conv' map_of_delete split: option.splits if_splits)

lemma justified_entries_record:
  "justified_entries raised app h \<Longrightarrow> (aid, key) \<in> raised \<Longrightarrow> (st = apApproved \<longrightarrow> aid \<in> app) \<Longrightarrow>
   justified_entries raised app (record_state key aid st h)"
  unfolding justified_entries_def using map_of_record_state by metis

lemma justified_entries_mono:
  "justified_entries raised app h \<Longrightarrow> raised \<subseteq> raised' \<Longrightarrow> app \<subseteq> app' \<Longrightarrow> justified_entries raised' app' h"
  unfolding justified_entries_def by blast

lemma justified_entriesD:
  assumes "justified_entries raised app h" "map_of (byKey h) key = Some e"
  shows "(hp_id e, key) \<in> raised" "hp_state e = apApproved \<Longrightarrow> has_approval raised app key"
  using assms unfolding justified_entries_def has_approval_def by blast+

lemma approval_inv_update:
  assumes "approval_inv s" "raised_for s \<subseteq> r" "approved_ids s \<subseteq> a" "justified r a t" "justified_entries r a h"
  shows "approval_inv (s\<lparr>shared := h, holders := (holders s)[i := t], raised_for := r, approved_ids := a\<rparr>)"
proof -
  have "justified r a u" if "u \<in> set ((holders s)[i := t])" for u
  proof (cases "u = t")
    case False
    then have "u \<in> set (holders s)" using that set_update_subset_insert [of "holders s" i t] by blast
    then have "justified (raised_for s) (approved_ids s) u" using assms(1) by (simp add: approval_inv_def)
    then show ?thesis using assms(2,3) by (rule justified_mono)
  qed (simp add: assms(4))
  then show ?thesis using assms(5) by (simp add: approval_inv_def)
qed

lemma approval_inv_step: "hold_step s s' \<Longrightarrow> approval_inv s \<Longrightarrow> approval_inv s'"
proof (induction rule: hold_step.induct)
  case (arrive s key)
  then show ?case by (auto simp: approval_inv_def)
next
  case (admit i s key t h)
  have "byKey h = byKey (shared s)"
    using admit(3) by (auto simp: holdPush_admit_def admit_def split: if_splits option.splits admission.splits)
  moreover have "justified (raised_for s) (approved_ids s) t"
    using admit(3,4) by (auto simp: holdPush_admit_def admit_def approval_inv_def dest: justified_entriesD
        split: if_splits option.splits admission.splits)
  ultimately show ?case using admit(4)
    by (intro approval_inv_update [where s = s and r = "raised_for s" and a = "approved_ids s", simplified])
      (auto simp: approval_inv_def justified_entries_def)
next
  case (raise_fails i s key t h)
  then show ?case
    by (intro approval_inv_update [where s = s and r = "raised_for s" and a = "approved_ids s", simplified])
      (auto simp: await_raise_def approval_inv_def)
next
  case (raise i s key aid t h)
  let ?r = "insert (aid, key) (raised_for s)"
  have "justified_entries ?r (approved_ids s) h" "justified ?r (approved_ids s) t"
    using raise(3,4) by (auto simp: await_raise_def approval_inv_def
        intro!: justified_entries_record intro: justified_entries_mono)
  then show ?case using raise(4)
    by (intro approval_inv_update [where s = s and r = ?r and a = "approved_ids s", simplified]) auto
next
  case (poll i s key aid p t h)
  let ?a = "if p = Approved then insert aid (approved_ids s) else approved_ids s"
  have raised: "(aid, key) \<in> raised_for s"
    using poll(1,2,4) nth_mem [of i "holders s"] unfolding approval_inv_def by fastforce
  have "justified_entries (raised_for s) ?a (shared s)"
    using poll(4) unfolding approval_inv_def by (auto intro: justified_entries_mono)
  then have "justified_entries (raised_for s) ?a h" "justified (raised_for s) ?a t"
    using poll(3) raised by (auto simp: await_poll_def has_approval_def split: poll.splits
        intro!: justified_entries_record)
  then show ?case using poll(4)
    by (intro approval_inv_update [where s = s and r = "raised_for s" and a = ?a, simplified]) auto
next
  case (leave i s key b)
  have "justified (raised_for s) (approved_ids s) (Done key b)"
    using leave nth_mem [of i "holders s"] unfolding approval_inv_def by fastforce
  then show ?case using leave(3)
    by (intro approval_inv_update [where s = s and r = "raised_for s" and a = "approved_ids s", simplified])
      (auto simp: approval_inv_def justified_entries_def PushHold.leave_def)
qed

lemma approval_inv_reachable: "holds_reachable u s \<Longrightarrow> approval_inv s"
  unfolding holds_reachable_def
proof (induction rule: rtranclp_induct)
  case base
  show ?case by (simp add: approval_inv_def holds_start_def justified_entries_def)
qed (rule approval_inv_step)


text \<open>
  C20: under any interleaving of the connections that hold a push, a push is forwarded only on an approval of its own
  question: a connection for a key ends forwarding only when an approval that was raised for this key was read as
  approved. At most \<open>maxPushHoldsActive\<close> connections hold a slot at a time, the count kept in the state is the number
  of them, and the questions filed number less than \<open>maxPushHoldKeys + maxPushHoldsActive\<close>.
\<close>

theorem held_push_needs_approval:
  assumes "holds_reachable u s"
  shows "(\<forall>key. Done key True \<in> set (holders s) \<longrightarrow> has_approval (raised_for s) (approved_ids s) key) \<and>
         active (shared s) = length (filter in_slot (holders s)) \<and> active (shared s) \<le> maxPushHoldsActive \<and>
         length (byKey (shared s)) < maxPushHoldKeys + maxPushHoldsActive"
proof -
  note inv = approval_inv_reachable [OF assms] and slots = slots_inv_reachable [OF assms]
  have "card (filed_keys (shared s)) \<le> card (live_keys s)" by (intro card_mono) (auto simp: live_keys_def filed_keys_def)
  then have "length (byKey (shared s)) < maxPushHoldKeys + maxPushHoldsActive"
    using slots card_filed [of "shared s"] by (simp add: slots_inv_def)
  then show ?thesis using inv slots by (fastforce simp: approval_inv_def slots_inv_def n_slots_def)
qed

text \<open>A run: one push raises the question, is approved and forwarded.\<close>

lemma held_push_witness:
  "\<exists>s. holds_reachable False s \<and> Done ''k'' True \<in> set (holders s) \<and> has_approval (raised_for s) (approved_ids s) ''k''"
proof -
  let ?s1 = "holds_start False\<lparr>holders := [Start ''k'']\<rparr>"
  let ?h1 = "\<lparr>unattended = False, byKey = [], active = 1\<rparr>"
  let ?s2 = "?s1\<lparr>shared := ?h1, holders := [Raising ''k'']\<rparr>"
  let ?h2 = "?h1\<lparr>byKey := [(''k'', \<lparr>hp_id = 7, hp_state = apPending\<rparr>)]\<rparr>"
  let ?s3 = "?s2\<lparr>shared := ?h2, holders := [Polling ''k'' 7], raised_for := {(7, ''k'')}\<rparr>"
  let ?h3 = "?h1\<lparr>byKey := [(''k'', \<lparr>hp_id = 7, hp_state = apApproved\<rparr>)]\<rparr>"
  let ?s4 = "?s3\<lparr>shared := ?h3, holders := [Leaving ''k'' True], approved_ids := {7}\<rparr>"
  let ?s5 = "?s4\<lparr>shared := ?h3\<lparr>active := 0\<rparr>, holders := [Done ''k'' True]\<rparr>"
  have "hold_step (holds_start False) ?s1"
    using arrive [of "holds_start False" "''k''"] by (simp add: holds_start_def)
  moreover have "hold_step ?s1 ?s2"
    using hold_step.admit [of 0 ?s1 "''k''" "Raising ''k''" ?h1]
    by (simp add: holds_start_def holdPush_admit_def admit_def maxPushHoldKeys_def maxPushHoldsActive_def)
  moreover have "hold_step ?s2 ?s3"
    using raise [of 0 ?s2 "''k''" 7 "Polling ''k'' 7" ?h2] by (simp add: await_raise_def record_state_def holds_start_def)
  moreover have "hold_step ?s3 ?s4"
    using poll [of 0 ?s3 "''k''" 7 Approved "Leaving ''k'' True" ?h3]
    by (simp add: await_poll_def record_state_def holds_start_def)
  moreover have "hold_step ?s4 ?s5"
    using hold_step.leave [of 0 ?s4 "''k''" True] by (simp add: PushHold.leave_def)
  ultimately have "holds_reachable False ?s5"
    unfolding holds_reachable_def by (meson rtranclp.rtrancl_into_rtrancl rtranclp.rtrancl_refl)
  then show ?thesis using held_push_needs_approval [of False ?s5] by (intro exI [of _ ?s5]) simp
qed

end
