(* ===== verification/EgressEvaluate.thy ===== *)
theory EgressEvaluate
  imports EgressGuard PushHold
begin

section \<open>The decision on a request: internal/egress/proxy/proxy.go evaluate\<close>

text \<open>
  \<open>evaluate\<close> decides one request: the literal-IP guard, the hosts the brokers own, the policy gate (\<open>gateConnect\<close>), the
  deny_all guard on code hosts, the memo of private-address refusals, the first-use approval, and the vetting of the
  dial target. The evaluator, the answer of the first-use approval for the host and the IDNA table are arguments; the
  memo is the state, returned updated with the rows it closed. The properties follow the order of the steps.
\<close>

subsection \<open>Requests, decisions and their log\<close>

record Request =
  rq_Host :: string
  rq_Port :: int
  rq_Method :: string
  rq_Path :: string
  rq_Time :: int

datatype Decision = Allow | Deny | Pending

record DecisionLog =
  dl_Request :: Request
  dl_Decision :: Decision
  dl_RuleSource :: string
  dl_ApprovalID :: "uuid option"
  dl_Cause :: string
  dl_Via :: string
  dl_Repeat :: int
  dl_PortRule :: string

definition decisionLog :: "Request \<Rightarrow> Decision \<Rightarrow> string \<Rightarrow> DecisionLog" where
  "decisionLog req d ruleSource =
     \<lparr>dl_Request = req, dl_Decision = d, dl_RuleSource = ruleSource, dl_ApprovalID = None, dl_Cause = [], dl_Via = [],
      dl_Repeat = 0, dl_PortRule = []\<rparr>"

definition markPortDryRun :: "DecisionLog \<Rightarrow> bool \<Rightarrow> DecisionLog" where
  "markPortDryRun log dryRun = (if dryRun then log\<lparr>dl_PortRule := PortRuleDryRun\<rparr> else log)"

text \<open>\<open>splitHostPort\<close>: every trailing dot goes, and an address takes its one spelling.\<close>

definition splitHostPort :: "string \<Rightarrow> int \<Rightarrow> string \<times> int" where
  "splitHostPort hostport defaultPort =
     (case SplitHostPort hostport of
        Some (h, ps) \<Rightarrow> (CanonHost (TrimRight h ''.''), case Atoi ps of Some n \<Rightarrow> n | None \<Rightarrow> 0)
      | None \<Rightarrow> (CanonHost (TrimRight hostport ''.''), defaultPort))"


subsection \<open>connect_gate.go\<close>

text \<open>\<open>gc_refusal\<close> is the rule source of the refusal, empty for none.\<close>

record connectGate =
  gc_refusal :: string
  gc_verdict :: HostVerdict
  gc_portDryRun :: bool

definition ruleSourcePort :: string where "ruleSourcePort = ''policy:port''"

definition gateConnect ::
  "Request \<Rightarrow> (Request \<Rightarrow> HostVerdict option) \<Rightarrow> (string \<Rightarrow> bool) \<Rightarrow> Policy \<Rightarrow> string \<Rightarrow> connectGate" where
  "gateConnect req evalH methodOK pol portRule =
     (case evalH req of
        None \<Rightarrow> \<lparr>gc_refusal = ''policy:evaluator-error'', gc_verdict = VerdictOther [], gc_portDryRun = False\<rparr>
      | Some VerdictDeny \<Rightarrow> \<lparr>gc_refusal = ''policy:denied'', gc_verdict = VerdictOther [], gc_portDryRun = False\<rparr>
      | Some verdict \<Rightarrow>
          let refuses = portRuleRefuses portRule pol (rq_Host req) (rq_Port req) in
          if refuses \<and> portRule = PortRuleOn
          then \<lparr>gc_refusal = ruleSourcePort, gc_verdict = VerdictOther [], gc_portDryRun = False\<rparr>
          else if \<not> methodOK (rq_Method req)
          then \<lparr>gc_refusal = ''policy:method'', gc_verdict = VerdictOther [], gc_portDryRun = False\<rparr>
          else \<lparr>gc_refusal = [], gc_verdict = verdict, gc_portDryRun = refuses\<rparr>)"

datatype connectOutcome = connectRefuse | connectHold | connectAdmit

definition outcome :: "connectGate \<Rightarrow> bool \<Rightarrow> connectOutcome" where
  "outcome g canAsk =
     (if gc_refusal g \<noteq> [] then connectRefuse
      else if gc_verdict g = VerdictAllow then connectAdmit
      else if gc_verdict g = VerdictUnknown \<and> canAsk then connectHold
      else connectRefuse)"


subsection \<open>private_ip_memo.go\<close>

definition privateIPMemoMax :: nat where "privateIPMemoMax = 64"

record privateIPStreak =
  ps_req :: Request
  ps_repeats :: int
  ps_last :: int
  ps_kind :: blockKind
  ps_hint :: string

type_synonym privateIPMemo = "(string \<times> privateIPStreak) list"

definition closeStreak :: "privateIPStreak \<Rightarrow> DecisionLog option" where
  "closeStreak s =
     (if ps_repeats s = 0 then None
      else
        let log = decisionLog (ps_req s) Deny ''builtin:private-ip'' in
        Some (log\<lparr>dl_Request := (dl_Request log)\<lparr>rq_Time := ps_last s\<rparr>, dl_Repeat := ps_repeats s, dl_Cause := ps_hint s\<rparr>))"

text \<open>The oldest streak, the first met among equals (Go's map order is any).\<close>

fun oldest :: "privateIPMemo \<Rightarrow> (string \<times> privateIPStreak) option" where
  "oldest [] = None"
| "oldest (e # es) =
     (case oldest es of None \<Rightarrow> Some e | Some f \<Rightarrow> if ps_last (snd f) < ps_last (snd e) then Some f else Some e)"

definition memo_record :: "Request \<Rightarrow> blockKind \<Rightarrow> string \<Rightarrow> privateIPMemo \<Rightarrow> privateIPMemo \<times> DecisionLog option" where
  "memo_record req kind hint m =
     (let key = hostPortKey (rq_Host req) (rq_Port req);
          fresh = (key, \<lparr>ps_req = req, ps_repeats = 0, ps_last = rq_Time req, ps_kind = kind, ps_hint = hint\<rparr>) in
      if map_of m key \<noteq> None then (m, None)
      else if length m \<ge> privateIPMemoMax then
        (case oldest m of
           None \<Rightarrow> (fresh # m, None)
         | Some (k, s) \<Rightarrow> (fresh # AList.delete k m, closeStreak s))
      else (fresh # m, None))"

definition memo_hit :: "string \<Rightarrow> int \<Rightarrow> int \<Rightarrow> privateIPMemo \<Rightarrow> bool \<times> privateIPMemo" where
  "memo_hit host port now m =
     (let key = hostPortKey host port in
      case map_of m key of
        None \<Rightarrow> (False, m)
      | Some s \<Rightarrow> (True, AList.update key (s\<lparr>ps_repeats := ps_repeats s + 1, ps_last := now\<rparr>) m))"

definition memoed :: "string \<Rightarrow> int \<Rightarrow> privateIPMemo \<Rightarrow> bool" where
  "memoed host port m = (map_of m (hostPortKey host port) \<noteq> None)"

definition kindOf :: "string \<Rightarrow> int \<Rightarrow> privateIPMemo \<Rightarrow> blockKind \<times> string" where
  "kindOf host port m =
     (case map_of m (hostPortKey host port) of None \<Rightarrow> (blockNone, []) | Some s \<Rightarrow> (ps_kind s, ps_hint s))"

definition drain :: "privateIPMemo \<Rightarrow> DecisionLog list \<times> privateIPMemo" where
  "drain m = (List.map_filter (closeStreak \<circ> snd) m, [])"

definition privateIPBlockKind :: "Proxy \<Rightarrow> string \<Rightarrow> int \<Rightarrow> privateIPMemo \<Rightarrow> blockKind \<times> string" where
  "privateIPBlockKind p host port m =
     (case ParseIP (TrimSuffix (ToLower host) ''.'') of
        Some ip \<Rightarrow>
          if hardDeny_ip (px_hardDeny p) ip then (blockHardDeny, [])
          else if block_kind ip = blockPrivate \<and> onOwnSubnetOrControlPlane p ip then (clampKind p, [])
          else kindOf host port m
      | None \<Rightarrow> kindOf host port m)"


subsection \<open>push_deny_all_forge.go\<close>

definition PublicGitHubHost :: string where "PublicGitHubHost = ''github.com''"
definition PublicAzureDevOpsHost :: string where "PublicAzureDevOpsHost = ''dev.azure.com''"

definition PublicForgeHosts :: "string list" where
  "PublicForgeHosts = [''github.com'', ''api.github.com'', ''uploads.github.com'', ''gist.github.com'', ''ssh.github.com'',
     ''dev.azure.com'', ''ssh.dev.azure.com'', ''vs-ssh.visualstudio.com'']"

definition adoHostedHost :: "string \<Rightarrow> bool" where
  "adoHostedHost host =
     (let h = ToLower (TrimSuffix host ''.'') in
      h = ''dev.azure.com'' \<or> HasSuffix h ''.dev.azure.com'' \<or> HasSuffix h ''.visualstudio.com'')"

definition adoExtensionGallery :: string where "adoExtensionGallery = ''marketplace.visualstudio.com''"

text \<open>\<open>canonicalPushHostOrg\<close> of internal/types/push_rule_entry.go; \<open>None\<close> is its error. A host name is dot-separated
  labels of letters, digits and inner hyphens.\<close>

definition push_label :: "string \<Rightarrow> bool" where
  "push_label l \<longleftrightarrow> l \<noteq> [] \<and> lower_alnum (hd l) \<and> lower_alnum (last l) \<and> list_all (\<lambda>c. lower_alnum c \<or> c = CHR ''-'') l"

definition pushHostRE :: "string \<Rightarrow> bool" where
  "pushHostRE h = list_all push_label (Split h (CHR ''.''))"

definition canonicalPushHostOrg :: "string \<Rightarrow> string \<Rightarrow> (string \<times> string) option" where
  "canonicalPushHostOrg provider host =
     (if host = [] then
        (if provider = ''github'' then Some (PublicGitHubHost, [])
         else if provider = ''azure_devops'' then Some (PublicAzureDevOpsHost, []) else None)
      else if list_ex (\<lambda>c. byte_of c > 127) host then None
      else
        let h0 = ToLower host;
            h = (if h0 = ''ssh.github.com'' then PublicGitHubHost
                 else if h0 = ''ssh.dev.azure.com'' then PublicAzureDevOpsHost else h0) in
        if \<not> pushHostRE h \<or> length h > 253 then None
        else if provider = ''azure_devops'' then
          (if h = ''vs-ssh.visualstudio.com'' then Some (PublicAzureDevOpsHost, [])
           else let sub = TrimSuffix h ''.visualstudio.com'' in
                if sub \<noteq> h then Some (PublicAzureDevOpsHost, sub) else Some (h, []))
        else Some (h, []))"

definition CanonicalPushHost :: "string \<Rightarrow> string \<Rightarrow> string option" where
  "CanonicalPushHost provider host = map_option fst (canonicalPushHostOrg provider host)"

record PushRuleSet =
  prs_Provider :: string
  prs_Host :: string
  prs_DenyAll :: bool

text \<open>What evaluate reads beside the guard: the evaluator and the port rule, the broker's hosts, the approval client and
  the state of the deny_all guard. \<open>ev_approval\<close> is the outcome \<open>ResolveWait\<close> (\<open>True\<close>) or \<open>Resolve\<close> gives for a host, and
  \<open>None\<close> when the proxy has no approval client; \<open>ev_now\<close> and \<open>ev_memoNow\<close> are the two readings of the clock;
  \<open>ev_idna\<close> is \<open>idna.Lookup.ToASCII\<close> and \<open>ev_uuidString\<close> the printing of a UUID. The guard reads the same policy as
  the evaluation: \<open>proxy_of\<close>.\<close>

record EvalEnv =
  ev_proxy :: Proxy
  ev_EvaluateHost :: "Request \<Rightarrow> HostVerdict option"
  ev_MethodAllowed :: "string \<Rightarrow> bool"
  ev_policy :: Policy
  ev_portRule :: string
  ev_mcpHosts :: "string list"
  ev_approval :: "(bool \<Rightarrow> string \<Rightarrow> approvalState \<times> uuid) option"
  ev_uuidString :: "uuid \<Rightarrow> string"
  ev_now :: int
  ev_memoNow :: int
  ev_pushBase :: "pushRuleSet option"
  ev_pushSets :: "PushRuleSet list"
  ev_forgeHosts :: "string list"
  ev_patGrantHosts :: "string list"
  ev_gitPushWithheld :: "string list"
  ev_residentMintHosts :: "string list"
  ev_adoHosts :: "string list"
  ev_githubAPI :: bool
  ev_patAPIHosts :: "string list"
  ev_idna :: "string \<Rightarrow> string option"

definition proxy_of :: "EvalEnv \<Rightarrow> Proxy" where
  "proxy_of e = (ev_proxy e)\<lparr>px_policy := Some (ev_policy e)\<rparr>"

definition forgeHostKey :: "(string \<Rightarrow> string option) \<Rightarrow> string \<Rightarrow> string" where
  "forgeHostKey idna host0 =
     (let host1 = (case SplitHostPort host0 of Some (h, _) \<Rightarrow> h | None \<Rightarrow> host0);
          host = CanonHost (TrimRight (TrimSpace host1) ''.'') in
      if list_ex (\<lambda>c. byte_of c \<ge> 128) host
      then (case idna host of Some a \<Rightarrow> TrimRight a ''.'' | None \<Rightarrow> host)
      else host)"

definition pushDenyAllInForce :: "EvalEnv \<Rightarrow> bool" where
  "pushDenyAllInForce e =
     ((case pushRules (ev_policy e) of Some rs \<Rightarrow> ps_denyAll rs | None \<Rightarrow> False) \<or>
      (case ev_pushBase e of Some rs \<Rightarrow> ps_denyAll rs | None \<Rightarrow> False) \<or>
      list_ex prs_DenyAll (ev_pushSets e))"

definition knownForgeHost :: "EvalEnv \<Rightarrow> string \<Rightarrow> bool" where
  "knownForgeHost e key =
     (key \<in> set (map (forgeHostKey (ev_idna e)) PublicForgeHosts) \<or> (adoHostedHost key \<and> key \<noteq> adoExtensionGallery) \<or>
      key \<in> set (filter (\<lambda>k. k \<noteq> []) (map (forgeHostKey (ev_idna e)) (ev_forgeHosts e))) \<or>
      key \<in> set (ev_patGrantHosts e) \<or> key \<in> set (ev_gitPushWithheld e) \<or>
      list_ex (\<lambda>h. h \<noteq> [] \<and> forgeHostKey (ev_idna e) h = key) (ev_residentMintHosts e) \<or>
      list_ex (\<lambda>s. CanonicalPushHost (prs_Provider s) (prs_Host s) = Some key) (ev_pushSets e))"

definition door_host :: "string \<Rightarrow> string" where
  "door_host host = ToLower (TrimSuffix host ''.'')"

definition forgeDoorHost :: "EvalEnv \<Rightarrow> string \<Rightarrow> bool" where
  "forgeDoorHost e host =
     (door_host host \<in> set (ev_adoHosts e) \<or> (ev_githubAPI e \<and> door_host host = ''api.github.com'') \<or>
      door_host host \<in> set (ev_patAPIHosts e))"

definition policyMayAdmit :: "EvalEnv \<Rightarrow> HostVerdict \<Rightarrow> bool" where
  "policyMayAdmit e v =
     (v = VerdictAllow \<or> (v = VerdictUnknown \<and> RaisesApproval (firstUse (ev_policy e)) \<and> ev_approval e \<noteq> None))"

definition ruleSourceGitPushDenyAllForge :: string where
  "ruleSourceGitPushDenyAllForge = ''brokered:git:push-deny-all-forge''"

definition pushDenyAllForgeRefusal :: "string \<Rightarrow> string" where
  "pushDenyAllForgeRefusal host =
     ''Wardyn refused this connection: this run may not push, and '' @ host @
     '' is a code host Wardyn doesn'' @ [CHR 0x27] @ ''t broker for this run.''"

definition pushDenyAllForgeDeny :: "EvalEnv \<Rightarrow> Request \<Rightarrow> string \<Rightarrow> HostVerdict \<Rightarrow> DecisionLog option" where
  "pushDenyAllForgeDeny e req host v =
     (if \<not> policyMayAdmit e v \<or> \<not> pushDenyAllInForce e \<or> forgeDoorHost e host then None
      else if \<not> knownForgeHost e (forgeHostKey (ev_idna e) host) then None
      else Some ((decisionLog req Deny ruleSourceGitPushDenyAllForge)\<lparr>dl_Cause := pushDenyAllForgeRefusal host\<rparr>))"


subsection \<open>evaluate\<close>

definition ruleSourceMCPDirect :: string where "ruleSourceMCPDirect = ''brokered:mcp:direct''"
definition ruleSourceLocalModel :: string where "ruleSourceLocalModel = ''brokered:local-model''"
definition viaDirect :: string where "viaDirect = ''direct''"

definition resolveBypassedCause :: string where
  "resolveBypassedCause = ''this name is on the upstream proxy'' @ [CHR 0x27] @
     ''s bypass list, so the proxy resolves and dials it itself, and it did not resolve at the proxy''"

definition mcpDirectOrigin :: "EvalEnv \<Rightarrow> string \<Rightarrow> bool" where
  "mcpDirectOrigin e host = list_ex (\<lambda>h. h = host) (ev_mcpHosts e)"

definition localModelHost :: "Proxy \<Rightarrow> string \<Rightarrow> bool" where
  "localModelHost p host =
     list_ex (\<lambda>(k, _). HasPrefix k (TrimSuffix (ToLower host) ''.'' @ [CHR 0x00])) (px_localModels p)"

fun approvalPendingReason :: "approvalState \<Rightarrow> string" where
  "approvalPendingReason apCapped = ''approval:host-cap''"
| "approvalPendingReason apRefused = ''approval:refused''"
| "approvalPendingReason apExpired = ''approval:expired''"
| "approvalPendingReason apStale = ''approval:stale''"
| "approvalPendingReason _ = ''approval:pending''"

definition allowLog :: "EvalEnv \<Rightarrow> Request \<Rightarrow> uuid \<Rightarrow> DecisionLog" where
  "allowLog e req approvalID =
     (if approvalID = uuid_Nil then decisionLog req Allow ''policy:allowed''
      else (decisionLog req Allow (''approval:'' @ ev_uuidString e approvalID))\<lparr>dl_ApprovalID := Some approvalID\<rparr>)"

text \<open>Step 3, the switch on the verdict: \<open>Inl\<close> is the decision it ends with, \<open>Inr\<close> the approval that released the
  request (nil for a standing allow).\<close>

definition first_use_step :: "EvalEnv \<Rightarrow> Request \<Rightarrow> string \<Rightarrow> HostVerdict \<Rightarrow> (Decision \<times> DecisionLog) + uuid" where
  "first_use_step e req host verdict =
     (case verdict of
        VerdictUnknown \<Rightarrow>
          let mode = firstUse (ev_policy e) in
          (case (if RaisesApproval mode then ev_approval e else None) of
             Some resolve \<Rightarrow>
               let (st, approval) = resolve (mode = FirstUseWaitForReview) host in
               (case st of
                  apApproved \<Rightarrow> Inr approval
                | apDenied \<Rightarrow> Inl (Deny, decisionLog req Deny ''approval:denied'')
                | _ \<Rightarrow> Inl (Pending, (decisionLog req Pending (approvalPendingReason st))
                              \<lparr>dl_ApprovalID := (if approval \<noteq> uuid_Nil then Some approval else None)\<rparr>))
           | None \<Rightarrow> Inl (Deny, decisionLog req Deny ''policy:default-deny''))
      | VerdictAllow \<Rightarrow> Inr uuid_Nil
      | _ \<Rightarrow> Inl (Deny, decisionLog req Deny ''policy:evaluator-error''))"

text \<open>The result of a decision: the decision, the dial target, its row, the memo and the row an eviction closed.\<close>

type_synonym evaluation = "Decision \<times> string \<times> DecisionLog option \<times> privateIPMemo \<times> DecisionLog list"

text \<open>Step 4, the vetted dial target.\<close>

definition dial_step ::
  "EvalEnv \<Rightarrow> privateIPMemo \<Rightarrow> Request \<Rightarrow> string \<Rightarrow> int \<Rightarrow> ip option \<Rightarrow> bool \<Rightarrow> uuid \<Rightarrow> evaluation" where
  "dial_step e m req host port trustedLiteralIP portDryRun approvalID =
     (case trustedLiteralIP of
        Some ip \<Rightarrow>
          let log = allowLog e req approvalID;
              log' = (if approvalID = uuid_Nil then log\<lparr>dl_RuleSource := ruleSourceEgressRedirect\<rparr> else log) in
          (Allow, JoinHostPort (ip_String ip) (Itoa port), Some (markPortDryRun log' portDryRun), m, [])
      | None \<Rightarrow>
          (case egressTarget (proxy_of e) host port of
             Inl errHostUnresolved \<Rightarrow>
               let log = decisionLog req Deny ''builtin:resolve-failed'';
                   log' = (if px_upstream (proxy_of e)
                           then log\<lparr>dl_Via := viaDirect, dl_Cause := resolveBypassedCause\<rparr> else log) in
               (Deny, [], Some log', m, [])
           | Inl (hostBlockedError kind hint) \<Rightarrow>
               let (m', evicted) = memo_record req kind hint m in
               (Deny, [], Some ((decisionLog req Deny ''builtin:private-ip'')\<lparr>dl_Cause := hint\<rparr>), m',
                case evicted of Some row \<Rightarrow> [row] | None \<Rightarrow> [])
           | Inr (target, ruleSource) \<Rightarrow>
               let log = allowLog e req approvalID;
                   log' = (if ruleSource \<noteq> [] \<and> approvalID = uuid_Nil
                           then log\<lparr>dl_RuleSource := ruleSource\<rparr> else log) in
               (Allow, target, Some (markPortDryRun log' portDryRun), m, [])))"

definition request_of :: "EvalEnv \<Rightarrow> string \<Rightarrow> int \<Rightarrow> string \<Rightarrow> string \<Rightarrow> Request" where
  "request_of e host port meth path =
     \<lparr>rq_Host = host, rq_Port = port, rq_Method = ToUpper meth, rq_Path = path, rq_Time = ev_now e\<rparr>"

definition evaluate :: "EvalEnv \<Rightarrow> privateIPMemo \<Rightarrow> string \<Rightarrow> int \<Rightarrow> string \<Rightarrow> string \<Rightarrow> evaluation" where
  "evaluate e m host port meth path =
     (let req = request_of e host port meth path;
          literal = literalIPGuard (proxy_of e) host port;
          refuse = (\<lambda>log. (Deny, [], Some log, m, [])) in
      if literal = LiteralDeny then refuse (decisionLog req Deny ''builtin:private-ip'')
      else if mcpDirectOrigin e host then refuse (decisionLog req Deny ruleSourceMCPDirect)
      else if localModelHost (proxy_of e) host then
        refuse ((decisionLog req Deny ruleSourceLocalModel)
          \<lparr>dl_Cause := ''a local model server is reached only on the brokered LLM route''\<rparr>)
      else
        let gate = gateConnect req (ev_EvaluateHost e) (ev_MethodAllowed e) (ev_policy e) (ev_portRule e) in
        if gc_refusal gate \<noteq> [] then refuse (decisionLog req Deny (gc_refusal gate))
        else
          (case pushDenyAllForgeDeny e req host (gc_verdict gate) of
             Some log \<Rightarrow> refuse log
           | None \<Rightarrow>
               (case memo_hit host port (ev_memoNow e) m of
                  (True, m') \<Rightarrow> (Deny, [], None, m', [])
                | (False, _) \<Rightarrow>
                    (case first_use_step e req host (gc_verdict gate) of
                       Inl (d, log) \<Rightarrow> (d, [], Some log, m, [])
                     | Inr approvalID \<Rightarrow>
                         dial_step e m req host port
                           (case literal of LiteralTrusted ip \<Rightarrow> Some ip | _ \<Rightarrow> None) (gc_portDryRun gate) approvalID))))"

subsection \<open>What a decision other than a denial means\<close>

abbreviation gate_of :: "EvalEnv \<Rightarrow> Request \<Rightarrow> connectGate" where
  "gate_of e req \<equiv> gateConnect req (ev_EvaluateHost e) (ev_MethodAllowed e) (ev_policy e) (ev_portRule e)"

text \<open>The steps a request has passed when it reaches the switch on the verdict.\<close>

definition passed :: "EvalEnv \<Rightarrow> privateIPMemo \<Rightarrow> string \<Rightarrow> int \<Rightarrow> Request \<Rightarrow> bool" where
  "passed e m host port req \<longleftrightarrow>
     literalIPGuard (proxy_of e) host port \<noteq> LiteralDeny \<and> \<not> mcpDirectOrigin e host \<and>
     \<not> localModelHost (proxy_of e) host \<and> gc_refusal (gate_of e req) = [] \<and>
     pushDenyAllForgeDeny e req host (gc_verdict (gate_of e req)) = None \<and> \<not> memoed host port m"

lemma memo_hit_memoed: "fst (memo_hit host port now m) = memoed host port m"
  by (simp add: memo_hit_def memoed_def Let_def split: option.splits)

lemma evaluate_passed:
  "passed e m host port (request_of e host port meth path) \<Longrightarrow>
   evaluate e m host port meth path =
     (case first_use_step e (request_of e host port meth path) host
             (gc_verdict (gate_of e (request_of e host port meth path))) of
        Inl (d, log) \<Rightarrow> (d, [], Some log, m, [])
      | Inr approvalID \<Rightarrow>
          dial_step e m (request_of e host port meth path) host port
            (case literalIPGuard (proxy_of e) host port of LiteralTrusted ip \<Rightarrow> Some ip | _ \<Rightarrow> None)
            (gc_portDryRun (gate_of e (request_of e host port meth path))) approvalID)"
  using memo_hit_memoed [of host port "ev_memoNow e" m]
  by (cases "memo_hit host port (ev_memoNow e) m") (simp add: passed_def evaluate_def Let_def)

lemma evaluate_not_passed:
  "\<not> passed e m host port (request_of e host port meth path) \<Longrightarrow>
   fst (evaluate e m host port meth path) = Deny \<and> fst (snd (evaluate e m host port meth path)) = []"
  using memo_hit_memoed [of host port "ev_memoNow e" m]
  by (cases "memo_hit host port (ev_memoNow e) m")
    (auto simp: passed_def evaluate_def Let_def split: option.split bool.split)

lemma first_use_step_released:
  "first_use_step e req host v = Inr approvalID \<longleftrightarrow>
     v = VerdictAllow \<and> approvalID = uuid_Nil \<or>
     v = VerdictUnknown \<and> RaisesApproval (firstUse (ev_policy e)) \<and>
       (\<exists>resolve. ev_approval e = Some resolve \<and>
          resolve (firstUse (ev_policy e) = FirstUseWaitForReview) host = (apApproved, approvalID))"
  by (auto simp: first_use_step_def Let_def split: HostVerdict.splits option.splits if_splits prod.splits
      approvalState.splits)

lemma first_use_step_not_allow: "first_use_step e req host v = Inl (d, log) \<Longrightarrow> d \<noteq> Allow"
  by (auto simp: first_use_step_def Let_def split: HostVerdict.splits option.splits if_splits prod.splits
      approvalState.splits)

lemma dial_step_target:
  assumes "dial_step e m req host port lit dry a = (Allow, target, log, m', rows)"
  shows "m' = m \<and> rows = [] \<and>
    (case lit of Some ip \<Rightarrow> target = JoinHostPort (ip_String ip) (Itoa port)
               | None \<Rightarrow> (\<exists>rs. egressTarget (proxy_of e) host port = Inr (target, rs)))"
  using assms
  by (auto simp: dial_step_def Let_def split: option.splits sum.splits target_error.splits prod.splits)

lemma dial_step_decision: "fst (dial_step e m req host port lit dry a) \<noteq> Pending"
  by (auto simp: dial_step_def Let_def split: option.splits sum.splits target_error.splits prod.splits)

lemma gate_refusal_iff:
  "gc_refusal (gate_of e req) = [] \<longleftrightarrow>
     (\<exists>v. ev_EvaluateHost e req = Some v \<and> v \<noteq> VerdictDeny) \<and>
     \<not> (ev_portRule e = PortRuleOn \<and> portRuleRefuses (ev_portRule e) (ev_policy e) (rq_Host req) (rq_Port req)) \<and>
     ev_MethodAllowed e (rq_Method req)"
  by (auto simp: gateConnect_def Let_def ruleSourcePort_def split: option.splits HostVerdict.splits)

lemma gate_verdict: "gc_refusal (gate_of e req) = [] \<Longrightarrow> ev_EvaluateHost e req = Some (gc_verdict (gate_of e req))"
  by (auto simp: gateConnect_def Let_def ruleSourcePort_def split: option.splits HostVerdict.splits if_splits)

text \<open>The decomposition of an allow into its steps.\<close>

lemma evaluate_allowE:
  assumes "evaluate e m host port meth path = (Allow, target, log, m', rows)"
  defines "req \<equiv> request_of e host port meth path"
  obtains approvalID where "passed e m host port req"
    "first_use_step e req host (gc_verdict (gate_of e req)) = Inr approvalID"
    "dial_step e m req host port (case literalIPGuard (proxy_of e) host port of LiteralTrusted ip \<Rightarrow> Some ip | _ \<Rightarrow> None)
       (gc_portDryRun (gate_of e req)) approvalID = (Allow, target, log, m', rows)"
proof -
  have p: "passed e m host port req" using evaluate_not_passed [of e m host port meth path] assms by fastforce
  then have ev: "(case first_use_step e req host (gc_verdict (gate_of e req)) of
        Inl (d, log) \<Rightarrow> (d, [], Some log, m, [])
      | Inr approvalID \<Rightarrow>
          dial_step e m req host port
            (case literalIPGuard (proxy_of e) host port of LiteralTrusted ip \<Rightarrow> Some ip | _ \<Rightarrow> None)
            (gc_portDryRun (gate_of e req)) approvalID) = (Allow, target, log, m', rows)"
    using evaluate_passed [OF p [unfolded req_def]] assms(1) unfolding req_def by simp
  show ?thesis
  proof (cases "first_use_step e req host (gc_verdict (gate_of e req))")
    case (Inl a)
    then show ?thesis using ev first_use_step_not_allow [of e req host] by (cases a) auto
  next
    case (Inr a)
    then show ?thesis using that p ev by auto
  qed
qed

subsection \<open>What an allow promises\<close>

lemma trusted_literal_dial_ok:
  "literalIPGuard p host port = LiteralTrusted ip \<Longrightarrow> dial_ok p host port ip"
  by (auto simp: literalIPGuard_def dial_ok_def trustsExactLiteralIP_def split: option.splits if_splits)

text \<open>
  C1: every request the proxy allows is dialled inside the address guard, whatever the evaluator, the approvals and the
  resolver answer. The target is one address clear of the runner's hard deny that is public, or private and lifted for
  this host or trusted as the exact literal the policy allows; or, only when an upstream proxy is configured and the host is not on its
  bypass list, it is the requested name, not hard-denied, not a spelling of a blocked address, with every answer this
  proxy can resolve inside the guard.
\<close>

theorem allowed_dial_guarded:
  assumes "evaluate e m host port meth path = (Allow, target, log, m', rows)" "normal_host host"
  shows "(\<exists>ip. target = JoinHostPort (ip_String ip) (Itoa port) \<and> dial_ok (proxy_of e) host port ip) \<or>
     (px_upstream (proxy_of e) \<and> \<not> bypassUpstream (proxy_of e) host \<and> target = JoinHostPort host (Itoa port) \<and>
      \<not> hardDeny_name (px_hardDeny (proxy_of e)) host \<and>
      (\<forall>ip. nonCanonicalLiteralIP host = Some ip \<longrightarrow> block_kind ip = blockNone) \<and>
      (\<forall>ips. answers (px_res (proxy_of e)) host = Some ips \<longrightarrow> (\<forall>a\<in>set ips. dial_ok (proxy_of e) host port a)))"
proof -
  let ?p = "proxy_of e"
  let ?lit = "case literalIPGuard ?p host port of LiteralTrusted ip \<Rightarrow> Some ip | _ \<Rightarrow> None"
  obtain a where "dial_step e m (request_of e host port meth path) host port ?lit
      (gc_portDryRun (gate_of e (request_of e host port meth path))) a = (Allow, target, log, m', rows)"
    using evaluate_allowE [OF assms(1)] by blast
  note target = dial_step_target [OF this]
  show ?thesis
  proof (cases "\<exists>ip. literalIPGuard ?p host port = LiteralTrusted ip")
    case True
    then show ?thesis using target trusted_literal_dial_ok by auto
  next
    case False
    then have "?lit = None" by (simp split: literal_verdict.split)
    then obtain rs where t: "egressTarget ?p host port = Inr (target, rs)" using target by auto
    show ?thesis
    proof (cases "px_upstream ?p \<and> \<not> bypassUpstream ?p host")
      case True
      then show ?thesis using egressTarget_upstream [OF t assms(2)] by blast
    next
      case False
      then show ?thesis using egressTarget_direct [OF t assms(2)] by blast
    qed
  qed
qed

text \<open>
  C3: an allow is the policy's or a person's. The evaluator answered without error and did not deny; either it allowed
  the host and the row is the policy's, or it did not know the host, the run's first-use mode asks, and the approval of
  this host said yes, with its id on the row. The method is allowed, the port rule does not refuse, and the host is not
  a broker's own, a code host the push deny closes, or one whose refusal is on record.
\<close>

theorem allow_needs_policy_or_approval:
  assumes "evaluate e m host port meth path = (Allow, target, log, m', rows)"
  defines "req \<equiv> request_of e host port meth path"
  shows "\<exists>row. log = Some row \<and> dl_Request row = req \<and> dl_Decision row = Allow \<and>
    (ev_EvaluateHost e req = Some VerdictAllow \<and> dl_ApprovalID row = None \<or>
     ev_EvaluateHost e req = Some VerdictUnknown \<and> RaisesApproval (firstUse (ev_policy e)) \<and>
       (\<exists>resolve a. ev_approval e = Some resolve \<and>
          resolve (firstUse (ev_policy e) = FirstUseWaitForReview) host = (apApproved, a) \<and>
          dl_ApprovalID row = (if a = uuid_Nil then None else Some a))) \<and>
    ev_MethodAllowed e (ToUpper meth) \<and>
    \<not> (ev_portRule e = PortRuleOn \<and> portRuleRefuses (ev_portRule e) (ev_policy e) host port) \<and>
    \<not> mcpDirectOrigin e host \<and> \<not> localModelHost (proxy_of e) host \<and> \<not> memoed host port m \<and>
    pushDenyAllForgeDeny e req host (gc_verdict (gate_of e req)) = None"
proof -
  obtain a where a: "passed e m host port req" "first_use_step e req host (gc_verdict (gate_of e req)) = Inr a"
    "dial_step e m req host port (case literalIPGuard (proxy_of e) host port of LiteralTrusted ip \<Rightarrow> Some ip | _ \<Rightarrow> None)
       (gc_portDryRun (gate_of e req)) a = (Allow, target, log, m', rows)"
    using evaluate_allowE [OF assms(1)] unfolding req_def by blast
  have row: "\<exists>row. log = Some row \<and> dl_Request row = req \<and> dl_Decision row = Allow \<and>
      dl_ApprovalID row = (if a = uuid_Nil then None else Some a)"
    using a(3) by (auto simp: dial_step_def allowLog_def markPortDryRun_def decisionLog_def Let_def
        split: option.splits sum.splits target_error.splits prod.splits if_splits)
  have v: "ev_EvaluateHost e req = Some (gc_verdict (gate_of e req))"
    using a(1) gate_verdict by (simp add: passed_def)
  have "rq_Host req = host" "rq_Port req = port" "rq_Method req = ToUpper meth"
    by (simp_all add: req_def request_of_def)
  then have gate: "\<not> (ev_portRule e = PortRuleOn \<and> portRuleRefuses (ev_portRule e) (ev_policy e) host port)"
    "ev_MethodAllowed e (ToUpper meth)"
    using a(1) gate_refusal_iff [of req e] unfolding passed_def by metis+
  show ?thesis
    using a(1) row v gate a(2) [unfolded first_use_step_released] unfolding passed_def by (metis (no_types, lifting))
qed

text \<open>
  C24: the gate the configuration alone decides agrees with the live decision. A host the gate refuses is denied by
  \<open>evaluate\<close> whatever else happens; a host it admits is never left pending; a host it would ask about is allowed only on
  an approval.
\<close>

theorem gate_agrees_with_evaluate:
  "case outcome (gate_of e (request_of e host port meth path))
          (RaisesApproval (firstUse (ev_policy e)) \<and> ev_approval e \<noteq> None) of
     connectRefuse \<Rightarrow> fst (evaluate e m host port meth path) = Deny
   | connectAdmit \<Rightarrow> fst (evaluate e m host port meth path) \<noteq> Pending
   | connectHold \<Rightarrow> fst (evaluate e m host port meth path) = Allow \<longrightarrow>
       (\<exists>resolve a. ev_approval e = Some resolve \<and>
          resolve (firstUse (ev_policy e) = FirstUseWaitForReview) host = (apApproved, a))"
proof (cases "passed e m host port (request_of e host port meth path)")
  case False
  then show ?thesis using evaluate_not_passed [OF False] by (simp split: connectOutcome.split)
next
  case True
  let ?req = "request_of e host port meth path"
  let ?v = "gc_verdict (gate_of e ?req)"
  note ev = evaluate_passed [OF True]
  have ok: "gc_refusal (gate_of e ?req) = []" using True by (simp add: passed_def)
  show ?thesis
  proof (cases "first_use_step e ?req host ?v")
    case (Inr a)
    then have "?v = VerdictAllow \<or> ?v = VerdictUnknown \<and> RaisesApproval (firstUse (ev_policy e)) \<and>
        (\<exists>resolve. ev_approval e = Some resolve \<and>
           resolve (firstUse (ev_policy e) = FirstUseWaitForReview) host = (apApproved, a))"
      unfolding first_use_step_released by blast
    moreover have "fst (evaluate e m host port meth path) \<noteq> Pending"
      using dial_step_decision by (simp add: ev Inr)
    ultimately show ?thesis using ok by (auto simp: outcome_def split: connectOutcome.split)
  next
    case (Inl dl)
    obtain d row where dl: "dl = (d, row)" by (cases dl)
    have "?v \<noteq> VerdictAllow" using Inl by (auto simp: first_use_step_def)
    moreover have "d = Deny" if "\<not> (?v = VerdictUnknown \<and> RaisesApproval (firstUse (ev_policy e)) \<and> ev_approval e \<noteq> None)"
      using Inl that \<open>?v \<noteq> VerdictAllow\<close> by (auto simp: first_use_step_def dl Let_def split: HostVerdict.splits option.splits if_splits)
    moreover have "d \<noteq> Allow" using Inl first_use_step_not_allow unfolding dl by blast
    ultimately show ?thesis using ev ok by (auto simp: outcome_def Inl dl split: connectOutcome.split)
  qed
qed

subsection \<open>The memo of private-address refusals\<close>

definition memo_repeats :: "privateIPMemo \<Rightarrow> int" where
  "memo_repeats m = sum_list (map (ps_repeats \<circ> snd) m)"

definition row_repeats :: "DecisionLog list \<Rightarrow> int" where
  "row_repeats rows = sum_list (map dl_Repeat rows)"

text \<open>The well-formed memo: at most 64 streaks, one per host and port, with no negative count.\<close>

definition memo_ok :: "privateIPMemo \<Rightarrow> bool" where
  "memo_ok m \<longleftrightarrow> distinct (map fst m) \<and> length m \<le> privateIPMemoMax \<and> list_all (\<lambda>(_, s). 0 \<le> ps_repeats s) m"

lemma memo_repeats_Cons [simp]: "memo_repeats ((k, s) # m) = ps_repeats s + memo_repeats m"
  by (simp add: memo_repeats_def)

lemma oldest_mem: "oldest m = Some e \<Longrightarrow> e \<in> set m"
  by (induction m arbitrary: e) (auto split: option.splits if_splits)

lemma oldest_None: "oldest m = None \<longleftrightarrow> m = []"
  by (cases m) (auto split: option.splits)

text \<open>An eviction takes the streak that was met longest ago.\<close>

lemma oldest_least: "oldest m = Some e \<Longrightarrow> f \<in> set m \<Longrightarrow> ps_last (snd e) \<le> ps_last (snd f)"
proof (induction m arbitrary: e)
  case (Cons a m)
  show ?case
  proof (cases "oldest m")
    case None
    then show ?thesis using Cons.prems by (auto simp: oldest_None)
  next
    case (Some g)
    then show ?thesis using Cons.prems Cons.IH [OF Some] by (fastforce split: if_splits)
  qed
qed simp

lemma closeStreak_repeats:
  "(case closeStreak s of Some row \<Rightarrow> dl_Repeat row | None \<Rightarrow> 0) = ps_repeats s"
  by (simp add: closeStreak_def Let_def)

lemma delete_repeats:
  "distinct (map fst m) \<Longrightarrow> (k, s) \<in> set m \<Longrightarrow>
   memo_repeats (AList.delete k m) + ps_repeats s = memo_repeats m \<and> Suc (length (AList.delete k m)) = length m"
proof (induction m)
  case (Cons a m)
  show ?case
  proof (cases "fst a = k")
    case True
    then have "k \<notin> fst ` set m" using Cons.prems(1) by auto
    then have "AList.delete k m = m" by (simp add: delete_id)
    moreover have "a = (k, s)" using Cons.prems True by (force simp: image_iff)
    ultimately show ?thesis by simp
  next
    case False
    then have "(k, s) \<in> set m" using Cons.prems(2) by auto
    then show ?thesis using Cons.IH Cons.prems(1) False by (cases a) auto
  qed
qed simp

lemma update_repeats:
  "map_of m k = Some s \<Longrightarrow> distinct (map fst m) \<Longrightarrow>
   memo_repeats (AList.update k s' m) = memo_repeats m - ps_repeats s + ps_repeats s' \<and>
   length (AList.update k s' m) = length m"
  by (induction m) auto

lemma set_update: "set (AList.update k s' m) \<subseteq> insert (k, s') (set m)"
  by (induction m) auto

lemma set_delete: "set (AList.delete k m) \<subseteq> set m"
  by (induction m) auto

text \<open>Opening a streak keeps the memo well formed and counts nothing twice; \<open>row\<close> is the row of the streak it
  evicted.\<close>

lemma memo_record_ok:
  assumes "memo_ok m" "memo_record req kind hint m = (m', evicted)"
  shows "memo_ok m' \<and> memo_repeats m' + (case evicted of Some row \<Rightarrow> dl_Repeat row | None \<Rightarrow> 0) = memo_repeats m"
proof -
  let ?key = "hostPortKey (rq_Host req) (rq_Port req)"
  show ?thesis
  proof (cases "map_of m ?key = None \<and> privateIPMemoMax \<le> length m")
    case False
    then show ?thesis using assms by (auto simp: memo_record_def memo_ok_def Let_def map_of_eq_None_iff split: if_splits)
  next
    case True
    then have "m \<noteq> []" by (auto simp: privateIPMemoMax_def)
    then obtain k s where old: "oldest m = Some (k, s)" using oldest_None [of m] by auto
    then have "(k, s) \<in> set m" by (rule oldest_mem)
    then have del: "memo_repeats (AList.delete k m) + ps_repeats s = memo_repeats m"
        "Suc (length (AList.delete k m)) = length m"
      using delete_repeats assms(1) by (auto simp: memo_ok_def)
    have m': "m' = (?key, \<lparr>ps_req = req, ps_repeats = 0, ps_last = rq_Time req, ps_kind = kind, ps_hint = hint\<rparr>) #
        AList.delete k m" "evicted = closeStreak s"
      using assms(2) True old by (auto simp: memo_record_def Let_def)
    have "?key \<notin> fst ` set (AList.delete k m)" using True set_delete [of k m] by (auto simp: map_of_eq_None_iff)
    moreover have "distinct (map fst (AList.delete k m))" using assms(1) by (simp add: memo_ok_def distinct_delete)
    ultimately show ?thesis
      using assms(1) del m' set_delete [of k m] closeStreak_repeats [of s] by (auto simp: memo_ok_def list_all_iff)
  qed
qed

lemma memo_hit_ok:
  assumes "memo_ok m" "memo_hit host port now m = (hit, m')"
  shows "memo_ok m' \<and> memo_repeats m' = memo_repeats m + (if hit then 1 else 0)"
proof (cases "map_of m (hostPortKey host port)")
  case None
  then show ?thesis using assms by (simp add: memo_hit_def Let_def)
next
  case (Some s)
  then have eq: "hit" "m' = AList.update (hostPortKey host port) (s\<lparr>ps_repeats := ps_repeats s + 1, ps_last := now\<rparr>) m"
    using assms(2) by (auto simp: memo_hit_def Let_def)
  have "0 \<le> ps_repeats s" using assms(1) map_of_SomeD [OF Some] by (fastforce simp: memo_ok_def list_all_iff)
  then show ?thesis
    using assms(1) eq update_repeats [OF Some] set_update [of "hostPortKey host port" _ m]
    by (fastforce simp: memo_ok_def list_all_iff distinct_update)
qed

lemma drain_repeats: "row_repeats (fst (drain m)) = memo_repeats m"
proof (induction m)
  case (Cons a m)
  then show ?case using closeStreak_repeats [of "snd a"]
    by (cases a) (auto simp: drain_def row_repeats_def memo_repeats_def map_filter_simps split: option.splits)
qed (simp add: drain_def row_repeats_def memo_repeats_def map_filter_simps)

text \<open>A run of decisions: each request is evaluated in the environment of its moment and the memo is threaded through.
  \<open>silent\<close> counts the denials answered from the memo, which write no row; \<open>closed\<close> is what evictions and the final
  flush write.\<close>

type_synonym attempt = "EvalEnv \<times> string \<times> int \<times> string \<times> string"

fun eval_run :: "privateIPMemo \<Rightarrow> attempt list \<Rightarrow> evaluation list \<times> privateIPMemo" where
  "eval_run m [] = ([], m)"
| "eval_run m ((e, host, port, meth, path) # as) =
     (case evaluate e m host port meth path of
        (d, target, log, m', rows) \<Rightarrow>
          let (evs, m'') = eval_run m' as in ((d, target, log, m', rows) # evs, m''))"

definition silent :: "evaluation list \<Rightarrow> int" where
  "silent evs = sum_list (map (\<lambda>(_, _, log, _, _). if log = None then 1 else 0) evs)"

definition closed_rows :: "evaluation list \<Rightarrow> DecisionLog list" where
  "closed_rows evs = concat (map (\<lambda>(_, _, _, _, rows). rows) evs)"

text \<open>What one evaluation does to the memo: nothing, one count, or one new streak.\<close>

lemma evaluate_memo:
  assumes "memo_ok m" "evaluate e m host port meth path = (d, target, log, m', rows)"
  shows "memo_ok m' \<and> (log = None \<longrightarrow> d = Deny) \<and>
         memo_repeats m' + row_repeats rows = memo_repeats m + (if log = None then 1 else 0)"
proof -
  let ?req = "request_of e host port meth path"
  have dial: "memo_ok m2 \<and> log2 \<noteq> None \<and> memo_repeats m2 + row_repeats rows2 = memo_repeats m"
    if "dial_step e m ?req host port lit dry a = (d2, t2, log2, m2, rows2)" for lit dry a d2 t2 log2 m2 rows2
    using that assms(1)
    by (auto simp: dial_step_def row_repeats_def Let_def dest!: memo_record_ok [OF assms(1)]
        split: option.splits sum.splits target_error.splits prod.splits)
  show ?thesis
  proof (cases "passed e m host port ?req")
    case True
    show ?thesis
      using assms(2) evaluate_passed [OF True] assms(1)
      by (cases "first_use_step e ?req host (gc_verdict (gate_of e ?req))") (auto simp: row_repeats_def dest!: dial)
  next
    case False
    obtain hit m2 where h: "memo_hit host port (ev_memoNow e) m = (hit, m2)" by fastforce
    have "evaluate e m host port meth path = (Deny, [], log, m', rows)"
      using evaluate_not_passed [OF False] assms(2) by simp
    then have "(log \<noteq> None \<and> m' = m \<and> rows = []) \<or> (hit \<and> log = None \<and> m' = m2 \<and> rows = []) \<and> d = Deny"
      using False h memo_hit_memoed [of host port "ev_memoNow e" m] assms(2)
      by (auto simp: passed_def evaluate_def Let_def split: option.splits if_splits)
    then show ?thesis using assms(1) memo_hit_ok [OF assms(1) h] by (auto simp: row_repeats_def)
  qed
qed

lemma eval_run_memo:
  "memo_ok m \<Longrightarrow> eval_run m as = (evs, m') \<Longrightarrow>
   memo_ok m' \<and> memo_repeats m' + row_repeats (closed_rows evs) = memo_repeats m + silent evs"
proof (induction as arbitrary: m evs m')
  case (Cons a as)
  obtain e host port meth path where a: "a = (e, host, port, meth, path)" by (cases a)
  obtain d target log m1 rows where ev: "evaluate e m host port meth path = (d, target, log, m1, rows)"
    by (metis prod_cases5)
  obtain evs1 m2 where run: "eval_run m1 as = (evs1, m2)" by fastforce
  have eq: "evs = (d, target, log, m1, rows) # evs1" "m' = m2" using Cons.prems(2) by (auto simp: a ev run)
  show ?case
    using evaluate_memo [OF Cons.prems(1) ev] Cons.IH [OF _ run]
    by (auto simp: eq closed_rows_def row_repeats_def silent_def split: if_splits)
qed (simp add: closed_rows_def row_repeats_def silent_def)

text \<open>
  C23: the memo of private-address refusals loses no denial and stays bounded. Whatever requests come in whatever order,
  it holds at most 64 streaks, one per host and port, and the repeat counts of the rows written by evictions during the
  run and by the flush at its end add up to exactly the number of denials that wrote no row of their own.
\<close>

theorem silent_denials_accounted:
  "case eval_run [] as of (evs, m) \<Rightarrow>
     length m \<le> 64 \<and> distinct (map fst m) \<and>
     row_repeats (closed_rows evs @ fst (drain m)) = silent evs"
proof -
  obtain evs m where run: "eval_run [] as = (evs, m)" by fastforce
  have "memo_ok []" by (simp add: memo_ok_def)
  from eval_run_memo [OF this run] show ?thesis
    using drain_repeats [of m] by (simp add: run memo_ok_def privateIPMemoMax_def row_repeats_def memo_repeats_def)
qed

subsection \<open>A sample run\<close>

definition sample_env :: EvalEnv where
  "sample_env = \<lparr>ev_proxy = sample_proxy,
     ev_EvaluateHost = (\<lambda>req. Some (if HasSuffix (rq_Host req) ''.corp.example'' then VerdictUnknown else VerdictAllow)),
     ev_MethodAllowed = (\<lambda>_. True),
     ev_policy = CompilePolicy (empty_spec\<lparr>FirstUseApproval := FirstUseDenyWithReview\<rparr>),
     ev_portRule = PortRuleOff, ev_mcpHosts = [], ev_approval = Some (\<lambda>_ _. (apApproved, 7)),
     ev_uuidString = (\<lambda>_. ''7''), ev_now = 0, ev_memoNow = 0,
     ev_pushBase = None, ev_pushSets = [], ev_forgeHosts = [], ev_patGrantHosts = [], ev_gitPushWithheld = [],
     ev_residentMintHosts = [], ev_adoHosts = [], ev_githubAPI = False, ev_patAPIHosts = [], ev_idna = (\<lambda>_. None)\<rparr>"

lemma allowed_dial_witness:
  "fst (evaluate sample_env [] ''git.corp.example'' 443 ''connect'' []) = Allow \<and>
   fst (snd (evaluate sample_env [] ''git.corp.example'' 443 ''connect'' [])) = ''10.1.2.3:443'' \<and>
   ((\<exists>ip. ''10.1.2.3:443'' = JoinHostPort (ip_String ip) (Itoa 443) \<and> dial_ok (proxy_of sample_env) ''git.corp.example'' 443 ip) \<or>
    px_upstream (proxy_of sample_env))"
proof -
  have t: "fst (evaluate sample_env [] ''git.corp.example'' 443 ''connect'' []) = Allow"
    "fst (snd (evaluate sample_env [] ''git.corp.example'' 443 ''connect'' [])) = ''10.1.2.3:443''" by code_simp+
  obtain log m rows where ev: "evaluate sample_env [] ''git.corp.example'' 443 ''connect'' [] = (Allow, ''10.1.2.3:443'', log, m, rows)"
    using t by (cases "evaluate sample_env [] ''git.corp.example'' 443 ''connect'' []") auto
  have "normal_host ''git.corp.example''" by code_simp
  with allowed_dial_guarded [OF ev] t show ?thesis by blast
qed

lemma allow_needs_policy_witness:
  "fst (evaluate sample_env [] ''git.corp.example'' 443 ''connect'' []) = Allow \<and>
   ev_EvaluateHost sample_env (request_of sample_env ''git.corp.example'' 443 ''connect'' []) = Some VerdictUnknown \<and>
   RaisesApproval (firstUse (ev_policy sample_env))"
proof -
  have t: "fst (evaluate sample_env [] ''git.corp.example'' 443 ''connect'' []) = Allow"
    "ev_EvaluateHost sample_env (request_of sample_env ''git.corp.example'' 443 ''connect'' []) = Some VerdictUnknown"
    by code_simp+
  then obtain target log m rows where
    "evaluate sample_env [] ''git.corp.example'' 443 ''connect'' [] = (Allow, target, log, m, rows)"
    by (cases "evaluate sample_env [] ''git.corp.example'' 443 ''connect'' []") auto
  from allow_needs_policy_or_approval [OF this] t show ?thesis by auto
qed

lemma gate_agrees_witness:
  "outcome (gate_of sample_env (request_of sample_env ''git.corp.example'' 443 ''connect'' [])) True = connectHold \<and>
   fst (evaluate sample_env [] ''git.corp.example'' 443 ''connect'' []) = Allow \<and>
   (\<exists>resolve a. ev_approval sample_env = Some resolve \<and>
      resolve (firstUse (ev_policy sample_env) = FirstUseWaitForReview) ''git.corp.example'' = (apApproved, a))"
proof -
  have t: "outcome (gate_of sample_env (request_of sample_env ''git.corp.example'' 443 ''connect'' []))
      (RaisesApproval (firstUse (ev_policy sample_env)) \<and> ev_approval sample_env \<noteq> None) = connectHold"
    "outcome (gate_of sample_env (request_of sample_env ''git.corp.example'' 443 ''connect'' [])) True = connectHold"
    "fst (evaluate sample_env [] ''git.corp.example'' 443 ''connect'' []) = Allow"
    by code_simp+
  then show ?thesis
    using gate_agrees_with_evaluate [where e = sample_env and host = "''git.corp.example''" and port = 443
        and meth = "''connect''" and path = "[]" and m = "[]"] by auto
qed

end
