(* ===== verification/GitDelta.thy ===== *)
theory GitDelta
  imports PathGlob
begin

section \<open>Numbers and deltas of a packfile: internal/gitpack/pack.go\<close>

text \<open>
  The variable-length integers of a pack (\<open>header\<close>, \<open>offsetEncoding\<close>, Go's \<open>binary.ReadUvarint\<close>) and the replay of a
  delta (\<open>applyDelta\<close>, \<open>copyFromBase\<close>), over strings of bytes. Errors are values: what a ceiling refuses is told from
  what cannot be read. The lemmas: each decoder inverts the encoder git writes with, keeps its bound, and a delta that
  replays is made of slices of its base and literal bytes, of exactly the declared length.
\<close>

subsection \<open>Errors\<close>

text \<open>\<open>ErrTooDeep\<close> is an \<open>ErrTooLarge\<close> and the error of missing objects an \<open>ErrUninspectable\<close>; \<open>Internal\<close> is the error
  that reports a broken invariant of the reader (and stands for an index out of range); every other error is
  \<open>Malformed\<close>.\<close>

datatype 'c pack_error =
    ErrTooLarge
  | ErrTooDeep
  | ErrUninspectable
  | MissingObjectError (mo_Refs: "string list") (mo_Commands: "'c list option")
  | Malformed
  | Internal

definition maxObjectBytes :: int where "maxObjectBytes = 33554432"
definition maxVarintBytes :: nat where "maxVarintBytes = 10"

text \<open>The continuation of a call that may fail.\<close>

definition andThen :: "'e + 'a \<Rightarrow> ('a \<Rightarrow> 'e + 'b) \<Rightarrow> 'e + 'b" where
  "andThen r f = (case r of Inl e \<Rightarrow> Inl e | Inr x \<Rightarrow> f x)"

lemma andThen_simps [simp]: "andThen (Inl e) f = Inl e" "andThen (Inr x) f = f x"
  by (simp_all add: andThen_def)

lemma andThen_Inr [simp]: "andThen r f = Inr y \<longleftrightarrow> (\<exists>x. r = Inr x \<and> f x = Inr y)"
  by (cases r) auto

lemma andThen_cong [fundef_cong]: "r = r' \<Longrightarrow> (\<And>x. r' = Inr x \<Longrightarrow> f x = g x) \<Longrightarrow> andThen r f = andThen r' g"
  by (cases r') auto

lemma byte_of_nat: "byte_of c = int (of_char c)"
  unfolding byte_of_def by (simp only: of_nat_of_char)

lemma byte_of_range [simp]: "0 \<le> byte_of c" "byte_of c < 256"
  using nat_of_char_less_256 [of c] by (simp_all add: byte_of_nat)

lemma byte_of_char_mod: "byte_of (char_of n) = n mod 256"
  unfolding byte_of_def by simp

lemma byte_of_char_nat [simp]: "n < 256 \<Longrightarrow> byte_of (char_of (n :: nat)) = int n"
  by (simp add: byte_of_nat)

lemma byte_of_char [simp]: "0 \<le> n \<Longrightarrow> n < 256 \<Longrightarrow> byte_of (char_of n) = n"
  unfolding byte_of_def by simp


subsection \<open>Variable-length integers\<close>

text \<open>\<open>binary.ReadUvarint\<close>, at most ten bytes, the tenth at most 1. \<open>i\<close> counts the bytes read.\<close>

fun uvarint_loop :: "nat \<Rightarrow> int \<Rightarrow> string \<Rightarrow> (int \<times> string) option" where
  "uvarint_loop i x [] = None"
| "uvarint_loop i x (b # r) =
     (if i \<ge> 10 then None
      else if byte_of b < 128 then
        (if i = 9 \<and> byte_of b > 1 then None else Some (x + byte_of b * 2 ^ (7 * i), r))
      else uvarint_loop (Suc i) (x + (byte_of b mod 128) * 2 ^ (7 * i)) r)"

definition ReadUvarint :: "string \<Rightarrow> (int \<times> string) option" where
  "ReadUvarint r = uvarint_loop 0 0 r"

text \<open>\<open>header\<close>: the type, and the size in seven-bit groups, least significant first. The groups do not overlap, so
  the \<open>|\<close> of the source is a sum; a group shifted past 63 bits wraps as an \<open>int64\<close> does.\<close>

fun header_loop :: "nat \<Rightarrow> int \<Rightarrow> bool \<Rightarrow> string \<Rightarrow> 'c pack_error + (int \<times> string)" where
  "header_loop n sz False r = Inr (sz, r)"
| "header_loop n sz True r =
     (if n \<ge> maxVarintBytes then Inl Malformed
      else case r of
        [] \<Rightarrow> Inl Malformed
      | b # r' \<Rightarrow>
          let sz' = sz + wrap64 ((byte_of b mod 128) * 2 ^ (4 + 7 * (n - 1))) in
          if sz' < 0 \<or> sz' > maxObjectBytes then Inl ErrTooLarge
          else header_loop (Suc n) sz' (byte_of b \<ge> 128) r')"

definition header :: "string \<Rightarrow> 'c pack_error + (int \<times> int \<times> string)" where
  "header r =
     (case r of
        [] \<Rightarrow> Inl Malformed
      | b # r' \<Rightarrow>
          andThen (header_loop 1 (byte_of b mod 16) (byte_of b \<ge> 128) r')
            (\<lambda>(sz, r''). Inr ((byte_of b div 16) mod 8, sz, r'')))"

text \<open>\<open>offsetEncoding\<close>; \<open>packSize\<close> is the size of the pack the reader walks.\<close>

fun offset_loop :: "int \<Rightarrow> nat \<Rightarrow> int \<Rightarrow> bool \<Rightarrow> string \<Rightarrow> 'c pack_error + (int \<times> string)" where
  "offset_loop packSize n off False r = Inr (off, r)"
| "offset_loop packSize n off True r =
     (if n \<ge> maxVarintBytes then Inl Malformed
      else case r of
        [] \<Rightarrow> Inl Malformed
      | b # r' \<Rightarrow>
          let off' = (off + 1) * 128 + byte_of b mod 128 in
          if off' < 0 \<or> off' > packSize then Inl Malformed
          else offset_loop packSize (Suc n) off' (byte_of b \<ge> 128) r')"

definition offsetEncoding :: "int \<Rightarrow> string \<Rightarrow> 'c pack_error + (int \<times> string)" where
  "offsetEncoding packSize r =
     (case r of [] \<Rightarrow> Inl Malformed | b # r' \<Rightarrow> offset_loop packSize 1 (byte_of b mod 128) (byte_of b \<ge> 128) r')"


subsection \<open>Deltas\<close>

text \<open>The bytes of a copy instruction that the opcode says are present, each with its weight.\<close>

fun read_flagged :: "int \<Rightarrow> (int \<times> int) list \<Rightarrow> int \<Rightarrow> string \<Rightarrow> (int \<times> string) option" where
  "read_flagged op [] v r = Some (v, r)"
| "read_flagged op ((b7, weight) # fs) v r =
     (if (op div b7) mod 2 = 1 then
        (case r of [] \<Rightarrow> None | b # r' \<Rightarrow> read_flagged op fs (v + byte_of b * weight) r')
      else read_flagged op fs v r)"

definition copy_offset_bits :: "(int \<times> int) list" where
  "copy_offset_bits = [(1, 1), (2, 256), (4, 65536), (8, 16777216)]"

definition copy_size_bits :: "(int \<times> int) list" where
  "copy_size_bits = [(16, 1), (32, 256), (64, 65536)]"

definition copyFromBase :: "string \<Rightarrow> int \<Rightarrow> string \<Rightarrow> string \<Rightarrow> (string \<times> string) option" where
  "copyFromBase r op base out =
     (case read_flagged op copy_offset_bits 0 r of
        None \<Rightarrow> None
      | Some (offset, r1) \<Rightarrow>
          (case read_flagged op copy_size_bits 0 r1 of
             None \<Rightarrow> None
           | Some (sz0, r2) \<Rightarrow>
               let sz = (if sz0 = 0 then 65536 else sz0) in
               if offset + sz > int (length base) then None
               else Some (out @ take (nat sz) (drop (nat offset) base), r2)))"

lemma read_flagged_length: "read_flagged op fs v r = Some (w, r') \<Longrightarrow> length r' \<le> length r"
  by (induction fs arbitrary: v r) (fastforce split: if_splits list.splits prod.splits)+

lemma copyFromBase_length: "copyFromBase r op base out = Some (out', r') \<Longrightarrow> length r' \<le> length r"
  by (auto simp: copyFromBase_def Let_def split: option.splits if_splits dest!: read_flagged_length)

function delta_loop :: "string \<Rightarrow> int \<Rightarrow> string \<Rightarrow> string \<Rightarrow> 'c pack_error + string" where
  "delta_loop base want out r =
     (case r of
        [] \<Rightarrow> Inr out
      | b # r' \<Rightarrow>
          let op = byte_of b in
          (case (if op \<ge> 128 then copyFromBase r' op base out
                 else if op \<noteq> 0 then
                   (if int (length r') < op then None else Some (out @ take (nat op) r', drop (nat op) r'))
                 else None) of
             None \<Rightarrow> Inl Malformed
           | Some (out', r'') \<Rightarrow>
               if int (length out') > want then Inl Malformed else delta_loop base want out' r''))"
  by pat_completeness auto
termination
  by (relation "measure (\<lambda>(base, want, out, r). length r)")
    (auto split: if_splits dest!: copyFromBase_length)

declare delta_loop.simps [simp del]

definition applyDelta :: "string \<Rightarrow> string \<Rightarrow> 'c pack_error + string" where
  "applyDelta base delta =
     (case ReadUvarint delta of
        None \<Rightarrow> Inl Malformed
      | Some (baseSize, r) \<Rightarrow>
          if baseSize \<noteq> int (length base) then Inl Malformed
          else
            (case ReadUvarint r of
               None \<Rightarrow> Inl Malformed
             | Some (want, r') \<Rightarrow>
                 if want > maxObjectBytes then Inl ErrTooLarge
                 else andThen (delta_loop base want [] r')
                   (\<lambda>out. if int (length out) \<noteq> want then Inl Malformed else Inr out)))"

subsection \<open>The encoders git writes with\<close>

text \<open>Seven bits a byte, least significant group first, the high bit set on all but the last byte.\<close>

function put_uvarint :: "int \<Rightarrow> string" where
  "put_uvarint n = (if n < 128 then [char_of n] else char_of (128 + n mod 128) # put_uvarint (n div 128))"
  by pat_completeness auto
termination
  by (relation "measure nat") auto

declare put_uvarint.simps [simp del]

definition put_header :: "int \<Rightarrow> int \<Rightarrow> string" where
  "put_header typ sz =
     (if sz < 16 then [char_of (typ * 16 + sz)]
      else char_of (128 + typ * 16 + sz mod 16) # put_uvarint (sz div 16))"

text \<open>The offset encoding, most significant group first, each continuation one less than it stands for.\<close>

function offset_groups :: "int \<Rightarrow> string \<Rightarrow> string" where
  "offset_groups n acc = (if n \<le> 0 then acc else offset_groups ((n - 1) div 128) (char_of (128 + (n - 1) mod 128) # acc))"
  by pat_completeness auto
termination
  by (relation "measure (\<lambda>(n, acc). nat n)") auto

declare offset_groups.simps [simp del]

definition put_offset :: "int \<Rightarrow> string" where
  "put_offset n = offset_groups (n div 128) [char_of (n mod 128)]"

lemma split_128: "n div 128 * (128 * q) + n mod 128 * q = n * (q :: int)"
proof -
  have "(n div 128 * 128 + n mod 128) * q = n * q" by (simp only: div_mult_mod_eq)
  then show ?thesis by (simp only: ring_distribs mult.assoc)
qed

lemma uvarint_loop_put:
  "0 \<le> n \<Longrightarrow> n < 2 ^ (7 * k) \<Longrightarrow> i + k \<le> 9 \<Longrightarrow> uvarint_loop i x (put_uvarint n @ r) = Some (x + n * 2 ^ (7 * i), r)"
proof (induction n arbitrary: i k x rule: put_uvarint.induct)
  case (1 n)
  show ?case
  proof (cases "n < 128")
    case True
    then show ?thesis using 1 by (cases k) (auto simp: put_uvarint.simps [of n])
  next
    case False
    then obtain j where k: "k = Suc j" using 1 by (cases k) auto
    have "n < 128 * 2 ^ (7 * j)" using 1(3) unfolding k by (simp add: power_add)
    then have "n div 128 < 2 ^ (7 * j)" by linarith
    moreover have "(128 + n mod 128) mod 128 = n mod 128" by simp
    moreover have "x + n mod 128 * 2 ^ (7 * i) + n div 128 * 2 ^ (7 * Suc i) = x + n * 2 ^ (7 * i)"
      using split_128 [of n "2 ^ (7 * i)"] by (simp add: power_add)
    ultimately show ?thesis
      using 1 False k by (auto simp: put_uvarint.simps [of n])
  qed
qed

lemma ReadUvarint_put: "0 \<le> n \<Longrightarrow> n < 2 ^ 63 \<Longrightarrow> ReadUvarint (put_uvarint n @ r) = Some (n, r)"
  using uvarint_loop_put [of n 9 0 0 r] by (simp add: ReadUvarint_def)

lemma wrap64_group:
  "0 \<le> g \<Longrightarrow> g < 128 \<Longrightarrow> n \<le> 8 \<Longrightarrow> wrap64 (g * 2 ^ (4 + 7 * (n - 1))) = g * 2 ^ (4 + 7 * (n - 1))"
proof (rule wrap64_id)
  assume g: "0 \<le> g" "g < 128" and n: "n \<le> 8"
  have "(2::int) ^ (4 + 7 * (n - 1)) \<le> 2 ^ 53" by (rule power_increasing) (use n in auto)
  then have "g * 2 ^ (4 + 7 * (n - 1)) \<le> 127 * 2 ^ 53" using g by (intro mult_mono) auto
  then show "g * 2 ^ (4 + 7 * (n - 1)) < 9223372036854775808" by simp
  have "0 \<le> g * 2 ^ (4 + 7 * (n - 1))" using g by simp
  then show "- 9223372036854775808 \<le> g * 2 ^ (4 + 7 * (n - 1))" by linarith
qed

lemma header_loop_put:
  assumes "0 \<le> m" "m < 2 ^ (7 * k)" "n + k \<le> 9" "0 < n" "0 \<le> x" "x + m * 2 ^ (4 + 7 * (n - 1)) \<le> maxObjectBytes"
  shows "(header_loop n x True (put_uvarint m @ r) :: 'c pack_error + int \<times> string) = Inr (x + m * 2 ^ (4 + 7 * (n - 1)), r)"
  using assms
proof (induction m arbitrary: n k x rule: put_uvarint.induct)
  case (1 m)
  let ?p = "2 ^ (4 + 7 * (n - 1)) :: int"
  have n: "n < maxVarintBytes" using 1(4) by (simp add: maxVarintBytes_def)
  show ?case
  proof (cases "m < 128")
    case True
    then have "n \<le> 8 \<or> m = 0" using 1(2,3,4) by (cases k) auto
    then have "wrap64 (m * ?p) = m * ?p" using wrap64_group [of m n] True 1(2) by (auto simp: wrap64_def)
    moreover have "0 \<le> m * ?p" using 1(2) by simp
    moreover from this have "\<not> x + m * ?p < 0" using 1(6) by linarith
    ultimately show ?thesis using True 1(2,7) n by (simp add: put_uvarint.simps [of m] Let_def)
  next
    case False
    then obtain j where k: "k = Suc j" using 1(2,3) by (cases k) auto
    have "m < 128 * 2 ^ (7 * j)" using 1(3) unfolding k by (simp add: power_add)
    then have m: "m div 128 < 2 ^ (7 * j)" by linarith
    have g: "wrap64 (m mod 128 * ?p) = m mod 128 * ?p" by (rule wrap64_group) (use 1(4) k in auto)
    have p: "2 ^ (4 + 7 * (Suc n - 1)) = 128 * ?p" using 1(5) by (cases n) (simp_all add: power_add)
    have split: "m * ?p = m div 128 * (128 * ?p) + m mod 128 * ?p"
      by (rule split_128 [symmetric])
    have nn: "0 \<le> m mod 128 * ?p" "0 \<le> m div 128 * (128 * ?p)" using 1(2) by simp_all
    have IH: "(header_loop (Suc n) (x + m mod 128 * ?p) True (put_uvarint (m div 128) @ r) :: 'c pack_error + int \<times> string) =
        Inr (x + m mod 128 * ?p + m div 128 * 2 ^ (4 + 7 * (Suc n - 1)), r)"
      by (rule 1(1) [where k = j]) (use False 1(4,6,7) pos_imp_zdiv_nonneg_iff [of 128 m] 1(2) m k nn split p in auto)
    have "x + m mod 128 * ?p \<le> maxObjectBytes" "0 \<le> x + m mod 128 * ?p" using 1(6,7) nn split by linarith+
    then show ?thesis
      using IH False n g split unfolding p by (simp add: put_uvarint.simps [of m] Let_def)
  qed
qed

text \<open>
  The header of a pack object reads back as it was written. For each of the seven types and every size up to the
  ceiling on an object, \<open>header\<close> inverts git's encoding and leaves the bytes that follow untouched.
\<close>

theorem header_roundtrip:
  "0 \<le> typ \<Longrightarrow> typ < 8 \<Longrightarrow> 0 \<le> sz \<Longrightarrow> sz \<le> maxObjectBytes \<Longrightarrow> header (put_header typ sz @ r) = Inr (typ, sz, r)"
proof -
  assume t: "0 \<le> typ" "typ < 8" and s: "0 \<le> sz" "sz \<le> maxObjectBytes"
  show ?thesis
  proof (cases "sz < 16")
    case True
    then show ?thesis using t s by (simp add: put_header_def header_def)
  next
    case False
    have e: "(128 + typ * 16 + sz mod 16) mod 16 = sz mod 16" "((128 + typ * 16 + sz mod 16) div 16) mod 8 = typ"
    proof -
      have r: "128 + typ * 16 + sz mod 16 = sz mod 16 + 16 * (8 + typ)" by simp
      show "(128 + typ * 16 + sz mod 16) mod 16 = sz mod 16" unfolding r by (simp only: mod_mult_self2 mod_mod_trivial)
      have "(128 + typ * 16 + sz mod 16) div 16 = 8 + typ" unfolding r by simp
      then show "((128 + typ * 16 + sz mod 16) div 16) mod 8 = typ" using t by simp
    qed
    have "sz div 16 < 2 ^ (7 * 8)" using s by (simp add: maxObjectBytes_def)
    then have "header_loop 1 (sz mod 16) True (put_uvarint (sz div 16) @ r) =
        Inr (sz mod 16 + sz div 16 * 2 ^ (4 + 7 * (1 - 1)), r)"
      using s by (intro header_loop_put [where k = 8]) auto
    then show ?thesis using False t e by (simp add: put_header_def header_def)
  qed
qed

lemma header_witness:
  "header (put_header 3 1000000 @ ''x'') = Inr (3, 1000000, ''x'')"
  using header_roundtrip [of 3 1000000 "''x''"] by (simp add: maxObjectBytes_def)

lemma header_loop_bounds:
  "header_loop n x c r = Inr (sz, r') \<Longrightarrow> 0 \<le> x \<Longrightarrow> x \<le> maxObjectBytes \<Longrightarrow>
   0 \<le> sz \<and> sz \<le> maxObjectBytes \<and> length r' \<le> length r"
  by (induction n x c r rule: header_loop.induct) (fastforce simp: Let_def split: if_splits list.splits)+

lemma header_bounds:
  assumes "(header r :: 'c pack_error + int \<times> int \<times> string) = Inr (typ, sz, r')"
  shows "0 \<le> typ \<and> typ < 8 \<and> 0 \<le> sz \<and> sz \<le> maxObjectBytes \<and> length r' < length r"
proof (cases r)
  case (Cons b t)
  then have l: "(header_loop 1 (byte_of b mod 16) (byte_of b \<ge> 128) t :: 'c pack_error + int \<times> string) = Inr (sz, r')" "typ = (byte_of b div 16) mod 8"
    using assms by (auto simp: header_def)
  have "byte_of b mod 16 < 16" by simp
  then have "0 \<le> byte_of b mod 16" "byte_of b mod 16 \<le> maxObjectBytes" by (simp_all add: maxObjectBytes_def)
  then show ?thesis using header_loop_bounds [OF l(1)] l(2) Cons by auto
qed (use assms in \<open>simp add: header_def\<close>)

declare offset_loop.simps(2) [simp del]

text \<open>After the groups of \<open>n\<close> the decoder holds \<open>n - 1\<close> and expects more.\<close>

lemma offset_groups_read:
  assumes "0 < n" "n < 128 ^ j" "j \<le> 9" "n \<le> packSize"
  shows "\<exists>b s. offset_groups n acc = b # s @ acc \<and> 128 \<le> byte_of b \<and> length s < j \<and>
    (\<forall>r. (offset_loop packSize 1 (byte_of b mod 128) True (s @ r) :: 'c pack_error + int \<times> string) =
         offset_loop packSize (Suc (length s)) (n - 1) True r)"
  using assms
proof (induction n acc arbitrary: j rule: offset_groups.induct)
  case (1 n acc)
  let ?m = "(n - 1) div 128" and ?c = "char_of (128 + (n - 1) mod 128) :: char"
  have c: "byte_of ?c mod 128 = (n - 1) mod 128" "128 \<le> byte_of ?c" by simp_all
  have eq: "offset_groups n acc = offset_groups ?m (?c # acc)" using 1(2) by (subst offset_groups.simps) simp
  obtain i where j: "j = Suc i" using 1(2,3) by (cases j) auto
  show ?case
  proof (cases "?m = 0")
    case True
    then have "offset_groups n acc = ?c # acc" unfolding eq by (simp add: offset_groups.simps)
    moreover have "(n - 1) mod 128 = n - 1" using div_mult_mod_eq [of "n - 1" 128] unfolding True by simp
    ultimately show ?thesis using c j by (intro exI [of _ ?c] exI [of _ "[]"]) simp
  next
    case False
    then have pos: "0 < ?m" using 1(2) by (simp add: pos_imp_zdiv_nonneg_iff order_less_le)
    have "n < 128 * 128 ^ i" using 1(3) unfolding j by simp
    then have "?m < 128 ^ i" by linarith
    have m_le: "?m \<le> packSize" using 1(2,5) by linarith
    from \<open>?m < 128 ^ i\<close> obtain b s where bs: "offset_groups ?m (?c # acc) = b # s @ ?c # acc" "128 \<le> byte_of b" "length s < i"
      "\<And>r. (offset_loop packSize 1 (byte_of b mod 128) True (s @ r) :: 'c pack_error + int \<times> string) =
           offset_loop packSize (Suc (length s)) (?m - 1) True r"
      using 1(1) [of i] pos 1(2,4) j m_le by auto
    have val: "?m * 128 + (n - 1) mod 128 = n - 1" by simp
    have step: "(offset_loop packSize (Suc (length s)) (?m - 1) True (?c # r) :: 'c pack_error + int \<times> string) =
        offset_loop packSize (Suc (Suc (length s))) (n - 1) True r" for r
      using bs(3) 1(2,4,5) j c val by (simp add: offset_loop.simps(2) Let_def maxVarintBytes_def)
    show ?thesis
      using bs step j unfolding eq by (intro exI [of _ b] exI [of _ "s @ [?c]"]) simp
  qed
qed

lemma offsetEncoding_put:
  assumes "0 \<le> n" "n < 2 ^ 56" "n \<le> packSize"
  shows "(offsetEncoding packSize (put_offset n @ r) :: 'c pack_error + int \<times> string) = Inr (n, r)"
proof (cases "n div 128 = 0")
  case True
  then have "n < 128" using assms(1) by linarith
  then show ?thesis using assms(1) True by (simp add: put_offset_def offset_groups.simps offsetEncoding_def)
next
  case False
  then have pos: "0 < n div 128" using assms(1) pos_imp_zdiv_nonneg_iff [of 128 n] by linarith
  have pos2: "n div 128 < 128 ^ 8" using assms(2) by simp
  have pos3: "n div 128 \<le> packSize" using assms(1,3) by linarith
  obtain b s where bs: "offset_groups (n div 128) [char_of (n mod 128)] = b # s @ [char_of (n mod 128)]" "128 \<le> byte_of b"
    "length s < 8"
    "\<And>r. (offset_loop packSize 1 (byte_of b mod 128) True (s @ r) :: 'c pack_error + int \<times> string) =
       offset_loop packSize (Suc (length s)) (n div 128 - 1) True r"
    using offset_groups_read [OF pos pos2 _ pos3, of "[char_of (n mod 128)]"] by auto
  have "n div 128 * 128 + n mod 128 = n" by simp
  moreover have "\<not> 128 \<le> n mod 128" by (simp add: not_le)
  ultimately have "(offset_loop packSize (Suc (length s)) (n div 128 - 1) True (char_of (n mod 128) # r)
      :: 'c pack_error + int \<times> string) = Inr (n, r)"
    using bs(3) assms by (simp add: offset_loop.simps(2) Let_def maxVarintBytes_def)
  then show ?thesis using bs(1,2) bs(4) [of "char_of (n mod 128) # r"] by (simp add: offsetEncoding_def put_offset_def)
qed

subsection \<open>What a delta means\<close>

text \<open>A delta is a list of instructions: copy a slice of the base, or insert literal bytes.\<close>

datatype delta_op = CopyOp int int | InsertOp string

fun op_result :: "string \<Rightarrow> delta_op \<Rightarrow> string" where
  "op_result base (CopyOp off n) = take (nat n) (drop (nat off) base)"
| "op_result base (InsertOp s) = s"

fun op_ok :: "string \<Rightarrow> delta_op \<Rightarrow> bool" where
  "op_ok base (CopyOp off n) \<longleftrightarrow> 0 \<le> off \<and> off < 4294967296 \<and> 0 < n \<and> n < 16777216 \<and> off + n \<le> int (length base)"
| "op_ok base (InsertOp s) \<longleftrightarrow> s \<noteq> [] \<and> length s < 128"

definition run_ops :: "string \<Rightarrow> delta_op list \<Rightarrow> string" where
  "run_ops base ops = concat (map (op_result base) ops)"

text \<open>The bytes of a copy instruction that are not zero, each announced by its bit of the opcode.\<close>

definition present :: "int \<Rightarrow> int \<times> int \<Rightarrow> bool" where
  "present v f \<longleftrightarrow> (v div snd f) mod 256 \<noteq> 0"

definition flag_bits :: "int \<Rightarrow> (int \<times> int) list \<Rightarrow> int" where
  "flag_bits v fs = sum_list (map (\<lambda>f. if present v f then fst f else 0) fs)"

definition flag_bytes :: "int \<Rightarrow> (int \<times> int) list \<Rightarrow> string" where
  "flag_bytes v fs = map (\<lambda>f. char_of ((v div snd f) mod 256)) (filter (present v) fs)"

fun put_op :: "delta_op \<Rightarrow> string" where
  "put_op (CopyOp off n) =
     char_of (128 + flag_bits off copy_offset_bits + flag_bits n copy_size_bits) #
     flag_bytes off copy_offset_bits @ flag_bytes n copy_size_bits"
| "put_op (InsertOp s) = char_of (int (length s)) # s"

definition put_delta :: "string \<Rightarrow> delta_op list \<Rightarrow> string" where
  "put_delta base ops =
     put_uvarint (int (length base)) @ put_uvarint (int (length (run_ops base ops))) @ concat (map put_op ops)"

lemma read_flagged_put:
  "(\<And>f. f \<in> set fs \<Longrightarrow> ((op div fst f) mod 2 = 1) = present v f) \<Longrightarrow>
   read_flagged op fs x (flag_bytes v fs @ r) = Some (x + sum_list (map (\<lambda>f. (v div snd f) mod 256 * snd f) fs), r)"
proof (induction fs arbitrary: x)
  case (Cons f fs)
  obtain b w where f: "f = (b, w)" by (cases f)
  have b: "((op div b) mod 2 = 1) = present v (b, w)" using Cons.prems [of "(b, w)"] by (simp add: f)
  have IH: "read_flagged op fs y (flag_bytes v fs @ r) = Some (y + sum_list (map (\<lambda>f. (v div snd f) mod 256 * snd f) fs), r)" for y
    using Cons by simp
  show ?case
  proof (cases "present v (b, w)")
    case True
    then show ?thesis using IH b by (simp add: f flag_bytes_def byte_of_char_mod)
  next
    case False
    then have "(v div w) mod 256 = 0" by (simp add: present_def)
    then show ?thesis using IH b False by (simp add: f flag_bytes_def)
  qed
qed (simp add: flag_bytes_def)

lemma bits_of_flags:
  fixes p0 p1 p2 p3 p4 p5 p6 :: bool
  defines "op \<equiv> 128 + (of_bool p0 + (of_bool p1 * 2 + (of_bool p2 * 4 + of_bool p3 * 8))) +
                  (of_bool p4 * 16 + (of_bool p5 * 32 + of_bool p6 * 64)) :: int"
  shows "128 \<le> op" "op < 256" "((op div 1) mod 2 = 1) = p0" "((op div 2) mod 2 = 1) = p1" "((op div 4) mod 2 = 1) = p2"
    "((op div 8) mod 2 = 1) = p3" "((op div 16) mod 2 = 1) = p4" "((op div 32) mod 2 = 1) = p5"
    "((op div 64) mod 2 = 1) = p6"
  unfolding op_def by (cases p0; cases p1; cases p2; cases p3; cases p4; cases p5; cases p6; simp)+

lemma bytes_sum4:
  assumes "0 \<le> v" "v < (4294967296 :: int)"
  shows "v mod 256 + ((v div 256) mod 256 * 256 + ((v div 65536) mod 256 * 65536 + (v div 16777216) mod 256 * 16777216)) = v"
proof -
  have d: "v div 65536 = v div 256 div 256" "v div 16777216 = v div 256 div 256 div 256"
    by (simp_all add: zdiv_zmult2_eq [symmetric])
  have "v div 256 div 256 div 256 < 256" using assms unfolding d(2) [symmetric] by simp
  moreover have "0 \<le> v div 256 div 256 div 256" using assms unfolding d(2) [symmetric] by (simp add: pos_imp_zdiv_nonneg_iff)
  ultimately have "(v div 256 div 256 div 256) mod 256 = v div 256 div 256 div 256" by simp
  then show ?thesis unfolding d
    using div_mult_mod_eq [of v 256] div_mult_mod_eq [of "v div 256" 256] div_mult_mod_eq [of "v div 256 div 256" 256] by linarith
qed

lemma bytes_sum3:
  assumes "0 \<le> v" "v < (16777216 :: int)"
  shows "v mod 256 + ((v div 256) mod 256 * 256 + (v div 65536) mod 256 * 65536) = v"
proof -
  have "v div 16777216 = 0" using assms by simp
  then show ?thesis using bytes_sum4 [of v] assms by simp
qed

lemma copyFromBase_put:
  assumes "op_ok base (CopyOp off n)"
  defines "op \<equiv> 128 + flag_bits off copy_offset_bits + flag_bits n copy_size_bits"
  shows "128 \<le> op \<and> op < 256 \<and>
    copyFromBase (flag_bytes off copy_offset_bits @ flag_bytes n copy_size_bits @ r) op base out =
      Some (out @ op_result base (CopyOp off n), r)"
proof -
  note bits0 = bits_of_flags [of "present off (1, 1)" "present off (2, 256)" "present off (4, 65536)" "present off (8, 16777216)"
      "present n (16, 1)" "present n (32, 256)" "present n (64, 65536)"]
  have op: "op = 128 + (of_bool (present off (1, 1)) + (of_bool (present off (2, 256)) * 2 +
      (of_bool (present off (4, 65536)) * 4 + of_bool (present off (8, 16777216)) * 8))) +
      (of_bool (present n (16, 1)) * 16 + (of_bool (present n (32, 256)) * 32 + of_bool (present n (64, 65536)) * 64))"
    by (simp add: op_def flag_bits_def copy_offset_bits_def copy_size_bits_def)
  note bits = bits0 [folded op]
  have "\<forall>f\<in>set copy_offset_bits. ((op div fst f) mod 2 = 1) = present off f"
    unfolding copy_offset_bits_def by (simp only: list.set ball_simps fst_conv bits simp_thms)
  note read_o = read_flagged_put [of copy_offset_bits op off, OF bspec [OF this]]
  have "0 \<le> off" "off < 4294967296" using assms(1) by simp_all
  from bytes_sum4 [OF this] have "sum_list (map (\<lambda>f. (off div snd f) mod 256 * snd f) copy_offset_bits) = off"
    unfolding copy_offset_bits_def
    by (simp only: list.map sum_list.Cons sum_list.Nil snd_conv div_by_1 mult_1_right add_0_right)
  then have o: "read_flagged op copy_offset_bits 0 (flag_bytes off copy_offset_bits @ s) = Some (off, s)" for s
    using read_o by simp
  have "\<forall>f\<in>set copy_size_bits. ((op div fst f) mod 2 = 1) = present n f"
    unfolding copy_size_bits_def by (simp only: list.set ball_simps fst_conv bits simp_thms)
  note read_s = read_flagged_put [of copy_size_bits op n, OF bspec [OF this]]
  have "0 \<le> n" "n < 16777216" using assms(1) by simp_all
  from bytes_sum3 [OF this] have "sum_list (map (\<lambda>f. (n div snd f) mod 256 * snd f) copy_size_bits) = n"
    unfolding copy_size_bits_def
    by (simp only: list.map sum_list.Cons sum_list.Nil snd_conv div_by_1 mult_1_right add_0_right)
  then have s: "read_flagged op copy_size_bits 0 (flag_bytes n copy_size_bits @ s) = Some (n, s)" for s
    using read_s by simp
  show ?thesis using o s assms(1) bits(1,2) by (simp add: copyFromBase_def)
qed

lemma delta_loop_put:
  assumes "list_all (op_ok base) ops" "int (length (out @ run_ops base ops)) \<le> want"
  shows "(delta_loop base want out (concat (map put_op ops)) :: 'c pack_error + string) = Inr (out @ run_ops base ops)"
  using assms
proof (induction ops arbitrary: out)
  case Nil
  then show ?case by (simp add: run_ops_def delta_loop.simps)
next
  case (Cons op ops)
  have run: "run_ops base (op # ops) = op_result base op @ run_ops base ops" by (simp add: run_ops_def)
  let ?rest = "concat (map put_op ops)"
  have next_op: "(delta_loop base want out (put_op op @ ?rest) :: 'c pack_error + string) =
      delta_loop base want (out @ op_result base op) ?rest"
  proof (cases op)
    case (CopyOp off n)
    have "int (length (out @ op_result base op)) \<le> want" using Cons.prems(2) unfolding run by simp
    then show ?thesis
      using copyFromBase_put [of base off n ?rest out] Cons.prems(1) CopyOp
      by (subst delta_loop.simps) (simp add: Let_def)
  next
    case (InsertOp s)
    have "int (length (out @ s)) \<le> want" using Cons.prems(2) unfolding run by (simp add: InsertOp)
    then show ?thesis using Cons.prems(1) InsertOp by (subst delta_loop.simps) (simp add: Let_def)
  qed
  have "(delta_loop base want (out @ op_result base op) ?rest :: 'c pack_error + string) =
      Inr ((out @ op_result base op) @ run_ops base ops)"
    by (rule Cons.IH) (use Cons.prems in \<open>simp_all add: run\<close>)
  then show ?case using next_op by (simp add: run)
qed

text \<open>
  C32: replaying a delta is exact. For every list of copy and insert instructions that stay inside the base and produce
  no more than the ceiling, \<open>applyDelta\<close> of git's encoding of the list gives the bytes the list describes; no byte of the
  base or of the inserts is lost, reordered or added.
\<close>

theorem applyDelta_roundtrip:
  assumes "list_all (op_ok base) ops" "int (length (run_ops base ops)) \<le> maxObjectBytes" "length base < 2 ^ 62"
  shows "(applyDelta base (put_delta base ops) :: 'c pack_error + string) = Inr (run_ops base ops)"
proof -
  have len: "int (length base) < 2 ^ 63" using assms(3) by simp
  have len': "int (length (run_ops base ops)) < 2 ^ 63" using assms(2) by (simp add: maxObjectBytes_def)
  have "(delta_loop base (int (length (run_ops base ops))) [] (concat (map put_op ops)) :: 'c pack_error + string) =
      Inr (run_ops base ops)"
    using delta_loop_put [OF assms(1), of "[]" "int (length (run_ops base ops))"] by simp
  then show ?thesis
    using assms(2)
    by (simp add: applyDelta_def put_delta_def ReadUvarint_put [OF _ len] ReadUvarint_put [OF _ len'])
qed

lemma applyDelta_witness:
  "applyDelta ''hello world'' (put_delta ''hello world'' [CopyOp 6 5, InsertOp '', '', CopyOp 0 5]) = Inr ''world, hello''"
  using applyDelta_roundtrip [of "''hello world''" "[CopyOp 6 5, InsertOp '', '', CopyOp 0 5]"]
  by (simp add: run_ops_def maxObjectBytes_def)

lemma read_flagged_range:
  "read_flagged op fs x r = Some (v, r') \<Longrightarrow> (\<And>f. f \<in> set fs \<Longrightarrow> 0 \<le> snd f) \<Longrightarrow>
   x \<le> v \<and> v \<le> x + sum_list (map (\<lambda>f. 255 * snd f) fs)"
proof (induction fs arbitrary: x r)
  case (Cons f fs)
  obtain b w where f: "f = (b, w)" by (cases f)
  have w: "0 \<le> w" using Cons.prems(2) [of f] by (simp add: f)
  show ?case
  proof (cases "(op div b) mod 2 = 1")
    case True
    then obtain c r1 where r: "r = c # r1" "read_flagged op fs (x + byte_of c * w) r1 = Some (v, r')"
      using Cons.prems(1) by (auto simp: f split: list.splits)
    have "byte_of c \<le> 255" using byte_of_range(2) [of c] by linarith
    then have "byte_of c * w \<le> 255 * w" "0 \<le> byte_of c * w" using w by (simp_all add: mult_right_mono)
    then show ?thesis using Cons.IH [OF r(2)] Cons.prems(2) by (auto simp: f)
  next
    case False
    then show ?thesis using Cons.IH [of x r] Cons.prems w by (auto simp: f)
  qed
qed simp

text \<open>One replayed instruction.\<close>

lemma copyFromBase_op:
  assumes "copyFromBase r op base out = Some (out', r')"
  shows "\<exists>d. op_ok base d \<and> out' = out @ op_result base d"
proof -
  obtain off r1 sz0 where o: "read_flagged op copy_offset_bits 0 r = Some (off, r1)"
      "read_flagged op copy_size_bits 0 r1 = Some (sz0, r')"
      "off + (if sz0 = 0 then 65536 else sz0) \<le> int (length base)"
      "out' = out @ take (nat (if sz0 = 0 then 65536 else sz0)) (drop (nat off) base)"
    using assms by (auto simp: copyFromBase_def Let_def split: option.splits if_splits)
  have "0 \<le> off \<and> off \<le> 0 + sum_list (map (\<lambda>f. 255 * snd f) copy_offset_bits)"
    by (rule read_flagged_range [OF o(1)]) (auto simp: copy_offset_bits_def)
  moreover have "0 \<le> sz0 \<and> sz0 \<le> 0 + sum_list (map (\<lambda>f. 255 * snd f) copy_size_bits)"
    by (rule read_flagged_range [OF o(2)]) (auto simp: copy_size_bits_def)
  ultimately show ?thesis
    using o(3,4) by (intro exI [of _ "CopyOp off (if sz0 = 0 then 65536 else sz0)"])
      (auto simp: copy_offset_bits_def copy_size_bits_def)
qed

lemma delta_loop_ops:
  "(delta_loop base want out r :: 'c pack_error + string) = Inr res \<Longrightarrow>
   \<exists>ops. list_all (op_ok base) ops \<and> res = out @ run_ops base ops"
proof (induction base want out r rule: delta_loop.induct)
  case (1 base want out r)
  show ?case
  proof (cases r)
    case Nil
    then show ?thesis using 1(2) by (intro exI [of _ "[]"]) (simp add: delta_loop.simps run_ops_def)
  next
    case (Cons b r')
    let ?op = "byte_of b"
    let ?step = "if ?op \<ge> 128 then copyFromBase r' ?op base out
                 else if ?op \<noteq> 0 then (if int (length r') < ?op then None else Some (out @ take (nat ?op) r', drop (nat ?op) r'))
                 else None"
    obtain out' r'' where s: "?step = Some (out', r'')" "\<not> int (length out') > want"
        "(delta_loop base want out' r'' :: 'c pack_error + string) = Inr res"
      using 1(2) Cons by (subst (asm) delta_loop.simps) (auto simp: Let_def split: option.splits if_splits)
    obtain d where d: "op_ok base d" "out' = out @ op_result base d"
    proof (cases "?op \<ge> 128")
      case True
      then show ?thesis using s(1) copyFromBase_op [of r' ?op base out] that by auto
    next
      case False
      have "0 < ?op" using s(1) False byte_of_range(1) [of b] by (cases "?op = 0") (auto simp: order_less_le)
      then have "op_ok base (InsertOp (take (nat ?op) r'))" "out' = out @ op_result base (InsertOp (take (nat ?op) r'))"
        using s(1) False by (auto split: if_splits)
      then show ?thesis using that by blast
    qed
    obtain ops where "list_all (op_ok base) ops" "res = out' @ run_ops base ops"
      using 1(1) [OF Cons refl s(1) refl s(2,3)] by blast
    then show ?thesis using d by (intro exI [of _ "d # ops"]) (simp add: run_ops_def)
  qed
qed

text \<open>A delta that replays is a list of instructions inside its base, and its result keeps the ceiling.\<close>

lemma applyDelta_sound:
  assumes "(applyDelta base delta :: 'c pack_error + string) = Inr out"
  shows "(\<exists>ops. list_all (op_ok base) ops \<and> out = run_ops base ops) \<and> int (length out) \<le> maxObjectBytes"
  using assms by (auto simp: applyDelta_def split: option.splits if_splits dest!: delta_loop_ops) blast

end
