(* ===== verification/GitTree.thy ===== *)
theory GitTree
  imports GitDelta PushInspect "HOL-Library.Char_ord" "HOL-Library.List_Lexorder" "HOL-Library.Product_Lexorder"
begin

section \<open>What the commits of a pack change: internal/gitpack/tree.go\<close>

text \<open>
  The objects of a parsed pack, the readers of tree, commit and tag objects, and the walk that collects every entry the
  pack's commits introduce. The walk's state (memos, ceilings, the changes so far) is passed explicitly; an error ends it.
  The depth of a directory is counted down, so \<open>left\<close> is \<open>maxTreeDepth + 1 - depth\<close>. The reference semantics
  is \<open>entry_at\<close>: what a checkout of a tree holds at a path, as far as the pack carries it. The main lemma is that the
  walk is complete: an entry of a pushed commit is reported, or every carried parent already has it.
\<close>

type_synonym gp_error = "Command pack_error"

subsection \<open>Objects\<close>

datatype objectType = objCommit | objTree | objBlob | objTag

record object =
  ob_typ :: objectType
  ob_size :: int
  ob_data :: string

text \<open>An object-id format: its name, the width of an id and the hash.\<close>

record hashFormat =
  hf_name :: string
  hf_size :: nat
  hf_new :: "string \<Rightarrow> string"

record index =
  ix_format :: hashFormat
  byOID :: "(string \<times> object) list"

definition blobSize :: "index \<Rightarrow> string \<Rightarrow> int" where
  "blobSize i oid =
     (case map_of (byOID i) oid of Some ob \<Rightarrow> if ob_typ ob = objBlob then ob_size ob else - 1 | None \<Rightarrow> - 1)"

definition maxTreeDepth :: nat where "maxTreeDepth = 64"
definition maxTreeNodes :: int where "maxTreeNodes = 1000000"
definition maxEntryNameBytes :: int where "maxEntryNameBytes = 4096"
definition maxPeel :: nat where "maxPeel = 8"
definition maxChanges :: int where "maxChanges = 200000"
definition maxPathBytes :: int where "maxPathBytes = 67108864"

text \<open>\<open>hex.EncodeToString\<close>, and \<open>isHex\<close> by way of \<open>hex.DecodeString\<close>.\<close>

definition hex_digit :: "int \<Rightarrow> char" where
  "hex_digit n = (if n < 10 then char_of (48 + n) else char_of (87 + n))"

definition hexEncode :: "string \<Rightarrow> string" where
  "hexEncode s = concat (map (\<lambda>c. [hex_digit (byte_of c div 16), hex_digit (byte_of c mod 16)]) s)"

definition hex_byte :: "char \<Rightarrow> bool" where
  "hex_byte c \<longleftrightarrow> (let n = byte_of c in 48 \<le> n \<and> n \<le> 57 \<or> 97 \<le> n \<and> n \<le> 102 \<or> 65 \<le> n \<and> n \<le> 70)"

definition isHex :: "string \<Rightarrow> bool" where
  "isHex s \<longleftrightarrow> s \<noteq> [] \<and> even (length s) \<and> list_all hex_byte s"

definition isZeroOID :: "string \<Rightarrow> bool" where
  "isZeroOID oid \<longleftrightarrow> oid \<noteq> [] \<and> Trim oid ''0'' = []"


subsection \<open>Tree objects\<close>

record treeEntry =
  en_mode :: string
  en_name :: string
  en_oid :: string

definition mode_tree :: "int \<Rightarrow> bool" where
  "mode_tree m \<longleftrightarrow> (m div 4096) mod 16 = 4"

definition isTree :: "treeEntry \<Rightarrow> bool" where
  "isTree e = (case ParseOctal32 (en_mode e) of None \<Rightarrow> False | Some m \<Rightarrow> mode_tree m)"

definition checkEntry :: "string \<Rightarrow> string \<Rightarrow> gp_error + unit" where
  "checkEntry mode name =
     (if ParseOctal32 mode = None \<or> mode = [] \<or> length mode > 6 then Inl Malformed
      else if int (length name) > maxEntryNameBytes then Inl ErrTooLarge
      else if name = [] \<or> name = ''.'' \<or> name = ''..'' \<or> CHR ''/'' \<in> set name then Inl Malformed
      else Inr ())"

text \<open>The count made before an entry is allocated.\<close>

function count_entries :: "nat \<Rightarrow> string \<Rightarrow> int" where
  "count_entries hashLen rest =
     (if rest = [] then 0
      else case IndexByte rest (CHR 0x00) of
        None \<Rightarrow> 0
      | Some nul \<Rightarrow>
          if length rest < nul + 1 + hashLen then 0 else 1 + count_entries hashLen (drop (nul + 1 + hashLen) rest))"
  by pat_completeness auto
termination
  by (relation "measure (\<lambda>(h, rest). length rest)") auto

declare count_entries.simps [simp del]

function parse_entries :: "nat \<Rightarrow> string \<Rightarrow> gp_error + treeEntry list" where
  "parse_entries hashLen data =
     (if data = [] then Inr []
      else case IndexByte data (CHR '' '') of
        None \<Rightarrow> Inl Malformed
      | Some sp \<Rightarrow>
          if sp = 0 then Inl Malformed
          else
            let mode = take sp data; rest = drop (sp + 1) data in
            (case IndexByte rest (CHR 0x00) of
               None \<Rightarrow> Inl Malformed
             | Some nul \<Rightarrow>
                 let name = take nul rest; rest' = drop (nul + 1) rest in
                 if length rest' < hashLen then Inl Malformed
                 else
                   andThen (checkEntry mode name)
                     (\<lambda>_. andThen (parse_entries hashLen (drop hashLen rest'))
                        (\<lambda>es. Inr (\<lparr>en_mode = mode, en_name = name, en_oid = hexEncode (take hashLen rest')\<rparr> # es)))))"
  by pat_completeness auto
termination
  by (relation "measure (\<lambda>(h, data). length data)") auto

declare parse_entries.simps [simp del]

definition parseTree :: "string \<Rightarrow> nat \<Rightarrow> int \<Rightarrow> gp_error + treeEntry list" where
  "parseTree data hashLen limit =
     (if count_entries hashLen data > limit then Inl ErrTooLarge else parse_entries hashLen data)"

text \<open>\<open>index.tree\<close>: the entries of a tree; \<open>None\<close> when the pack does not carry it.\<close>

definition index_tree :: "index \<Rightarrow> string \<Rightarrow> int \<Rightarrow> gp_error + treeEntry list option" where
  "index_tree i oid limit =
     (case map_of (byOID i) oid of
        None \<Rightarrow> Inr None
      | Some ob \<Rightarrow>
          if ob_typ ob \<noteq> objTree then Inl Malformed
          else andThen (parseTree (ob_data ob) (hf_size (ix_format i)) limit) (\<lambda>es. Inr (Some es)))"


subsection \<open>Commits and tags\<close>

record commitInfo =
  ci_tree :: string
  ci_parents :: "string list"

definition headersOf :: "string \<Rightarrow> string" where
  "headersOf data = (case Index data [CHR 0x0A, CHR 0x0A] of None \<Rightarrow> data | Some k \<Rightarrow> take k data)"

fun commit_lines :: "nat \<Rightarrow> string list \<Rightarrow> bool \<Rightarrow> commitInfo \<Rightarrow> gp_error + commitInfo" where
  "commit_lines hashLen [] inParentBlock c = Inr c"
| "commit_lines hashLen (line # ls) inParentBlock c =
     (case Cut line (CHR '' '') of
        (key, val, found) \<Rightarrow>
          let bad = (length val \<noteq> hashLen * 2 \<or> \<not> isHex val) in
          if \<not> found then commit_lines hashLen ls False c
          else if key = ''tree'' then
            (if ci_tree c \<noteq> [] then Inl ErrUninspectable
             else if bad then Inl Malformed
             else commit_lines hashLen ls inParentBlock (c\<lparr>ci_tree := val\<rparr>))
          else if key = ''parent'' then
            (if \<not> inParentBlock then Inl ErrUninspectable
             else if bad then Inl Malformed
             else commit_lines hashLen ls inParentBlock (c\<lparr>ci_parents := ci_parents c @ [val]\<rparr>))
          else commit_lines hashLen ls False c)"

definition parseCommit :: "string \<Rightarrow> nat \<Rightarrow> gp_error + commitInfo" where
  "parseCommit data hashLen =
     andThen (commit_lines hashLen (Split (headersOf data) (CHR 0x0A)) True \<lparr>ci_tree = [], ci_parents = []\<rparr>)
       (\<lambda>c. if ci_tree c = [] then Inl Malformed else Inr c)"

fun tag_lines :: "nat \<Rightarrow> string list \<Rightarrow> string option" where
  "tag_lines hashLen [] = None"
| "tag_lines hashLen (line # ls) =
     (if HasPrefix line ''object '' then
        let val = drop 7 line in if length val = hashLen * 2 \<and> isHex val then Some val else None
      else tag_lines hashLen ls)"

definition tagTarget :: "string \<Rightarrow> nat \<Rightarrow> string option" where
  "tagTarget data hashLen = tag_lines hashLen (Split (headersOf data) (CHR 0x0A))"

datatype peelResult = peeled string | peelAbsent | peelOther

fun peel_loop :: "nat \<Rightarrow> index \<Rightarrow> string \<Rightarrow> peelResult" where
  "peel_loop 0 i oid = peelOther"
| "peel_loop (Suc n) i oid =
     (case map_of (byOID i) oid of
        None \<Rightarrow> peelAbsent
      | Some ob \<Rightarrow>
          if ob_typ ob = objCommit then peeled oid
          else if ob_typ ob \<noteq> objTag then peelOther
          else case tagTarget (ob_data ob) (hf_size (ix_format i)) of
            None \<Rightarrow> peelOther
          | Some target \<Rightarrow> peel_loop n i target)"

definition peel :: "index \<Rightarrow> string \<Rightarrow> peelResult" where
  "peel i oid = peel_loop maxPeel i oid"

fun cover_loop :: "index \<Rightarrow> Command list \<Rightarrow> string list \<Rightarrow> gp_error + unit" where
  "cover_loop i [] missing = (if missing \<noteq> [] then Inl (MissingObjectError missing None) else Inr ())"
| "cover_loop i (c # cs) missing =
     (if isZeroOID (cmd_New c) then cover_loop i cs missing
      else case peel i (cmd_New c) of
        peelAbsent \<Rightarrow> cover_loop i cs (missing @ [cmd_Ref c])
      | peelOther \<Rightarrow> Inl ErrUninspectable
      | peeled _ \<Rightarrow> cover_loop i cs missing)"

definition coverCommands :: "index \<Rightarrow> Command list \<Rightarrow> gp_error + unit" where
  "coverCommands i cmds = cover_loop i cmds []"


subsection \<open>The walk\<close>

text \<open>\<open>seen\<close> of the source maps an entry without its base mode to its place in \<open>out\<close>; here the place is looked up.\<close>

record walker =
  wk_walked :: "string set"
  wk_diffed :: "string set"
  wk_nodes :: int
  wk_pathBytes :: int
  wk_out :: "Change list"
  wk_bases :: "string list"

definition newWalker :: walker where
  "newWalker = \<lparr>wk_walked = {}, wk_diffed = {}, wk_nodes = 0, wk_pathBytes = 0, wk_out = [], wk_bases = []\<rparr>"

definition charge :: "int \<Rightarrow> walker \<Rightarrow> gp_error + walker" where
  "charge n w = (let n' = wk_nodes w + n in if n' > maxTreeNodes then Inl ErrTooLarge else Inr (w\<lparr>wk_nodes := n'\<rparr>))"

definition keep :: "nat \<Rightarrow> walker \<Rightarrow> gp_error + walker" where
  "keep n w =
     (let n' = wk_pathBytes w + int n in if n' > maxPathBytes then Inl ErrTooLarge else Inr (w\<lparr>wk_pathBytes := n'\<rparr>))"

definition walker_tree :: "index \<Rightarrow> walker \<Rightarrow> string \<Rightarrow> gp_error + treeEntry list option" where
  "walker_tree i w oid = index_tree i oid (maxTreeNodes - wk_nodes w)"

definition newerBase :: "string \<Rightarrow> string \<Rightarrow> string" where
  "newerBase a b =
     (if a = b then a
      else if a \<noteq> [] \<and> \<not> IsExecutable a then a
      else if b \<noteq> [] \<and> \<not> IsExecutable b then b
      else [])"

definition same_entry :: "Change \<Rightarrow> Change \<Rightarrow> bool" where
  "same_entry a b \<longleftrightarrow> ch_Path a = ch_Path b \<and> ch_Mode a = ch_Mode b \<and> ch_size a = ch_size b \<and> ch_OID a = ch_OID b"

definition record_change :: "Change \<Rightarrow> walker \<Rightarrow> gp_error + walker" where
  "record_change c w =
     (if list_ex (same_entry c) (wk_out w) then
        Inr (w\<lparr>wk_out := map (\<lambda>d. if same_entry c d then d\<lparr>ch_BaseMode := newerBase (ch_BaseMode d) (ch_BaseMode c)\<rparr> else d)
                            (wk_out w)\<rparr>)
      else if int (length (wk_out w)) \<ge> maxChanges then Inl ErrTooLarge
      else andThen (keep (length (ch_Path c)) w) (\<lambda>w'. Inr (w'\<lparr>wk_out := wk_out w' @ [c]\<rparr>)))"

definition leaf :: "index \<Rightarrow> string \<Rightarrow> treeEntry \<Rightarrow> string \<Rightarrow> walker \<Rightarrow> gp_error + walker" where
  "leaf i path e base w =
     record_change \<lparr>ch_Path = path, ch_Mode = en_mode e, ch_size = blobSize i (en_oid e), ch_OID = en_oid e,
                    ch_BaseMode = base\<rparr> w"

definition uncarried :: "string \<Rightarrow> string \<Rightarrow> walker \<Rightarrow> gp_error + walker" where
  "uncarried pfx oid w =
     record_change \<lparr>ch_Path = TrimSuffix pfx ''/'', ch_Mode = ModeUncarried, ch_size = - 1, ch_OID = oid,
                    ch_BaseMode = []\<rparr> w"

definition memo_key :: "string \<Rightarrow> string \<Rightarrow> string" where
  "memo_key pfx rest = pfx @ CHR 0x00 # rest"

text \<open>\<open>walk\<close> with \<open>walkEntries\<close> as its tail; \<open>walk_loop\<close> is the loop of \<open>walkEntries\<close>, one level further down.\<close>

fun walk :: "index \<Rightarrow> nat \<Rightarrow> string \<Rightarrow> string \<Rightarrow> string \<Rightarrow> walker \<Rightarrow> gp_error + walker"
and walk_loop :: "index \<Rightarrow> nat \<Rightarrow> string \<Rightarrow> treeEntry list \<Rightarrow> string \<Rightarrow> walker \<Rightarrow> gp_error + walker" where
  "walk i left pfx oid base w =
     (if memo_key pfx oid \<in> wk_walked w then Inr w
      else case walker_tree i w oid of
        Inl e \<Rightarrow> Inl e
      | Inr None \<Rightarrow> uncarried pfx oid w
      | Inr (Some entries) \<Rightarrow>
          andThen (keep (length (memo_key pfx oid)) w)
            (\<lambda>w1. let w2 = w1\<lparr>wk_walked := insert (memo_key pfx oid) (wk_walked w1)\<rparr> in
               (case left of
                  0 \<Rightarrow> Inl ErrTooDeep
                | Suc below \<Rightarrow> andThen (charge (int (length entries)) w2) (\<lambda>w3. walk_loop i below pfx entries base w3))))"
| "walk_loop i left pfx [] base w = Inr w"
| "walk_loop i left pfx (e # es) base w =
     andThen (if isTree e then walk i left (pfx @ en_name e @ ''/'') (en_oid e) base w
              else leaf i (pfx @ en_name e) e base w)
       (\<lambda>w'. walk_loop i left pfx es base w')"

definition walkEntries :: "index \<Rightarrow> nat \<Rightarrow> string \<Rightarrow> treeEntry list \<Rightarrow> string \<Rightarrow> walker \<Rightarrow> gp_error + walker" where
  "walkEntries i left pfx entries base w =
     (case left of
        0 \<Rightarrow> Inl ErrTooDeep
      | Suc below \<Rightarrow> andThen (charge (int (length entries)) w) (\<lambda>w1. walk_loop i below pfx entries base w1))"

text \<open>The entry a name has in the parent tree: the last of its entries with that name.\<close>

definition entry_named :: "treeEntry list \<Rightarrow> string \<Rightarrow> treeEntry option" where
  "entry_named prev name = find (\<lambda>e. en_name e = name) (rev prev)"

fun diff :: "index \<Rightarrow> nat \<Rightarrow> string \<Rightarrow> string \<Rightarrow> string \<Rightarrow> walker \<Rightarrow> gp_error + walker"
and diff_loop :: "index \<Rightarrow> nat \<Rightarrow> string \<Rightarrow> treeEntry list \<Rightarrow> treeEntry list \<Rightarrow> walker \<Rightarrow> gp_error + walker" where
  "diff i left pfx oldOID newOID w =
     (if oldOID = newOID then Inr w
      else
        let key = memo_key pfx (memo_key oldOID newOID) in
        if key \<in> wk_diffed w then Inr w
        else
          andThen (keep (length key) w) (\<lambda>w1.
            let w2 = w1\<lparr>wk_diffed := insert key (wk_diffed w1)\<rparr> in
            (case left of
               0 \<Rightarrow> Inl ErrTooDeep
             | Suc below \<Rightarrow>
                 (case walker_tree i w2 newOID of
                    Inl e \<Rightarrow> Inl e
                  | Inr None \<Rightarrow> uncarried pfx newOID w2
                  | Inr (Some next) \<Rightarrow>
                      (case walker_tree i w2 oldOID of
                         Inl e \<Rightarrow> Inl e
                       | Inr None \<Rightarrow> walkEntries i left pfx next [] w2
                       | Inr (Some prev) \<Rightarrow>
                           andThen (charge (int (length prev) + int (length next)) w2)
                             (\<lambda>w3. diff_loop i below pfx prev next w3))))))"
| "diff_loop i left pfx prev [] w = Inr w"
| "diff_loop i left pfx prev (e # es) w =
     (let before = entry_named prev (en_name e) in
      andThen
        (case before of
           Some b \<Rightarrow>
             if en_mode b = en_mode e \<and> en_oid b = en_oid e then Inr w
             else if \<not> isTree e then leaf i (pfx @ en_name e) e (en_mode b) w
             else if isTree b then diff i left (pfx @ en_name e @ ''/'') (en_oid b) (en_oid e) w
             else walk i left (pfx @ en_name e @ ''/'') (en_oid e) ModeAbsent w
         | None \<Rightarrow>
             if \<not> isTree e then leaf i (pfx @ en_name e) e ModeAbsent w
             else walk i left (pfx @ en_name e @ ''/'') (en_oid e) ModeAbsent w)
        (\<lambda>w'. diff_loop i left pfx prev es w'))"

text \<open>\<open>introduced\<close>: a diff against every carried parent, or the whole tree.\<close>

fun parents_loop :: "index \<Rightarrow> (string \<Rightarrow> bool) \<Rightarrow> string \<Rightarrow> string list \<Rightarrow> bool \<Rightarrow> walker \<Rightarrow> gp_error + bool \<times> walker" where
  "parents_loop i isHeld tree [] diffed w = Inr (diffed, w)"
| "parents_loop i isHeld tree (p # ps) diffed w =
     (let ob = map_of (byOID i) p;
          w1 = (if ob = None \<or> isHeld p then w\<lparr>wk_bases := List.insert p (wk_bases w)\<rparr> else w) in
      case ob of
        None \<Rightarrow> parents_loop i isHeld tree ps diffed w1
      | Some o' \<Rightarrow>
          if ob_typ o' \<noteq> objCommit then parents_loop i isHeld tree ps diffed w1
          else
            andThen (parseCommit (ob_data o') (hf_size (ix_format i)))
              (\<lambda>parent. andThen (diff i (maxTreeDepth + 1) [] (ci_tree parent) tree w1)
                 (\<lambda>w2. parents_loop i isHeld tree ps True w2)))"

definition introduced :: "index \<Rightarrow> (string \<Rightarrow> bool) \<Rightarrow> commitInfo \<Rightarrow> walker \<Rightarrow> gp_error + walker" where
  "introduced i isHeld c w =
     andThen (parents_loop i isHeld (ci_tree c) (ci_parents c) False w)
       (\<lambda>(diffed, w'). if diffed then Inr w' else walk i (maxTreeDepth + 1) [] (ci_tree c) [] w')"

fun commits_loop :: "index \<Rightarrow> (string \<Rightarrow> bool) \<Rightarrow> string list \<Rightarrow> walker \<Rightarrow> gp_error + walker" where
  "commits_loop i isHeld [] w = Inr w"
| "commits_loop i isHeld (oid # oids) w =
     (case map_of (byOID i) oid of
        None \<Rightarrow> commits_loop i isHeld oids w
      | Some ob \<Rightarrow>
          if ob_typ ob \<noteq> objCommit \<or> isHeld oid then commits_loop i isHeld oids w
          else
            andThen (parseCommit (ob_data ob) (hf_size (ix_format i)))
              (\<lambda>c. andThen (introduced i isHeld c w) (\<lambda>w'. commits_loop i isHeld oids w')))"

definition change_order :: "Change \<Rightarrow> string \<times> string \<times> int \<times> string" where
  "change_order c = (ch_Path c, ch_Mode c, ch_size c, ch_OID c)"

definition changes :: "index \<Rightarrow> (string \<Rightarrow> bool) \<Rightarrow> gp_error + Change list \<times> string list" where
  "changes i isHeld =
     andThen (commits_loop i isHeld (sort (map fst (byOID i))) newWalker)
       (\<lambda>w. Inr (sort_key change_order (wk_out w), sort (wk_bases w)))"

subsection \<open>What a tree holds\<close>

text \<open>The entries of a tree the pack carries, whatever the ceilings.\<close>

definition tree_entries :: "index \<Rightarrow> string \<Rightarrow> treeEntry list option" where
  "tree_entries i t =
     (case map_of (byOID i) t of
        None \<Rightarrow> None
      | Some ob \<Rightarrow>
          if ob_typ ob \<noteq> objTree then None
          else case parse_entries (hf_size (ix_format i)) (ob_data ob) of Inl _ \<Rightarrow> None | Inr es \<Rightarrow> Some es)"

definition path_join :: "string \<Rightarrow> string \<Rightarrow> string" where
  "path_join name p = (if p = [] then name else name @ CHR ''/'' # p)"

text \<open>\<open>entry_at i t p m oid\<close>: a checkout of tree \<open>t\<close> has at path \<open>p\<close> an entry of mode \<open>m\<close> and object \<open>oid\<close>; a tree the pack
  does not carry stands for itself, as an entry of mode \<open>ModeUncarried\<close>.\<close>

inductive entry_at :: "index \<Rightarrow> string \<Rightarrow> string \<Rightarrow> string \<Rightarrow> string \<Rightarrow> bool" for i where
  missing: "map_of (byOID i) t = None \<Longrightarrow> entry_at i t [] ModeUncarried t"
| plain: "tree_entries i t = Some es \<Longrightarrow> e \<in> set es \<Longrightarrow> \<not> isTree e \<Longrightarrow> entry_at i t (en_name e) (en_mode e) (en_oid e)"
| sub: "tree_entries i t = Some es \<Longrightarrow> e \<in> set es \<Longrightarrow> isTree e \<Longrightarrow> entry_at i (en_oid e) p m oid \<Longrightarrow>
    entry_at i t (path_join (en_name e) p) m oid"

abbreviation NUL :: char where "NUL \<equiv> CHR 0x00"

text \<open>What the parser promises of an entry.\<close>

definition entry_wf :: "treeEntry \<Rightarrow> bool" where
  "entry_wf e \<longleftrightarrow> en_name e \<noteq> [] \<and> CHR ''/'' \<notin> set (en_name e) \<and> NUL \<notin> set (en_name e) \<and> NUL \<notin> set (en_oid e)"

lemma hex_digit_range:
  assumes "0 \<le> n" "n < 16"
  shows "hex_byte (hex_digit n)" "hex_digit n \<noteq> NUL"
proof -
  show h: "hex_byte (hex_digit n)" using assms by (auto simp: hex_byte_def hex_digit_def Let_def)
  have "\<not> hex_byte NUL" by (simp add: hex_byte_def byte_of_nat Let_def)
  then show "hex_digit n \<noteq> NUL" using h by metis
qed

lemma hexEncode_NUL: "NUL \<notin> set (hexEncode s)"
proof (induction s)
  case (Cons c s)
  have "0 \<le> byte_of c div 16" using byte_of_range(1) [of c] by (simp only: pos_imp_zdiv_nonneg_iff)
  moreover have "byte_of c div 16 < 16" using byte_of_range(2) [of c] by linarith
  ultimately show ?case using Cons hex_digit_range(2) [of "byte_of c div 16"] hex_digit_range(2) [of "byte_of c mod 16"]
    by (auto simp: hexEncode_def)
qed (simp add: hexEncode_def)

lemma parse_entries_wf: "parse_entries h data = Inr es \<Longrightarrow> e \<in> set es \<Longrightarrow> entry_wf e"
proof (induction h data arbitrary: es rule: parse_entries.induct)
  case (1 h data)
  show ?case
  proof (cases "data = []")
    case True
    then show ?thesis using 1(2,3) by (simp add: parse_entries.simps)
  next
    case False
    obtain sp nul where sp: "IndexByte data (CHR '' '') = Some sp" "sp \<noteq> 0"
      and nul: "IndexByte (drop (sp + 1) data) NUL = Some nul"
      using 1(2) False by (subst (asm) parse_entries.simps) (auto simp: Let_def split: option.splits if_splits)
    let ?mode = "take sp data" and ?rest = "drop (sp + 1) data"
    let ?name = "take nul ?rest" and ?rest' = "drop (nul + 1) ?rest"
    have len: "\<not> length ?rest' < h" and chk: "checkEntry ?mode ?name = Inr ()"
      and es: "\<exists>fs. parse_entries h (drop h ?rest') = Inr fs \<and>
        es = \<lparr>en_mode = ?mode, en_name = ?name, en_oid = hexEncode (take h ?rest')\<rparr> # fs"
      using 1(2) False sp nul by (subst (asm) parse_entries.simps, auto simp: Let_def split: if_splits)+
    obtain fs where fs: "parse_entries h (drop h ?rest') = Inr fs"
        "es = \<lparr>en_mode = ?mode, en_name = ?name, en_oid = hexEncode (take h ?rest')\<rparr> # fs"
      using es by blast
    have "entry_wf \<lparr>en_mode = ?mode, en_name = ?name, en_oid = hexEncode (take h ?rest')\<rparr>"
      using chk nul by (auto simp: entry_wf_def checkEntry_def IndexByte_Some hexEncode_NUL split: if_splits)
    moreover have "e \<in> set fs \<Longrightarrow> entry_wf e"
      using 1(1) [OF False sp refl refl nul refl refl len chk fs(1)] by blast
    ultimately show ?thesis using 1(3) fs(2) by auto
  qed
qed

lemma tree_entries_wf: "tree_entries i t = Some es \<Longrightarrow> e \<in> set es \<Longrightarrow> entry_wf e"
  by (auto simp: tree_entries_def split: option.splits if_splits sum.splits dest: parse_entries_wf)

text \<open>What the walk reads of a tree is what the tree holds.\<close>

lemma walker_tree_entries:
  "walker_tree i w t = Inr (Some es) \<Longrightarrow> tree_entries i t = Some es"
  "walker_tree i w t = Inr None \<Longrightarrow> map_of (byOID i) t = None"
  by (auto simp: walker_tree_def index_tree_def parseTree_def tree_entries_def split: option.splits if_splits)

subsection \<open>Completeness of the walk\<close>

definition reported :: "Change list \<Rightarrow> string \<Rightarrow> string \<Rightarrow> string \<Rightarrow> bool" where
  "reported out p m oid \<longleftrightarrow> (\<exists>c\<in>set out. ch_Path c = p \<and> ch_Mode c = m \<and> ch_OID c = oid)"

text \<open>The path of an entry under a directory's prefix.\<close>

definition full :: "string \<Rightarrow> string \<Rightarrow> string" where
  "full pfx p = (if p = [] then TrimSuffix pfx ''/'' else pfx @ p)"

definition covers :: "index \<Rightarrow> Change list \<Rightarrow> string \<Rightarrow> string \<Rightarrow> bool" where
  "covers i out pfx t \<longleftrightarrow> (\<forall>p m oid. entry_at i t p m oid \<longrightarrow> reported out (full pfx p) m oid)"

definition dcovers :: "index \<Rightarrow> Change list \<Rightarrow> string \<Rightarrow> string \<Rightarrow> string \<Rightarrow> bool" where
  "dcovers i out pfx old new \<longleftrightarrow>
     (\<forall>p m oid. entry_at i new p m oid \<longrightarrow> reported out (full pfx p) m oid \<or> entry_at i old p m oid)"

text \<open>One entry of a listing under a prefix, and one against what the parent has.\<close>

definition entry_covered :: "index \<Rightarrow> Change list \<Rightarrow> string \<Rightarrow> treeEntry \<Rightarrow> bool" where
  "entry_covered i out pfx e \<longleftrightarrow>
     (if isTree e then covers i out (pfx @ en_name e @ ''/'') (en_oid e)
      else reported out (pfx @ en_name e) (en_mode e) (en_oid e))"

definition entry_dcovered :: "index \<Rightarrow> Change list \<Rightarrow> string \<Rightarrow> treeEntry list \<Rightarrow> treeEntry \<Rightarrow> bool" where
  "entry_dcovered i out pfx prev e \<longleftrightarrow> entry_covered i out pfx e \<or>
     (\<exists>b\<in>set prev. en_name b = en_name e \<and> en_mode b = en_mode e \<and> en_oid b = en_oid e) \<or>
     (isTree e \<and> (\<exists>b\<in>set prev. en_name b = en_name e \<and> isTree b \<and>
        dcovers i out (pfx @ en_name e @ ''/'') (en_oid b) (en_oid e)))"

definition no_nul :: "string \<Rightarrow> bool" where "no_nul s \<longleftrightarrow> NUL \<notin> set s"

lemma memo_key_inject: "no_nul p \<Longrightarrow> no_nul q \<Longrightarrow> memo_key p r = memo_key q s \<longleftrightarrow> p = q \<and> r = s"
proof (induction p arbitrary: q)
  case Nil
  then show ?case by (cases q) (auto simp: memo_key_def no_nul_def)
next
  case (Cons c p)
  then show ?case by (cases q) (auto simp: memo_key_def no_nul_def)
qed

text \<open>The memos are right for every prefix of length \<open>n\<close> or more: what they skip is covered.\<close>

definition memo_inv :: "index \<Rightarrow> nat \<Rightarrow> walker \<Rightarrow> bool" where
  "memo_inv i n w \<longleftrightarrow>
     (\<forall>pfx t. no_nul pfx \<and> n \<le> length pfx \<and> memo_key pfx t \<in> wk_walked w \<longrightarrow> covers i (wk_out w) pfx t) \<and>
     (\<forall>pfx old new. no_nul pfx \<and> no_nul old \<and> n \<le> length pfx \<and> memo_key pfx (memo_key old new) \<in> wk_diffed w \<longrightarrow>
        dcovers i (wk_out w) pfx old new)"

text \<open>A step below a prefix of length \<open>n\<close>: nothing reported is lost, and the memos of shorter prefixes stay.\<close>

definition ext :: "nat \<Rightarrow> walker \<Rightarrow> walker \<Rightarrow> bool" where
  "ext n w w' \<longleftrightarrow> set (wk_bases w) \<subseteq> set (wk_bases w') \<and>
     (\<forall>p m oid. reported (wk_out w) p m oid \<longrightarrow> reported (wk_out w') p m oid) \<and>
     (\<forall>pfx t. no_nul pfx \<and> length pfx < n \<and> memo_key pfx t \<in> wk_walked w' \<longrightarrow> memo_key pfx t \<in> wk_walked w) \<and>
     (\<forall>pfx old new. no_nul pfx \<and> no_nul old \<and> length pfx < n \<and> memo_key pfx (memo_key old new) \<in> wk_diffed w' \<longrightarrow>
        memo_key pfx (memo_key old new) \<in> wk_diffed w)"

lemma ext_refl [simp]: "ext n w w"
  by (simp add: ext_def)

lemma ext_trans: "ext n w w' \<Longrightarrow> ext m w' w'' \<Longrightarrow> n \<le> m \<Longrightarrow> ext n w w''"
  unfolding ext_def by (meson order_less_le_trans order_trans)

lemma ext_mono: "ext m w w' \<Longrightarrow> n \<le> m \<Longrightarrow> ext n w w'"
  unfolding ext_def by (meson order_less_le_trans)

lemma covers_ext: "ext n w w' \<Longrightarrow> covers i (wk_out w) pfx t \<Longrightarrow> covers i (wk_out w') pfx t"
  by (auto simp: ext_def covers_def)

lemma dcovers_ext: "ext n w w' \<Longrightarrow> dcovers i (wk_out w) pfx a b \<Longrightarrow> dcovers i (wk_out w') pfx a b"
  unfolding ext_def dcovers_def by blast

lemma entry_covered_ext: "ext n w w' \<Longrightarrow> entry_covered i (wk_out w) pfx e \<Longrightarrow> entry_covered i (wk_out w') pfx e"
  by (auto simp: entry_covered_def covers_def ext_def)

lemma entry_dcovered_ext:
  "ext n w w' \<Longrightarrow> entry_dcovered i (wk_out w) pfx prev e \<Longrightarrow> entry_dcovered i (wk_out w') pfx prev e"
  unfolding entry_dcovered_def by (meson entry_covered_ext dcovers_ext)

lemma memo_inv_mono: "memo_inv i n w \<Longrightarrow> n \<le> m \<Longrightarrow> memo_inv i m w"
  unfolding memo_inv_def by (meson order_trans)

text \<open>The memos of the prefixes in between are untouched by a step further down.\<close>

lemma memo_inv_ext:
  assumes "memo_inv i n w" "ext m w w'" "memo_inv i m w'"
  shows "memo_inv i n w'"
proof -
  have "covers i (wk_out w') pfx t" if "no_nul pfx" "n \<le> length pfx" "memo_key pfx t \<in> wk_walked w'" for pfx t
  proof (cases "m \<le> length pfx")
    case True
    then show ?thesis using assms(3) that by (auto simp: memo_inv_def)
  next
    case False
    then have "memo_key pfx t \<in> wk_walked w" using assms(2) that by (auto simp: ext_def not_le)
    then have "covers i (wk_out w) pfx t" using assms(1) that by (auto simp: memo_inv_def)
    then show ?thesis by (rule covers_ext [OF assms(2)])
  qed
  moreover have "dcovers i (wk_out w') pfx old new"
    if "no_nul pfx" "no_nul old" "n \<le> length pfx" "memo_key pfx (memo_key old new) \<in> wk_diffed w'" for pfx old new
  proof (cases "m \<le> length pfx")
    case True
    then show ?thesis using assms(3) that by (auto simp: memo_inv_def)
  next
    case False
    then have "memo_key pfx (memo_key old new) \<in> wk_diffed w" using assms(2) that by (auto simp: ext_def not_le)
    then have "dcovers i (wk_out w) pfx old new" using assms(1) that by (auto simp: memo_inv_def)
    then show ?thesis by (rule dcovers_ext [OF assms(2)])
  qed
  ultimately show ?thesis by (auto simp: memo_inv_def)
qed

lemma reported_map:
  "(\<And>d. ch_Path (f d) = ch_Path d \<and> ch_Mode (f d) = ch_Mode d \<and> ch_OID (f d) = ch_OID d) \<Longrightarrow>
   reported (map f out) p m oid \<longleftrightarrow> reported out p m oid"
  by (simp add: reported_def)

lemma record_change_out:
  assumes "record_change c w = Inr w'"
  shows "reported (wk_out w') p m oid \<longleftrightarrow> reported (wk_out w) p m oid \<or>
    \<not> list_ex (same_entry c) (wk_out w) \<and> p = ch_Path c \<and> m = ch_Mode c \<and> oid = ch_OID c"
proof (cases "list_ex (same_entry c) (wk_out w)")
  case True
  then show ?thesis using assms by (auto simp: record_change_def reported_map)
next
  case False
  then show ?thesis using assms by (auto simp: record_change_def keep_def reported_def Let_def split: if_splits)
qed

lemma record_change_effect:
  assumes "record_change c w = Inr w'"
  shows "reported (wk_out w') (ch_Path c) (ch_Mode c) (ch_OID c)" "ext n w w'" "memo_inv i n w \<Longrightarrow> memo_inv i n w'"
    "wk_nodes w' = wk_nodes w"
proof -
  have frame: "wk_walked w' = wk_walked w" "wk_diffed w' = wk_diffed w" "wk_nodes w' = wk_nodes w" "wk_bases w' = wk_bases w"
    using assms by (auto simp: record_change_def keep_def Let_def split: if_splits)
  note out = record_change_out [OF assms]
  have keep: "reported (wk_out w) p m oid \<Longrightarrow> reported (wk_out w') p m oid" for p m oid by (simp add: out)
  show "reported (wk_out w') (ch_Path c) (ch_Mode c) (ch_OID c)"
    unfolding out by (auto simp: reported_def same_entry_def list_ex_iff)
  show e: "ext n w w'" for n using frame keep by (simp add: ext_def)
  show "memo_inv i n w'" if "memo_inv i n w"
    using that frame covers_ext [OF e] dcovers_ext [OF e] unfolding memo_inv_def by simp
  show "wk_nodes w' = wk_nodes w" by (rule frame(3))
qed

lemma charge_effect: "charge n w = Inr w' \<Longrightarrow> w' = w\<lparr>wk_nodes := wk_nodes w + n\<rparr>"
  by (auto simp: charge_def Let_def split: if_splits)

lemma keep_effect: "keep n w = Inr w' \<Longrightarrow> w' = w\<lparr>wk_pathBytes := wk_pathBytes w + int n\<rparr>"
  by (auto simp: keep_def Let_def split: if_splits)

lemma full_join: "name \<noteq> [] \<Longrightarrow> full pfx (path_join name p) = full (pfx @ name @ ''/'') p"
  using TrimSuffix_append [of "pfx @ name" "''/''"] by (auto simp: full_def path_join_def)

lemma covers_entries:
  assumes "tree_entries i t = Some es" "\<forall>e\<in>set es. entry_covered i out pfx e"
  shows "covers i out pfx t"
  unfolding covers_def
proof (intro allI impI)
  fix p m oid
  assume "entry_at i t p m oid"
  then show "reported out (full pfx p) m oid"
  proof (cases rule: entry_at.cases)
    case missing
    then show ?thesis using assms(1) by (simp add: tree_entries_def)
  next
    case (plain fs e)
    then have "e \<in> set es" using assms(1) by simp
    then have "entry_covered i out pfx e" "entry_wf e" using assms tree_entries_wf by auto
    then show ?thesis using plain by (simp add: entry_covered_def full_def entry_wf_def)
  next
    case (sub fs e p')
    then have "e \<in> set es" using assms(1) by simp
    then have "entry_covered i out pfx e" "entry_wf e" using assms tree_entries_wf by auto
    then show ?thesis using sub full_join [of "en_name e" pfx p'] by (simp add: entry_covered_def covers_def entry_wf_def)
  qed
qed

lemma covers_missing:
  "map_of (byOID i) t = None \<Longrightarrow> reported out (TrimSuffix pfx ''/'') ModeUncarried t \<Longrightarrow> covers i out pfx t"
  by (auto simp: covers_def full_def tree_entries_def elim: entry_at.cases)

lemma no_nul_child: "no_nul pfx \<Longrightarrow> entry_wf e \<Longrightarrow> no_nul (pfx @ en_name e @ ''/'')"
  by (auto simp: no_nul_def entry_wf_def)

lemma ext_node: "ext n (w\<lparr>wk_nodes := k\<rparr>) w' = ext n w w'" "ext n (w\<lparr>wk_pathBytes := k\<rparr>) w' = ext n w w'"
  by (simp_all add: ext_def)

lemma memo_inv_node [simp]: "memo_inv i n (w\<lparr>wk_nodes := k\<rparr>) = memo_inv i n w" "memo_inv i n (w\<lparr>wk_pathBytes := k\<rparr>) = memo_inv i n w"
  by (simp_all add: memo_inv_def)

text \<open>Marking a prefix as walked: the memos of longer prefixes are untouched, and once the tree is covered the mark is
  right.\<close>

lemma memo_inv_mark_walked:
  "no_nul pfx \<Longrightarrow> length pfx < n \<Longrightarrow> memo_inv i n (w\<lparr>wk_walked := insert (memo_key pfx t) (wk_walked w)\<rparr>) = memo_inv i n w"
  by (auto simp: memo_inv_def memo_key_inject)

lemma memo_inv_mark_diffed:
  "no_nul pfx \<Longrightarrow> length pfx < n \<Longrightarrow>
   memo_inv i n (w\<lparr>wk_diffed := insert (memo_key pfx k) (wk_diffed w)\<rparr>) = memo_inv i n w"
  by (auto simp: memo_inv_def memo_key_inject)

lemma memo_inv_done:
  assumes "memo_inv i n w" "ext n w w2" "ext (Suc n) w2 w'" "memo_inv i (Suc n) w'"
    and walked: "\<And>pfx t. no_nul pfx \<Longrightarrow> length pfx = n \<Longrightarrow> memo_key pfx t \<in> wk_walked w2 \<Longrightarrow>
      memo_key pfx t \<in> wk_walked w \<or> covers i (wk_out w') pfx t"
    and diffed: "\<And>pfx old new. no_nul pfx \<Longrightarrow> no_nul old \<Longrightarrow> length pfx = n \<Longrightarrow>
      memo_key pfx (memo_key old new) \<in> wk_diffed w2 \<Longrightarrow>
      memo_key pfx (memo_key old new) \<in> wk_diffed w \<or> dcovers i (wk_out w') pfx old new"
  shows "memo_inv i n w' \<and> ext n w w'"
proof -
  have ext: "ext n w w'" by (rule ext_trans [OF assms(2,3)]) simp
  have "covers i (wk_out w') pfx t" if k: "no_nul pfx" "n \<le> length pfx" "memo_key pfx t \<in> wk_walked w'" for pfx t
  proof (cases "n < length pfx")
    case True
    then show ?thesis using assms(4) k by (auto simp: memo_inv_def)
  next
    case False
    then have "length pfx = n" "memo_key pfx t \<in> wk_walked w2" using assms(3) k by (auto simp: ext_def)
    then have "memo_key pfx t \<in> wk_walked w \<or> covers i (wk_out w') pfx t" using walked k(1) by blast
    then show ?thesis using assms(1) k covers_ext [OF ext] by (auto simp: memo_inv_def)
  qed
  moreover have "dcovers i (wk_out w') pfx old new"
    if k: "no_nul pfx" "no_nul old" "n \<le> length pfx" "memo_key pfx (memo_key old new) \<in> wk_diffed w'" for pfx old new
  proof (cases "n < length pfx")
    case True
    then show ?thesis using assms(4) k by (auto simp: memo_inv_def)
  next
    case False
    then have "length pfx = n" "memo_key pfx (memo_key old new) \<in> wk_diffed w2" using assms(3) k by (auto simp: ext_def)
    then have "memo_key pfx (memo_key old new) \<in> wk_diffed w \<or> dcovers i (wk_out w') pfx old new" using diffed k(1,2) by blast
    then show ?thesis using assms(1) k dcovers_ext [OF ext] by (auto simp: memo_inv_def)
  qed
  ultimately show ?thesis using ext by (auto simp: memo_inv_def)
qed

lemma memo_inv_walked:
  assumes "memo_inv i (length pfx) w" "no_nul pfx"
    "ext (Suc (length pfx)) (w\<lparr>wk_walked := insert (memo_key pfx t) (wk_walked w)\<rparr>) w'"
    "memo_inv i (Suc (length pfx)) w'" "covers i (wk_out w') pfx t"
  shows "memo_inv i (length pfx) w' \<and> ext (length pfx) w w'"
proof (rule memo_inv_done [OF assms(1) _ assms(3,4)])
  show "ext (length pfx) w (w\<lparr>wk_walked := insert (memo_key pfx t) (wk_walked w)\<rparr>)"
    using assms(2) by (auto simp: ext_def memo_key_inject)
qed (use assms(2,5) in \<open>auto simp: memo_key_inject\<close>)

lemma memo_inv_diffed:
  assumes "memo_inv i (length pfx) w" "no_nul pfx" "no_nul old"
    "ext (Suc (length pfx)) (w\<lparr>wk_diffed := insert (memo_key pfx (memo_key old new)) (wk_diffed w)\<rparr>) w'"
    "memo_inv i (Suc (length pfx)) w'" "dcovers i (wk_out w') pfx old new"
  shows "memo_inv i (length pfx) w' \<and> ext (length pfx) w w'"
proof (rule memo_inv_done [OF assms(1) _ assms(4,5)])
  show "ext (length pfx) w (w\<lparr>wk_diffed := insert (memo_key pfx (memo_key old new)) (wk_diffed w)\<rparr>)"
    using assms(2) by (auto simp: ext_def memo_key_inject)
qed (use assms(2,3,6) in \<open>auto simp: memo_key_inject\<close>)

lemma uncarried_effect:
  assumes "uncarried pfx t w = Inr w'" "map_of (byOID i) t = None"
  shows "covers i (wk_out w') pfx t" "ext n w w'" "memo_inv i n w \<Longrightarrow> memo_inv i n w'"
  using record_change_effect [OF assms(1) [unfolded uncarried_def]] covers_missing [OF assms(2)] by auto

lemma leaf_effect:
  assumes "leaf i path e base w = Inr w'"
  shows "reported (wk_out w') path (en_mode e) (en_oid e)" "ext n w w'" "memo_inv i n w \<Longrightarrow> memo_inv i n w'"
  using record_change_effect [OF assms [unfolded leaf_def]] by auto

lemma walk_effect:
  "walk i left pfx t base w = Inr w' \<Longrightarrow> no_nul pfx \<Longrightarrow> memo_inv i (length pfx) w \<Longrightarrow>
   memo_inv i (length pfx) w' \<and> ext (length pfx) w w' \<and> covers i (wk_out w') pfx t"
  "walk_loop i left pfx es base w = Inr w' \<Longrightarrow> no_nul pfx \<Longrightarrow> \<forall>e\<in>set es. entry_wf e \<Longrightarrow>
   memo_inv i (Suc (length pfx)) w \<Longrightarrow>
   memo_inv i (Suc (length pfx)) w' \<and> ext (Suc (length pfx)) w w' \<and> (\<forall>e\<in>set es. entry_covered i (wk_out w') pfx e)"
proof (induction i left pfx t base w and i left pfx es base w arbitrary: w' and w' rule: walk_walk_loop.induct)
  case (1 i left pfx t base w)
  let ?key = "memo_key pfx t"
  show ?case
  proof (cases "?key \<in> wk_walked w")
    case True
    then show ?thesis using 1(2-4) by (auto simp: memo_inv_def)
  next
    case False
    show ?thesis
    proof (cases "walker_tree i w t = Inr None")
      case True
      then have "uncarried pfx t w = Inr w'" using 1(2) False by simp
      then show ?thesis using uncarried_effect [OF _ walker_tree_entries(2) [OF True]] 1(4) by blast
    next
      case carried: False
      then obtain es below w1 w2 where es: "walker_tree i w t = Inr (Some es)" and left: "left = Suc below"
        and w1: "keep (length ?key) w = Inr w1"
        and w2: "charge (int (length es)) (w1\<lparr>wk_walked := insert ?key (wk_walked w1)\<rparr>) = Inr w2"
        and loop: "walk_loop i below pfx es base w2 = Inr w'"
        using 1(2) False by (cases left) (auto simp: Let_def split: sum.splits option.splits)
      note w1' = keep_effect [OF w1] and w2' = charge_effect [OF w2]
      have te: "tree_entries i t = Some es" by (rule walker_tree_entries(1) [OF es])
      have inv1: "memo_inv i (length pfx) w1" using 1(4) by (simp only: w1' memo_inv_node)
      have inv: "memo_inv i (Suc (length pfx)) w2"
        using memo_inv_mono [OF inv1, of "Suc (length pfx)"] 1(3) by (simp only: w2' memo_inv_node memo_inv_mark_walked lessI le_SucI order_refl)
      note IH = 1(1) [OF False es refl w1 refl left w2 loop 1(3) _ inv]
      have l: "memo_inv i (Suc (length pfx)) w'" "ext (Suc (length pfx)) w2 w'" "\<forall>e\<in>set es. entry_covered i (wk_out w') pfx e"
        using IH tree_entries_wf [OF te] by auto
      have "memo_inv i (length pfx) w' \<and> ext (length pfx) w1 w'"
        by (rule memo_inv_walked [OF inv1 1(3) _ l(1) covers_entries [OF te l(3)]]) (use l(2) in \<open>simp only: w2' ext_node\<close>)
      then show ?thesis using covers_entries [OF te l(3)] by (simp only: w1' ext_node simp_thms)
    qed
  qed
next
  case (2 i left pfx base w)
  then show ?case by simp
next
  case (3 i left pfx e es base w)
  let ?step = "if isTree e then walk i left (pfx @ en_name e @ ''/'') (en_oid e) base w else leaf i (pfx @ en_name e) e base w"
  obtain w1 where w1: "?step = Inr w1" and loop: "walk_loop i left pfx es base w1 = Inr w'" using 3(3) by auto
  have wf: "entry_wf e" "\<forall>e\<in>set es. entry_wf e" using 3(5) by auto
  have "memo_inv i (Suc (length pfx)) w1 \<and> ext (Suc (length pfx)) w w1 \<and> entry_covered i (wk_out w1) pfx e"
  proof (cases "isTree e")
    case True
    let ?p = "pfx @ en_name e @ ''/''"
    have le: "Suc (length pfx) \<le> length ?p" by simp
    have "memo_inv i (length ?p) w1 \<and> ext (length ?p) w w1 \<and> covers i (wk_out w1) ?p (en_oid e)"
      using 3(1) [OF True _ no_nul_child [OF 3(4) wf(1)] memo_inv_mono [OF 3(6) le]] w1 True by simp
    then show ?thesis using memo_inv_ext [OF 3(6)] ext_mono [OF _ le] True by (auto simp: entry_covered_def)
  next
    case False
    then have "leaf i (pfx @ en_name e) e base w = Inr w1" using w1 by simp
    then show ?thesis using leaf_effect [of i "pfx @ en_name e" e base w w1] 3(6) False by (auto simp: entry_covered_def)
  qed
  note s1 = this
  have s2: "memo_inv i (Suc (length pfx)) w' \<and> ext (Suc (length pfx)) w1 w' \<and> (\<forall>e\<in>set es. entry_covered i (wk_out w') pfx e)"
    using 3(2) [OF w1 loop 3(4) wf(2)] s1 by blast
  show ?case using s1 s2 ext_trans [of "Suc (length pfx)" w w1 "Suc (length pfx)" w'] entry_covered_ext [of "Suc (length pfx)" w1 w' i pfx e] by auto
qed

lemma entry_named_SomeD: "entry_named prev name = Some b \<Longrightarrow> b \<in> set prev \<and> en_name b = name"
  unfolding entry_named_def find_Some_iff by (metis nth_mem set_rev)

lemma isTree_mode: "en_mode b = en_mode e \<Longrightarrow> isTree b = isTree e"
  by (simp add: isTree_def)

lemma dcovers_entries:
  assumes "tree_entries i new = Some nxt" "tree_entries i old = Some prev"
    "\<forall>e\<in>set nxt. entry_dcovered i out pfx prev e"
  shows "dcovers i out pfx old new"
  unfolding dcovers_def
proof (intro allI impI)
  fix p m oid
  assume "entry_at i new p m oid"
  then show "reported out (full pfx p) m oid \<or> entry_at i old p m oid"
  proof (cases rule: entry_at.cases)
    case missing
    then show ?thesis using assms(1) by (simp add: tree_entries_def)
  next
    case (plain fs e)
    then have e: "e \<in> set nxt" using assms(1) by simp
    then have "entry_wf e" using tree_entries_wf [OF assms(1)] by blast
    moreover have "entry_at i old (en_name e) (en_mode e) (en_oid e)"
      if b: "b \<in> set prev" "en_name b = en_name e" "en_mode b = en_mode e" "en_oid b = en_oid e" for b
      using entry_at.plain [OF assms(2) b(1)] plain isTree_mode [OF b(3)] b by simp
    moreover have "entry_covered i out pfx e \<or> (\<exists>b\<in>set prev. en_name b = en_name e \<and> en_mode b = en_mode e \<and> en_oid b = en_oid e)"
      using assms(3) e plain unfolding entry_dcovered_def by blast
    ultimately show ?thesis using plain by (auto simp: entry_covered_def full_def entry_wf_def)
  next
    case (sub fs e p')
    then have e: "e \<in> set nxt" using assms(1) by simp
    then have "en_name e \<noteq> []" using tree_entries_wf [OF assms(1)] by (auto simp: entry_wf_def)
    note path = full_join [OF this, of pfx p']
    have old: "entry_at i old (path_join (en_name b) p') m oid"
      if "b \<in> set prev" "isTree b" "entry_at i (en_oid b) p' m oid" for b
      by (rule entry_at.sub [OF assms(2) that])
    consider "entry_covered i out pfx e"
      | b where "b \<in> set prev" "en_name b = en_name e" "en_mode b = en_mode e" "en_oid b = en_oid e"
      | b where "b \<in> set prev" "en_name b = en_name e" "isTree b" "dcovers i out (pfx @ en_name e @ ''/'') (en_oid b) (en_oid e)"
      using assms(3) e unfolding entry_dcovered_def by blast
    then show ?thesis
    proof cases
      case 1
      then show ?thesis using sub path by (simp add: entry_covered_def covers_def)
    next
      case 2
      then have "isTree b" using sub isTree_mode by blast
      then show ?thesis using old [of b] 2 sub by simp
    next
      case 3
      then have "reported out (full (pfx @ en_name e @ ''/'') p') m oid \<or> entry_at i (en_oid b) p' m oid"
        using sub by (auto simp: dcovers_def)
      then show ?thesis using old [of b] 3 sub path by auto
    qed
  qed
qed

lemma walkEntries_effect:
  assumes "walkEntries i left pfx es base w = Inr w'" "no_nul pfx" "tree_entries i t = Some es" "memo_inv i (Suc (length pfx)) w"
  shows "memo_inv i (Suc (length pfx)) w' \<and> ext (Suc (length pfx)) w w' \<and> covers i (wk_out w') pfx t"
proof -
  obtain below w1 where w1: "charge (int (length es)) w = Inr w1" "walk_loop i below pfx es base w1 = Inr w'"
    using assms(1) by (cases left) (auto simp: walkEntries_def)
  note w1' = charge_effect [OF w1(1)]
  have "memo_inv i (Suc (length pfx)) w1" using assms(4) by (simp only: w1' memo_inv_node)
  with walk_effect(2) [OF w1(2) assms(2)] tree_entries_wf [OF assms(3)]
  have "memo_inv i (Suc (length pfx)) w'" "ext (Suc (length pfx)) w1 w'" "\<forall>e\<in>set es. entry_covered i (wk_out w') pfx e" by auto
  then show ?thesis using covers_entries [OF assms(3)] by (simp only: w1' ext_node simp_thms)
qed

lemma covers_dcovers: "covers i out pfx new \<Longrightarrow> dcovers i out pfx old new"
  by (simp add: covers_def dcovers_def)

lemma diff_effect:
  "diff i left pfx old new w = Inr w' \<Longrightarrow> no_nul pfx \<Longrightarrow> no_nul old \<Longrightarrow> memo_inv i (length pfx) w \<Longrightarrow>
   memo_inv i (length pfx) w' \<and> ext (length pfx) w w' \<and> dcovers i (wk_out w') pfx old new"
  "diff_loop i left pfx prev es w = Inr w' \<Longrightarrow> no_nul pfx \<Longrightarrow> \<forall>e\<in>set es. entry_wf e \<Longrightarrow> \<forall>e\<in>set prev. entry_wf e \<Longrightarrow>
   memo_inv i (Suc (length pfx)) w \<Longrightarrow>
   memo_inv i (Suc (length pfx)) w' \<and> ext (Suc (length pfx)) w w' \<and> (\<forall>e\<in>set es. entry_dcovered i (wk_out w') pfx prev e)"
proof (induction i left pfx old new w and i left pfx prev es w arbitrary: w' and w' rule: diff_diff_loop.induct)
  case (1 i left pfx old new w)
  let ?key = "memo_key pfx (memo_key old new)"
  show ?case
  proof (cases "old = new \<or> ?key \<in> wk_diffed w")
    case True
    then show ?thesis using 1(2-5) by (auto simp: memo_inv_def dcovers_def Let_def split: if_splits)
  next
    case False
    then have neq: "old \<noteq> new" "?key \<notin> wk_diffed w" by auto
    obtain w1 where w1: "keep (length ?key) w = Inr w1" using 1(2) neq by (auto simp: Let_def)
    define w2 where "w2 = w1\<lparr>wk_diffed := insert ?key (wk_diffed w1)\<rparr>"
    note w1' = keep_effect [OF w1]
    have inv1: "memo_inv i (length pfx) w1" using 1(5) by (simp only: w1' memo_inv_node)
    have inv2: "memo_inv i (Suc (length pfx)) w2"
      using memo_inv_mono [OF inv1, of "Suc (length pfx)"] 1(3) by (simp only: w2_def memo_inv_mark_diffed lessI le_SucI order_refl)
    obtain below where left: "left = Suc below" using 1(2) neq w1 by (cases left) (auto simp: Let_def)
    have finish: ?thesis if "ext (Suc (length pfx)) w2 w'" "memo_inv i (Suc (length pfx)) w'" "dcovers i (wk_out w') pfx old new"
    proof -
      have "memo_inv i (length pfx) w' \<and> ext (length pfx) w1 w'"
        by (rule memo_inv_diffed [OF inv1 1(3,4) that(1) [unfolded w2_def] that(2,3)])
      then show ?thesis using that(3) by (simp only: w1' ext_node simp_thms)
    qed
    have body: "(case walker_tree i w2 new of
                    Inl e \<Rightarrow> Inl e
                  | Inr None \<Rightarrow> uncarried pfx new w2
                  | Inr (Some nxt) \<Rightarrow>
                      (case walker_tree i w2 old of
                         Inl e \<Rightarrow> Inl e
                       | Inr None \<Rightarrow> walkEntries i left pfx nxt [] w2
                       | Inr (Some prev) \<Rightarrow>
                           andThen (charge (int (length prev) + int (length nxt)) w2)
                             (\<lambda>w3. diff_loop i below pfx prev nxt w3))) = Inr w'"
      using 1(2) neq w1 unfolding left w2_def by (simp add: Let_def)
    consider "walker_tree i w2 new = Inr None" "uncarried pfx new w2 = Inr w'"
      | nxt where "walker_tree i w2 new = Inr (Some nxt)" "walker_tree i w2 old = Inr None" "walkEntries i left pfx nxt [] w2 = Inr w'"
      | nxt prev w3 where "walker_tree i w2 new = Inr (Some nxt)" "walker_tree i w2 old = Inr (Some prev)"
          "charge (int (length prev) + int (length nxt)) w2 = Inr w3" "diff_loop i below pfx prev nxt w3 = Inr w'"
      using body by (auto split: sum.splits option.splits)
    then show ?thesis
    proof cases
      case 1
      then show ?thesis
        using uncarried_effect [OF 1(2) walker_tree_entries(2) [OF 1(1)]] inv2 covers_dcovers finish by blast
    next
      case 2
      then show ?thesis
        using walkEntries_effect [OF 2(3) \<open>no_nul pfx\<close> walker_tree_entries(1) [OF 2(1)] inv2] covers_dcovers finish by blast
    next
      case 3
      note te = walker_tree_entries(1) [OF 3(1)] walker_tree_entries(1) [OF 3(2)]
      note w3' = charge_effect [OF 3(3)]
      have "memo_inv i (Suc (length pfx)) w3" using inv2 by (simp only: w3' memo_inv_node)
      then have "memo_inv i (Suc (length pfx)) w' \<and> ext (Suc (length pfx)) w3 w' \<and>
          (\<forall>e\<in>set nxt. entry_dcovered i (wk_out w') pfx prev e)"
        using "1.IH" [OF neq(1) refl neq(2) w1 w2_def left 3(1) refl 3(2) refl 3(3,4) \<open>no_nul pfx\<close>]
          tree_entries_wf [OF te(1)] tree_entries_wf [OF te(2)] by blast
      then show ?thesis using dcovers_entries [OF te] finish by (simp only: w3' ext_node) blast
    qed
  qed
next
  case (2 i left pfx prev w)
  then show ?case by simp
next
  case (3 i left pfx prev e es w)
  let ?before = "entry_named prev (en_name e)" and ?p = "pfx @ en_name e @ ''/''"
  let ?step = "case ?before of
           Some b \<Rightarrow>
             if en_mode b = en_mode e \<and> en_oid b = en_oid e then Inr w
             else if \<not> isTree e then leaf i (pfx @ en_name e) e (en_mode b) w
             else if isTree b then diff i left ?p (en_oid b) (en_oid e) w
             else walk i left ?p (en_oid e) ModeAbsent w
         | None \<Rightarrow>
             if \<not> isTree e then leaf i (pfx @ en_name e) e ModeAbsent w
             else walk i left ?p (en_oid e) ModeAbsent w"
  obtain w1 where w1: "?step = Inr w1" and loop: "diff_loop i left pfx prev es w1 = Inr w'"
    using 3(3) by (auto simp: Let_def)
  have wf: "entry_wf e" "\<forall>e\<in>set es. entry_wf e" using 3(5) by auto
  have le: "Suc (length pfx) \<le> length ?p" by simp
  note nn = no_nul_child [OF 3(4) wf(1)] and inv = memo_inv_mono [OF 3(7) le]
  let ?good = "memo_inv i (Suc (length pfx)) w1 \<and> ext (Suc (length pfx)) w w1 \<and> entry_dcovered i (wk_out w1) pfx prev e"
  have good: ?good if "memo_inv i (length ?p) w1" "ext (length ?p) w w1" "entry_dcovered i (wk_out w1) pfx prev e"
    using that memo_inv_ext [OF 3(7)] ext_mono [OF _ le] by blast
  have leaf: ?good if "leaf i (pfx @ en_name e) e base w = Inr w1" "\<not> isTree e" for base
    using leaf_effect [OF that(1)] 3(7) that(2) by (auto simp: entry_dcovered_def entry_covered_def)
  have walk: ?good if "walk i left ?p (en_oid e) base w = Inr w1" "isTree e" for base
    using walk_effect(1) [OF that(1) nn inv] that(2) good by (auto simp: entry_dcovered_def entry_covered_def)
  have ?good
  proof (cases ?before)
    case None
    then show ?thesis using w1 leaf walk by (auto split: if_splits)
  next
    case (Some b)
    note b = entry_named_SomeD [OF Some]
    show ?thesis
    proof (cases "en_mode b = en_mode e \<and> en_oid b = en_oid e")
      case True
      then show ?thesis using w1 Some b 3(7) by (auto simp: entry_dcovered_def)
    next
      case False
      show ?thesis
      proof (cases "isTree e \<and> isTree b")
        case True
        then have d: "diff i left ?p (en_oid b) (en_oid e) w = Inr w1" using w1 Some False by auto
        have "no_nul (en_oid b)" using 3(6) b by (auto simp: entry_wf_def no_nul_def)
        then have "memo_inv i (length ?p) w1 \<and> ext (length ?p) w w1 \<and> dcovers i (wk_out w1) ?p (en_oid b) (en_oid e)"
          using 3(1) [OF refl Some False _ _ d nn _ inv] True by auto
        then show ?thesis using good b True by (auto simp: entry_dcovered_def)
      next
        case nt: False
        then show ?thesis using w1 Some False leaf walk by (auto split: if_splits)
      qed
    qed
  qed
  note s1 = this
  have s2: "memo_inv i (Suc (length pfx)) w' \<and> ext (Suc (length pfx)) w1 w' \<and>
      (\<forall>e\<in>set es. entry_dcovered i (wk_out w') pfx prev e)"
    using 3(2) [OF refl w1 loop 3(4) wf(2) 3(6)] s1 by blast
  show ?case
    using s1 s2 ext_trans [of "Suc (length pfx)" w w1 "Suc (length pfx)" w']
      entry_dcovered_ext [of "Suc (length pfx)" w1 w' i pfx prev e] by auto
qed

subsection \<open>The commits of the pack\<close>

definition commit_of :: "index \<Rightarrow> string \<Rightarrow> commitInfo option" where
  "commit_of i q =
     (case map_of (byOID i) q of
        None \<Rightarrow> None
      | Some ob \<Rightarrow>
          if ob_typ ob \<noteq> objCommit then None
          else case parseCommit (ob_data ob) (hf_size (ix_format i)) of Inl _ \<Rightarrow> None | Inr c \<Rightarrow> Some c)"

lemma isHex_no_nul: "isHex s \<Longrightarrow> no_nul s"
proof -
  have "\<not> hex_byte NUL" by (simp add: hex_byte_def byte_of_nat Let_def)
  then show "isHex s \<Longrightarrow> no_nul s" by (auto simp: isHex_def no_nul_def list_all_iff)
qed

lemma commit_lines_tree:
  "commit_lines h ls b c = Inr d \<Longrightarrow> ci_tree c = [] \<or> isHex (ci_tree c) \<Longrightarrow> ci_tree d = [] \<or> isHex (ci_tree d)"
  by (induction h ls b c rule: commit_lines.induct) (auto simp: Let_def split: prod.splits if_splits)

lemma parseCommit_tree: "parseCommit data h = Inr c \<Longrightarrow> no_nul (ci_tree c)"
  by (auto simp: parseCommit_def split: if_splits dest!: commit_lines_tree intro: isHex_no_nul)

lemma ext_bases: "memo_inv i n (w\<lparr>wk_bases := B\<rparr>) = memo_inv i n w" "set (wk_bases w) \<subseteq> set B \<Longrightarrow> ext n w (w\<lparr>wk_bases := B\<rparr>)"
  by (auto simp: memo_inv_def ext_def)

lemma no_nul_Nil [simp]: "no_nul []"
  by (simp add: no_nul_def)

lemma full_Nil [simp]: "full [] p = p"
  by (simp add: full_def TrimSuffix_def HasSuffix_def)

lemma parents_loop_effect:
  "parents_loop i isHeld tree ps d w = Inr (d', w') \<Longrightarrow> memo_inv i 0 w \<Longrightarrow>
   memo_inv i 0 w' \<and> ext 0 w w' \<and>
   (\<forall>q\<in>set ps. \<forall>c. commit_of i q = Some c \<longrightarrow> dcovers i (wk_out w') [] (ci_tree c) tree) \<and>
   (d' \<longrightarrow> d \<or> (\<exists>q\<in>set ps. commit_of i q \<noteq> None)) \<and>
   (\<forall>q\<in>set ps. map_of (byOID i) q = None \<or> isHeld q \<longrightarrow> q \<in> set (wk_bases w'))"
proof (induction ps arbitrary: d w)
  case (Cons q ps)
  let ?w1 = "if map_of (byOID i) q = None \<or> isHeld q then w\<lparr>wk_bases := List.insert q (wk_bases w)\<rparr> else w"
  have w1: "memo_inv i 0 ?w1" "ext 0 w ?w1" "map_of (byOID i) q = None \<or> isHeld q \<longrightarrow> q \<in> set (wk_bases ?w1)"
    using Cons.prems(2) ext_bases(2) [of w "List.insert q (wk_bases w)" 0] by (auto simp: ext_bases(1))
  have base: "q \<in> set (wk_bases w2)" if "ext 0 ?w1 w2" "map_of (byOID i) q = None \<or> isHeld q" for w2
    using that w1(3) unfolding ext_def by blast
  show ?case
  proof (cases "commit_of i q")
    case None
    have "parents_loop i isHeld tree ps d ?w1 = Inr (d', w')"
      using Cons.prems(1) None by (auto simp: commit_of_def Let_def split: option.splits if_splits sum.splits)
    note l = Cons.IH [OF this w1(1)]
    have e: "ext 0 ?w1 w'" using l by blast
    show ?thesis using l None base [OF e] ext_trans [OF w1(2) e order_refl] by simp
  next
    case (Some c)
    then obtain ob where ob: "map_of (byOID i) q = Some ob" "ob_typ ob = objCommit"
        "parseCommit (ob_data ob) (hf_size (ix_format i)) = Inr c"
      by (auto simp: commit_of_def split: option.splits if_splits sum.splits)
    obtain w2 where w2: "diff i (maxTreeDepth + 1) [] (ci_tree c) tree ?w1 = Inr w2"
      "parents_loop i isHeld tree ps True w2 = Inr (d', w')"
      using Cons.prems(1) ob by (auto simp: Let_def)
    have d: "memo_inv i 0 w2" "ext 0 ?w1 w2" "dcovers i (wk_out w2) [] (ci_tree c) tree"
      using diff_effect(1) [OF w2(1) no_nul_Nil parseCommit_tree [OF ob(3)]] w1(1) by auto
    note l = Cons.IH [OF w2(2) d(1)]
    have e: "ext 0 ?w1 w'" using ext_trans [OF d(2), of 0 w'] l by simp
    have "dcovers i (wk_out w') [] (ci_tree c) tree" using dcovers_ext [OF _ d(3)] l by blast
    then show ?thesis using l Some base [OF e] ext_trans [OF w1(2) e order_refl] by simp
  qed
qed simp

definition commit_complete :: "index \<Rightarrow> (string \<Rightarrow> bool) \<Rightarrow> Change list \<Rightarrow> string list \<Rightarrow> commitInfo \<Rightarrow> bool" where
  "commit_complete i isHeld out bases c \<longleftrightarrow>
     (\<forall>p m oid. entry_at i (ci_tree c) p m oid \<longrightarrow> reported out p m oid \<or>
        ((\<exists>q\<in>set (ci_parents c). commit_of i q \<noteq> None) \<and>
         (\<forall>q\<in>set (ci_parents c). \<forall>d. commit_of i q = Some d \<longrightarrow> entry_at i (ci_tree d) p m oid))) \<and>
     (\<forall>q\<in>set (ci_parents c). map_of (byOID i) q = None \<or> isHeld q \<longrightarrow> q \<in> set bases)"

lemma introduced_effect:
  assumes "introduced i isHeld c w = Inr w'" "memo_inv i 0 w"
  shows "memo_inv i 0 w' \<and> ext 0 w w' \<and> commit_complete i isHeld (wk_out w') (wk_bases w') c"
proof -
  obtain d w1 where w1: "parents_loop i isHeld (ci_tree c) (ci_parents c) False w = Inr (d, w1)"
    "(if d then Inr w1 else walk i (maxTreeDepth + 1) [] (ci_tree c) [] w1) = Inr w'"
    using assms(1) by (auto simp: introduced_def simp del: walk.simps)
  note l = parents_loop_effect [OF w1(1) assms(2)]
  show ?thesis
  proof (cases d)
    case True
    then show ?thesis using w1(2) l unfolding commit_complete_def dcovers_def full_Nil by simp blast
  next
    case False
    then have w: "memo_inv i 0 w'" "ext 0 w1 w'" "covers i (wk_out w') [] (ci_tree c)"
      using walk_effect(1) [of i "maxTreeDepth + 1" "[]" "ci_tree c" "[]" w1 w'] w1(2) l by (auto simp del: walk.simps)
    have "set (wk_bases w1) \<subseteq> set (wk_bases w')" using w(2) by (simp add: ext_def)
    then show ?thesis using w l ext_trans [of 0 w w1 0 w'] by (auto simp: commit_complete_def covers_def)
  qed
qed

lemma commit_complete_ext:
  "ext 0 w w' \<Longrightarrow> commit_complete i isHeld (wk_out w) (wk_bases w) c \<Longrightarrow> commit_complete i isHeld (wk_out w') (wk_bases w') c"
  unfolding ext_def commit_complete_def by (meson subsetD)

lemma commits_loop_effect:
  "commits_loop i isHeld oids w = Inr w' \<Longrightarrow> memo_inv i 0 w \<Longrightarrow>
   ext 0 w w' \<and> (\<forall>oid\<in>set oids. \<forall>ob. map_of (byOID i) oid = Some ob \<and> ob_typ ob = objCommit \<and> \<not> isHeld oid \<longrightarrow>
     (\<exists>c. commit_of i oid = Some c \<and> commit_complete i isHeld (wk_out w') (wk_bases w') c))"
proof (induction oids arbitrary: w)
  case (Cons oid oids)
  show ?case
  proof (cases "\<exists>ob. map_of (byOID i) oid = Some ob \<and> ob_typ ob = objCommit \<and> \<not> isHeld oid")
    case True
    then obtain ob c w1 where ob: "map_of (byOID i) oid = Some ob" "ob_typ ob = objCommit" "\<not> isHeld oid"
      and c: "parseCommit (ob_data ob) (hf_size (ix_format i)) = Inr c" "introduced i isHeld c w = Inr w1"
        "commits_loop i isHeld oids w1 = Inr w'"
      using Cons.prems(1) by auto
    note s1 = introduced_effect [OF c(2) Cons.prems(2)]
    then have s2: "ext 0 w1 w'" using Cons.IH [OF c(3)] by blast
    have "commit_of i oid = Some c" using ob c(1) by (simp add: commit_of_def)
    then show ?thesis
      using s1 s2 Cons.IH [OF c(3)] ext_trans [of 0 w w1 0 w'] commit_complete_ext [OF s2] ob by auto
  next
    case False
    then have "commits_loop i isHeld oids w = Inr w'" using Cons.prems(1) by (auto split: option.splits if_splits)
    then show ?thesis using Cons.IH [OF _ Cons.prems(2)] False by auto
  qed
qed simp

lemma changes_commit_complete:
  assumes "changes i isHeld = Inr (out, bases)" "map_of (byOID i) oid = Some ob" "ob_typ ob = objCommit" "\<not> isHeld oid"
  shows "\<exists>c. commit_of i oid = Some c \<and> commit_complete i isHeld out bases c"
proof -
  obtain w where w: "commits_loop i isHeld (sort (map fst (byOID i))) newWalker = Inr w"
    "out = sort_key change_order (wk_out w)" "bases = sort (wk_bases w)"
    using assms(1) by (auto simp: changes_def)
  have "memo_inv i 0 newWalker" by (simp add: memo_inv_def newWalker_def)
  note l = commits_loop_effect [OF w(1) this]
  have "oid \<in> set (sort (map fst (byOID i)))" using map_of_SomeD [OF assms(2)] by force
  then obtain c where "commit_of i oid = Some c" "commit_complete i isHeld (wk_out w) (wk_bases w) c"
    using l assms(2-4) by blast
  then show ?thesis using w(2,3) by (auto simp: commit_complete_def reported_def)
qed

text \<open>
  C17: no change of a push escapes the walk. When \<open>changes\<close> answers, every commit the pack carries that is not held
  parses, and every entry its tree has, as far as the pack carries it, is among the reported changes at its path, mode
  and object id, or the pack carries a parent of the commit and every carried parent has that very entry. An uncarried
  directory is an entry of its own. Every parent the pack lacks, or that is held, is among the bases.
\<close>

theorem changes_complete:
  assumes "changes i isHeld = Inr (out, bases)" "map_of (byOID i) oid = Some ob" "ob_typ ob = objCommit" "\<not> isHeld oid"
  shows "\<exists>c. parseCommit (ob_data ob) (hf_size (ix_format i)) = Inr c \<and>
    (\<forall>p m x. entry_at i (ci_tree c) p m x \<longrightarrow>
       (\<exists>ch\<in>set out. ch_Path ch = p \<and> ch_Mode ch = m \<and> ch_OID ch = x) \<or>
       ((\<exists>q\<in>set (ci_parents c). commit_of i q \<noteq> None) \<and>
        (\<forall>q\<in>set (ci_parents c). \<forall>d. commit_of i q = Some d \<longrightarrow> entry_at i (ci_tree d) p m x))) \<and>
    (\<forall>q\<in>set (ci_parents c). map_of (byOID i) q = None \<or> isHeld q \<longrightarrow> q \<in> set bases)"
  using changes_commit_complete [OF assms] assms(2,3)
  by (auto simp: commit_of_def commit_complete_def reported_def split: sum.splits)

subsection \<open>Soundness of the walk\<close>

definition new_from :: "index \<Rightarrow> walker \<Rightarrow> walker \<Rightarrow> string \<Rightarrow> string \<Rightarrow> bool" where
  "new_from i w w' pfx t \<longleftrightarrow>
     (\<forall>p m oid. reported (wk_out w') p m oid \<longrightarrow> reported (wk_out w) p m oid \<or> (\<exists>q. p = full pfx q \<and> entry_at i t q m oid))"

lemma new_from_refl [simp]: "new_from i w w pfx t"
  by (simp add: new_from_def)

lemma new_from_trans: "new_from i w w1 pfx t \<Longrightarrow> new_from i w1 w' pfx t \<Longrightarrow> new_from i w w' pfx t"
  unfolding new_from_def by meson

lemma new_from_same_out: "wk_out w = wk_out v \<Longrightarrow> new_from i w w' pfx t = new_from i v w' pfx t"
  by (simp add: new_from_def)

lemma new_from_sub:
  assumes "new_from i w w' (pfx @ en_name e @ ''/'') (en_oid e)" "tree_entries i t = Some es" "e \<in> set es" "isTree e"
  shows "new_from i w w' pfx t"
proof -
  have "en_name e \<noteq> []" using tree_entries_wf [OF assms(2,3)] by (simp add: entry_wf_def)
  then show ?thesis using assms entry_at.sub [OF assms(2-4)] full_join [of "en_name e" pfx] unfolding new_from_def by metis
qed

lemma leaf_new:
  assumes "leaf i (pfx @ en_name e) e base w = Inr w'" "tree_entries i t = Some es" "e \<in> set es" "\<not> isTree e"
  shows "new_from i w w' pfx t"
proof -
  have "full pfx (en_name e) = pfx @ en_name e" using tree_entries_wf [OF assms(2,3)] by (simp add: entry_wf_def full_def)
  then show ?thesis
    using record_change_out [OF assms(1) [unfolded leaf_def]] entry_at.plain [OF assms(2-4)] unfolding new_from_def by fastforce
qed

lemma uncarried_new:
  assumes "uncarried pfx t w = Inr w'" "map_of (byOID i) t = None"
  shows "new_from i w w' pfx t"
proof -
  have "full pfx [] = TrimSuffix pfx ''/''" by (simp add: full_def)
  then show ?thesis
    using record_change_out [OF assms(1) [unfolded uncarried_def]] entry_at.missing [OF assms(2)] unfolding new_from_def by fastforce
qed

lemma walk_new:
  "walk i left pfx t base w = Inr w' \<Longrightarrow> new_from i w w' pfx t"
  "walk_loop i left pfx es base w = Inr w' \<Longrightarrow> \<forall>t all. tree_entries i t = Some all \<and> set es \<subseteq> set all \<longrightarrow> new_from i w w' pfx t"
proof (induction i left pfx t base w and i left pfx es base w arbitrary: w' and w' rule: walk_walk_loop.induct)
  case (1 i left pfx t base w)
  let ?key = "memo_key pfx t"
  show ?case
  proof (cases "?key \<in> wk_walked w \<or> walker_tree i w t = Inr None")
    case True
    then show ?thesis using 1(2) uncarried_new walker_tree_entries(2) by (cases "?key \<in> wk_walked w") auto
  next
    case False
    then obtain es below w1 w2 where es: "walker_tree i w t = Inr (Some es)" and left: "left = Suc below"
      and w1: "keep (length ?key) w = Inr w1"
      and w2: "charge (int (length es)) (w1\<lparr>wk_walked := insert ?key (wk_walked w1)\<rparr>) = Inr w2"
      and loop: "walk_loop i below pfx es base w2 = Inr w'"
      using 1(2) by (cases left) (auto simp: Let_def split: sum.splits option.splits)
    have "new_from i w2 w' pfx t"
      using 1(1) [OF _ es refl w1 refl left w2 loop] False walker_tree_entries(1) [OF es] by blast
    moreover have "wk_out w2 = wk_out w" using keep_effect [OF w1] charge_effect [OF w2] by simp
    ultimately show ?thesis using new_from_same_out by blast
  qed
next
  case (3 i left pfx e es base w)
  let ?step = "if isTree e then walk i left (pfx @ en_name e @ ''/'') (en_oid e) base w else leaf i (pfx @ en_name e) e base w"
  obtain w1 where w1: "?step = Inr w1" and loop: "walk_loop i left pfx es base w1 = Inr w'" using 3(3) by auto
  show ?case
  proof (intro allI impI, elim conjE)
    fix t all
    assume t: "tree_entries i t = Some all" "set (e # es) \<subseteq> set all"
    then have e: "e \<in> set all" by auto
    have "new_from i w w1 pfx t"
    proof (cases "isTree e")
      case True
      then show ?thesis using 3(1) [OF True, of w1] w1 new_from_sub [OF _ t(1) e True] by auto
    next
      case False
      then show ?thesis using w1 leaf_new [OF _ t(1) e False, of pfx base w w1] by simp
    qed
    then show "new_from i w w' pfx t" using 3(2) [OF w1 loop] t new_from_trans by auto
  qed
qed auto

lemma diff_new:
  "diff i left pfx old t w = Inr w' \<Longrightarrow> new_from i w w' pfx t"
  "diff_loop i left pfx prev es w = Inr w' \<Longrightarrow> \<forall>t all. tree_entries i t = Some all \<and> set es \<subseteq> set all \<longrightarrow> new_from i w w' pfx t"
proof (induction i left pfx old t w and i left pfx prev es w arbitrary: w' and w' rule: diff_diff_loop.induct)
  case (1 i left pfx old t w)
  let ?key = "memo_key pfx (memo_key old t)"
  show ?case
  proof (cases "old = t \<or> ?key \<in> wk_diffed w")
    case True
    then show ?thesis using 1(2) by (auto simp: Let_def split: if_splits)
  next
    case False
    then have neq: "old \<noteq> t" "?key \<notin> wk_diffed w" by auto
    obtain w1 where w1: "keep (length ?key) w = Inr w1" using 1(2) neq by (auto simp: Let_def)
    obtain below where left: "left = Suc below" using 1(2) neq w1 by (cases left) (auto simp: Let_def)
    define w2 where "w2 = w1\<lparr>wk_diffed := insert ?key (wk_diffed w1)\<rparr>"
    have out: "wk_out w2 = wk_out w" using keep_effect [OF w1] by (simp add: w2_def)
    have body: "(case walker_tree i w2 t of
                    Inl e \<Rightarrow> Inl e
                  | Inr None \<Rightarrow> uncarried pfx t w2
                  | Inr (Some nxt) \<Rightarrow>
                      (case walker_tree i w2 old of
                         Inl e \<Rightarrow> Inl e
                       | Inr None \<Rightarrow> walkEntries i left pfx nxt [] w2
                       | Inr (Some prev) \<Rightarrow>
                           andThen (charge (int (length prev) + int (length nxt)) w2)
                             (\<lambda>w3. diff_loop i below pfx prev nxt w3))) = Inr w'"
      using 1(2) neq w1 unfolding left w2_def by (simp add: Let_def)
    have "new_from i w2 w' pfx t"
    proof (cases "walker_tree i w2 t = Inr None")
      case True
      then show ?thesis using body uncarried_new walker_tree_entries(2) by simp
    next
      case carried: False
      then obtain nxt where nxt: "walker_tree i w2 t = Inr (Some nxt)" using body by (auto split: sum.splits option.splits)
      note te = walker_tree_entries(1) [OF nxt]
      show ?thesis
      proof (cases "walker_tree i w2 old = Inr None")
        case True
        then obtain w3 where w3: "charge (int (length nxt)) w2 = Inr w3" "walk_loop i below pfx nxt [] w3 = Inr w'"
          using body nxt left by (auto simp: walkEntries_def)
        have "wk_out w3 = wk_out w2" using charge_effect [OF w3(1)] by simp
        then show ?thesis using walk_new(2) [OF w3(2)] te new_from_same_out [of w3 w2] by blast
      next
        case False
        then obtain prev w3 where w3: "walker_tree i w2 old = Inr (Some prev)"
            "charge (int (length prev) + int (length nxt)) w2 = Inr w3" "diff_loop i below pfx prev nxt w3 = Inr w'"
          using body nxt by (auto split: sum.splits option.splits)
        then show ?thesis
          using 1(1) [OF neq(1) refl neq(2) w1 w2_def left nxt refl w3(1) refl w3(2,3)] te charge_effect [OF w3(2)]
            new_from_same_out [of w3 w2] by auto
      qed
    qed
    then show ?thesis using new_from_same_out [OF out] by blast
  qed
next
  case (3 i left pfx prev e es w)
  let ?p = "pfx @ en_name e @ ''/''"
  obtain w1 where w1: "(case entry_named prev (en_name e) of
           Some b \<Rightarrow>
             if en_mode b = en_mode e \<and> en_oid b = en_oid e then Inr w
             else if \<not> isTree e then leaf i (pfx @ en_name e) e (en_mode b) w
             else if isTree b then diff i left ?p (en_oid b) (en_oid e) w
             else walk i left ?p (en_oid e) ModeAbsent w
         | None \<Rightarrow>
             if \<not> isTree e then leaf i (pfx @ en_name e) e ModeAbsent w
             else walk i left ?p (en_oid e) ModeAbsent w) = Inr w1" and loop: "diff_loop i left pfx prev es w1 = Inr w'"
    using 3(3) by (auto simp: Let_def)
  show ?case
  proof (intro allI impI, elim conjE)
    fix t all
    assume t: "tree_entries i t = Some all" "set (e # es) \<subseteq> set all"
    then have e: "e \<in> set all" by auto
    note leaf = leaf_new [OF _ t(1) e] and below = new_from_sub [OF _ t(1) e]
    have "new_from i w w1 pfx t"
    proof (cases "entry_named prev (en_name e)")
      case None
      then show ?thesis using w1 leaf below walk_new(1) by (auto split: if_splits)
    next
      case (Some b)
      then show ?thesis using w1 leaf below walk_new(1) 3(1) [OF refl Some] by (auto split: if_splits)
    qed
    then show "new_from i w w' pfx t" using 3(2) [OF refl w1 loop] t new_from_trans by auto
  qed
qed auto

declare walk.simps [simp del] diff.simps [simp del]

lemma parents_loop_new: "parents_loop i isHeld t ps d w = Inr (d', w') \<Longrightarrow> new_from i w w' [] t"
proof (induction ps arbitrary: d w)
  case (Cons q ps)
  let ?w1 = "if map_of (byOID i) q = None \<or> isHeld q then w\<lparr>wk_bases := List.insert q (wk_bases w)\<rparr> else w"
  have w1: "wk_out ?w1 = wk_out w" by simp
  have "parents_loop i isHeld t ps d ?w1 = Inr (d', w') \<or>
      (\<exists>(c :: commitInfo) w2. diff i (maxTreeDepth + 1) [] (ci_tree c) t ?w1 = Inr w2 \<and> parents_loop i isHeld t ps True w2 = Inr (d', w'))"
    using Cons.prems
    by (cases "map_of (byOID i) q"; cases "ob_typ (the (map_of (byOID i) q)) = objCommit"; auto simp: Let_def; blast)
  then consider (skip) "parents_loop i isHeld t ps d ?w1 = Inr (d', w')"
    | (diff) c :: commitInfo and w2 where "diff i (maxTreeDepth + 1) [] (ci_tree c) t ?w1 = Inr w2" "parents_loop i isHeld t ps True w2 = Inr (d', w')"
    by blast
  then have "new_from i ?w1 w' [] t"
  proof cases
    case skip
    then show ?thesis by (rule Cons.IH)
  next
    case (diff c w2)
    then show ?thesis using diff_new(1) [OF diff(1)] Cons.IH [OF diff(2)] new_from_trans by blast
  qed
  then show ?case using new_from_same_out [OF w1] by blast
qed simp

lemma introduced_new: "introduced i isHeld c w = Inr w' \<Longrightarrow> new_from i w w' [] (ci_tree c)"
  by (auto simp: introduced_def split: if_splits
      dest!: parents_loop_new walk_new(1) intro: new_from_trans)

lemma commits_loop_new:
  "commits_loop i isHeld oids w = Inr w' \<Longrightarrow> reported (wk_out w') p m x \<Longrightarrow>
   reported (wk_out w) p m x \<or>
   (\<exists>oid c. commit_of i oid = Some c \<and> \<not> isHeld oid \<and> entry_at i (ci_tree c) p m x)"
proof (induction oids arbitrary: w)
  case (Cons oid oids)
  show ?case
  proof (cases "\<exists>ob. map_of (byOID i) oid = Some ob \<and> ob_typ ob = objCommit \<and> \<not> isHeld oid")
    case True
    then obtain ob c w1 where ob: "map_of (byOID i) oid = Some ob" "ob_typ ob = objCommit" "\<not> isHeld oid"
      and c: "parseCommit (ob_data ob) (hf_size (ix_format i)) = Inr c" "introduced i isHeld c w = Inr w1"
        "commits_loop i isHeld oids w1 = Inr w'"
      using Cons.prems(1) by auto
    have "commit_of i oid = Some c" using ob c(1) by (simp add: commit_of_def)
    then show ?thesis
      using Cons.IH [OF c(3) Cons.prems(2)] introduced_new [OF c(2)] ob(3) unfolding new_from_def full_Nil by blast
  next
    case False
    then have "commits_loop i isHeld oids w = Inr w'" using Cons.prems(1) by (auto split: option.splits if_splits)
    then show ?thesis using Cons.IH [OF _ Cons.prems(2)] by blast
  qed
qed simp

text \<open>
  Nothing is reported that no commit has. Every change is an entry of the tree of some commit the pack carries and
  that is not held, at that path, mode and object id; so a rule never refuses a push over a path it does not touch.
\<close>

theorem changes_sound:
  assumes "changes i isHeld = Inr (out, bases)" "ch \<in> set out"
  shows "\<exists>oid c. commit_of i oid = Some c \<and> \<not> isHeld oid \<and> entry_at i (ci_tree c) (ch_Path ch) (ch_Mode ch) (ch_OID ch)"
proof -
  obtain w where w: "commits_loop i isHeld (sort (map fst (byOID i))) newWalker = Inr w" "set out = set (wk_out w)"
    using assms(1) by (auto simp: changes_def)
  then have "reported (wk_out w) (ch_Path ch) (ch_Mode ch) (ch_OID ch)" using assms(2) by (auto simp: reported_def)
  from commits_loop_new [OF w(1) this] show ?thesis by (simp add: newWalker_def reported_def)
qed

subsection \<open>A sample pack\<close>

text \<open>One commit whose tree has an executable file and a directory the pack does not carry; ids are one byte wide.\<close>

definition sample_index :: index where
  "sample_index = \<lparr>ix_format = \<lparr>hf_name = ''sha1'', hf_size = 1, hf_new = (\<lambda>_. ''x'')\<rparr>,
     byOID = [(''aa'', \<lparr>ob_typ = objCommit, ob_size = 8, ob_data = ''tree bb'' @ [CHR 0x0A]\<rparr>),
              (''bb'', \<lparr>ob_typ = objTree, ob_size = 19,
                 ob_data = ''100755 f'' @ [CHR 0x00, CHR 0xCC] @ ''40000 d'' @ [CHR 0x00, CHR 0xDD]\<rparr>)]\<rparr>"

lemma sample_changes:
  "changes sample_index (\<lambda>_. False) =
     Inr ([\<lparr>ch_Path = ''d'', ch_Mode = ''40000'', ch_size = - 1, ch_OID = ''dd'', ch_BaseMode = []\<rparr>,
           \<lparr>ch_Path = ''f'', ch_Mode = ''100755'', ch_size = - 1, ch_OID = ''cc'', ch_BaseMode = []\<rparr>], [])"
  by code_simp

lemma changes_complete_witness:
  "entry_at sample_index ''bb'' ''f'' ''100755'' ''cc'' \<and>
   (\<exists>out ch. changes sample_index (\<lambda>_. False) = Inr (out, []) \<and> ch \<in> set out \<and>
      ch_Path ch = ''f'' \<and> ch_Mode ch = ''100755'' \<and> ch_OID ch = ''cc'')"
proof -
  let ?f = "\<lparr>en_mode = ''100755'', en_name = ''f'', en_oid = ''cc''\<rparr>"
  have t: "map_of (byOID sample_index) ''aa'' = Some \<lparr>ob_typ = objCommit, ob_size = 8, ob_data = ''tree bb'' @ [CHR 0x0A]\<rparr>"
    "hf_size (ix_format sample_index) = 1" by code_simp+
  have p: "parseCommit (''tree bb'' @ [CHR 0x0A]) 1 = Inr \<lparr>ci_tree = ''bb'', ci_parents = []\<rparr>" by code_simp
  have es: "tree_entries sample_index ''bb'' = Some [?f, \<lparr>en_mode = ''40000'', en_name = ''d'', en_oid = ''dd''\<rparr>]" by code_simp
  have "\<not> isTree ?f" by code_simp
  then have e: "entry_at sample_index ''bb'' ''f'' ''100755'' ''cc''" using entry_at.plain [OF es, of ?f] by simp
  obtain out where out: "changes sample_index (\<lambda>_. False) = Inr (out, [])" using sample_changes by blast
  obtain c where c: "parseCommit (''tree bb'' @ [CHR 0x0A]) 1 = Inr c"
      "\<forall>p m x. entry_at sample_index (ci_tree c) p m x \<longrightarrow> (\<exists>ch\<in>set out. ch_Path ch = p \<and> ch_Mode ch = m \<and> ch_OID ch = x) \<or>
         (\<exists>q\<in>set (ci_parents c). commit_of sample_index q \<noteq> None)"
    using changes_complete [OF out t(1)] t(2) unfolding object.simps by metis
  have "c = \<lparr>ci_tree = ''bb'', ci_parents = []\<rparr>" using c(1) p by simp
  then show ?thesis using c(2) e out by fastforce
qed

lemma changes_sound_witness:
  "\<exists>oid c. commit_of sample_index oid = Some c \<and> entry_at sample_index (ci_tree c) ''f'' ''100755'' ''cc''"
  using changes_sound [OF sample_changes, of "\<lparr>ch_Path = ''f'', ch_Mode = ''100755'', ch_size = - 1, ch_OID = ''cc'', ch_BaseMode = []\<rparr>"]
  by auto

subsection \<open>Tree objects as git writes them\<close>

definition put_entry :: "treeEntry \<times> string \<Rightarrow> string" where
  "put_entry x = en_mode (fst x) @ CHR '' '' # en_name (fst x) @ NUL # snd x"

definition put_tree :: "(treeEntry \<times> string) list \<Rightarrow> string" where
  "put_tree xs = concat (map put_entry xs)"

text \<open>An entry with the raw bytes of its object id.\<close>

definition raw_entry :: "nat \<Rightarrow> treeEntry \<times> string \<Rightarrow> bool" where
  "raw_entry h x \<longleftrightarrow> length (snd x) = h \<and> en_oid (fst x) = hexEncode (snd x) \<and> NUL \<notin> set (en_name (fst x)) \<and>
     checkEntry (en_mode (fst x)) (en_name (fst x)) = Inr ()"

lemma octal_no_space: "octal_digits n s = Some m \<Longrightarrow> CHR '' '' \<notin> set s \<and> NUL \<notin> set s"
proof (induction s arbitrary: n)
  case (Cons c s)
  have "byte_of (CHR '' '') = 32" "byte_of NUL = 0" by (simp_all add: byte_of_nat)
  then show ?case using Cons by (auto simp: Let_def split: if_splits)
qed simp

lemma checkEntry_mode: "checkEntry mode name = Inr () \<Longrightarrow> mode \<noteq> [] \<and> CHR '' '' \<notin> set mode \<and> NUL \<notin> set mode"
  by (auto simp: checkEntry_def ParseOctal32_def split: if_splits dest: octal_no_space)

lemma parse_entries_put:
  "list_all (raw_entry h) xs \<Longrightarrow> parse_entries h (put_tree xs) = Inr (map fst xs)"
proof (induction xs)
  case Nil
  then show ?case by (simp add: put_tree_def parse_entries.simps)
next
  case (Cons x xs)
  obtain e raw where x: "x = (e, raw)" by (cases x)
  let ?rest = "put_tree xs"
  have raw: "length raw = h" "en_oid e = hexEncode raw" "NUL \<notin> set (en_name e)" "checkEntry (en_mode e) (en_name e) = Inr ()"
    using Cons.prems by (auto simp: x raw_entry_def)
  have data: "put_tree (x # xs) = en_mode e @ CHR '' '' # en_name e @ NUL # raw @ ?rest" by (simp add: put_tree_def put_entry_def x)
  have sp: "IndexByte (en_mode e @ CHR '' '' # en_name e @ NUL # raw @ ?rest) (CHR '' '') = Some (length (en_mode e))"
    using checkEntry_mode [OF raw(4)] by (simp add: IndexByte_append)
  have nul: "IndexByte (en_name e @ NUL # raw @ ?rest) NUL = Some (length (en_name e))" using raw(3) by (simp add: IndexByte_append)
  have "e = \<lparr>en_mode = en_mode e, en_name = en_name e, en_oid = hexEncode raw\<rparr>" using raw(2) by simp
  then show ?case
    using Cons raw(1,4) checkEntry_mode [OF raw(4)] unfolding data
    by (subst parse_entries.simps) (simp add: sp nul x Let_def)
qed

text \<open>
  C33: a tree object has one reading. \<open>parse_entries\<close> inverts the serialization of every list of entries the checks admit,
  and whatever it reads is the serialization of what it returns, byte for byte; so two different trees never parse alike
  and no byte of a tree goes unread.
\<close>

theorem tree_roundtrip:
  "parse_entries h data = Inr es \<longleftrightarrow> (\<exists>xs. list_all (raw_entry h) xs \<and> data = put_tree xs \<and> es = map fst xs)"
proof
  show "parse_entries h data = Inr es \<Longrightarrow> \<exists>xs. list_all (raw_entry h) xs \<and> data = put_tree xs \<and> es = map fst xs"
  proof (induction h data arbitrary: es rule: parse_entries.induct)
    case (1 h data)
    show ?case
    proof (cases "data = []")
      case True
      then show ?thesis using 1(2) by (intro exI [of _ "[]"]) (simp add: parse_entries.simps put_tree_def)
    next
      case False
      obtain sp nul where sp: "IndexByte data (CHR '' '') = Some sp" "sp \<noteq> 0"
        and nul: "IndexByte (drop (sp + 1) data) NUL = Some nul"
        using 1(2) False by (subst (asm) parse_entries.simps) (auto simp: Let_def split: option.splits if_splits)
      let ?mode = "take sp data" and ?rest = "drop (sp + 1) data"
      let ?name = "take nul ?rest" and ?rest' = "drop (nul + 1) ?rest"
      let ?e = "\<lparr>en_mode = ?mode, en_name = ?name, en_oid = hexEncode (take h ?rest')\<rparr>"
      have len: "\<not> length ?rest' < h" and chk: "checkEntry ?mode ?name = Inr ()"
        and "\<exists>fs. parse_entries h (drop h ?rest') = Inr fs \<and> es = ?e # fs"
        using 1(2) False sp nul by (subst (asm) parse_entries.simps, auto simp: Let_def split: if_splits)+
      then obtain fs where fs: "parse_entries h (drop h ?rest') = Inr fs" "es = ?e # fs" by blast
      obtain xs where xs: "list_all (raw_entry h) xs" "drop h ?rest' = put_tree xs" "fs = map fst xs"
        using 1(1) [OF False sp refl refl nul refl refl len chk fs(1)] by blast
      have d1: "data = ?mode @ CHR '' '' # ?rest" using sp(1) by (metis IndexByte_Some id_take_nth_drop Suc_eq_plus1)
      have d2: "?rest = ?name @ NUL # ?rest'" using nul by (metis IndexByte_Some id_take_nth_drop Suc_eq_plus1)
      have d3: "?rest' = take h ?rest' @ put_tree xs" using xs(2) by (metis append_take_drop_id)
      have "put_tree ((?e, take h ?rest') # xs) = ?mode @ CHR '' '' # ?name @ NUL # take h ?rest' @ put_tree xs"
        by (simp add: put_tree_def put_entry_def)
      also have "\<dots> = ?mode @ CHR '' '' # ?name @ NUL # ?rest'" by (simp only: d3 [symmetric])
      also have "\<dots> = ?mode @ CHR '' '' # ?rest" by (simp only: d2 [symmetric])
      also have "\<dots> = data" by (simp only: d1 [symmetric])
      finally have "data = put_tree ((?e, take h ?rest') # xs)" by simp
      moreover have "raw_entry h (?e, take h ?rest')"
        using len chk nul by (auto simp: raw_entry_def IndexByte_Some)
      ultimately show ?thesis using xs fs(2) by (intro exI [of _ "(?e, take h ?rest') # xs"]) simp
    qed
  qed
next
  show "\<exists>xs. list_all (raw_entry h) xs \<and> data = put_tree xs \<and> es = map fst xs \<Longrightarrow> parse_entries h data = Inr es"
    using parse_entries_put by blast
qed

end
