(* ===== verification/GitPack.thy ===== *)
theory GitPack
  imports GitTree
begin

section \<open>Reading a push: internal/gitpack/pack.go\<close>

text \<open>
  The request body of a push (\<open>Inspect\<close>): the pkt-line command section, then a packfile whose objects are filed under the
  ids their own bytes hash to, deltas resolved against bases in the same pack by a worklist. The hashes and the
  inflation of one zlib stream are arguments: \<open>hf_new\<close> of the format, and \<open>zlib\<close>, which gives the content of the stream at
  the front of the bytes and how many bytes it took, \<open>None\<close> when it does not inflate. The lemmas: the worklist ends, the
  reader never meets a broken invariant, every object is filed under its own hash, and when the pack reads, every object
  it lays out was resolved.
\<close>

subsection \<open>The command section\<close>

definition maxCommandSection :: int where "maxCommandSection = 65536"
definition maxObjects :: int where "maxObjects = 200000"
definition maxInflatedBytes :: int where "maxInflatedBytes = 134217728"

text \<open>\<open>strconv.ParseUint(s, 16, 16)\<close> on four bytes.\<close>

definition hex_value :: "char \<Rightarrow> int option" where
  "hex_value c =
     (let n = byte_of c in
      if 48 \<le> n \<and> n \<le> 57 then Some (n - 48)
      else if 97 \<le> n \<and> n \<le> 102 then Some (n - 87)
      else if 65 \<le> n \<and> n \<le> 70 then Some (n - 55)
      else None)"

definition pkt_length :: "string \<Rightarrow> int option" where
  "pkt_length s =
     (case map hex_value s of
        [Some a, Some b, Some c, Some d] \<Rightarrow> Some (a * 4096 + b * 256 + c * 16 + d)
      | _ \<Rightarrow> None)"

text \<open>One pkt-line at the front: the flush-pkt, or a payload and what follows.\<close>

datatype pkt = PktFlush string | PktLine string int string

definition next_pkt :: "string \<Rightarrow> gp_error + pkt" where
  "next_pkt body =
     (if length body < 4 then Inl Malformed
      else case pkt_length (take 4 body) of
        None \<Rightarrow> Inl Malformed
      | Some n \<Rightarrow>
          if n = 0 then Inr (PktFlush (drop 4 body))
          else if n < 5 \<or> n > int (length body) then Inl Malformed
          else Inr (PktLine (take (nat n - 4) (drop 4 body)) n (drop (nat n) body)))"

lemma next_pkt_shorter: "next_pkt body = Inr (PktLine line n rest) \<Longrightarrow> length rest < length body"
  by (auto simp: next_pkt_def split: if_splits option.splits)

text \<open>\<open>strings.SplitN(line, " ", 3)\<close>.\<close>

definition split3 :: "string \<Rightarrow> string list" where
  "split3 line =
     (case Cut line (CHR '' '') of
        (a, r, True) \<Rightarrow> (case Cut r (CHR '' '') of (b, c, True) \<Rightarrow> [a, b, c] | (b, _, False) \<Rightarrow> [a, b])
      | (a, _, False) \<Rightarrow> [a])"

text \<open>\<open>None\<close> is a line to skip.\<close>

definition parseCommand :: "string \<Rightarrow> gp_error + Command option" where
  "parseCommand line =
     (if HasPrefix line ''shallow '' then Inr None
      else case split3 line of
        [a, b, c] \<Rightarrow>
          if c = [] \<or> \<not> isHex a \<or> \<not> isHex b then Inl Malformed
          else Inr (Some \<lparr>cmd_Old = a, cmd_New = b, cmd_Ref = c\<rparr>)
      | _ \<Rightarrow> Inl Malformed)"

function commands_loop :: "string \<Rightarrow> int \<Rightarrow> Command list \<Rightarrow> string \<Rightarrow> gp_error + Command list \<times> string \<times> string" where
  "commands_loop body read cmds caps =
     (case next_pkt body of
        Inl e \<Rightarrow> Inl e
      | Inr (PktFlush rest) \<Rightarrow> Inr (cmds, caps, rest)
      | Inr (PktLine line n rest) \<Rightarrow>
          if read + n > maxCommandSection then Inl Malformed
          else
            let (line', caps') =
                  (if caps = [] \<and> cmds = [] then
                     (case Cut line NUL of
                        (payload, c, True) \<Rightarrow> (payload, TrimSuffix c [CHR 0x0A])
                      | (_, _, False) \<Rightarrow> (line, caps))
                   else (line, caps)) in
            (case parseCommand (TrimSuffix line' [CHR 0x0A]) of
               Inl e \<Rightarrow> Inl e
             | Inr cmd \<Rightarrow>
                 commands_loop rest (read + n) (case cmd of Some c \<Rightarrow> cmds @ [c] | None \<Rightarrow> cmds) caps'))"
  by pat_completeness auto
termination
  by (relation "measure (\<lambda>(body, _). length body)") (auto dest: next_pkt_shorter)

declare commands_loop.simps [simp del]

definition readCommandSection :: "string \<Rightarrow> gp_error + Command list \<times> string \<times> string" where
  "readCommandSection body = commands_loop body 0 [] []"

function skip_loop :: "string \<Rightarrow> int \<Rightarrow> gp_error + string" where
  "skip_loop body read =
     (case next_pkt body of
        Inl e \<Rightarrow> Inl e
      | Inr (PktFlush rest) \<Rightarrow> Inr rest
      | Inr (PktLine line n rest) \<Rightarrow> if read + n > maxCommandSection then Inl Malformed else skip_loop rest (read + n))"
  by pat_completeness auto
termination
  by (relation "measure (\<lambda>(body, _). length body)") (auto dest: next_pkt_shorter)

declare skip_loop.simps [simp del]

definition skipPktSection :: "string \<Rightarrow> gp_error + string" where
  "skipPktSection body = skip_loop body 0"

text \<open>\<open>strings.Fields\<close>: the runs of runes that are not \<open>unicode.IsSpace\<close>.\<close>

definition unicode_space :: "int \<Rightarrow> bool" where
  "unicode_space r \<longleftrightarrow> r \<in> {9, 10, 11, 12, 13, 32, 0x85, 0xA0, 0x1680, 0x2028, 0x2029, 0x202F, 0x205F, 0x3000} \<or>
     0x2000 \<le> r \<and> r \<le> 0x200A"

function fields_loop :: "string \<Rightarrow> string \<Rightarrow> string list" where
  "fields_loop cur s =
     (case DecodeRune s of
        None \<Rightarrow> if cur = [] then [] else [cur]
      | Some (r, t, bad) \<Rightarrow>
          if \<not> bad \<and> unicode_space r then (if cur = [] then fields_loop [] t else cur # fields_loop [] t)
          else fields_loop (cur @ take (length s - length t) s) t)"
  by pat_completeness auto
termination
  by (relation "measure (\<lambda>(cur, s). length s)") (auto dest: DecodeRune_shorter)

declare fields_loop.simps [simp del]

definition Fields :: "string \<Rightarrow> string list" where
  "Fields s = fields_loop [] s"

text \<open>The two formats, \<open>sha1Format\<close> and \<open>sha256Format\<close>.\<close>

record hashes =
  hs_sha1 :: "string \<Rightarrow> string"
  hs_sha256 :: "string \<Rightarrow> string"

definition sha1Format :: "hashes \<Rightarrow> hashFormat" where
  "sha1Format hs = \<lparr>hf_name = ''sha1'', hf_size = 20, hf_new = hs_sha1 hs\<rparr>"

definition sha256Format :: "hashes \<Rightarrow> hashFormat" where
  "sha256Format hs = \<lparr>hf_name = ''sha256'', hf_size = 32, hf_new = hs_sha256 hs\<rparr>"

fun format_loop :: "hashes \<Rightarrow> string list \<Rightarrow> gp_error + hashFormat" where
  "format_loop hs [] = Inr (sha1Format hs)"
| "format_loop hs (c # cs) =
     (if \<not> HasPrefix c ''object-format='' then format_loop hs cs
      else
        let v = drop 14 c in
        if v = ''sha1'' then Inr (sha1Format hs)
        else if v = ''sha256'' then Inr (sha256Format hs)
        else Inl Malformed)"

definition objectFormat :: "hashes \<Rightarrow> string \<Rightarrow> gp_error + hashFormat" where
  "objectFormat hs caps = format_loop hs (Fields caps)"


subsection \<open>The pack\<close>

record pendingDelta =
  pd_off :: int
  pd_baseOID :: string
  pd_baseOff :: int
  pd_delta :: string

text \<open>\<open>rd_waitOff\<close> and \<open>rd_waitOID\<close> list what waits for a key in the order it was parked.\<close>

record packReader =
  rd_size :: int
  rd_rest :: string
  rd_idx :: index
  rd_inflated :: int
  rd_atOffset :: "int \<Rightarrow> string option"
  rd_pending :: "pendingDelta list"
  rd_waitOID :: "(string \<times> nat) list"
  rd_waitOff :: "(int \<times> nat) list"

type_synonym zlib = "string \<Rightarrow> (string \<times> nat) option"

definition rd_pos :: "packReader \<Rightarrow> int" where
  "rd_pos p = rd_size p - int (length (rd_rest p))"

definition label :: "objectType \<Rightarrow> string" where
  "label t = (case t of objCommit \<Rightarrow> ''commit'' | objTree \<Rightarrow> ''tree'' | objBlob \<Rightarrow> ''blob'' | objTag \<Rightarrow> ''tag'')"

definition object_id :: "hashFormat \<Rightarrow> objectType \<Rightarrow> string \<Rightarrow> string" where
  "object_id f typ data = hexEncode (hf_new f (label typ @ '' '' @ Itoa (int (length data)) @ NUL # data))"

definition index_put :: "objectType \<Rightarrow> string \<Rightarrow> index \<Rightarrow> string \<times> index" where
  "index_put typ data i =
     (let oid = object_id (ix_format i) typ data in
      (oid, if map_of (byOID i) oid \<noteq> None then i
            else i\<lparr>byOID := (oid, \<lparr>ob_typ = typ, ob_size = int (length data), ob_data = data\<rparr>) # byOID i\<rparr>))"

definition dropBlobContent :: "index \<Rightarrow> index" where
  "dropBlobContent i =
     i\<lparr>byOID := map (\<lambda>(oid, ob). (oid, if ob_typ ob = objBlob then ob\<lparr>ob_data := []\<rparr> else ob)) (byOID i)\<rparr>"

definition rd_charge :: "int \<Rightarrow> packReader \<Rightarrow> gp_error + packReader" where
  "rd_charge n p =
     (let t = rd_inflated p + n in if t > maxInflatedBytes then Inl ErrTooLarge else Inr (p\<lparr>rd_inflated := t\<rparr>))"

definition inflate :: "zlib \<Rightarrow> int \<Rightarrow> packReader \<Rightarrow> gp_error + string \<times> packReader" where
  "inflate zlib declared p =
     (if declared > maxObjectBytes then Inl ErrTooLarge
      else
        andThen (rd_charge declared p) (\<lambda>p1.
          case zlib (rd_rest p1) of
            None \<Rightarrow> Inl Malformed
          | Some (data, n) \<Rightarrow>
              if int (length data) \<noteq> declared then Inl Malformed
              else Inr (data, p1\<lparr>rd_rest := drop n (rd_rest p1)\<rparr>)))"

definition park :: "pendingDelta \<Rightarrow> packReader \<Rightarrow> packReader" where
  "park d p =
     (let i = length (rd_pending p); p1 = p\<lparr>rd_pending := rd_pending p @ [d]\<rparr> in
      if pd_baseOff d \<ge> 0 then p1\<lparr>rd_waitOff := rd_waitOff p1 @ [(pd_baseOff d, i)]\<rparr>
      else p1\<lparr>rd_waitOID := rd_waitOID p1 @ [(pd_baseOID d, i)]\<rparr>)"

definition rd_baseOID :: "packReader \<Rightarrow> pendingDelta \<Rightarrow> string option" where
  "rd_baseOID p d =
     (if pd_baseOff d \<ge> 0 then
        (case rd_atOffset p (pd_baseOff d) of Some oid \<Rightarrow> if oid \<noteq> [] then Some oid else None | None \<Rightarrow> None)
      else if map_of (byOID (rd_idx p)) (pd_baseOID d) \<noteq> None then Some (pd_baseOID d) else None)"

definition take_waiting :: "int \<Rightarrow> string \<Rightarrow> packReader \<Rightarrow> nat list \<times> packReader" where
  "take_waiting off oid p =
     (map snd (filter (\<lambda>x. fst x = off) (rd_waitOff p)) @ map snd (filter (\<lambda>x. fst x = oid) (rd_waitOID p)),
      p\<lparr>rd_waitOff := filter (\<lambda>x. fst x \<noteq> off) (rd_waitOff p), rd_waitOID := filter (\<lambda>x. fst x \<noteq> oid) (rd_waitOID p)\<rparr>)"

text \<open>One delta replayed: its object is filed and its place in the pack resolved.\<close>

definition replay :: "nat \<Rightarrow> packReader \<Rightarrow> gp_error + string \<times> packReader" where
  "replay i p =
     (if length (rd_pending p) \<le> i then Inl Internal
      else
        let d = rd_pending p ! i in
        (case rd_baseOID p d of
           None \<Rightarrow> Inl Internal
         | Some base \<Rightarrow>
             (case map_of (byOID (rd_idx p)) base of
                None \<Rightarrow> Inl Internal
              | Some b \<Rightarrow>
                  andThen (applyDelta (ob_data b) (pd_delta d)) (\<lambda>data.
                    andThen (rd_charge (int (length data)) (p\<lparr>rd_pending := (rd_pending p)[i := d\<lparr>pd_delta := []\<rparr>]\<rparr>)) (\<lambda>p1.
                      let (resolved, idx) = index_put (ob_typ b) data (rd_idx p1) in
                      Inr (resolved, p1\<lparr>rd_idx := idx, rd_atOffset := (rd_atOffset p1)(pd_off d \<mapsto> resolved)\<rparr>))))))"

definition waiting :: "packReader \<Rightarrow> nat" where
  "waiting p = length (rd_waitOff p) + length (rd_waitOID p)"

lemma take_waiting_count:
  "take_waiting off oid p = (work, p') \<Longrightarrow> length work + waiting p' = waiting p"
  using sum_length_filter_compl [of "\<lambda>x. fst x = off" "rd_waitOff p"] sum_length_filter_compl [of "\<lambda>x. fst x = oid" "rd_waitOID p"]
  by (auto simp: take_waiting_def waiting_def)

lemma replay_waiting: "replay i p = Inr (oid, p') \<Longrightarrow> waiting p' = waiting p"
  by (auto simp: replay_def rd_charge_def waiting_def Let_def split: option.splits if_splits prod.splits)

text \<open>The worklist of \<open>settle\<close>, the last item first.\<close>

function settle_loop :: "nat list \<Rightarrow> packReader \<Rightarrow> gp_error + packReader" where
  "settle_loop work p =
     (if work = [] then Inr p
      else
        (case replay (last work) p of
           Inl e \<Rightarrow> Inl e
         | Inr (resolved, p1) \<Rightarrow>
             (case take_waiting (pd_off (rd_pending p ! last work)) resolved p1 of
                (woken, p2) \<Rightarrow> settle_loop (butlast work @ woken) p2)))"
  by pat_completeness auto
termination
proof (relation "measure (\<lambda>(work, p). length work + waiting p)", goal_cases)
  case (2 work p x resolved p1 woken p2)
  then have "waiting p1 = waiting p" using replay_waiting by fastforce
  moreover have "length woken + waiting p2 = waiting p1" by (rule take_waiting_count [OF 2(4) [symmetric]])
  ultimately show ?case using 2(1) by (cases work) simp_all
qed simp

declare settle_loop.simps [simp del]

definition rd_settle :: "int \<Rightarrow> string \<Rightarrow> packReader \<Rightarrow> gp_error + packReader" where
  "rd_settle off oid p =
     (let p1 = (if off \<ge> 0 then p\<lparr>rd_atOffset := (rd_atOffset p)(off \<mapsto> oid)\<rparr> else p);
          (work, p2) = take_waiting off oid p1 in
      settle_loop work p2)"

definition plain_type :: "int \<Rightarrow> objectType option" where
  "plain_type n = (if n = 1 then Some objCommit else if n = 2 then Some objTree else if n = 3 then Some objBlob
     else if n = 4 then Some objTag else None)"

text \<open>The three kinds of object \<open>object\<close> reads once it has the header, \<open>off\<close> the offset of the header.\<close>

definition read_plain :: "zlib \<Rightarrow> int \<Rightarrow> objectType \<Rightarrow> int \<Rightarrow> packReader \<Rightarrow> gp_error + packReader" where
  "read_plain zlib off t sz p =
     andThen (inflate zlib sz p) (\<lambda>(data, p1).
       case index_put t data (rd_idx p1) of (oid, idx) \<Rightarrow> rd_settle off oid (p1\<lparr>rd_idx := idx\<rparr>))"

definition read_ofs_delta :: "zlib \<Rightarrow> int \<Rightarrow> int \<Rightarrow> packReader \<Rightarrow> gp_error + packReader" where
  "read_ofs_delta zlib off sz p =
     andThen (offsetEncoding (rd_size p) (rd_rest p)) (\<lambda>(back, r).
       let base = off - back in
       if back \<le> 0 \<or> base < 12 \<or> rd_atOffset p base = None then Inl Malformed
       else
         andThen (inflate zlib sz (p\<lparr>rd_rest := r\<rparr>)) (\<lambda>(data, p1).
           let p2 = park \<lparr>pd_off = off, pd_baseOID = [], pd_baseOff = base, pd_delta = data\<rparr> p1 in
           (case rd_atOffset p2 base of
              Some oid \<Rightarrow> if oid \<noteq> [] then rd_settle base oid p2 else Inr p2
            | None \<Rightarrow> Inr p2)))"

definition read_ref_delta :: "zlib \<Rightarrow> int \<Rightarrow> int \<Rightarrow> packReader \<Rightarrow> gp_error + packReader" where
  "read_ref_delta zlib off sz p =
     (let n = hf_size (ix_format (rd_idx p)) in
      if length (rd_rest p) < n then Inl Malformed
      else
        andThen (inflate zlib sz (p\<lparr>rd_rest := drop n (rd_rest p)\<rparr>)) (\<lambda>(data, p1).
          let baseOID = hexEncode (take n (rd_rest p));
              p2 = park \<lparr>pd_off = off, pd_baseOID = baseOID, pd_baseOff = - 1, pd_delta = data\<rparr> p1 in
          if map_of (byOID (rd_idx p2)) baseOID \<noteq> None then rd_settle (- 1) baseOID p2 else Inr p2))"

definition read_object :: "zlib \<Rightarrow> packReader \<Rightarrow> gp_error + packReader" where
  "read_object zlib p =
     (let off = rd_pos p in
      andThen (header (rd_rest p)) (\<lambda>(ty, sz, r).
        let p1 = p\<lparr>rd_atOffset := (rd_atOffset p)(off \<mapsto> []), rd_rest := r\<rparr> in
        (case plain_type ty of
           Some t \<Rightarrow> read_plain zlib off t sz p1
         | None \<Rightarrow>
             if ty = 6 then read_ofs_delta zlib off sz p1
             else if ty = 7 then read_ref_delta zlib off sz p1
             else Inl Malformed)))"

fun read_objects :: "zlib \<Rightarrow> nat \<Rightarrow> packReader \<Rightarrow> gp_error + packReader" where
  "read_objects zlib 0 p = Inr p"
| "read_objects zlib (Suc n) p = andThen (read_object zlib p) (\<lambda>p'. read_objects zlib n p')"

definition unresolved :: "packReader \<Rightarrow> bool" where
  "unresolved p \<longleftrightarrow> rd_waitOID p \<noteq> [] \<or> rd_waitOff p \<noteq> []"

definition be_uint32 :: "string \<Rightarrow> int" where
  "be_uint32 s = foldl (\<lambda>a c. a * 256 + byte_of c) 0 s"

definition newReader :: "hashFormat \<Rightarrow> string \<Rightarrow> packReader" where
  "newReader f body =
     \<lparr>rd_size = int (length body), rd_rest = drop 12 body, rd_idx = \<lparr>ix_format = f, byOID = []\<rparr>, rd_inflated = 0,
      rd_atOffset = (\<lambda>_. None), rd_pending = [], rd_waitOID = [], rd_waitOff = []\<rparr>"

definition parsePack :: "zlib \<Rightarrow> string \<Rightarrow> hashFormat \<Rightarrow> gp_error + index" where
  "parsePack zlib pack f =
     (if length pack < 12 + hf_size f then Inl Malformed
      else if take 4 pack \<noteq> ''PACK'' then Inl Malformed
      else if be_uint32 (take 4 (drop 4 pack)) \<noteq> 2 then Inl Malformed
      else
        let body = take (length pack - hf_size f) pack; want = drop (length pack - hf_size f) pack;
            cnt = be_uint32 (take 4 (drop 8 pack)) in
        if hf_new f body \<noteq> want then Inl Malformed
        else if cnt > maxObjects then Inl ErrTooLarge
        else
          andThen (read_objects zlib (nat cnt) (newReader f body)) (\<lambda>p.
            if rd_rest p \<noteq> [] then Inl Malformed
            else if unresolved p then Inl ErrUninspectable
            else Inr (dropBlobContent (rd_idx p))))"

subsection \<open>The request\<close>

text \<open>\<open>Inspect\<close>, its part after the command section first; the parsed pack is kept beside the result.\<close>

definition inspect_cover :: "index \<Rightarrow> Command list \<Rightarrow> gp_error + unit" where
  "inspect_cover i cmds =
     (case coverCommands i cmds of
        Inl e \<Rightarrow>
          (case e of
             MissingObjectError refs cs \<Rightarrow> Inl (MissingObjectError refs (if byOID i = [] then Some cmds else cs))
           | _ \<Rightarrow> Inl e)
      | Inr u \<Rightarrow> Inr u)"

definition inspect_pack :: "zlib \<Rightarrow> hashFormat \<Rightarrow> Command list \<Rightarrow> string \<Rightarrow> gp_error + Result \<times> index option" where
  "inspect_pack zlib f cmds rest =
     (if rest = [] then
        let missing = map cmd_Ref (filter (\<lambda>c. \<not> isZeroOID (cmd_New c)) cmds) in
        if missing \<noteq> [] then Inl (MissingObjectError missing (Some cmds))
        else Inr (\<lparr>res_Commands = cmds, res_Changes = [], res_Bases = []\<rparr>, None)
      else
        andThen (parsePack zlib rest f) (\<lambda>i.
        andThen (inspect_cover i cmds) (\<lambda>_.
        andThen (changes i (\<lambda>_. False)) (\<lambda>(chs, bases).
          Inr (\<lparr>res_Commands = cmds, res_Changes = chs, res_Bases = bases\<rparr>, Some i)))))"

definition Inspect :: "zlib \<Rightarrow> hashes \<Rightarrow> string \<Rightarrow> gp_error + Result \<times> index option" where
  "Inspect zlib hs body =
     andThen (readCommandSection body) (\<lambda>(cmds, caps, rest0).
     andThen (objectFormat hs caps) (\<lambda>f.
     andThen (if ''push-options'' \<in> set (Fields caps) then skipPktSection rest0 else Inr rest0) (\<lambda>rest.
       inspect_pack zlib f cmds rest)))"


subsection \<open>The invariant of the reader\<close>

definition hash_ok :: "hashFormat \<Rightarrow> bool" where
  "hash_ok f \<longleftrightarrow> 0 < hf_size f \<and> (\<forall>s. length (hf_new f s) = hf_size f)"

text \<open>Every object is filed under the hash of its own bytes.\<close>

definition filed :: "index \<Rightarrow> bool" where
  "filed i \<longleftrightarrow> distinct (map fst (byOID i)) \<and>
     (\<forall>(oid, ob)\<in>set (byOID i). oid = object_id (ix_format i) (ob_typ ob) (ob_data ob) \<and> ob_size ob = int (length (ob_data ob)))"

definition all_waiting :: "nat list \<Rightarrow> packReader \<Rightarrow> nat set" where
  "all_waiting work p = set work \<union> snd ` set (rd_waitOff p) \<union> snd ` set (rd_waitOID p)"

text \<open>\<open>work\<close> are the deltas taken off the wait lists and not replayed yet, \<open>open_at\<close> an offset whose object is being read.\<close>

definition reader_inv :: "int set \<Rightarrow> nat list \<Rightarrow> packReader \<Rightarrow> bool" where
  "reader_inv open_at work p \<longleftrightarrow> hash_ok (ix_format (rd_idx p)) \<and> filed (rd_idx p) \<and>
     (\<forall>off oid. rd_atOffset p off = Some oid \<longrightarrow> oid = [] \<or> map_of (byOID (rd_idx p)) oid \<noteq> None) \<and>
     (\<forall>(k, j)\<in>set (rd_waitOff p). j < length (rd_pending p) \<and> 0 \<le> k \<and> pd_baseOff (rd_pending p ! j) = k) \<and>
     (\<forall>(k, j)\<in>set (rd_waitOID p). j < length (rd_pending p) \<and> pd_baseOff (rd_pending p ! j) < 0 \<and> pd_baseOID (rd_pending p ! j) = k) \<and>
     (\<forall>j\<in>set work. j < length (rd_pending p) \<and> rd_baseOID p (rd_pending p ! j) \<noteq> None) \<and>
     (\<forall>d\<in>set (rd_pending p). rd_atOffset p (pd_off d) \<noteq> None) \<and>
     (\<forall>off. rd_atOffset p off = Some [] \<longrightarrow> off \<in> open_at \<or> (\<exists>j\<in>all_waiting work p. pd_off (rd_pending p ! j) = off))"

lemma object_id_nonempty: "hash_ok f \<Longrightarrow> object_id f t d \<noteq> []"
proof -
  assume h: "hash_ok f"
  have "hf_new f x \<noteq> []" for x using h unfolding hash_ok_def by (metis less_numeral_extra(3) list.size(3))
  moreover have "hexEncode s \<noteq> []" if "s \<noteq> []" for s using that by (cases s) (simp_all add: hexEncode_def)
  ultimately show ?thesis by (simp add: object_id_def)
qed

lemma index_put_effect:
  assumes "index_put t d i = (oid, i')" "filed i"
  shows "filed i'" "ix_format i' = ix_format i" "map_of (byOID i') oid \<noteq> None" "oid = object_id (ix_format i) t d"
    "\<And>x. map_of (byOID i) x \<noteq> None \<Longrightarrow> map_of (byOID i') x \<noteq> None"
  using assms by (auto simp: index_put_def filed_def Let_def map_of_eq_None_iff split: if_splits)

lemma rd_baseOID_indexed: "reader_inv A W p \<Longrightarrow> rd_baseOID p d = Some b \<Longrightarrow> map_of (byOID (rd_idx p)) b \<noteq> None"
  by (auto simp: reader_inv_def rd_baseOID_def split: if_splits option.splits)

text \<open>No step but a broken invariant answers \<open>Internal\<close>.\<close>

lemma delta_loop_not_Internal: "(delta_loop base want out r :: 'c pack_error + string) \<noteq> Inl Internal"
proof (induction base want out r rule: delta_loop.induct)
  case (1 base want out r)
  show ?case
  proof (cases r)
    case Nil
    then show ?thesis by (simp add: delta_loop.simps)
  next
    case (Cons b r')
    let ?op = "byte_of b"
    let ?step = "if ?op \<ge> 128 then copyFromBase r' ?op base out
                 else if ?op \<noteq> 0 then (if int (length r') < ?op then None else Some (out @ take (nat ?op) r', drop (nat ?op) r'))
                 else None"
    have eq: "(delta_loop base want out r :: 'c pack_error + string) =
        (case ?step of None \<Rightarrow> Inl Malformed
         | Some (out', r'') \<Rightarrow> if int (length out') > want then Inl Malformed else delta_loop base want out' r'')"
      unfolding Cons by (subst delta_loop.simps) (simp only: list.case Let_def)
    show ?thesis
    proof (cases ?step)
      case None
      then show ?thesis unfolding eq by simp
    next
      case (Some a)
      obtain out' r'' where a: "a = (out', r'')" by (cases a)
      have "(delta_loop base want out' r'' :: 'c pack_error + string) \<noteq> Inl Internal" if "\<not> int (length out') > want"
        using 1 [OF Cons refl Some a [symmetric] that] by simp
      then show ?thesis unfolding eq Some a by simp
    qed
  qed
qed

lemma applyDelta_not_Internal: "(applyDelta base delta :: 'c pack_error + string) \<noteq> Inl Internal"
proof -
  have "andThen (delta_loop base want [] r) (\<lambda>out. if int (length out) \<noteq> want then Inl Malformed else Inr out) \<noteq>
      (Inl Internal :: 'c pack_error + string)" for want r
    using delta_loop_not_Internal [of base want "[]" r] by (cases "delta_loop base want [] r :: 'c pack_error + string") auto
  then show ?thesis by (auto simp: applyDelta_def split: option.split)
qed

lemma rd_charge_effect: "rd_charge n p = Inr p' \<Longrightarrow> p' = p\<lparr>rd_inflated := rd_inflated p + n\<rparr>"
  and rd_charge_not_Internal: "rd_charge n p \<noteq> Inl Internal"
  by (auto simp: rd_charge_def Let_def split: if_splits)


subsubsection \<open>The worklist keeps it\<close>

lemma all_waiting_simps [simp]:
  "all_waiting [] p = snd ` set (rd_waitOff p) \<union> snd ` set (rd_waitOID p)"
  "all_waiting (W @ V) p = set W \<union> all_waiting V p"
  by (auto simp: all_waiting_def)

lemma rd_baseOID_mono:
  assumes "rd_baseOID p d \<noteq> None" "pd_baseOff d' = pd_baseOff d" "pd_baseOID d' = pd_baseOID d"
    and "\<And>x. map_of (byOID (rd_idx p)) x \<noteq> None \<Longrightarrow> map_of (byOID (rd_idx p')) x \<noteq> None"
    and "\<And>off o1. rd_atOffset p off = Some o1 \<Longrightarrow> o1 \<noteq> [] \<Longrightarrow> \<exists>o2. rd_atOffset p' off = Some o2 \<and> o2 \<noteq> []"
  shows "rd_baseOID p' d' \<noteq> None"
proof (cases "pd_baseOff d \<ge> 0")
  case True
  then obtain o1 where "rd_atOffset p (pd_baseOff d) = Some o1" "o1 \<noteq> []"
    using assms(1) by (auto simp: rd_baseOID_def split: option.splits if_splits)
  then obtain o2 where "rd_atOffset p' (pd_baseOff d) = Some o2" "o2 \<noteq> []" using assms(5) by blast
  then show ?thesis using True assms(2) by (simp add: rd_baseOID_def)
next
  case False
  then have "map_of (byOID (rd_idx p)) (pd_baseOID d) \<noteq> None" using assms(1) by (simp add: rd_baseOID_def split: if_splits)
  then show ?thesis using False assms(2,3,4) by (simp add: rd_baseOID_def)
qed

text \<open>Filing an object at an offset: the offset is no longer open.\<close>

lemma reader_inv_resolve:
  assumes "reader_inv A W p" "oid \<noteq> []" "map_of (byOID (rd_idx p)) oid \<noteq> None"
  shows "reader_inv (A - {off}) W (p\<lparr>rd_atOffset := (rd_atOffset p)(off \<mapsto> oid)\<rparr>)"
proof -
  let ?p = "p\<lparr>rd_atOffset := (rd_atOffset p)(off \<mapsto> oid)\<rparr>"
  have "rd_baseOID ?p d \<noteq> None" if "rd_baseOID p d \<noteq> None" for d
    by (rule rd_baseOID_mono [OF that]) (use assms(2) in auto)
  then show ?thesis using assms unfolding reader_inv_def all_waiting_def by (auto split: if_splits)
qed

text \<open>What waits for a key is taken once the key has its object.\<close>

lemma reader_inv_wake:
  assumes "reader_inv A W p" "0 \<le> off \<Longrightarrow> rd_atOffset p off = Some oid" "oid \<noteq> []" "map_of (byOID (rd_idx p)) oid \<noteq> None"
    and "take_waiting off oid p = (woken, p')"
  shows "reader_inv A (W @ woken) p'"
proof -
  have woken: "woken = map snd (filter (\<lambda>x. fst x = off) (rd_waitOff p)) @ map snd (filter (\<lambda>x. fst x = oid) (rd_waitOID p))"
    and p': "p' = p\<lparr>rd_waitOff := filter (\<lambda>x. fst x \<noteq> off) (rd_waitOff p), rd_waitOID := filter (\<lambda>x. fst x \<noteq> oid) (rd_waitOID p)\<rparr>"
    using assms(5) by (auto simp: take_waiting_def)
  have wO: "\<And>k j. (k, j) \<in> set (rd_waitOff p) \<Longrightarrow> j < length (rd_pending p) \<and> 0 \<le> k \<and> pd_baseOff (rd_pending p ! j) = k"
    and wI: "\<And>k j. (k, j) \<in> set (rd_waitOID p) \<Longrightarrow>
      j < length (rd_pending p) \<and> pd_baseOff (rd_pending p ! j) < 0 \<and> pd_baseOID (rd_pending p ! j) = k"
    using assms(1) unfolding reader_inv_def by blast+
  have base: "rd_baseOID p' d = rd_baseOID p d" for d by (simp add: p' rd_baseOID_def)
  have "j < length (rd_pending p) \<and> rd_baseOID p (rd_pending p ! j) \<noteq> None" if j: "j \<in> set woken" for j
  proof -
    consider "(off, j) \<in> set (rd_waitOff p)" | "(oid, j) \<in> set (rd_waitOID p)"
      using j unfolding woken by auto
    then show ?thesis
    proof cases
      case 1
      then show ?thesis using wO [OF 1] assms(2,3) by (simp add: rd_baseOID_def)
    next
      case 2
      then show ?thesis using wI [OF 2] assms(4) by (simp add: rd_baseOID_def)
    qed
  qed
  moreover have "all_waiting (W @ woken) p' = all_waiting W p"
    unfolding all_waiting_def woken p' by (auto simp: image_iff)
  ultimately show ?thesis
    using assms(1) wO wI unfolding reader_inv_def base by (auto simp: p' ball_Un simp del: all_waiting_simps)
qed

lemma replay_inv:
  assumes inv: "reader_inv A W p" and "W \<noteq> []" and r: "replay (last W) p = Inr (oid, p')"
  shows "reader_inv A (butlast W) p'" "oid \<noteq> []" "map_of (byOID (rd_idx p')) oid \<noteq> None"
    "rd_atOffset p' (pd_off (rd_pending p ! last W)) = Some oid"
    "dom (rd_atOffset p') = dom (rd_atOffset p)" "rd_rest p' = rd_rest p" "rd_size p' = rd_size p"
proof -
  let ?j = "last W"
  let ?d = "rd_pending p ! ?j"
  obtain b :: object and data idx where j: "?j < length (rd_pending p)"
    and put: "index_put (ob_typ b) data (rd_idx p) = (oid, idx)"
    and p': "p' = p\<lparr>rd_pending := (rd_pending p)[?j := ?d\<lparr>pd_delta := []\<rparr>], rd_inflated := rd_inflated p + int (length data),
        rd_idx := idx, rd_atOffset := (rd_atOffset p)(pd_off ?d \<mapsto> oid)\<rparr>"
    using r
    by (clarsimp simp: replay_def Let_def rd_charge_def split: if_splits option.splits prod.splits)
  have fi: "filed (rd_idx p)" and ho: "hash_ok (ix_format (rd_idx p))" using inv by (simp_all add: reader_inv_def)
  note eff = index_put_effect [OF put fi]
  show ne: "oid \<noteq> []" using eff(4) object_id_nonempty [OF ho] by simp
  show "map_of (byOID (rd_idx p')) oid \<noteq> None" using eff(3) by (simp add: p')
  show "rd_atOffset p' (pd_off ?d) = Some oid" by (simp add: p')
  have "rd_atOffset p (pd_off ?d) \<noteq> None" using inv j unfolding reader_inv_def by (meson nth_mem)
  then show "dom (rd_atOffset p') = dom (rd_atOffset p)" by (auto simp: p')
  show "rd_rest p' = rd_rest p" "rd_size p' = rd_size p" by (simp_all add: p')
  have same: "pd_off (rd_pending p' ! k) = pd_off (rd_pending p ! k)" "pd_baseOff (rd_pending p' ! k) = pd_baseOff (rd_pending p ! k)"
    "pd_baseOID (rd_pending p' ! k) = pd_baseOID (rd_pending p ! k)" for k
    by (simp_all add: p' nth_list_update) (cases "k = ?j"; simp add: j)+
  have base: "rd_baseOID p' (rd_pending p' ! k) \<noteq> None" if "rd_baseOID p (rd_pending p ! k) \<noteq> None" for k
    by (rule rd_baseOID_mono [OF that same(2) same(3)]) (use ne eff(5) in \<open>auto simp: p'\<close>)
  have W: "set W = insert ?j (set (butlast W))" using \<open>W \<noteq> []\<close> by (metis append_butlast_last_id list.simps(15) rotate1.simps(2) set_rotate1)
  have aw: "all_waiting W p = insert ?j (all_waiting (butlast W) p')" by (auto simp: all_waiting_def W p')
  show "reader_inv A (butlast W) p'" unfolding reader_inv_def
  proof (intro conjI)
    show "hash_ok (ix_format (rd_idx p'))" "filed (rd_idx p')" using eff ho by (simp_all add: p')
    show "\<forall>off oid. rd_atOffset p' off = Some oid \<longrightarrow> oid = [] \<or> map_of (byOID (rd_idx p')) oid \<noteq> None"
    proof -
      have "\<forall>off oid. rd_atOffset p off = Some oid \<longrightarrow> oid = [] \<or> map_of (byOID (rd_idx p)) oid \<noteq> None"
        using inv unfolding reader_inv_def by (elim conjE) assumption
      then show ?thesis using eff(3) eff(5) unfolding p' by (simp, metis option.distinct(1))
    qed
    show "\<forall>(k, j)\<in>set (rd_waitOff p'). j < length (rd_pending p') \<and> 0 \<le> k \<and> pd_baseOff (rd_pending p' ! j) = k"
      using inv unfolding reader_inv_def same by (simp add: p')
    show "\<forall>(k, j)\<in>set (rd_waitOID p'). j < length (rd_pending p') \<and> pd_baseOff (rd_pending p' ! j) < 0 \<and> pd_baseOID (rd_pending p' ! j) = k"
      using inv unfolding reader_inv_def same by (simp add: p')
    show "\<forall>j\<in>set (butlast W). j < length (rd_pending p') \<and> rd_baseOID p' (rd_pending p' ! j) \<noteq> None"
      using inv base unfolding reader_inv_def W by (simp add: p')
    show "\<forall>d\<in>set (rd_pending p'). rd_atOffset p' (pd_off d) \<noteq> None"
    proof
      fix d assume "d \<in> set (rd_pending p')"
      then obtain k where k: "k < length (rd_pending p)" "d = rd_pending p' ! k" by (auto simp: in_set_conv_nth p')
      have "rd_atOffset p (pd_off (rd_pending p ! k)) \<noteq> None" using inv k(1) unfolding reader_inv_def by (meson nth_mem)
      then show "rd_atOffset p' (pd_off d) \<noteq> None" unfolding k(2) same by (simp add: p')
    qed
    show "\<forall>off. rd_atOffset p' off = Some [] \<longrightarrow> off \<in> A \<or> (\<exists>j\<in>all_waiting (butlast W) p'. pd_off (rd_pending p' ! j) = off)"
    proof (intro allI impI)
      fix off assume "rd_atOffset p' off = Some []"
      then have "off \<noteq> pd_off ?d" "rd_atOffset p off = Some []" using ne by (auto simp: p' split: if_splits)
      then show "off \<in> A \<or> (\<exists>j\<in>all_waiting (butlast W) p'. pd_off (rd_pending p' ! j) = off)"
        using inv unfolding reader_inv_def aw same by blast
    qed
  qed
qed

lemma replay_not_Internal: "reader_inv A W p \<Longrightarrow> W \<noteq> [] \<Longrightarrow> replay (last W) p \<noteq> Inl Internal"
proof -
  assume inv: "reader_inv A W p" and "W \<noteq> []"
  let ?d = "rd_pending p ! last W"
  have "last W \<in> set W" using \<open>W \<noteq> []\<close> by simp
  then obtain oid where j: "last W < length (rd_pending p)" and oid: "rd_baseOID p ?d = Some oid"
    using inv unfolding reader_inv_def by blast
  obtain b where b: "map_of (byOID (rd_idx p)) oid = Some b" using rd_baseOID_indexed [OF inv oid] by blast
  show ?thesis
    using j oid b applyDelta_not_Internal [of "ob_data b" "pd_delta ?d", where 'c = Command]
    by (auto simp: replay_def Let_def andThen_def rd_charge_not_Internal split: sum.splits prod.splits)
qed

lemma settle_loop_inv:
  "reader_inv A W p \<Longrightarrow> settle_loop W p \<noteq> Inl Internal \<and>
     (\<forall>p'. settle_loop W p = Inr p' \<longrightarrow> reader_inv A [] p' \<and> dom (rd_atOffset p') = dom (rd_atOffset p) \<and>
        rd_rest p' = rd_rest p \<and> rd_size p' = rd_size p)"
proof (induction W p rule: settle_loop.induct)
  case (1 W p)
  show ?case
  proof (cases "W = []")
    case True
    then show ?thesis using "1.prems" by (simp add: settle_loop.simps)
  next
    case False
    show ?thesis
    proof (cases "replay (last W) p")
      case (Inl e)
      then show ?thesis using replay_not_Internal [OF "1.prems" False] False by (subst (1 2) settle_loop.simps) simp
    next
      case (Inr a)
      obtain oid p1 where a: "a = (oid, p1)" by (cases a)
      obtain woken p2 where t: "take_waiting (pd_off (rd_pending p ! last W)) oid p1 = (woken, p2)" by fastforce
      note r = replay_inv [OF "1.prems" False Inr [unfolded a]]
      have "reader_inv A (butlast W @ woken) p2" by (rule reader_inv_wake [OF r(1) r(4) r(2) r(3) t])
      moreover have "rd_atOffset p2 = rd_atOffset p1" "rd_rest p2 = rd_rest p1" "rd_size p2 = rd_size p1"
        using t by (auto simp: take_waiting_def)
      moreover have "settle_loop W p = settle_loop (butlast W @ woken) p2"
        using False Inr a t by (simp add: settle_loop.simps [of W])
      ultimately show ?thesis
        using "1.IH" [OF False Inr a [symmetric] t [symmetric]] r(5-7) by presburger
    qed
  qed
qed

lemma rd_settle_inv:
  assumes inv: "reader_inv A [] p" and "oid \<noteq> []" "map_of (byOID (rd_idx p)) oid \<noteq> None"
    and dom: "off < 0 \<or> off \<in> dom (rd_atOffset p)" and A: "A \<subseteq> {off} \<inter> {0..}"
  shows "rd_settle off oid p \<noteq> Inl Internal"
    "rd_settle off oid p = Inr p' \<Longrightarrow> reader_inv {} [] p' \<and> dom (rd_atOffset p') = dom (rd_atOffset p) \<and>
       rd_rest p' = rd_rest p \<and> rd_size p' = rd_size p"
proof -
  define p1 where "p1 = (if off \<ge> 0 then p\<lparr>rd_atOffset := (rd_atOffset p)(off \<mapsto> oid)\<rparr> else p)"
  have A': "A - {off} = {}" "\<not> 0 \<le> off \<Longrightarrow> A = {}" using A by auto
  have i1: "reader_inv {} [] p1"
    using reader_inv_resolve [OF assms(1-3), of off] inv by (auto simp: p1_def A')
  have d1: "dom (rd_atOffset p1) = dom (rd_atOffset p)" "rd_rest p1 = rd_rest p" "rd_size p1 = rd_size p"
    using dom by (auto simp: p1_def)
  obtain W p2 where t: "take_waiting off oid p1 = (W, p2)" by fastforce
  have "reader_inv {} ([] @ W) p2"
    by (rule reader_inv_wake [OF i1 _ assms(2) _ t]) (use assms(3) in \<open>simp_all add: p1_def\<close>)
  then have s: "settle_loop W p2 \<noteq> Inl Internal \<and>
     (\<forall>p'. settle_loop W p2 = Inr p' \<longrightarrow> reader_inv {} [] p' \<and> dom (rd_atOffset p') = dom (rd_atOffset p2) \<and>
        rd_rest p' = rd_rest p2 \<and> rd_size p' = rd_size p2)" unfolding append_Nil by (rule settle_loop_inv)
  have eq: "rd_settle off oid p = settle_loop W p2" using t by (simp add: rd_settle_def Let_def p1_def)
  have p2: "rd_atOffset p2 = rd_atOffset p1" "rd_rest p2 = rd_rest p1" "rd_size p2 = rd_size p1"
    using t by (auto simp: take_waiting_def)
  show "rd_settle off oid p \<noteq> Inl Internal" unfolding eq by (rule conjunct1 [OF s])
  assume "rd_settle off oid p = Inr p'"
  then show "reader_inv {} [] p' \<and> dom (rd_atOffset p') = dom (rd_atOffset p) \<and> rd_rest p' = rd_rest p \<and> rd_size p' = rd_size p"
    using conjunct2 [OF s] unfolding eq p2 d1 by (elim allE impE) assumption
qed

subsubsection \<open>One object\<close>

lemma header_loop_shorter: "header_loop n sz c r = Inr (sz', r') \<Longrightarrow> length r' \<le> length r"
  by (induction n sz c r rule: header_loop.induct) (fastforce simp: Let_def split: if_splits list.splits)+

lemma header_loop_not_Internal: "header_loop n sz c r \<noteq> Inl Internal"
  by (induction n sz c r rule: header_loop.induct) (auto simp: Let_def split: list.splits)

lemma header_shorter: "header r = Inr (t, sz, r') \<Longrightarrow> length r' < length r"
  by (auto simp: header_def split: list.splits dest!: header_loop_shorter)

lemma header_not_Internal: "(header r :: 'c pack_error + _) \<noteq> Inl Internal"
proof (cases r)
  case (Cons b r')
  have "(header_loop 1 (byte_of b mod 16) (byte_of b \<ge> 128) r' :: 'c pack_error + _) \<noteq> Inl Internal" by (rule header_loop_not_Internal)
  then show ?thesis unfolding Cons header_def by (auto simp: andThen_def split: sum.splits)
qed (simp add: header_def)

lemma offset_loop_shorter: "offset_loop s n x c r = Inr (x', r') \<Longrightarrow> length r' \<le> length r"
  by (induction s n x c r rule: offset_loop.induct) (fastforce simp: offset_loop.simps Let_def split: if_splits list.splits)+

lemma offset_loop_not_Internal: "offset_loop s n x c r \<noteq> Inl Internal"
  by (induction s n x c r rule: offset_loop.induct) (auto simp: offset_loop.simps Let_def split: list.splits)

lemma offsetEncoding_shorter: "offsetEncoding s r = Inr (x, r') \<Longrightarrow> length r' \<le> length r"
  by (auto simp: offsetEncoding_def split: list.splits dest!: offset_loop_shorter)

lemma offsetEncoding_not_Internal: "offsetEncoding s r \<noteq> Inl Internal"
  by (auto simp: offsetEncoding_def offset_loop_not_Internal split: list.splits)

lemma inflate_effect:
  assumes "inflate zlib n p = Inr (data, p')"
  shows "\<exists>k. p' = p\<lparr>rd_inflated := rd_inflated p + n, rd_rest := drop k (rd_rest p)\<rparr>"
  using assms by (auto simp: inflate_def rd_charge_def Let_def split: if_splits option.splits)

lemma inflate_not_Internal: "inflate zlib n p \<noteq> Inl Internal"
  by (auto simp: inflate_def rd_charge_def Let_def split: option.splits)

text \<open>The invariant does not look at the position or the budget.\<close>

lemma reader_inv_rest [simp]:
  "reader_inv A W (p\<lparr>rd_rest := r\<rparr>) = reader_inv A W p"
  "reader_inv A W (p\<lparr>rd_inflated := n\<rparr>) = reader_inv A W p"
  by (simp_all add: reader_inv_def all_waiting_def rd_baseOID_def)

lemma reader_inv_open:
  "reader_inv {} [] p \<Longrightarrow> reader_inv {off} [] (p\<lparr>rd_atOffset := (rd_atOffset p)(off \<mapsto> [])\<rparr>)"
  by (auto simp: reader_inv_def all_waiting_def)

lemma reader_inv_put:
  assumes "reader_inv A [] p" "index_put t d (rd_idx p) = (oid, idx)"
  shows "reader_inv A [] (p\<lparr>rd_idx := idx\<rparr>)" "oid \<noteq> []" "map_of (byOID idx) oid \<noteq> None"
proof -
  have fi: "filed (rd_idx p)" and ho: "hash_ok (ix_format (rd_idx p))"
    and at: "\<forall>off oid. rd_atOffset p off = Some oid \<longrightarrow> oid = [] \<or> map_of (byOID (rd_idx p)) oid \<noteq> None"
    using assms(1) by (auto simp: reader_inv_def)
  note eff = index_put_effect [OF assms(2) fi]
  show "oid \<noteq> []" using eff(4) object_id_nonempty [OF ho] by simp
  show "map_of (byOID idx) oid \<noteq> None" by (rule eff(3))
  have "\<forall>off oid. rd_atOffset p off = Some oid \<longrightarrow> oid = [] \<or> map_of (byOID idx) oid \<noteq> None" using at eff(5) by metis
  then show "reader_inv A [] (p\<lparr>rd_idx := idx\<rparr>)" using assms(1) eff(1,2) unfolding reader_inv_def all_waiting_def by simp
qed

lemma reader_inv_park:
  assumes "reader_inv {pd_off d} [] p" "rd_atOffset p (pd_off d) \<noteq> None"
  shows "reader_inv {} [] (park d p)"
proof -
  let ?p = "park d p"
  have same: "rd_idx ?p = rd_idx p" "rd_atOffset ?p = rd_atOffset p" "rd_pending ?p = rd_pending p @ [d]"
    by (simp_all add: park_def Let_def)
  have nth: "rd_pending ?p ! j = rd_pending p ! j" if "j < length (rd_pending p)" for j using that by (simp add: same nth_append)
  have last: "rd_pending ?p ! length (rd_pending p) = d" by (simp add: same)
  have wO: "(k, j) \<in> set (rd_waitOff ?p) \<longleftrightarrow>
      (k, j) \<in> set (rd_waitOff p) \<or> (pd_baseOff d \<ge> 0 \<and> k = pd_baseOff d \<and> j = length (rd_pending p))" for k j
    by (auto simp: park_def Let_def)
  have wI: "(k, j) \<in> set (rd_waitOID ?p) \<longleftrightarrow>
      (k, j) \<in> set (rd_waitOID p) \<or> (pd_baseOff d < 0 \<and> k = pd_baseOID d \<and> j = length (rd_pending p))" for k j
    by (auto simp: park_def Let_def)
  have aw: "all_waiting [] ?p = insert (length (rd_pending p)) (all_waiting [] p)"
    by (auto simp: all_waiting_def park_def Let_def image_iff)
  have vO: "\<And>k j. (k, j) \<in> set (rd_waitOff p) \<Longrightarrow> j < length (rd_pending p) \<and> 0 \<le> k \<and> pd_baseOff (rd_pending p ! j) = k"
    and vI: "\<And>k j. (k, j) \<in> set (rd_waitOID p) \<Longrightarrow>
      j < length (rd_pending p) \<and> pd_baseOff (rd_pending p ! j) < 0 \<and> pd_baseOID (rd_pending p ! j) = k"
    using assms(1) unfolding reader_inv_def by blast+
  have lt: "j < length (rd_pending p)" if "j \<in> all_waiting [] p" for j
    using assms(1) that by (fastforce simp: reader_inv_def all_waiting_def)
  show ?thesis unfolding reader_inv_def
  proof (intro conjI)
    show "hash_ok (ix_format (rd_idx ?p))" "filed (rd_idx ?p)"
      "\<forall>off oid. rd_atOffset ?p off = Some oid \<longrightarrow> oid = [] \<or> map_of (byOID (rd_idx ?p)) oid \<noteq> None"
      using assms(1) unfolding reader_inv_def same by simp_all
    show "\<forall>(k, j)\<in>set (rd_waitOff ?p). j < length (rd_pending ?p) \<and> 0 \<le> k \<and> pd_baseOff (rd_pending ?p ! j) = k"
      using vO nth last by (fastforce simp: wO same(3))
    show "\<forall>(k, j)\<in>set (rd_waitOID ?p). j < length (rd_pending ?p) \<and> pd_baseOff (rd_pending ?p ! j) < 0 \<and> pd_baseOID (rd_pending ?p ! j) = k"
      using vI nth last by (fastforce simp: wI same(3))
    show "\<forall>j\<in>set []. j < length (rd_pending ?p) \<and> rd_baseOID ?p (rd_pending ?p ! j) \<noteq> None" by simp
    show "\<forall>e\<in>set (rd_pending ?p). rd_atOffset ?p (pd_off e) \<noteq> None"
      using assms unfolding reader_inv_def same by auto
    show "\<forall>off. rd_atOffset ?p off = Some [] \<longrightarrow> off \<in> {} \<or> (\<exists>j\<in>all_waiting [] ?p. pd_off (rd_pending ?p ! j) = off)"
    proof (intro allI impI disjI2)
      fix off assume "rd_atOffset ?p off = Some []"
      then have "off = pd_off d \<or> (\<exists>j\<in>all_waiting [] p. pd_off (rd_pending p ! j) = off)"
        using assms(1) unfolding reader_inv_def same by blast
      then show "\<exists>j\<in>all_waiting [] ?p. pd_off (rd_pending ?p ! j) = off" unfolding aw using last nth lt by (metis insert_iff)
    qed
  qed
qed

text \<open>What reading one object at \<open>off\<close> owes: no broken invariant, and on success the object at \<open>off\<close> laid out and the position
  moved past it.\<close>

definition reads :: "packReader \<Rightarrow> gp_error + packReader \<Rightarrow> bool" where
  "reads p r \<longleftrightarrow> r \<noteq> Inl Internal \<and>
     (\<forall>p'. r = Inr p' \<longrightarrow> reader_inv {} [] p' \<and> dom (rd_atOffset p') = insert (rd_pos p) (dom (rd_atOffset p)) \<and>
        length (rd_rest p') < length (rd_rest p) \<and> rd_size p' = rd_size p)"

lemma reads_Inl [simp]: "reads p (Inl e) \<longleftrightarrow> e \<noteq> Internal"
  by (simp add: reads_def)

lemma reads_andThen:
  "r \<noteq> Inl Internal \<Longrightarrow> (\<And>x. r = Inr x \<Longrightarrow> reads p (f x)) \<Longrightarrow> reads p (andThen r f)"
  by (cases r) simp_all

text \<open>A reader in the middle of the object at \<open>off\<close>.\<close>

definition mid_object :: "packReader \<Rightarrow> packReader \<Rightarrow> bool" where
  "mid_object p q \<longleftrightarrow> reader_inv {rd_pos p} [] q \<and> 0 \<le> rd_pos p \<and> dom (rd_atOffset q) = insert (rd_pos p) (dom (rd_atOffset p)) \<and>
     length (rd_rest q) < length (rd_rest p) \<and> rd_size q = rd_size p"

lemma mid_object_rest:
  assumes "mid_object p q" "length r \<le> length (rd_rest q)"
  shows "mid_object p (q\<lparr>rd_rest := r\<rparr>)" "mid_object p (q\<lparr>rd_inflated := k, rd_rest := r\<rparr>)"
  using assms unfolding mid_object_def by simp_all

lemma mid_object_inflate: "mid_object p q \<Longrightarrow> inflate zlib n q = Inr (data, q') \<Longrightarrow> mid_object p q'"
  by (drule inflate_effect) (auto intro: mid_object_rest)

lemma reads_settle:
  assumes "reader_inv A [] q" "oid \<noteq> []" "map_of (byOID (rd_idx q)) oid \<noteq> None" "off < 0 \<or> off \<in> dom (rd_atOffset q)"
    and "A \<subseteq> {off} \<inter> {0..}" "dom (rd_atOffset q) = insert (rd_pos p) (dom (rd_atOffset p))"
    and "length (rd_rest q) < length (rd_rest p)" "rd_size q = rd_size p"
  shows "reads p (rd_settle off oid q)"
  unfolding reads_def
proof (intro conjI allI impI)
  note s = rd_settle_inv [OF assms(1-5)]
  show "rd_settle off oid q \<noteq> Inl Internal" by (rule s(1))
  fix p' assume "rd_settle off oid q = Inr p'"
  from s(2) [OF this] show "reader_inv {} [] p'" "dom (rd_atOffset p') = insert (rd_pos p) (dom (rd_atOffset p))"
    "length (rd_rest p') < length (rd_rest p)" "rd_size p' = rd_size p" using assms(6-8) by simp_all
qed

lemma read_plain_reads:
  assumes "mid_object p q"
  shows "reads p (read_plain zlib (rd_pos p) t sz q)"
  unfolding read_plain_def
proof (rule reads_andThen [OF inflate_not_Internal], clarify)
  fix data p1 assume "inflate zlib sz q = Inr (data, p1)"
  then have m: "reader_inv {rd_pos p} [] p1" "dom (rd_atOffset p1) = insert (rd_pos p) (dom (rd_atOffset p))" "0 \<le> rd_pos p"
    "length (rd_rest p1) < length (rd_rest p)" "rd_size p1 = rd_size p"
    using mid_object_inflate [OF assms] by (simp_all add: mid_object_def)
  obtain oid idx where i: "index_put t data (rd_idx p1) = (oid, idx)" by fastforce
  note put = reader_inv_put [OF m(1) i]
  have "rd_pos p \<in> dom (rd_atOffset p1)" unfolding m(2) by simp
  then show "reads p (case index_put t data (rd_idx p1) of (oid, idx) \<Rightarrow> rd_settle (rd_pos p) oid (p1\<lparr>rd_idx := idx\<rparr>))"
    using m(2-) put(3) unfolding i prod.case by (intro reads_settle [OF put(1,2)]) simp_all
qed

text \<open>A parked delta: settled when its base is already there, else left waiting.\<close>

lemma reads_parked:
  assumes "mid_object p q" "pd_off d = rd_pos p"
  shows "reads p (Inr (park d q))"
    and "off < 0 \<or> off \<in> dom (rd_atOffset q) \<Longrightarrow> oid \<noteq> [] \<Longrightarrow> map_of (byOID (rd_idx q)) oid \<noteq> None \<Longrightarrow>
      reads p (rd_settle off oid (park d q))"
proof -
  have m: "reader_inv {rd_pos p} [] q" "dom (rd_atOffset q) = insert (rd_pos p) (dom (rd_atOffset p))"
    "length (rd_rest q) < length (rd_rest p)" "rd_size q = rd_size p" using assms(1) by (simp_all add: mid_object_def)
  have "rd_pos p \<in> dom (rd_atOffset q)" unfolding m(2) by simp
  then have inv: "reader_inv {} [] (park d q)"
    using m(1) assms(2) by (intro reader_inv_park) (auto)
  have same: "rd_idx (park d q) = rd_idx q" "rd_atOffset (park d q) = rd_atOffset q" "rd_rest (park d q) = rd_rest q"
    "rd_size (park d q) = rd_size q" by (simp_all add: park_def Let_def)
  show "reads p (Inr (park d q))" unfolding reads_def
  proof (intro conjI allI impI)
    fix p' assume "Inr (park d q) = (Inr p' :: gp_error + packReader)"
    then have [simp]: "p' = park d q" by simp
    show "reader_inv {} [] p'" using inv by simp
    show "dom (rd_atOffset p') = insert (rd_pos p) (dom (rd_atOffset p))" "length (rd_rest p') < length (rd_rest p)" "rd_size p' = rd_size p"
      using m(2-4) by (simp_all add: same)
  qed simp
  assume "off < 0 \<or> off \<in> dom (rd_atOffset q)" "oid \<noteq> []" "map_of (byOID (rd_idx q)) oid \<noteq> None"
  then show "reads p (rd_settle off oid (park d q))"
    using m(2-4) by (intro reads_settle [OF inv]) (simp_all add: same)
qed

lemma read_ofs_delta_reads:
  assumes mid: "mid_object p q"
  shows "reads p (read_ofs_delta zlib (rd_pos p) sz q)"
  unfolding read_ofs_delta_def Let_def
proof (rule reads_andThen [OF offsetEncoding_not_Internal], clarsimp, rule reads_andThen [OF inflate_not_Internal], clarify)
  fix bk r base0 data q1
  let ?base = "rd_pos p - bk"
  let ?d = "\<lparr>pd_off = rd_pos p, pd_baseOID = [], pd_baseOff = ?base, pd_delta = data\<rparr>"
  assume r: "offsetEncoding (rd_size q) (rd_rest q) = Inr (bk, r)" and i: "inflate zlib sz (q\<lparr>rd_rest := r\<rparr>) = Inr (data, q1)"
    and b: "rd_atOffset q ?base = Some base0"
  have m: "mid_object p q1" by (rule mid_object_inflate [OF mid_object_rest(1) [OF mid offsetEncoding_shorter [OF r]] i])
  have b1: "rd_atOffset q1 ?base = Some base0" using inflate_effect [OF i] b by auto
  then have same: "rd_atOffset (park ?d q1) ?base = Some base0" by (simp add: park_def Let_def)
  have "base0 = [] \<or> map_of (byOID (rd_idx q1)) base0 \<noteq> None"
    using m b1 unfolding mid_object_def reader_inv_def by blast
  then show "reads p (case rd_atOffset (park ?d q1) ?base of
      None \<Rightarrow> Inr (park ?d q1) | Some oid \<Rightarrow> if oid \<noteq> [] then rd_settle ?base oid (park ?d q1) else Inr (park ?d q1))"
    unfolding same option.case using reads_parked [OF m, of ?d] b1 by (cases "base0 = []") auto
qed

lemma read_ref_delta_reads:
  assumes mid: "mid_object p q"
  shows "reads p (read_ref_delta zlib (rd_pos p) sz q)"
proof (cases "length (rd_rest q) < hf_size (ix_format (rd_idx q))")
  case True
  then show ?thesis by (simp add: read_ref_delta_def)
next
  case False
  let ?oid = "hexEncode (take (hf_size (ix_format (rd_idx q))) (rd_rest q))"
  have "0 < hf_size (ix_format (rd_idx q))" using mid by (simp add: mid_object_def reader_inv_def hash_ok_def)
  then obtain a s where "take (hf_size (ix_format (rd_idx q))) (rd_rest q) = a # s"
    using False by (cases "take (hf_size (ix_format (rd_idx q))) (rd_rest q)") auto
  then have ne: "?oid \<noteq> []" by (simp add: hexEncode_def)
  have "reads p (let p2 = park \<lparr>pd_off = rd_pos p, pd_baseOID = ?oid, pd_baseOff = - 1, pd_delta = data\<rparr> q1 in
      if map_of (byOID (rd_idx p2)) ?oid \<noteq> None then rd_settle (- 1) ?oid p2 else Inr p2)"
    if "inflate zlib sz (q\<lparr>rd_rest := drop (hf_size (ix_format (rd_idx q))) (rd_rest q)\<rparr>) = Inr (data, q1)" for data q1
  proof -
    have m: "mid_object p q1" by (rule mid_object_inflate [OF mid_object_rest(1) [OF mid] that]) simp
    have same: "rd_idx (park d q1) = rd_idx q1" for d by (simp add: park_def Let_def)
    show ?thesis
      using reads_parked [OF m, of "\<lparr>pd_off = rd_pos p, pd_baseOID = ?oid, pd_baseOff = - 1, pd_delta = data\<rparr>"] ne
      by (auto simp: Let_def same)
  qed
  then show ?thesis using False unfolding read_ref_delta_def Let_def
    by (simp, intro reads_andThen [OF inflate_not_Internal]) auto
qed

lemma read_object_reads:
  assumes inv: "reader_inv {} [] p" and pos: "0 \<le> rd_pos p"
  shows "reads p (read_object zlib p)"
  unfolding read_object_def Let_def
proof (rule reads_andThen [OF header_not_Internal], clarify)
  fix ty sz r assume h: "header (rd_rest p) = (Inr (ty, sz, r) :: gp_error + _)"
  let ?q = "p\<lparr>rd_atOffset := (rd_atOffset p)(rd_pos p \<mapsto> []), rd_rest := r\<rparr>"
  have mid: "mid_object p ?q" using reader_inv_open [OF inv] header_shorter [OF h] pos by (simp add: mid_object_def)
  show "reads p (case plain_type ty of
      None \<Rightarrow> if ty = 6 then read_ofs_delta zlib (rd_pos p) sz ?q
        else if ty = 7 then read_ref_delta zlib (rd_pos p) sz ?q else Inl Malformed
    | Some t \<Rightarrow> read_plain zlib (rd_pos p) t sz ?q)"
    using read_plain_reads [OF mid] read_ofs_delta_reads [OF mid] read_ref_delta_reads [OF mid] by (simp split: option.split)
qed

subsection \<open>The whole pack\<close>

text \<open>Between two objects: the invariant holds, and every object begun lies before the position.\<close>

definition reader_ready :: "packReader \<Rightarrow> bool" where
  "reader_ready p \<longleftrightarrow> reader_inv {} [] p \<and> int (length (rd_rest p)) \<le> rd_size p \<and> finite (dom (rd_atOffset p)) \<and>
     (\<forall>off\<in>dom (rd_atOffset p). off < rd_pos p)"

lemma reader_ready_new: "hash_ok f \<Longrightarrow> reader_ready (newReader f body)"
  by (simp add: reader_ready_def newReader_def reader_inv_def filed_def)

lemma read_objects_ready:
  "reader_ready p \<Longrightarrow> read_objects zlib n p \<noteq> Inl Internal \<and>
     (\<forall>p'. read_objects zlib n p = Inr p' \<longrightarrow> reader_ready p' \<and> card (dom (rd_atOffset p')) = card (dom (rd_atOffset p)) + n)"
proof (induction n arbitrary: p)
  case (Suc n)
  have inv: "reader_inv {} [] p" "0 \<le> rd_pos p" using Suc.prems by (simp_all add: reader_ready_def rd_pos_def)
  note r = read_object_reads [OF inv, of zlib]
  show ?case
  proof (cases "read_object zlib p")
    case (Inl e)
    then show ?thesis using r by simp
  next
    case (Inr q)
    then have q: "reader_inv {} [] q" "dom (rd_atOffset q) = insert (rd_pos p) (dom (rd_atOffset p))"
      "length (rd_rest q) < length (rd_rest p)" "rd_size q = rd_size p" using r by (auto simp: reads_def)
    have "rd_pos p < rd_pos q" using q(3,4) by (simp add: rd_pos_def)
    then have ready: "reader_ready q"
      using q Suc.prems unfolding reader_ready_def q(2) by (auto intro: less_trans)
    have fresh: "rd_pos p \<notin> dom (rd_atOffset p)" "finite (dom (rd_atOffset p))" using Suc.prems by (auto simp: reader_ready_def)
    have "card (dom (rd_atOffset q)) = Suc (card (dom (rd_atOffset p)))"
      unfolding q(2) by (rule card_insert_disjoint [OF fresh(2,1)])
    then show ?thesis using Suc.IH [OF ready] unfolding read_objects.simps Inr andThen_simps by (metis add_Suc_right add_Suc)
  qed
qed simp

text \<open>
  Nothing of a pack is left out. When the reader has walked \<open>n\<close> objects and no delta is waiting, \<open>n\<close> distinct offsets
  were laid out and the object at each of them is in the index.
\<close>

lemma every_object_resolved:
  assumes "hash_ok f" "read_objects zlib n (newReader f body) = Inr p" "\<not> unresolved p"
  shows "card (dom (rd_atOffset p)) = n \<and> (\<forall>oid\<in>ran (rd_atOffset p). map_of (byOID (rd_idx p)) oid \<noteq> None)"
proof -
  have r: "reader_ready p" "card (dom (rd_atOffset p)) = card (dom (rd_atOffset (newReader f body))) + n"
    using read_objects_ready [OF reader_ready_new [OF assms(1)]] assms(2) by blast+
  have inv: "reader_inv {} [] p" using r(1) by (simp add: reader_ready_def)
  have none: "all_waiting [] p = {}" using assms(3) by (simp add: unresolved_def)
  have "rd_atOffset p off \<noteq> Some []" for off using inv unfolding reader_inv_def none by blast
  then have "map_of (byOID (rd_idx p)) oid \<noteq> None" if "rd_atOffset p off = Some oid" for off oid
    using inv that unfolding reader_inv_def by metis
  then show ?thesis using r(2) by (auto simp: newReader_def ran_def)
qed

text \<open>The format never changes.\<close>

lemma index_put_format: "index_put t d i = (oid, i') \<Longrightarrow> ix_format i' = ix_format i"
  by (auto simp: index_put_def Let_def split: if_splits)

lemma replay_format: "replay j p = Inr (oid, p') \<Longrightarrow> ix_format (rd_idx p') = ix_format (rd_idx p)"
  by (auto simp: replay_def rd_charge_def Let_def dest!: index_put_format split: option.splits if_splits prod.splits)

lemma settle_loop_format: "settle_loop W p = Inr p' \<Longrightarrow> ix_format (rd_idx p') = ix_format (rd_idx p)"
proof (induction W p rule: settle_loop.induct)
  case (1 W p)
  show ?case
  proof (cases "W = []")
    case True
    then show ?thesis using "1.prems" by (simp add: settle_loop.simps)
  next
    case False
    obtain oid p1 where r: "replay (last W) p = Inr (oid, p1)"
      using "1.prems" False by (auto simp: settle_loop.simps [of W] split: sum.splits)
    obtain woken p2 where t: "take_waiting (pd_off (rd_pending p ! last W)) oid p1 = (woken, p2)" by fastforce
    have "settle_loop (butlast W @ woken) p2 = Inr p'"
      using "1.prems" False r t by (simp add: settle_loop.simps [of W])
    then have "ix_format (rd_idx p') = ix_format (rd_idx p2)" using "1.IH" [OF False r refl t [symmetric]] by simp
    moreover have "rd_idx p2 = rd_idx p1" using t by (auto simp: take_waiting_def)
    ultimately show ?thesis using replay_format [OF r] by simp
  qed
qed

lemma rd_settle_format: "rd_settle off oid p = Inr p' \<Longrightarrow> ix_format (rd_idx p') = ix_format (rd_idx p)"
  by (auto simp: rd_settle_def take_waiting_def Let_def dest!: settle_loop_format split: if_splits)

lemma inflate_idx: "inflate zlib n p = Inr (data, p') \<Longrightarrow> rd_idx p' = rd_idx p"
  by (drule inflate_effect) auto

lemma park_idx: "rd_idx (park d p) = rd_idx p"
  by (simp add: park_def Let_def)

lemma read_plain_format:
  assumes "read_plain zlib off ty sz p = Inr p'"
  shows "ix_format (rd_idx p') = ix_format (rd_idx p)"
proof -
  obtain data p1 where i: "inflate zlib sz p = Inr (data, p1)"
    and s: "(case index_put ty data (rd_idx p1) of (oid, idx) \<Rightarrow> rd_settle off oid (p1\<lparr>rd_idx := idx\<rparr>)) = Inr p'"
    using assms by (auto simp: read_plain_def)
  obtain oid idx where put: "index_put ty data (rd_idx p1) = (oid, idx)" by fastforce
  then show ?thesis using s rd_settle_format index_put_format [OF put] inflate_idx [OF i] by fastforce
qed

lemma read_delta_format:
  "read_ofs_delta zlib off sz p = Inr p' \<Longrightarrow> ix_format (rd_idx p') = ix_format (rd_idx p)"
  "read_ref_delta zlib off sz p = Inr p' \<Longrightarrow> ix_format (rd_idx p') = ix_format (rd_idx p)"
  by (auto simp: read_ofs_delta_def read_ref_delta_def Let_def park_idx
      dest!: rd_settle_format inflate_idx split: option.splits if_splits)

lemma read_object_format: "read_object zlib p = Inr p' \<Longrightarrow> ix_format (rd_idx p') = ix_format (rd_idx p)"
  by (auto simp: read_object_def Let_def dest!: read_plain_format read_delta_format split: option.splits if_splits)

lemma read_objects_format: "read_objects zlib n p = Inr p' \<Longrightarrow> ix_format (rd_idx p') = ix_format (rd_idx p)"
  by (induction n arbitrary: p) (auto dest: read_object_format)

text \<open>
  C31: the reader never meets a broken invariant. Whatever the bytes of the pack and whatever the inflater answers, the
  error that a delta was woken without its base, which the source marks as internal, is not returned.
\<close>

theorem parsePack_no_internal:
  assumes "hash_ok f"
  shows "parsePack zlib pack f \<noteq> Inl Internal"
proof -
  have "read_objects zlib n (newReader f body) \<noteq> Inl Internal" for n body
    by (rule conjunct1 [OF read_objects_ready [OF reader_ready_new [OF assms]]])
  then show ?thesis by (auto simp: parsePack_def Let_def andThen_def split: sum.split)
qed

lemma dropBlob_mem: "map_of (byOID (dropBlobContent i)) oid \<noteq> None \<longleftrightarrow> map_of (byOID i) oid \<noteq> None"
  by (force simp: dropBlobContent_def map_of_eq_None_iff)

text \<open>
  C30: a pack that parses is filed whole. As many distinct offsets were read as its header counts, to the last byte before
  the trailer, and the object at each of them, plain or delta, is in the index. The index has one entry per id; each id is
  git's name of its object, the hash in the push's format of the type, a space, the decimal length, a zero byte and the
  content; the recorded size is the length of that content, which is kept for every object but blobs.
\<close>

theorem parsePack_filed:
  assumes "hash_ok f" "parsePack zlib pack f = Inr i"
  shows "ix_format i = f \<and> distinct (map fst (byOID i)) \<and>
    (\<forall>(oid, ob)\<in>set (byOID i). \<exists>data.
       oid = hexEncode (hf_new f ((case ob_typ ob of objCommit \<Rightarrow> ''commit'' | objTree \<Rightarrow> ''tree'' | objBlob \<Rightarrow> ''blob'' | objTag \<Rightarrow> ''tag'') @
         '' '' @ Itoa (int (length data)) @ CHR 0x00 # data)) \<and>
       ob_size ob = int (length data) \<and> ob_data ob = (if ob_typ ob = objBlob then [] else data)) \<and>
    (\<exists>p. read_objects zlib (nat (be_uint32 (take 4 (drop 8 pack)))) (newReader f (take (length pack - hf_size f) pack)) = Inr p \<and>
       rd_rest p = [] \<and> card (dom (rd_atOffset p)) = nat (be_uint32 (take 4 (drop 8 pack))) \<and>
       (\<forall>oid\<in>ran (rd_atOffset p). map_of (byOID i) oid \<noteq> None))"
proof -
  let ?n = "nat (be_uint32 (take 4 (drop 8 pack)))" and ?b = "take (length pack - hf_size f) pack"
  obtain p where p: "read_objects zlib ?n (newReader f ?b) = Inr p" "i = dropBlobContent (rd_idx p)" "\<not> unresolved p" "rd_rest p = []"
    using assms(2) by (auto simp: parsePack_def Let_def split: if_splits)
  have "reader_ready p" using read_objects_ready [OF reader_ready_new [OF assms(1)]] p(1) by blast
  then have fi: "filed (rd_idx p)" by (simp add: reader_ready_def reader_inv_def)
  have f: "ix_format (rd_idx p) = f" using read_objects_format [OF p(1)] by (simp add: newReader_def)
  have "map fst (byOID i) = map fst (byOID (rd_idx p))" by (auto simp: p(2) dropBlobContent_def)
  then have "distinct (map fst (byOID i))" using fi unfolding filed_def by (elim conjE) simp
  moreover have "ix_format i = f" using f by (simp add: p(2) dropBlobContent_def)
  moreover have "\<exists>data. oid = object_id f (ob_typ ob) data \<and> ob_size ob = int (length data) \<and>
       ob_data ob = (if ob_typ ob = objBlob then [] else data)" if ob: "(oid, ob) \<in> set (byOID i)" for oid ob
  proof -
    obtain b where b: "(oid, b) \<in> set (byOID (rd_idx p))" "ob = (if ob_typ b = objBlob then b\<lparr>ob_data := []\<rparr> else b)"
      using ob by (auto simp: p(2) dropBlobContent_def)
    then have "oid = object_id f (ob_typ b) (ob_data b)" "ob_size b = int (length (ob_data b))"
      using fi f unfolding filed_def by auto
    then show ?thesis using b(2) by auto
  qed
  moreover have "card (dom (rd_atOffset p)) = ?n \<and> (\<forall>oid\<in>ran (rd_atOffset p). map_of (byOID i) oid \<noteq> None)"
    using every_object_resolved [OF assms(1) p(1,3)] unfolding p(2) dropBlob_mem .
  ultimately show ?thesis using p(1,4) unfolding object_id_def label_def by blast
qed

text \<open>What a command names is in the pack.\<close>

lemma peel_loop_commit: "peel_loop n i oid = peeled tip \<Longrightarrow> \<exists>ob. map_of (byOID i) tip = Some ob \<and> ob_typ ob = objCommit"
  by (induction n arbitrary: oid) (auto split: option.splits if_splits)

lemma cover_loop_peels:
  "cover_loop i cs missing = Inr () \<Longrightarrow> missing = [] \<and> (\<forall>c\<in>set cs. isZeroOID (cmd_New c) \<or> (\<exists>tip. peel i (cmd_New c) = peeled tip))"
  by (induction cs arbitrary: missing) (fastforce split: if_splits peelResult.splits)+

lemma inspect_cover_Inr: "inspect_cover i cmds = Inr u \<Longrightarrow> coverCommands i cmds = Inr ()"
  by (auto simp: inspect_cover_def split: sum.splits pack_error.splits)

lemma Inspect_carried:
  assumes "Inspect zlib hs body = Inr (res, pack)" "c \<in> set (res_Commands res)" "\<not> isZeroOID (cmd_New c)"
  shows "\<exists>i. pack = Some i \<and> coverCommands i (res_Commands res) = Inr () \<and>
    changes i (\<lambda>_. False) = Inr (res_Changes res, res_Bases res)"
proof -
  obtain f cmds rest where "inspect_pack zlib f cmds rest = Inr (res, pack)" using assms(1) by (auto simp: Inspect_def)
  then show ?thesis using assms(2,3)
    by (auto simp: inspect_pack_def Let_def filter_empty_conv dest!: inspect_cover_Inr split: if_splits)
qed

text \<open>
  C16: a push that inspects is inspected whole. For every command of the push that does not delete its ref, the pack
  carries the commit the command's new id names, directly or through tags; that commit parses, and every entry its tree
  has, as far as the pack carries it, is among the reported changes, or a carried parent exists and every carried parent
  has that very entry; every parent the pack does not carry is among the reported bases.
\<close>

theorem inspected_push_reported:
  assumes "Inspect zlib hs body = Inr (res, pack)" "c \<in> set (res_Commands res)" "\<not> isZeroOID (cmd_New c)"
  shows "\<exists>i tip info. pack = Some i \<and> peel i (cmd_New c) = peeled tip \<and> commit_of i tip = Some info \<and>
    (\<forall>p m x. entry_at i (ci_tree info) p m x \<longrightarrow>
       (\<exists>ch\<in>set (res_Changes res). ch_Path ch = p \<and> ch_Mode ch = m \<and> ch_OID ch = x) \<or>
       ((\<exists>q\<in>set (ci_parents info). commit_of i q \<noteq> None) \<and>
        (\<forall>q\<in>set (ci_parents info). \<forall>d. commit_of i q = Some d \<longrightarrow> entry_at i (ci_tree d) p m x))) \<and>
    (\<forall>q\<in>set (ci_parents info). map_of (byOID i) q = None \<longrightarrow> q \<in> set (res_Bases res))"
proof -
  obtain i where i: "pack = Some i" "coverCommands i (res_Commands res) = Inr ()"
      "changes i (\<lambda>_. False) = Inr (res_Changes res, res_Bases res)"
    using Inspect_carried [OF assms] by blast
  then obtain tip where tip: "peel i (cmd_New c) = peeled tip" using cover_loop_peels assms(2,3) by (fastforce simp: coverCommands_def)
  then obtain ob where ob: "map_of (byOID i) tip = Some ob" "ob_typ ob = objCommit" using peel_loop_commit unfolding peel_def by blast
  then obtain info where "commit_of i tip = Some info" "commit_complete i (\<lambda>_. False) (res_Changes res) (res_Bases res) info"
    using changes_commit_complete [OF i(3) ob] by blast
  then show ?thesis using i(1) tip unfolding commit_complete_def reported_def by blast
qed

subsection \<open>Sample pushes\<close>

text \<open>A hash that repeats the sum of the bytes, and a compression that writes the length before the content.\<close>

definition sample_hash :: "nat \<Rightarrow> string \<Rightarrow> string" where
  "sample_hash n s = replicate n (char_of (sum_list (map byte_of s) mod 256))"

definition sample_format :: hashFormat where
  "sample_format = \<lparr>hf_name = ''sha1'', hf_size = 1, hf_new = sample_hash 1\<rparr>"

definition sample_hashes :: hashes where
  "sample_hashes = \<lparr>hs_sha1 = sample_hash 20, hs_sha256 = sample_hash 32\<rparr>"

definition sample_zlib :: zlib where
  "sample_zlib s =
     (case s of
        [] \<Rightarrow> None
      | c # r \<Rightarrow> if int (length r) < byte_of c then None else Some (take (nat (byte_of c)) r, Suc (nat (byte_of c))))"

text \<open>A blob, and a delta that makes another of it.\<close>

definition sample_body :: string where
  "sample_body = ''PACK'' @ [CHR 0x00, CHR 0x00, CHR 0x00, CHR 0x02, CHR 0x00, CHR 0x00, CHR 0x00, CHR 0x02] @ ''5'' @ [CHR 0x05] @
     ''hellof'' @ [CHR 0x07, CHR 0x06, CHR 0x05, CHR 0x05, CHR 0x90, CHR 0x04, CHR 0x01] @ ''p''"

text \<open>A push of one commit whose tree has one executable.\<close>

definition sample_push :: string where
  "sample_push = ''00710000000000000000000000000000000000000000 f5f5f5f5f5f5f5f5f5f5f5f5f5f5f5f5f5f5f5f5 refs/heads/m'' @ [CHR 0x00] @
     '' report-status0000PACK'' @ [CHR 0x00, CHR 0x00, CHR 0x00, CHR 0x02, CHR 0x00, CHR 0x00, CHR 0x00, CHR 0x02, CHR 0x9E, CHR 0x02] @
     ''.tree 4f4f4f4f4f4f4f4f4f4f4f4f4f4f4f4f4f4f4f4f'' @ [CHR 0x0A, CHR 0xAD, CHR 0x01, CHR 0x1D] @ ''100755 f'' @
     [CHR 0x00] @ replicate 20 (CHR 0xAB) @ replicate 20 (CHR 0xB2)"

lemma sample_format_ok: "hash_ok sample_format"
  by (simp add: hash_ok_def sample_format_def sample_hash_def)


lemma every_object_resolved_witness:
  "case read_objects sample_zlib 2 (newReader sample_format sample_body) of
     Inl _ \<Rightarrow> False
   | Inr p \<Rightarrow> \<not> unresolved p \<and> card (dom (rd_atOffset p)) = 2"
proof -
  have "case read_objects sample_zlib 2 (newReader sample_format sample_body) of Inl _ \<Rightarrow> False | Inr p \<Rightarrow> \<not> unresolved p"
    by code_simp
  then obtain p where p: "read_objects sample_zlib 2 (newReader sample_format sample_body) = Inr p" "\<not> unresolved p"
    by (auto split: sum.splits)
  then show ?thesis using every_object_resolved [OF sample_format_ok p] by simp
qed

lemma parsePack_no_internal_witness:
  "hash_ok sample_format \<and> parsePack sample_zlib (sample_body @ [CHR 0xF3]) sample_format \<noteq> Inl Internal"
  using parsePack_no_internal [OF sample_format_ok] sample_format_ok by blast

lemma parsePack_filed_witness:
  "case parsePack sample_zlib (sample_body @ [CHR 0xF3]) sample_format of
     Inl _ \<Rightarrow> False
   | Inr i \<Rightarrow> length (byOID i) = 2 \<and> distinct (map fst (byOID i)) \<and> ix_format i = sample_format"
proof -
  have "case parsePack sample_zlib (sample_body @ [CHR 0xF3]) sample_format of Inl _ \<Rightarrow> False | Inr i \<Rightarrow> length (byOID i) = 2"
    by code_simp
  then obtain i where i: "parsePack sample_zlib (sample_body @ [CHR 0xF3]) sample_format = Inr i" "length (byOID i) = 2"
    by (auto split: sum.splits)
  then show ?thesis using parsePack_filed [OF sample_format_ok i(1)] by simp
qed

lemma inspected_push_witness:
  "case Inspect sample_zlib sample_hashes sample_push of
     Inl _ \<Rightarrow> False
   | Inr (res, pack) \<Rightarrow> map cmd_Ref (res_Commands res) = [''refs/heads/m''] \<and> map ch_Path (res_Changes res) = [''f''] \<and>
       (\<exists>i tip info. pack = Some i \<and> peel i (cmd_New (hd (res_Commands res))) = peeled tip \<and> commit_of i tip = Some info)"
proof -
  have "case Inspect sample_zlib sample_hashes sample_push of
     Inl _ \<Rightarrow> False
   | Inr (res, pack) \<Rightarrow> map cmd_Ref (res_Commands res) = [''refs/heads/m''] \<and> map ch_Path (res_Changes res) = [''f''] \<and>
       \<not> isZeroOID (cmd_New (hd (res_Commands res)))"
    by code_simp
  then obtain res pack where r: "Inspect sample_zlib sample_hashes sample_push = Inr (res, pack)"
    "map cmd_Ref (res_Commands res) = [''refs/heads/m'']" "map ch_Path (res_Changes res) = [''f'']"
    "\<not> isZeroOID (cmd_New (hd (res_Commands res)))"
    by (auto split: sum.splits)
  then have "hd (res_Commands res) \<in> set (res_Commands res)" by (cases "res_Commands res") auto
  from inspected_push_reported [OF r(1) this r(4)] show ?thesis using r by auto
qed

end
