(* ===== verification/GoSlices.thy ===== *)
theory GoSlices
  imports Prelude "HOL-Library.Char_ord" "HOL-Library.List_Lexorder" "HOL-Library.AList"
begin

section \<open>Slices and string-keyed maps\<close>

text \<open>
  What the composer uses of Go's \<open>slices\<close>, \<open>sort\<close> and map types. Strings compare by bytes; a map with string keys is an
  association list that \<open>AList.update\<close> writes and \<open>map_of\<close> reads, so the order of a range over it is the list's.
\<close>

text \<open>\<open>slices.Sort\<close> then \<open>slices.Compact\<close>.\<close>

definition sort_compact :: "string list \<Rightarrow> string list" where
  "sort_compact xs = remdups_adj (sort xs)"

text \<open>\<open>slicesDiff\<close> of internal/composer/meet_domains.go.\<close>

definition slicesDiff :: "string list \<Rightarrow> string list \<Rightarrow> string list" where
  "slicesDiff a b = filter (\<lambda>s. s \<notin> set b) a"

text \<open>\<open>unionPaths\<close>, \<open>toSet\<close>, \<open>partition\<close> and \<open>union\<close> of internal/composer/clamp.go. A set of spellings keeps the
  trimmed lower-case ones.\<close>

definition folded :: "string \<Rightarrow> string" where
  "folded s = ToLower (TrimSpace s)"

definition unionPaths :: "string list \<Rightarrow> string list \<Rightarrow> string list" where
  "unionPaths a b = sort (rev (fold (\<lambda>s out. if s \<in> set out then out else s # out) (a @ b) []))"

definition toSet :: "string list \<Rightarrow> string set" where
  "toSet xs = set (map folded xs)"

definition go_partition :: "(string \<Rightarrow> bool) \<Rightarrow> string list \<Rightarrow> string list \<times> string list" where
  "go_partition keep xs = (filter keep xs, filter (\<lambda>x. \<not> keep x) xs)"

definition go_union :: "string list \<Rightarrow> string list \<Rightarrow> string list" where
  "go_union a b =
     sort (fst (fold (\<lambda>x (out, seen). if folded x \<in> seen then (out, seen) else (out @ [x], insert (folded x) seen)) b
                     (a, toSet a)))"

text \<open>\<open>dedupeStrings\<close>: the first occurrence of each value, in order.\<close>

definition dedupeStrings :: "'a list \<Rightarrow> 'a list" where
  "dedupeStrings xs = rev (fold (\<lambda>s out. if s \<in> set out then out else s # out) xs [])"

lemma set_sort_compact [simp]: "set (sort_compact xs) = set xs"
  by (simp add: sort_compact_def)

lemma set_dedupe_fold: "set (fold (\<lambda>s out. if s \<in> set out then out else s # out) xs acc) = set acc \<union> set xs"
  by (induction xs arbitrary: acc) auto

lemma set_unionPaths [simp]: "set (unionPaths a b) = set a \<union> set b"
  by (simp add: unionPaths_def set_dedupe_fold)

lemma set_dedupeStrings [simp]: "set (dedupeStrings xs) = set xs"
  by (simp add: dedupeStrings_def set_dedupe_fold)

lemma go_union_fold:
  "set a \<subseteq> set (fst (fold (\<lambda>x (out, seen). if folded x \<in> seen then (out, seen) else (out @ [x], insert (folded x) seen)) b
                     (a, seen)))"
proof (induction b arbitrary: a seen)
  case (Cons x b)
  show ?case using Cons [of a seen] Cons [of "a @ [x]" "insert (folded x) seen"] by (auto split: if_splits)
qed simp

lemma go_union_left: "set a \<subseteq> set (go_union a b)"
  using go_union_fold [of a b "toSet a"] by (simp add: go_union_def)

end
