(* ===== verification/GitSettle.thy ===== *)
theory GitSettle
  imports GitPack GoSlices
begin

section \<open>History a pack re-sends: Result.Settle of internal/gitpack/tree.go\<close>

text \<open>
  A push from an old clone re-sends commits the receiving side already holds. \<open>Settle\<close> classifies the carried commits:
  a tip is new; the others are asked about as little as possible, a held answer spreading to the ancestors and a new one
  to the descendants, and new is final. The changes are then those of the commits that are not held. The classification is
  an association list; \<open>held\<close>, the question put to the forge, is an argument whose \<open>None\<close> is a read that failed, and the
  commits asked about are kept in the order of the questions. Stacks are lists with the top first. The lemmas: the spread
  and the walk end, no commit is asked about twice, a commit is held only beneath one the forge vouched for, and with the
  content rules no other commit can introduce a denied path.
\<close>

subsection \<open>The graph of carried commits\<close>

datatype settle_error = HeldFailed | PackError gp_error

type_synonym graph = "(string \<times> string list) list"
type_synonym marks = "(string \<times> bool) list"

definition nexts :: "graph \<Rightarrow> string \<Rightarrow> string list" where
  "nexts g c = (case map_of g c of None \<Rightarrow> [] | Some xs \<Rightarrow> xs)"

definition is_commit :: "index \<Rightarrow> string \<Rightarrow> bool" where
  "is_commit i p = (case map_of (byOID i) p of None \<Rightarrow> False | Some ob \<Rightarrow> ob_typ ob = objCommit)"

text \<open>The carried commits in order, each with its carried parents.\<close>

fun carried_down :: "index \<Rightarrow> string list \<Rightarrow> gp_error + graph" where
  "carried_down i [] = Inr []"
| "carried_down i (oid # oids) =
     (case map_of (byOID i) oid of
        None \<Rightarrow> carried_down i oids
      | Some ob \<Rightarrow>
          if ob_typ ob \<noteq> objCommit then carried_down i oids
          else
            andThen (parseCommit (ob_data ob) (hf_size (ix_format i)))
              (\<lambda>c. andThen (carried_down i oids) (\<lambda>g. Inr ((oid, filter (is_commit i) (ci_parents c)) # g))))"

definition carried_up :: "graph \<Rightarrow> graph" where
  "carried_up down = map (\<lambda>(p, _). (p, concat (map (\<lambda>(oid, ps). replicate (length (filter ((=) p) ps)) oid) down))) down"

subsection \<open>Spreading an answer\<close>

definition skips :: "bool \<Rightarrow> bool option \<Rightarrow> bool" where
  "skips v was = (case was of None \<Rightarrow> False | Some w \<Rightarrow> \<not> w \<or> v)"

text \<open>How often a commit can still be marked: twice, once when it is held, never when it is new.\<close>

definition mark_left :: "marks \<Rightarrow> string \<Rightarrow> nat" where
  "mark_left m x = (case map_of m x of None \<Rightarrow> 2 | Some w \<Rightarrow> if w then 1 else 0)"

definition spread_room :: "graph \<Rightarrow> string list \<Rightarrow> marks \<Rightarrow> nat" where
  "spread_room g st m = (\<Sum>x\<in>set st \<union> \<Union> (set ` snd ` set g). mark_left m x)"

lemma nexts_sub: "set (nexts g c) \<subseteq> \<Union> (set ` snd ` set g)"
proof (cases "map_of g c")
  case (Some xs)
  then have "(c, xs) \<in> set g" by (rule map_of_SomeD)
  then show ?thesis using Some by (fastforce simp: nexts_def)
qed (simp add: nexts_def)

lemma spread_room_pop: "spread_room g st m \<le> spread_room g (c # st) m"
  unfolding spread_room_def by (rule sum_mono2) auto

lemma spread_room_mark:
  assumes "\<not> skips v (map_of m c)"
  shows "spread_room g (rev (nexts g c) @ st) (AList.update c v m) < spread_room g (c # st) m"
proof -
  let ?U = "\<Union> (set ` snd ` set g)" and ?m = "AList.update c v m"
  have "mark_left ?m c < mark_left m c" using assms
    by (auto simp: mark_left_def skips_def update_conv' split: option.splits)
  moreover have "mark_left ?m x \<le> mark_left m x" for x using assms
    by (auto simp: mark_left_def skips_def update_conv' split: option.splits)
  ultimately have "(\<Sum>x\<in>set (c # st) \<union> ?U. mark_left ?m x) < (\<Sum>x\<in>set (c # st) \<union> ?U. mark_left m x)"
    by (intro sum_strict_mono_ex1) auto
  moreover have "(\<Sum>x\<in>set (rev (nexts g c) @ st) \<union> ?U. mark_left ?m x) \<le> (\<Sum>x\<in>set (c # st) \<union> ?U. mark_left ?m x)"
    using nexts_sub [of g c] by (intro sum_mono2) auto
  ultimately show ?thesis unfolding spread_room_def by linarith
qed

function spread :: "graph \<Rightarrow> bool \<Rightarrow> string list \<Rightarrow> marks \<Rightarrow> marks" where
  "spread g v [] m = m"
| "spread g v (c # st) m =
     (if skips v (map_of m c) then spread g v st m
      else spread g v (rev (nexts g c) @ st) (AList.update c v m))"
  by pat_completeness auto

termination
  by (relation "(\<lambda>(g, v, st, m). spread_room g st m) <*mlex*> measure (\<lambda>(g, v, st, m). length st)")
     (auto intro: wf_mlex mlex_less mlex_leq simp: spread_room_mark spread_room_pop)

subsection \<open>Asking\<close>

record settling =
  st_marks :: marks
  st_asked :: "string list"

definition ask :: "(string \<Rightarrow> bool option) \<Rightarrow> graph \<Rightarrow> string \<Rightarrow> settling \<Rightarrow> settle_error + bool \<times> settling" where
  "ask question down c s =
     (case map_of (st_marks s) c of
        Some v \<Rightarrow> Inr (v, s)
      | None \<Rightarrow>
          (case question c of
             None \<Rightarrow> Inl HeldFailed
           | Some v \<Rightarrow>
               let m = (if v then spread down True [c] (st_marks s) else spread (carried_up down) False [c] (st_marks s))
               in Inr (map_of m c = Some True, \<lparr>st_marks = m, st_asked = st_asked s @ [c]\<rparr>)))"

fun ask_roots :: "(string \<Rightarrow> bool option) \<Rightarrow> graph \<Rightarrow> string list \<Rightarrow> settling \<Rightarrow> settle_error + settling" where
  "ask_roots question down [] s = Inr s"
| "ask_roots question down (c # cs) s =
     (if nexts down c = [] then andThen (ask question down c s) (\<lambda>(_, s'). ask_roots question down cs s')
      else ask_roots question down cs s)"

text \<open>The parents of one commit: those not held join the queue.\<close>

fun ask_parents :: "(string \<Rightarrow> bool option) \<Rightarrow> graph \<Rightarrow> string list \<Rightarrow> settling \<Rightarrow> settle_error + string list \<times> settling" where
  "ask_parents question down [] s = Inr ([], s)"
| "ask_parents question down (p # ps) s =
     andThen (ask question down p s) (\<lambda>(v, s').
     andThen (ask_parents question down ps s') (\<lambda>(new, s''). Inr (if v then new else p # new, s'')))"

lemma ask_parents_sub: "ask_parents question down ps s = Inr (new, s') \<Longrightarrow> set new \<subseteq> set ps"
proof (induction ps arbitrary: s new s')
  case (Cons p ps)
  then obtain v s1 new1 where "ask_parents question down ps s1 = Inr (new1, s')" "new = (if v then new1 else p # new1)"
    by (auto simp: andThen_def split: sum.splits prod.splits)
  then show ?case using Cons.IH by (auto split: if_splits)
qed simp

definition walk_room :: "graph \<Rightarrow> string list \<Rightarrow> string list \<Rightarrow> nat" where
  "walk_room g queue walked = card ((set queue \<union> \<Union> (set ` snd ` set g)) - set walked)"

lemma walk_room_pop: "walk_room g queue walked \<le> walk_room g (c # queue) walked"
  unfolding walk_room_def by (rule card_mono) auto

lemma walk_room_step:
  assumes "c \<notin> set walked" "set new \<subseteq> set (nexts g c)"
  shows "walk_room g (queue @ new) (c # walked) < walk_room g (c # queue) walked"
  unfolding walk_room_def using assms nexts_sub [of g c] by (intro psubset_card_mono) auto

function walk_new :: "(string \<Rightarrow> bool option) \<Rightarrow> graph \<Rightarrow> string list \<Rightarrow> string list \<Rightarrow> settling \<Rightarrow> settle_error + settling" where
  "walk_new question down [] walked s = Inr s"
| "walk_new question down (c # queue) walked s =
     (if c \<in> set walked then walk_new question down queue walked s
      else case ask_parents question down (nexts down c) s of
        Inl e \<Rightarrow> Inl e
      | Inr (new, s') \<Rightarrow> walk_new question down (queue @ new) (c # walked) s')"
  by pat_completeness auto

termination
proof (relation "(\<lambda>(question, g, queue, walked, s). walk_room g queue walked) <*mlex*> measure (\<lambda>(question, g, queue, walked, s). length queue)",
    goal_cases)
  case (3 question down c queue walked s r new s')
  then have "set new \<subseteq> set (nexts down c)" using ask_parents_sub by fastforce
  then show ?case using 3 by (auto intro: mlex_less walk_room_step)
qed (auto intro: wf_mlex mlex_leq simp: walk_room_pop)

declare spread.simps [simp del] walk_new.simps [simp del]

subsection \<open>Settle\<close>

definition tips_of :: "graph \<Rightarrow> string list" where
  "tips_of down = filter (\<lambda>c. nexts (carried_up down) c = []) (map fst down)"

definition classify :: "(string \<Rightarrow> bool option) \<Rightarrow> graph \<Rightarrow> settle_error + settling" where
  "classify question down =
     (let tips = tips_of down; s0 = \<lparr>st_marks = fold (\<lambda>c m. AList.update c False m) tips [], st_asked = []\<rparr> in
      andThen (ask_roots question down (map fst down) s0) (\<lambda>s. walk_new question down tips [] s))"

definition is_held :: "settling \<Rightarrow> string \<Rightarrow> bool" where
  "is_held s c \<longleftrightarrow> map_of (st_marks s) c = Some True"

definition Settle :: "index option \<Rightarrow> (string \<Rightarrow> bool option) \<Rightarrow> Result \<Rightarrow> settle_error + Result" where
  "Settle idx question r =
     (case idx of
        None \<Rightarrow> Inr r
      | Some i \<Rightarrow>
          (case carried_down i (sort (map fst (byOID i))) of
             Inl e \<Rightarrow> Inl (PackError e)
           | Inr down \<Rightarrow>
               andThen (classify question down) (\<lambda>s.
                 case changes i (is_held s) of
                   Inl e \<Rightarrow> Inl (PackError e)
                 | Inr (chs, bases) \<Rightarrow> Inr (r\<lparr>res_Changes := chs, res_Bases := bases\<rparr>))))"

subsection \<open>What a mark means\<close>

definition edges :: "graph \<Rightarrow> (string \<times> string) set" where
  "edges g = {(c, p). p \<in> set (nexts g c)}"

lemma spread_new_kept: "map_of m x = Some False \<Longrightarrow> map_of (spread g v st m) x = Some False"
proof (induction g v st m rule: spread.induct)
  case (2 g v c st m)
  then have "x \<noteq> c" if "\<not> skips v (map_of m c)" using that by (auto simp: skips_def)
  then show ?case using 2 by (auto simp: spread.simps update_conv')
qed (simp add: spread.simps)

lemma spread_marked: "map_of m x \<noteq> None \<or> x \<in> set st \<Longrightarrow> map_of (spread g v st m) x \<noteq> None"
proof (induction g v st m rule: spread.induct)
  case (2 g v c st m)
  show ?case
  proof (cases "skips v (map_of m c)")
    case True
    then have "map_of m c \<noteq> None" by (auto simp: skips_def split: option.splits)
    then show ?thesis using "2.IH"(1) [OF True] "2.prems" True by (auto simp: spread.simps)
  next
    case False
    then show ?thesis using "2.IH"(2) [OF False] "2.prems" by (auto simp: spread.simps update_conv')
  qed
qed (simp add: spread.simps)

lemma spread_held:
  "\<forall>y\<in>set st. (h, y) \<in> (edges g)\<^sup>* \<Longrightarrow> map_of (spread g v st m) x = Some True \<Longrightarrow>
     map_of m x = Some True \<or> v \<and> (h, x) \<in> (edges g)\<^sup>*"
proof (induction g v st m rule: spread.induct)
  case (2 g v c st m)
  show ?case
  proof (cases "skips v (map_of m c)")
    case True
    then show ?thesis using "2.IH"(1) [OF True] "2.prems" by (simp add: spread.simps)
  next
    case False
    have "\<forall>y\<in>set (rev (nexts g c) @ st). (h, y) \<in> (edges g)\<^sup>*"
      using "2.prems"(1) by (auto simp: edges_def intro: rtrancl_into_rtrancl)
    then have "map_of (AList.update c v m) x = Some True \<or> v \<and> (h, x) \<in> (edges g)\<^sup>*"
      using "2.IH"(2) [OF False] "2.prems"(2) False by (simp add: spread.simps)
    then show ?thesis using "2.prems"(1) by (auto simp: update_conv' split: if_splits)
  qed
qed (simp add: spread.simps)

text \<open>The invariant of the questions: a held commit lies beneath one that was answered held, tips are new, and a commit
  asked about was unmarked before and is marked since.\<close>

definition settle_inv :: "(string \<Rightarrow> bool option) \<Rightarrow> graph \<Rightarrow> settling \<Rightarrow> bool" where
  "settle_inv question down s \<longleftrightarrow>
     (\<forall>x. is_held s x \<longrightarrow> (\<exists>h. question h = Some True \<and> (h, x) \<in> (edges down)\<^sup>*)) \<and>
     (\<forall>t\<in>set (tips_of down). map_of (st_marks s) t = Some False) \<and>
     distinct (st_asked s) \<and> (\<forall>a\<in>set (st_asked s). map_of (st_marks s) a \<noteq> None) \<and>
     set (st_asked s) \<subseteq> fst ` set down - set (tips_of down)"

lemma ask_inv:
  assumes "settle_inv question down s" "c \<in> fst ` set down" "ask question down c s = Inr (v, s')"
  shows "settle_inv question down s'"
proof (cases "map_of (st_marks s) c")
  case None
  obtain a where a: "question c = Some a" using assms(3) None by (auto simp: ask_def split: option.splits)
  let ?g = "if a then down else carried_up down"
  let ?m = "spread ?g a [c] (st_marks s)"
  have s': "s' = \<lparr>st_marks = ?m, st_asked = st_asked s @ [c]\<rparr>" using assms(3) None a by (auto simp: ask_def Let_def)
  have held: "\<exists>h. question h = Some True \<and> (h, x) \<in> (edges down)\<^sup>*" if "map_of ?m x = Some True" for x
    using spread_held [of "[c]" c ?g a "st_marks s" x] that assms(1) a by (auto simp: settle_inv_def is_held_def)
  have tip: "map_of ?m t = Some False" if "t \<in> set (tips_of down)" for t
    using spread_new_kept assms(1) that by (simp add: settle_inv_def)
  have "c \<notin> set (tips_of down)" "c \<notin> set (st_asked s)" using assms(1) None by (auto simp: settle_inv_def)
  moreover have "\<forall>x\<in>set (st_asked s @ [c]). map_of ?m x \<noteq> None"
    using spread_marked [of "st_marks s" _ "[c]" ?g a] assms(1) by (auto simp: settle_inv_def)
  ultimately show ?thesis using assms(1,2) held tip unfolding s' settle_inv_def is_held_def by auto
qed (use assms in \<open>auto simp: ask_def\<close>)

lemma ask_answers: "question c \<noteq> None \<Longrightarrow> \<exists>v s'. ask question down c s = Inr (v, s')"
  by (auto simp: ask_def Let_def split: option.split)

lemma ask_roots_inv:
  "settle_inv question down s \<Longrightarrow> set cs \<subseteq> fst ` set down \<Longrightarrow> ask_roots question down cs s = Inr s' \<Longrightarrow> settle_inv question down s'"
proof (induction cs arbitrary: s)
  case (Cons c cs)
  then show ?case using ask_inv [OF Cons.prems(1), of c] by (auto simp: andThen_def split: sum.splits if_splits)
qed simp

lemma ask_parents_inv:
  "settle_inv question down s \<Longrightarrow> set ps \<subseteq> fst ` set down \<Longrightarrow> ask_parents question down ps s = Inr (new, s') \<Longrightarrow>
     settle_inv question down s'"
proof (induction ps arbitrary: s new)
  case (Cons p ps)
  then show ?case using ask_inv [OF Cons.prems(1), of p] by (fastforce simp: andThen_def split: sum.splits prod.splits)
qed simp

definition closed :: "graph \<Rightarrow> bool" where
  "closed g \<longleftrightarrow> (\<forall>c. set (nexts g c) \<subseteq> fst ` set g)"

lemma walk_new_inv:
  "closed down \<Longrightarrow> settle_inv question down s \<Longrightarrow> walk_new question down queue walked s = Inr s' \<Longrightarrow> settle_inv question down s'"
proof (induction question down queue walked s rule: walk_new.induct)
  case (2 question down c queue walked s)
  show ?case
  proof (cases "c \<in> set walked")
    case True
    then show ?thesis using 2 by (simp add: walk_new.simps)
  next
    case False
    then obtain new s1 where a: "ask_parents question down (nexts down c) s = Inr (new, s1)"
      using "2.prems"(3) by (auto simp: walk_new.simps split: sum.splits)
    have "settle_inv question down s1"
      by (rule ask_parents_inv [OF "2.prems"(2) _ a]) (use "2.prems"(1) in \<open>simp add: closed_def\<close>)
    then show ?thesis using "2.IH"(2) [OF False a refl] "2.prems"(1,3) False a by (simp add: walk_new.simps)
  qed
qed (simp add: walk_new.simps)

lemma start_marks: "map_of (fold (\<lambda>c m. AList.update c False m) ts m) x = (if x \<in> set ts then Some False else map_of m x)"
  by (induction ts arbitrary: m) (auto simp: update_conv')

lemma classify_inv:
  assumes "closed down" "classify question down = Inr s"
  shows "settle_inv question down s"
proof -
  let ?s = "\<lparr>st_marks = fold (\<lambda>c m. AList.update c False m) (tips_of down) [], st_asked = []\<rparr>"
  obtain s1 where s1: "ask_roots question down (map fst down) ?s = Inr s1" "walk_new question down (tips_of down) [] s1 = Inr s"
    using assms(2) by (auto simp: classify_def Let_def andThen_def split: sum.splits)
  have "settle_inv question down ?s" by (auto simp: settle_inv_def is_held_def start_marks split: if_splits)
  then have "settle_inv question down s1" using ask_roots_inv [OF _ _ s1(1)] by simp
  then show ?thesis using walk_new_inv [OF assms(1)] s1(2) by blast
qed

subsection \<open>The questions end\<close>

lemma ask_roots_answers:
  "\<forall>c\<in>set cs. question c \<noteq> None \<Longrightarrow> \<exists>s'. ask_roots question down cs s = Inr s'"
proof (induction cs arbitrary: s)
  case (Cons c cs)
  obtain v s1 where "ask question down c s = Inr (v, s1)" using ask_answers [of question c down s] Cons.prems by auto
  then show ?case using Cons by simp
qed simp

lemma ask_parents_answers:
  "\<forall>c\<in>set ps. question c \<noteq> None \<Longrightarrow> \<exists>new s'. ask_parents question down ps s = Inr (new, s')"
proof (induction ps arbitrary: s)
  case (Cons p ps)
  obtain v s1 where a: "ask question down p s = Inr (v, s1)" using ask_answers [of question p down s] Cons.prems by auto
  obtain new s2 where "ask_parents question down ps s1 = Inr (new, s2)" using Cons by fastforce
  then show ?case using a by simp
qed simp

lemma walk_new_answers:
  "(\<And>c p. p \<in> set (nexts down c) \<Longrightarrow> question p \<noteq> None) \<Longrightarrow> \<exists>s'. walk_new question down queue walked s = Inr s'"
proof (induction question down queue walked s rule: walk_new.induct)
  case (2 question down c queue walked s)
  obtain new s1 where a: "ask_parents question down (nexts down c) s = Inr (new, s1)"
    using ask_parents_answers [of "nexts down c" question down s] "2.prems" by blast
  show ?case
  proof (cases "c \<in> set walked")
    case True
    then show ?thesis using "2.IH"(1) "2.prems" by (simp add: walk_new.simps)
  next
    case False
    then show ?thesis using "2.IH"(2) [OF False a refl] "2.prems" a by (simp add: walk_new.simps)
  qed
qed (simp add: walk_new.simps)

lemma carried_down_spec:
  "carried_down i oids = Inr g \<Longrightarrow>
     map fst g = filter (is_commit i) oids \<and>
     (\<forall>(c, ps)\<in>set g. \<exists>info. commit_of i c = Some info \<and> ps = filter (is_commit i) (ci_parents info))"
proof (induction oids arbitrary: g)
  case (Cons oid oids)
  show ?case
  proof (cases "is_commit i oid")
    case True
    then obtain ob where ob: "map_of (byOID i) oid = Some ob" "ob_typ ob = objCommit" by (auto simp: is_commit_def split: option.splits)
    then obtain c g' where c: "parseCommit (ob_data ob) (hf_size (ix_format i)) = Inr c" "carried_down i oids = Inr g'"
        "g = (oid, filter (is_commit i) (ci_parents c)) # g'"
      using Cons.prems by (auto simp: andThen_def split: sum.splits)
    have "commit_of i oid = Some c" using ob c(1) by (simp add: commit_of_def)
    then show ?thesis using Cons.IH [OF c(2)] c(3) True by simp
  next
    case False
    then show ?thesis using Cons by (auto simp: is_commit_def split: option.splits if_splits)
  qed
qed simp

lemma carried_graph:
  assumes "carried_down i (sort (map fst (byOID i))) = Inr down"
  shows "fst ` set down = {c. is_commit i c}" "closed down"
    "(c, p) \<in> edges down \<Longrightarrow> is_commit i p \<and> (\<exists>info. commit_of i c = Some info \<and> p \<in> set (ci_parents info))"
proof -
  note s = carried_down_spec [OF assms]
  have "fst ` set down = set (map fst down)" by simp
  also have "\<dots> = set (filter (is_commit i) (sort (map fst (byOID i))))" using s by metis
  also have "\<dots> = {c. is_commit i c}"
  proof -
    have "c \<in> set (map fst (byOID i))" if "is_commit i c" for c
      using that by (force simp: is_commit_def split: option.splits dest: map_of_SomeD)
    then show ?thesis by auto
  qed
  finally show keys: "fst ` set down = {c. is_commit i c}" .
  have e: "is_commit i p \<and> (\<exists>info. commit_of i c = Some info \<and> p \<in> set (ci_parents info))" if p: "p \<in> set (nexts down c)" for c p
  proof -
    obtain ps where ps: "map_of down c = Some ps" "p \<in> set ps" using p by (cases "map_of down c") (auto simp: nexts_def)
    then have "(c, ps) \<in> set down" by (simp add: map_of_SomeD)
    then show ?thesis using s ps(2) by fastforce
  qed
  then show "closed down" unfolding closed_def keys by blast
  show "(c, p) \<in> edges down \<Longrightarrow> is_commit i p \<and> (\<exists>info. commit_of i c = Some info \<and> p \<in> set (ci_parents info))"
    using e by (simp add: edges_def)
qed

text \<open>
  C19: settling ends and asks little. If the forge answers for every commit the pack carries, the classification of those
  commits ends with an answer; no commit is asked about twice, no tip is asked about, and a commit is held only if it is
  one the forge vouched for or is reached from such a one through carried parents.
\<close>

theorem classify_ends:
  assumes "carried_down i (sort (map fst (byOID i))) = Inr down" "\<forall>c. is_commit i c \<longrightarrow> question c \<noteq> None"
  shows "\<exists>s. classify question down = Inr s \<and> distinct (st_asked s) \<and>
    set (st_asked s) \<subseteq> {c. is_commit i c} - set (tips_of down) \<and>
    (\<forall>x. is_held s x \<longrightarrow> x \<notin> set (tips_of down) \<and> (\<exists>h. question h = Some True \<and> (h, x) \<in> (edges down)\<^sup>*))"
proof -
  note g = carried_graph [OF assms(1)]
  let ?s = "\<lparr>st_marks = fold (\<lambda>c m. AList.update c False m) (tips_of down) [], st_asked = []\<rparr>"
  have "\<forall>c\<in>set (map fst down). question c \<noteq> None" using assms(2) g(1) by auto
  then obtain s1 where s1: "ask_roots question down (map fst down) ?s = Inr s1" using ask_roots_answers by blast
  have "question p \<noteq> None" if "p \<in> set (nexts down c)" for c p using that assms(2) g(3) [of c p] by (simp add: edges_def)
  then obtain s where "walk_new question down (tips_of down) [] s1 = Inr s" using walk_new_answers by blast
  then have s: "classify question down = Inr s" using s1 by (simp add: classify_def Let_def)
  then show ?thesis using classify_inv [OF g(2) s] g(1) by (auto simp: settle_inv_def is_held_def)
qed

subsection \<open>What settling keeps\<close>

text \<open>The commits at or beneath one the forge vouches for, through commits the pack carries.\<close>

definition carried_parent :: "index \<Rightarrow> (string \<times> string) set" where
  "carried_parent i = {(c, p). is_commit i p \<and> (\<exists>info. commit_of i c = Some info \<and> p \<in> set (ci_parents info))}"

definition vouched :: "index \<Rightarrow> (string \<Rightarrow> bool option) \<Rightarrow> string \<Rightarrow> bool" where
  "vouched i question x \<longleftrightarrow> (\<exists>h. question h = Some True \<and> (h, x) \<in> (carried_parent i)\<^sup>*)"

lemma Settle_complete:
  assumes "Settle (Some i) question r = Inr out" "is_commit i oid" "\<not> vouched i question oid"
  shows "\<exists>s c. res_Commands out = res_Commands r \<and> commit_of i oid = Some c \<and>
    commit_complete i (is_held s) (res_Changes out) (res_Bases out) c"
proof -
  obtain down s chs bases where d: "carried_down i (sort (map fst (byOID i))) = Inr down" "classify question down = Inr s"
      "changes i (is_held s) = Inr (chs, bases)" "out = r\<lparr>res_Changes := chs, res_Bases := bases\<rparr>"
    using assms(1) by (auto simp: Settle_def andThen_def split: sum.splits)
  note g = carried_graph [OF d(1)]
  have "edges down \<subseteq> carried_parent i" using g(3) by (auto simp: carried_parent_def)
  then have "(edges down)\<^sup>* \<subseteq> (carried_parent i)\<^sup>*" by (rule rtrancl_mono)
  then have new: "\<not> is_held s oid" using classify_inv [OF g(2) d(2)] assms(3) unfolding settle_inv_def vouched_def by blast
  obtain ob where ob: "map_of (byOID i) oid = Some ob" "ob_typ ob = objCommit"
    using assms(2) by (auto simp: is_commit_def split: option.splits)
  show ?thesis using changes_commit_complete [OF d(3) ob new] d(4) by auto
qed

text \<open>
  C18: settling drops only what the forge vouches for. In the settled result, every commit the pack carries that is not at
  or beneath a commit the forge vouched for parses, and every entry of its tree is among the changes, or a carried parent
  exists and every carried parent has that very entry.
\<close>

theorem Settle_keeps_unvouched:
  assumes "Settle (Some i) question r = Inr out" "is_commit i oid" "\<not> vouched i question oid"
  shows "\<exists>c. commit_of i oid = Some c \<and>
    (\<forall>p m x. entry_at i (ci_tree c) p m x \<longrightarrow>
       (\<exists>ch\<in>set (res_Changes out). ch_Path ch = p \<and> ch_Mode ch = m \<and> ch_OID ch = x) \<or>
       ((\<exists>q\<in>set (ci_parents c). commit_of i q \<noteq> None) \<and>
        (\<forall>q\<in>set (ci_parents c). \<forall>d. commit_of i q = Some d \<longrightarrow> entry_at i (ci_tree d) p m x)))"
  using Settle_complete [OF assms] unfolding commit_complete_def reported_def by blast

subsection \<open>The content rules over a settled push\<close>

text \<open>How \<open>inspectPush\<close> reads the error of \<open>gitpack.Inspect\<close>, and the forge reader whose \<open>settle\<close> asks \<open>vouch\<close> about each
  commit.\<close>

definition inspect_error_of :: "gp_error \<Rightarrow> inspect_error" where
  "inspect_error_of e =
     (case e of
        ErrTooLarge \<Rightarrow> TooLarge
      | ErrTooDeep \<Rightarrow> TooLarge
      | MissingObjectError refs cmds \<Rightarrow> MissingObject refs cmds
      | _ \<Rightarrow> Unreadable)"

definition inspect_result :: "gp_error + Result \<times> index option \<Rightarrow> inspect_error + Result" where
  "inspect_result r = (case r of Inl e \<Rightarrow> Inl (inspect_error_of e) | Inr (res, _) \<Rightarrow> Inr res)"

definition vouches :: "forgeRepo \<Rightarrow> string \<Rightarrow> bool option" where
  "vouches f c = map_option (\<lambda>root. root \<noteq> []) (fr_vouch f c)"

definition settling_forge :: "index option \<Rightarrow> forgeRepo \<Rightarrow> forgeRepo" where
  "settling_forge idx f =
     f\<lparr>fr_Settle := (\<lambda>res. case Settle idx (vouches f) res of Inl _ \<Rightarrow> None | Inr r \<Rightarrow> Some r)\<rparr>"

definition inherited :: "index \<Rightarrow> commitInfo \<Rightarrow> string \<Rightarrow> string \<Rightarrow> string \<Rightarrow> bool" where
  "inherited i c p m x \<longleftrightarrow>
     (\<exists>q\<in>set (ci_parents c). commit_of i q \<noteq> None) \<and>
     (\<forall>q\<in>set (ci_parents c). \<forall>d. commit_of i q = Some d \<longrightarrow> entry_at i (ci_tree d) p m x)"

lemma Inspect_changes:
  assumes "Inspect zlib hs body = Inr (res, Some i)"
  shows "changes i (\<lambda>_. False) = Inr (res_Changes res, res_Bases res)"
proof -
  obtain f cmds rest where "inspect_pack zlib f cmds rest = Inr (res, Some i)" using assms by (auto simp: Inspect_def)
  then show ?thesis by (auto simp: inspect_pack_def Let_def split: if_splits)
qed

lemma judged_complete:
  assumes "Inspect zlib hs buf = Inr (res, Some i)" "r \<in> judged_results res (Some (settling_forge (Some i) f))"
    and "is_commit i oid" "\<not> vouched i (vouches f) oid" "commit_of i oid = Some c"
    and "entry_at i (ci_tree c) p m x" "\<not> inherited i c p m x"
  shows "reported (res_Changes r) p m x"
proof -
  have "\<exists>h. commit_complete i h (res_Changes r) (res_Bases r) c"
  proof (cases "r = res")
    case True
    obtain ob where ob: "map_of (byOID i) oid = Some ob" "ob_typ ob = objCommit"
      using assms(3) by (auto simp: is_commit_def split: option.splits)
    have "changes i (\<lambda>_. False) = Inr (res_Changes res, res_Bases res)" by (rule Inspect_changes [OF assms(1)])
    then show ?thesis using changes_commit_complete [OF _ ob, of "\<lambda>_. False"] assms(5) True by fastforce
  next
    case False
    then have "Settle (Some i) (vouches f) res = Inr r"
      using assms(2) by (auto simp: judged_results_def settling_forge_def split: sum.splits)
    then show ?thesis using Settle_complete assms(3-5) by fastforce
  qed
  then show ?thesis using assms(6,7) unfolding commit_complete_def inherited_def by blast
qed

text \<open>
  C14: no unvouched commit brings a denied path. Take a push whose body inspects, the forge reader that settles the result
  by its own answers, and a broker that forwards the push under its content rules. Then whatever entry a commit the pack
  carries introduces (has, where some carried parent does not), if the commit is not at or beneath one the forge vouched
  for: the entry is among the changes the rules judged, and when a deny pattern claims it, the pack does not carry its
  content and the forge showed the same entry at the root of a commit it counts.
\<close>

theorem forwarded_push_no_denied_path:
  assumes "Inspect zlib hs buf = Inr (res, Some i)"
    and "pr_body r = Body buf" "pr_inspect r buf = inspect_result (Inspect zlib hs buf)"
    and "applyPushRules r (Some rs) entryErr (Some (settling_forge (Some i) f)) holdPush"
    and "is_commit i oid" "\<not> vouched i (vouches f) oid" "commit_of i oid = Some c"
    and "entry_at i (ci_tree c) p m x" "\<not> inherited i c p m x"
  shows "\<exists>out\<in>judged_results res (Some (settling_forge (Some i) f)). \<exists>ch\<in>set (res_Changes out).
    ch_Path ch = p \<and> ch_Mode ch = m \<and> ch_OID ch = x \<and>
    (claims (ps_deny rs) ch \<longrightarrow> \<not> Carried ch \<and>
       (\<exists>root. counted_root (settling_forge (Some i) f) out root \<and> held_at (settling_forge (Some i) f) root ch))"
proof -
  let ?f = "settling_forge (Some i) f"
  have "inspected (Some ?f) (pr_inspect r buf) = Inr res" using assms(1,3) by (simp add: inspect_result_def inspected_def)
  then have "respects_rules rs res (Some ?f)" using applied_judged [OF assms(4)] assms(2) judge_passed by fastforce
  then obtain out where out: "out \<in> judged_results res (Some ?f)" and ok: "\<forall>ch\<in>set (res_Changes out).
      \<not> (claims (ps_deny rs) ch \<and> Carried ch) \<and>
      (claims (ps_deny rs) ch \<and> \<not> Carried ch \<longrightarrow> (\<exists>f' root. Some ?f = Some f' \<and> counted_root f' out root \<and> held_at f' root ch))"
    unfolding respects_rules_def rule_respected_def by blast
  obtain ch where ch: "ch \<in> set (res_Changes out)" "ch_Path ch = p" "ch_Mode ch = m" "ch_OID ch = x"
    using judged_complete [OF assms(1) out assms(5-9)] by (auto simp: reported_def)
  have "claims (ps_deny rs) ch \<longrightarrow> \<not> Carried ch \<and> (\<exists>root. counted_root ?f out root \<and> held_at ?f root ch)"
    using ok ch(1) by blast
  then show ?thesis using out ch by blast
qed

subsection \<open>A re-sent history\<close>

text \<open>Three commits in a row, the first two already held: \<open>aa\<close> has the file, \<open>ab\<close> changes nothing, \<open>ac\<close>, the tip, has a
  new tree.\<close>

definition sample_history :: index where
  "sample_history = \<lparr>ix_format = \<lparr>hf_name = ''sha1'', hf_size = 1, hf_new = (\<lambda>_. ''x'')\<rparr>,
     byOID = [(''ac'', \<lparr>ob_typ = objCommit, ob_size = 18, ob_data = ''tree b2'' @ CHR 0x0A # ''parent ab'' @ [CHR 0x0A]\<rparr>),
              (''ab'', \<lparr>ob_typ = objCommit, ob_size = 18, ob_data = ''tree bb'' @ CHR 0x0A # ''parent aa'' @ [CHR 0x0A]\<rparr>),
              (''aa'', \<lparr>ob_typ = objCommit, ob_size = 8, ob_data = ''tree bb'' @ [CHR 0x0A]\<rparr>),
              (''bb'', \<lparr>ob_typ = objTree, ob_size = 10, ob_data = ''100644 f'' @ [CHR 0x00, CHR 0xCC]\<rparr>),
              (''b2'', \<lparr>ob_typ = objTree, ob_size = 10, ob_data = ''100755 f'' @ [CHR 0x00, CHR 0xDD]\<rparr>)]\<rparr>"

definition sample_question :: "string \<Rightarrow> bool option" where
  "sample_question c = Some (c = ''aa'' \<or> c = ''ab'')"

lemma not_vouched:
  assumes "question x \<noteq> Some True"
    and "list_all (\<lambda>c. case commit_of i c of None \<Rightarrow> True | Some info \<Rightarrow> x \<notin> set (ci_parents info)) (map fst (byOID i))"
  shows "\<not> vouched i question x"
proof
  assume "vouched i question x"
  then obtain h where h: "question h = Some True" "(h, x) \<in> (carried_parent i)\<^sup>*" by (auto simp: vouched_def)
  then have "h \<noteq> x" using assms(1) by auto
  then obtain c where "(c, x) \<in> carried_parent i" using h(2) by (auto elim: rtranclE)
  then obtain info where c: "commit_of i c = Some info" "x \<in> set (ci_parents info)" by (auto simp: carried_parent_def)
  then have "c \<in> set (map fst (byOID i))" by (force simp: commit_of_def split: option.splits dest: map_of_SomeD)
  then show False using assms(2) c by (force simp: list_all_iff)
qed

lemma classify_ends_witness:
  "case carried_down sample_history (sort (map fst (byOID sample_history))) of
     Inl _ \<Rightarrow> False
   | Inr down \<Rightarrow> \<exists>s. classify sample_question down = Inr s \<and> st_asked s = [''aa'', ''ab''] \<and> is_held s ''aa'' \<and>
       ''aa'' \<notin> set (tips_of down)"
proof -
  have "case carried_down sample_history (sort (map fst (byOID sample_history))) of
     Inl _ \<Rightarrow> False
   | Inr down \<Rightarrow> (case classify sample_question down of Inl _ \<Rightarrow> False | Inr s \<Rightarrow> st_asked s = [''aa'', ''ab''] \<and> is_held s ''aa'')"
    by code_simp
  then obtain down s where d: "carried_down sample_history (sort (map fst (byOID sample_history))) = Inr down"
      "classify sample_question down = Inr s" "st_asked s = [''aa'', ''ab'']" "is_held s ''aa''"
    by (auto split: sum.splits)
  have "\<forall>c. is_commit sample_history c \<longrightarrow> sample_question c \<noteq> None" by (simp add: sample_question_def)
  from classify_ends [OF d(1) this] show ?thesis using d by auto
qed

lemma flat_entries:
  assumes "tree_entries i t = Some es" "map_of (byOID i) t \<noteq> None" "\<forall>e\<in>set es. \<not> isTree e" "entry_at i t p m x"
  shows "\<exists>e\<in>set es. p = en_name e \<and> m = en_mode e \<and> x = en_oid e"
  using assms(4)
proof cases
  case (sub es' e p')
  then show ?thesis using assms(1,3) by simp
qed (use assms(1,2) in auto)

lemma Settle_keeps_unvouched_witness:
  "\<exists>out. Settle (Some sample_history) sample_question \<lparr>res_Commands = [], res_Changes = [], res_Bases = []\<rparr> = Inr out \<and>
     (\<exists>ch\<in>set (res_Changes out). ch_Path ch = ''f'' \<and> ch_Mode ch = ''100755'' \<and> ch_OID ch = ''dd'')"
proof -
  let ?i = sample_history and ?r = "\<lparr>res_Commands = [], res_Changes = [], res_Bases = []\<rparr>"
  let ?c = "\<lparr>ci_tree = ''b2'', ci_parents = [''ab'']\<rparr>" and ?d = "\<lparr>ci_tree = ''bb'', ci_parents = [''aa'']\<rparr>"
  have "case Settle (Some ?i) sample_question ?r of Inl _ \<Rightarrow> False | Inr out \<Rightarrow> True" by code_simp
  then obtain out where out: "Settle (Some ?i) sample_question ?r = Inr out" by (auto split: sum.splits)
  have c: "is_commit ?i ''ac''" "commit_of ?i ''ac'' = Some ?c" "commit_of ?i ''ab'' = Some ?d" by code_simp+
  have new: "\<not> vouched ?i sample_question ''ac''"
  proof (rule not_vouched)
    show "sample_question ''ac'' \<noteq> Some True" by code_simp
    show "list_all (\<lambda>c. case commit_of ?i c of None \<Rightarrow> True | Some info \<Rightarrow> ''ac'' \<notin> set (ci_parents info)) (map fst (byOID ?i))"
      by code_simp
  qed
  have t: "tree_entries ?i ''b2'' = Some [\<lparr>en_mode = ''100755'', en_name = ''f'', en_oid = ''dd''\<rparr>]"
    "tree_entries ?i ''bb'' = Some [\<lparr>en_mode = ''100644'', en_name = ''f'', en_oid = ''cc''\<rparr>]"
    "map_of (byOID ?i) ''bb'' \<noteq> None" by code_simp+
  have n: "\<not> isTree \<lparr>en_mode = ''100755'', en_name = ''f'', en_oid = ''dd''\<rparr>" "\<not> isTree \<lparr>en_mode = ''100644'', en_name = ''f'', en_oid = ''cc''\<rparr>"
    by code_simp+
  have e: "entry_at ?i ''b2'' ''f'' ''100755'' ''dd''" using entry_at.plain [OF t(1)] n(1) by simp
  have ne: "\<not> entry_at ?i ''bb'' ''f'' ''100755'' ''dd''"
  proof
    assume "entry_at ?i ''bb'' ''f'' ''100755'' ''dd''"
    from flat_entries [OF t(2,3) _ this] n(2) show False by simp
  qed
  have "\<exists>ch\<in>set (res_Changes out). ch_Path ch = ''f'' \<and> ch_Mode ch = ''100755'' \<and> ch_OID ch = ''dd''"
    using Settle_keeps_unvouched [OF out c(1) new, unfolded c(2)] e ne by (auto simp: c(3))
  then show ?thesis using out by blast
qed

text \<open>The sample push of \<open>GitPack\<close> under rules that deny \<open>.github\<close>.\<close>

definition settled_rules :: pushRuleSet where
  "settled_rules = sample_rules\<lparr>ps_maxFileBytes := 0, ps_denyNewExec := False\<rparr>"

definition settled_request :: "string push_request" where
  "settled_request = \<lparr>pr_encodings = [], pr_body = Body sample_push, pr_length = (\<lambda>b. int (length b)), pr_slot = True,
     pr_inspect = (\<lambda>b. inspect_result (Inspect sample_zlib sample_hashes b))\<rparr>"

lemma forwarded_push_no_denied_path_witness:
  "case Inspect sample_zlib sample_hashes sample_push of
     Inr (res, Some i) \<Rightarrow>
       applyPushRules settled_request (Some settled_rules) False (Some (settling_forge (Some i) sample_forge)) (\<lambda>_. False) \<and>
       (\<exists>out\<in>judged_results res (Some (settling_forge (Some i) sample_forge)).
          \<exists>ch\<in>set (res_Changes out). ch_Path ch = ''f'' \<and> ch_Mode ch = ''100755'')
   | _ \<Rightarrow> False"
proof -
  let ?c = "concat (replicate 20 ''f5'')" and ?t = "concat (replicate 20 ''4f'')" and ?x = "concat (replicate 20 ''ab'')"
  let ?ci = "\<lparr>ci_tree = ?t, ci_parents = []\<rparr>" and ?e = "\<lparr>en_mode = ''100755'', en_name = ''f'', en_oid = ?x\<rparr>"
  let ?new = "\<lambda>i. list_all (\<lambda>c. case commit_of i c of None \<Rightarrow> True | Some info \<Rightarrow> ?c \<notin> set (ci_parents info)) (map fst (byOID i))"
  have "case Inspect sample_zlib sample_hashes sample_push of
     Inr (res, Some i) \<Rightarrow>
       applyPushRules settled_request (Some settled_rules) False (Some (settling_forge (Some i) sample_forge)) (\<lambda>_. False) \<and>
       is_commit i ?c \<and> ?new i \<and> commit_of i ?c = Some ?ci \<and> tree_entries i ?t = Some [?e]
   | _ \<Rightarrow> False"
    by code_simp
  then obtain res i where i: "Inspect sample_zlib sample_hashes sample_push = Inr (res, Some i)"
      "applyPushRules settled_request (Some settled_rules) False (Some (settling_forge (Some i) sample_forge)) (\<lambda>_. False)"
      "is_commit i ?c" "?new i" "commit_of i ?c = Some ?ci" "tree_entries i ?t = Some [?e]"
    by (auto split: sum.splits option.splits)
  have b: "pr_body settled_request = Body sample_push"
    "pr_inspect settled_request sample_push = inspect_result (Inspect sample_zlib sample_hashes sample_push)"
    by (simp_all add: settled_request_def)
  have "vouches sample_forge ?c \<noteq> Some True" "\<not> isTree ?e" by code_simp+
  then have v: "\<not> vouched i (vouches sample_forge) ?c" and e: "entry_at i (ci_tree ?ci) ''f'' ''100755'' ?x"
    using not_vouched [OF _ i(4)] entry_at.plain [OF i(6), of ?e] by simp_all
  have "\<not> inherited i ?ci ''f'' ''100755'' ?x" by (simp add: inherited_def)
  from forwarded_push_no_denied_path [OF i(1) b i(2,3) v i(5) e this] show ?thesis using i(1,2) by auto
qed

end
