(* ===== verification/GovernanceTypes.thy ===== *)
theory GovernanceTypes
  imports PolicyTypes PathGlob GoSlices
begin

section \<open>Governance limits and overlays: internal/types, internal/runner/sizing\<close>

text \<open>
  The other half of a governance profile: the limits on what a person may ask for (\<open>GovernanceLimits\<close>, with the run
  lifetime bounds it embeds), the overlay structs that carry a field's presence as a pointer, the validators a profile
  write and an overlay share, and the deployment's default sandbox size. The configured sizes, two atomic integers set at
  boot, are a record here.
\<close>

subsection \<open>Placements\<close>

type_synonym Placement = string

definition PlacementRemote :: Placement where "PlacementRemote = ''remote''"
definition PlacementLocal :: Placement where "PlacementLocal = ''local''"

lemmas placement_defs = PlacementRemote_def PlacementLocal_def

definition Placement_Valid :: "Placement \<Rightarrow> bool" where
  "Placement_Valid p = (p = PlacementRemote \<or> p = PlacementLocal)"

definition DeniesEveryPlacement :: "Placement list \<Rightarrow> bool" where
  "DeniesEveryPlacement denied = (PlacementRemote \<in> set denied \<and> PlacementLocal \<in> set denied)"

subsection \<open>Limits\<close>

record RunLimits =
  MaxEndAheadSec :: int
  DefaultEndSec :: int
  AllowNoEnd :: bool
  MaxWaitSec :: int
  DefaultWaitSec :: int
  UserChangesLimits :: bool
  PauseIdleAfterSec :: int

record GovernanceLimits =
  LocalSelfDefinedComponents :: bool
  DenyTaskModeExec :: bool
  DenyInteractive :: bool
  DenyUIApps :: bool
  DenyBackgroundDesktopWatch :: bool
  MaxConcurrentRuns :: int
  DenyUserDrive :: bool
  DenyMemberDrives :: bool
  DenyKeptMachines :: bool
  DenyPlacements :: "Placement list"
  AllowedMacOSBases :: "string list"
  AllowedModels :: "string list"
  MaxCPUMillis :: int
  MaxMemoryMiB :: int
  MaxEphemeralDiskMiB :: int
  MaxDriveSizeMiB :: int
  LimRubric :: "AutonomyRubric option"
  LimRun :: RunLimits

definition empty_run_limits :: RunLimits where
  "empty_run_limits =
     \<lparr>MaxEndAheadSec = 0, DefaultEndSec = 0, AllowNoEnd = False, MaxWaitSec = 0, DefaultWaitSec = 0,
      UserChangesLimits = False, PauseIdleAfterSec = 0\<rparr>"

definition empty_limits :: GovernanceLimits where
  "empty_limits =
     \<lparr>LocalSelfDefinedComponents = False, DenyTaskModeExec = False, DenyInteractive = False, DenyUIApps = False,
      DenyBackgroundDesktopWatch = False, MaxConcurrentRuns = 0, DenyUserDrive = False, DenyMemberDrives = False,
      DenyKeptMachines = False, DenyPlacements = [], AllowedMacOSBases = [], AllowedModels = [], MaxCPUMillis = 0,
      MaxMemoryMiB = 0, MaxEphemeralDiskMiB = 0, MaxDriveSizeMiB = 0, LimRubric = None, LimRun = empty_run_limits\<rparr>"

subsection \<open>Overlays\<close>

record ResourcesOverlay =
  ro_CPUMillis :: "int option"
  ro_MemoryMiB :: "int option"
  ro_PidsLimit :: "int option"
  ro_DiskMiB :: "int option"

record PushRulesOverlay =
  po_DenyPaths :: "string list option"
  po_MaxInspectPackMiB :: "int option"
  po_RequireReviewPaths :: "string list option"
  po_HoldSeconds :: "int option"
  po_DenyNewExecutables :: "bool option"
  po_MaxFileSizeMiB :: "int option"
  po_DenyAll :: "bool option"

record CeilingOverlay =
  co_AllowedDomains :: "string list option"
  co_DeniedDomains :: "string list option"
  co_AllowAllEgress :: "bool option"
  co_FirstUseApproval :: "FirstUseMode option"
  co_FirstUseHoldSeconds :: "int option"
  co_MaxHolds :: "int option"
  co_AllowedMethods :: "string list option"
  co_MinConfinementClass :: "ConfinementClass option"
  co_EligibleGrants :: "GrantSpec list option"
  co_AutoStopAfterSec :: "int option"
  co_WorkspaceMounts :: "WorkspaceMount list option"
  co_WorkspaceRepos :: "WorkspaceRepo list option"
  co_LLMInspection :: "LLMInspectionSpec option"
  co_UIApps :: "UIApp list option"
  co_Resources :: "ResourcesOverlay option"
  co_ToolRules :: "ToolRule list option"
  co_GitPushAnyBranch :: "bool option"
  co_PushRules :: "PushRulesOverlay option"
  co_AzureDevOpsCapabilities :: "string list option"
  co_GitHubCapabilities :: "string list option"
  co_InnerWalls :: "HarnessInnerWalls option"
  co_Desktop :: "DesktopControls option"
  co_Recording :: "RecordingLevel option"

record LimitsOverlay =
  lo_LocalSelfDefinedComponents :: "bool option"
  lo_DenyTaskModeExec :: "bool option"
  lo_DenyInteractive :: "bool option"
  lo_DenyUIApps :: "bool option"
  lo_DenyBackgroundDesktopWatch :: "bool option"
  lo_MaxConcurrentRuns :: "int option"
  lo_DenyUserDrive :: "bool option"
  lo_DenyMemberDrives :: "bool option"
  lo_DenyKeptMachines :: "bool option"
  lo_DenyPlacements :: "Placement list option"
  lo_AllowedMacOSBases :: "string list option"
  lo_AllowedModels :: "string list option"
  lo_MaxCPUMillis :: "int option"
  lo_MaxMemoryMiB :: "int option"
  lo_MaxEphemeralDiskMiB :: "int option"
  lo_MaxDriveSizeMiB :: "int option"
  lo_AutonomyRubric :: "AutonomyRubric option"
  lo_MaxEndAheadSec :: "int option"
  lo_DefaultEndSec :: "int option"
  lo_AllowNoEnd :: "bool option"
  lo_MaxWaitSec :: "int option"
  lo_DefaultWaitSec :: "int option"
  lo_UserChangesLimits :: "bool option"
  lo_PauseIdleAfterSec :: "int option"

text \<open>The overlays that name nothing.\<close>

definition empty_ceiling_overlay :: CeilingOverlay where
  "empty_ceiling_overlay =
     \<lparr>co_AllowedDomains = None, co_DeniedDomains = None, co_AllowAllEgress = None, co_FirstUseApproval = None,
      co_FirstUseHoldSeconds = None, co_MaxHolds = None, co_AllowedMethods = None, co_MinConfinementClass = None,
      co_EligibleGrants = None, co_AutoStopAfterSec = None, co_WorkspaceMounts = None, co_WorkspaceRepos = None,
      co_LLMInspection = None, co_UIApps = None, co_Resources = None, co_ToolRules = None, co_GitPushAnyBranch = None,
      co_PushRules = None, co_AzureDevOpsCapabilities = None, co_GitHubCapabilities = None, co_InnerWalls = None,
      co_Desktop = None, co_Recording = None\<rparr>"

definition empty_limits_overlay :: LimitsOverlay where
  "empty_limits_overlay =
     \<lparr>lo_LocalSelfDefinedComponents = None, lo_DenyTaskModeExec = None, lo_DenyInteractive = None, lo_DenyUIApps = None,
      lo_DenyBackgroundDesktopWatch = None, lo_MaxConcurrentRuns = None, lo_DenyUserDrive = None,
      lo_DenyMemberDrives = None, lo_DenyKeptMachines = None, lo_DenyPlacements = None, lo_AllowedMacOSBases = None,
      lo_AllowedModels = None, lo_MaxCPUMillis = None, lo_MaxMemoryMiB = None, lo_MaxEphemeralDiskMiB = None,
      lo_MaxDriveSizeMiB = None, lo_AutonomyRubric = None, lo_MaxEndAheadSec = None, lo_DefaultEndSec = None,
      lo_AllowNoEnd = None, lo_MaxWaitSec = None, lo_DefaultWaitSec = None, lo_UserChangesLimits = None,
      lo_PauseIdleAfterSec = None\<rparr>"

subsection \<open>Validators\<close>

definition MacOSStandardBase :: string where "MacOSStandardBase = ''Standard''"

text \<open>\<open>macOSBaseName\<close>, the regular expression \<open>^[a-z0-9][a-z0-9._-]{0,63}$\<close>, and \<open>ValidMacOSBaseName\<close>.\<close>

definition macOSBaseName :: "string \<Rightarrow> bool" where
  "macOSBaseName s =
     (case s of
        [] \<Rightarrow> False
      | c # t \<Rightarrow> (is_lower c \<or> is_digit c) \<and> length t \<le> 63 \<and>
          list_all (\<lambda>x. is_lower x \<or> is_digit x \<or> x = CHR ''.'' \<or> x = CHR ''_'' \<or> x = CHR ''-'') t)"

definition ValidMacOSBaseName :: "string \<Rightarrow> bool" where
  "ValidMacOSBaseName name = (name = MacOSStandardBase \<or> macOSBaseName name)"

text \<open>The runes of a string, a byte that starts no sequence apart.\<close>

function runes :: "string \<Rightarrow> int option list" where
  "runes s = (case DecodeRune s of None \<Rightarrow> [] | Some (r, t, bad) \<Rightarrow> (if bad then None else Some r) # runes t)"
  by pat_completeness auto
termination
  by (relation "measure length") (auto dest: DecodeRune_shorter)

declare runes.simps [simp del]

definition IsControl :: "int \<Rightarrow> bool" where
  "IsControl r = (0 \<le> r \<and> r \<le> 31 \<or> 127 \<le> r \<and> r \<le> 159)"

definition MaxAllowedModels :: nat where "MaxAllowedModels = 200"
definition MaxAllowedModelLen :: nat where "MaxAllowedModelLen = 200"

fun valid_models :: "string list \<Rightarrow> string list \<Rightarrow> bool" where
  "valid_models seen [] = True"
| "valid_models seen (m # ms) =
     (if m = [] then False
      else if TrimSpace m \<noteq> m then False
      else if list_ex (\<lambda>r. case r of None \<Rightarrow> True | Some c \<Rightarrow> IsControl c) (runes m) then False
      else if length (runes m) > MaxAllowedModelLen then False
      else if m \<in> set seen then False
      else valid_models (m # seen) ms)"

definition ValidAllowedModels :: "string list \<Rightarrow> bool" where
  "ValidAllowedModels list = (length list \<le> MaxAllowedModels \<and> valid_models [] list)"

definition MaxAllowedDomainsPerSpec :: nat where "MaxAllowedDomainsPerSpec = 256"

subsection \<open>The default sandbox size\<close>

record Limits =
  sz_CPUMillis :: int
  sz_MemoryMiB :: int
  sz_PidsLimit :: int

record sizing =
  cfgCPUMillis :: int
  cfgMemoryMiB :: int

definition DefaultCPUMillis :: int where "DefaultCPUMillis = 2000"
definition DefaultMemoryMiB :: int where "DefaultMemoryMiB = 4096"
definition DefaultPidsLimit :: int where "DefaultPidsLimit = 512"

definition EffectiveLimits :: "sizing \<Rightarrow> Limits" where
  "EffectiveLimits z =
     \<lparr>sz_CPUMillis = (if cfgCPUMillis z > 0 then cfgCPUMillis z else DefaultCPUMillis),
      sz_MemoryMiB = (if cfgMemoryMiB z > 0 then cfgMemoryMiB z else DefaultMemoryMiB),
      sz_PidsLimit = DefaultPidsLimit\<rparr>"

lemma EffectiveLimits_pos [simp]:
  "0 < sz_CPUMillis (EffectiveLimits z)" "0 < sz_MemoryMiB (EffectiveLimits z)" "0 < sz_PidsLimit (EffectiveLimits z)"
  by (simp_all add: EffectiveLimits_def DefaultCPUMillis_def DefaultMemoryMiB_def DefaultPidsLimit_def)

end
