(* ===== verification/GrantScope.thy ===== *)
theory GrantScope
  imports PolicyTypes GoSlices
begin

section \<open>Which grant bounds which: internal/composer, internal/types/git_pat_scope.go\<close>

text \<open>
  A grant is a credential kind with a JSON scope. \<open>GrantWithin\<close> (grantwithin.go) decides whether one ceiling grant
  dominates a grant on every axis; the identity of a grant is its pairing (grantbound.go), the scope axes of a personal
  access token and of a GitHub token are compared in pat_scope.go and clamp.go, and \<open>clampGrants\<close> narrows a proposal's
  grants to the ceiling's. Scopes are JSON values; \<open>json.Unmarshal\<close> into a struct is a fold over the object's members
  that returns the value decoded so far and whether every member had the field's type, because one caller ignores the
  error and uses the value. A null inside an array decodes to the empty string, as it does when the key is not repeated.
  The lemmas show that the repository index decides the pairwise rule \<open>PATRepoCovers\<close>, that a grant within the ceiling
  reaches nothing the ceiling's grant does not, and that what the clamp keeps of a covered grant is within the ceiling.
\<close>

subsection \<open>Decoding a scope\<close>

text \<open>A member names a field when the two are equal under the decoder's case folding: ASCII case, the Kelvin sign and the
  long s.\<close>

definition fold_head :: "string \<Rightarrow> char \<times> nat" where
  "fold_head s =
     (if HasPrefix s [CHR 0xE2, CHR 0x84, CHR 0xAA] then (CHR ''k'', 2)
      else if HasPrefix s [CHR 0xC5, CHR 0xBF] then (CHR ''s'', 1)
      else (lower_char (hd s), 0))"

fun fold_key :: "string \<Rightarrow> string" where
  "fold_key [] = []"
| "fold_key (c # s) = (case fold_head (c # s) of (d, n) \<Rightarrow> d # fold_key (drop n s))"

declare fold_key.simps [simp del]

fun set_str :: "json \<Rightarrow> string \<Rightarrow> string \<times> bool" where
  "set_str (JString s) old = (s, True)"
| "set_str JNull old = (old, True)"
| "set_str _ old = (old, False)"

fun set_bool :: "json \<Rightarrow> bool \<Rightarrow> bool \<times> bool" where
  "set_bool (JBool b) old = (b, True)"
| "set_bool JNull old = (old, True)"
| "set_bool _ old = (old, False)"

fun set_strs :: "json \<Rightarrow> string list \<Rightarrow> string list \<times> bool" where
  "set_strs (JArray xs) old = (map (\<lambda>x. fst (set_str x [])) xs, list_all (\<lambda>x. snd (set_str x [])) xs)"
| "set_strs JNull old = ([], True)"
| "set_strs _ old = (old, False)"

fun set_strs_ptr :: "json \<Rightarrow> string list option \<Rightarrow> string list option \<times> bool" where
  "set_strs_ptr JNull old = (None, True)"
| "set_strs_ptr v old = (case set_strs v (case old of None \<Rightarrow> [] | Some xs \<Rightarrow> xs) of (xs, ok) \<Rightarrow> (Some xs, ok))"

fun set_map :: "json \<Rightarrow> (string \<times> string) list option \<Rightarrow> (string \<times> string) list option \<times> bool" where
  "set_map (JObject kvs) old =
     (Some (fold (\<lambda>(k, v) m. AList.update k (fst (set_str v [])) m) kvs (case old of None \<Rightarrow> [] | Some m \<Rightarrow> m)),
      list_all (\<lambda>(k, v). snd (set_str v [])) kvs)"
| "set_map JNull old = (None, True)"
| "set_map _ old = (old, False)"

definition decode_member :: "(string \<Rightarrow> json \<Rightarrow> 'a \<Rightarrow> 'a \<times> bool) \<Rightarrow> string \<times> json \<Rightarrow> 'a \<times> bool \<Rightarrow> 'a \<times> bool" where
  "decode_member field kv acc =
     (case field (fold_key (fst kv)) (snd kv) (fst acc) of (r, ok) \<Rightarrow> (r, snd acc \<and> ok))"

fun unmarshal :: "(string \<Rightarrow> json \<Rightarrow> 'a \<Rightarrow> 'a \<times> bool) \<Rightarrow> 'a \<Rightarrow> raw_message \<Rightarrow> 'a \<times> bool" where
  "unmarshal field zero (RawJSON (JObject kvs)) = fold (decode_member field) kvs (zero, True)"
| "unmarshal field zero (RawJSON JNull) = (zero, True)"
| "unmarshal field zero _ = (zero, False)"

subsection \<open>The scope of a personal access token\<close>

record GitPATScope =
  pat_Host :: string
  pat_SecretName :: string
  pat_Username :: string
  pat_Repos :: "string list option"
  pat_Access :: string
  pat_API :: bool
  pat_Forge :: string

definition pat_zero :: GitPATScope where
  "pat_zero = \<lparr>pat_Host = [], pat_SecretName = [], pat_Username = [], pat_Repos = None, pat_Access = [],
               pat_API = False, pat_Forge = []\<rparr>"

definition pat_field :: "string \<Rightarrow> json \<Rightarrow> GitPATScope \<Rightarrow> GitPATScope \<times> bool" where
  "pat_field k v s =
     (if k = ''host'' then (case set_str v (pat_Host s) of (x, ok) \<Rightarrow> (s\<lparr>pat_Host := x\<rparr>, ok))
      else if k = ''secret_name'' then (case set_str v (pat_SecretName s) of (x, ok) \<Rightarrow> (s\<lparr>pat_SecretName := x\<rparr>, ok))
      else if k = ''username'' then (case set_str v (pat_Username s) of (x, ok) \<Rightarrow> (s\<lparr>pat_Username := x\<rparr>, ok))
      else if k = ''repos'' then (case set_strs_ptr v (pat_Repos s) of (x, ok) \<Rightarrow> (s\<lparr>pat_Repos := x\<rparr>, ok))
      else if k = ''access'' then (case set_str v (pat_Access s) of (x, ok) \<Rightarrow> (s\<lparr>pat_Access := x\<rparr>, ok))
      else if k = ''api'' then (case set_bool v (pat_API s) of (x, ok) \<Rightarrow> (s\<lparr>pat_API := x\<rparr>, ok))
      else if k = ''forge'' then (case set_str v (pat_Forge s) of (x, ok) \<Rightarrow> (s\<lparr>pat_Forge := x\<rparr>, ok))
      else (s, True))"

definition pat_Normalize :: "GitPATScope \<Rightarrow> GitPATScope" where
  "pat_Normalize s =
     (let a = folded (pat_Access s); f = folded (pat_Forge s) in
      s\<lparr>pat_Access := (if a = [] \<or> a = ''write'' then ''write'' else ''read''),
        pat_Forge := (if f = ''gitlab'' \<or> f = ''bitbucket_server'' \<or> f = ''gitea'' then f else ''generic'')\<rparr>)"

definition DecodeGitPATScope :: "raw_message \<Rightarrow> GitPATScope option" where
  "DecodeGitPATScope raw =
     (case unmarshal pat_field pat_zero raw of (sc, ok) \<Rightarrow>
        if \<not> ok then None
        else if pat_Host sc = [] \<or> pat_SecretName sc = [] then None
        else Some (pat_Normalize sc))"

definition pat_forges :: "string list" where
  "pat_forges = [[], ''generic'', ''gitlab'', ''bitbucket_server'', ''gitea'']"

definition PATRepoKey :: "string \<Rightarrow> string \<Rightarrow> string option" where
  "PATRepoKey forge path =
     (if forge \<notin> set pat_forges then None
      else if path = [] \<or> Contains path ''..'' then None
      else if list_ex (\<lambda>c. ord c < 0x20 \<or> ord c = 0x7f \<or> c = CHR ''#'' \<or> c = CHR ''?'' \<or> c = CHR 0x5C) path then None
      else
        let base = TrimSuffix path ''/*'' in
        if base = [] \<or> HasSuffix base ''/*'' then None
        else if list_ex (\<lambda>seg. seg = [] \<or> seg = ''.'') (Split base (CHR ''/'')) then None
        else Some path)"

text \<open>The reference rule: an entry covers itself, and a trailing wildcard exactly one further segment.\<close>

definition PATRepoCovers :: "string \<Rightarrow> string \<Rightarrow> bool" where
  "PATRepoCovers entry key =
     (if entry = key then True
      else if \<not> HasSuffix entry ''/*'' \<or> HasSuffix key ''/*'' then False
      else
        let p = TrimSuffix entry ''/*'' @ ''/''; rest = TrimPrefix key p in
        HasPrefix key p \<and> rest \<noteq> [] \<and> \<not> Contains rest ''/'')"

definition patForgeConstrained :: "GitPATScope \<Rightarrow> bool" where
  "patForgeConstrained cg = (pat_Repos cg \<noteq> None \<or> pat_API cg)"

definition patAccessRank :: "string \<Rightarrow> int" where
  "patAccessRank a = (if a = ''read'' then 1 else 2)"

datatype grant_error =
  UnknownKind | BadScope | NotInCeiling | PairingNotInCeiling
| StripsApproval | StripsOwnerOnly | TTLAbove
| GHUndecodable | GHCeilingUndecodable | GHRepoOutside string | GHPermMissing string | GHPermAbove string
| PATUndecodable | PATCeilingUndecodable | PATForgeDiffers | PATReposOmitted | PATRepoOutside string
| PATAccessAbove | PATApiAbove

text \<open>The index of a repos list: its well-formed keys.\<close>

definition newPATRepoIndex :: "string \<Rightarrow> string list \<Rightarrow> string set" where
  "newPATRepoIndex forge list = set (List.map_filter (PATRepoKey forge) list)"

definition coveredByWildcard :: "string set \<Rightarrow> string \<Rightarrow> bool" where
  "coveredByWildcard ix key =
     (case LastIndexByte key (CHR ''/'') of
        None \<Rightarrow> False
      | Some i \<Rightarrow> if i = 0 \<or> HasSuffix key ''/*'' then False else take i key @ ''/*'' \<in> ix)"

definition index_covers :: "string set \<Rightarrow> string \<Rightarrow> string \<Rightarrow> bool" where
  "index_covers ix forge entry =
     (case PATRepoKey forge entry of
        None \<Rightarrow> False
      | Some key \<Rightarrow> if key \<in> ix then True else coveredByWildcard ix key)"

definition PATScopeWithin :: "raw_message \<Rightarrow> raw_message \<Rightarrow> grant_error option" where
  "PATScopeWithin proposed ceiling =
     (case DecodeGitPATScope proposed of None \<Rightarrow> Some PATUndecodable | Some g \<Rightarrow>
      case DecodeGitPATScope ceiling of None \<Rightarrow> Some PATCeilingUndecodable | Some cg \<Rightarrow>
      if patForgeConstrained cg \<and> pat_Forge g \<noteq> pat_Forge cg then Some PATForgeDiffers
      else
        let repos =
          (case pat_Repos cg of
             None \<Rightarrow> None
           | Some crs \<Rightarrow>
               (case pat_Repos g of
                  None \<Rightarrow> Some PATReposOmitted
                | Some rs \<Rightarrow> map_option PATRepoOutside
                    (find (\<lambda>e. \<not> index_covers (newPATRepoIndex (pat_Forge g) crs) (pat_Forge g) e) rs)))
        in case repos of Some e \<Rightarrow> Some e | None \<Rightarrow>
          if patAccessRank (pat_Access g) > patAccessRank (pat_Access cg) then Some PATAccessAbove
          else if pat_API g \<and> \<not> pat_API cg then Some PATApiAbove
          else None)"

definition patIntersectRepos :: "string \<Rightarrow> string list \<Rightarrow> string list \<Rightarrow> string list" where
  "patIntersectRepos forge a b =
     (let ia = newPATRepoIndex forge a; ib = newPATRepoIndex forge b;
          out = sort_compact (filter (index_covers ib forge) a @ filter (index_covers ia forge) b);
          ix = newPATRepoIndex forge out
      in filter (\<lambda>e. \<not> coveredByWildcard ix e) out)"

definition patReposWithin :: "string \<Rightarrow> string list option \<Rightarrow> string list option \<Rightarrow> bool" where
  "patReposWithin forge a b =
     (case (a, b) of
        (Some xs, Some ys) \<Rightarrow> list_all (index_covers (newPATRepoIndex forge ys) forge) xs
      | _ \<Rightarrow> a = None \<and> b = None)"

text \<open>The warnings a clamp of grants gives; equal texts are equal values here.\<close>

datatype grant_warning =
  WarnPATDropped | WarnPATRepos | WarnPATAccess string string | WarnPATApi
| WarnGHRepos nat | WarnGHPermDropped string | WarnGHPermClamped string string string
| WarnGrantDropped string | WarnTTLCapped string int | WarnApprovalForced string

text \<open>The loop of \<open>PATScopeMeet\<close> over the bounds: the repos met so far and whether they were replaced, the access and
  the API switch. \<open>None\<close> drops the grant.\<close>

fun meet_bounds :: "GitPATScope \<Rightarrow> raw_message list \<Rightarrow> string list option \<times> bool \<times> string \<times> bool
    \<Rightarrow> (string list option \<times> bool \<times> string \<times> bool) option" where
  "meet_bounds s [] acc = Some acc"
| "meet_bounds s (b # bs) (repos, moved, access, api) =
     (case DecodeGitPATScope b of
        None \<Rightarrow> None
      | Some cg \<Rightarrow>
          if patForgeConstrained cg \<and> pat_Forge cg \<noteq> pat_Forge s then None
          else
            let (repos', moved') =
              (case pat_Repos cg of
                 None \<Rightarrow> (repos, moved)
               | Some crs \<Rightarrow>
                   (case repos of
                      None \<Rightarrow> (Some (sort crs), True)
                    | Some rs \<Rightarrow> (Some (patIntersectRepos (pat_Forge s) rs crs), True)))
            in meet_bounds s bs (repos', moved',
                 (if patAccessRank (pat_Access cg) < patAccessRank access then pat_Access cg else access),
                 api \<and> pat_API cg))"

definition marshal_str :: "string \<Rightarrow> string \<Rightarrow> (string \<times> json) list" where
  "marshal_str k v = (if v = [] then [] else [(k, JString v)])"

definition marshal_pat :: "GitPATScope \<Rightarrow> raw_message" where
  "marshal_pat s =
     RawJSON (JObject
       ([(''host'', JString (pat_Host s)), (''secret_name'', JString (pat_SecretName s))] @
        marshal_str ''username'' (pat_Username s) @
        (case pat_Repos s of None \<Rightarrow> [] | Some rs \<Rightarrow> [(''repos'', JArray (map JString rs))]) @
        marshal_str ''access'' (pat_Access s) @
        (if pat_API s then [(''api'', JBool True)] else []) @
        marshal_str ''forge'' (pat_Forge s)))"

text \<open>The scope to write back, from the decoded one and the meet, with a note for each axis that changed.\<close>

definition pat_rewrite :: "GitPATScope \<Rightarrow> GitPATScope \<Rightarrow> string list option \<times> bool \<times> string \<times> bool
    \<Rightarrow> GitPATScope \<times> grant_warning list" where
  "pat_rewrite raw s acc =
     (case acc of (repos, moved, access, api) \<Rightarrow>
        let narrowed = moved \<and> \<not> patReposWithin (pat_Forge s) (pat_Repos s) repos;
            o1 = (if narrowed then raw\<lparr>pat_Repos := repos\<rparr> else raw);
            o2 = (if access \<noteq> pat_Access s then o1\<lparr>pat_Access := access\<rparr> else o1);
            o3 = (if api \<noteq> pat_API s then o2\<lparr>pat_API := api\<rparr> else o2)
        in (o3, (if narrowed then [WarnPATRepos] else []) @
                (if access \<noteq> pat_Access s then [WarnPATAccess (pat_Access s) access] else []) @
                (if api \<noteq> pat_API s then [WarnPATApi] else [])))"

definition PATScopeMeet :: "raw_message \<Rightarrow> raw_message list \<Rightarrow> raw_message option \<times> grant_warning list" where
  "PATScopeMeet g bounds =
     (case unmarshal pat_field pat_zero g of (raw, ok) \<Rightarrow>
      if \<not> ok then (None, [WarnPATDropped])
      else case DecodeGitPATScope g of None \<Rightarrow> (None, [WarnPATDropped]) | Some s \<Rightarrow>
      case meet_bounds s bounds (pat_Repos s, False, pat_Access s, pat_API s) of
        None \<Rightarrow> (None, [WarnPATDropped])
      | Some acc \<Rightarrow>
          if fst acc = Some [] \<and> pat_Repos s \<noteq> Some [] then (None, [WarnPATDropped])
          else case pat_rewrite raw s acc of (out, notes) \<Rightarrow>
            if notes = [] then (Some g, []) else (Some (marshal_pat out), notes))"

subsection \<open>The scope of a GitHub token\<close>

record ghScope =
  gh_Repos :: "string list"
  gh_Permissions :: "(string \<times> string) list option"

definition gh_zero :: ghScope where
  "gh_zero = \<lparr>gh_Repos = [], gh_Permissions = None\<rparr>"

definition gh_field :: "string \<Rightarrow> json \<Rightarrow> ghScope \<Rightarrow> ghScope \<times> bool" where
  "gh_field k v s =
     (if k = ''repos'' then (case set_strs v (gh_Repos s) of (x, ok) \<Rightarrow> (s\<lparr>gh_Repos := x\<rparr>, ok))
      else if k = ''permissions'' then (case set_map v (gh_Permissions s) of (x, ok) \<Rightarrow> (s\<lparr>gh_Permissions := x\<rparr>, ok))
      else (s, True))"

definition gh_perms :: "ghScope \<Rightarrow> (string \<times> string) list" where
  "gh_perms s = (case gh_Permissions s of None \<Rightarrow> [] | Some m \<Rightarrow> m)"

definition permRank :: "string \<Rightarrow> int" where
  "permRank level =
     (let l = folded level in if l = ''admin'' then 3 else if l = ''write'' then 2 else if l = ''read'' then 1 else 0)"

definition gh_decode :: "raw_message \<Rightarrow> ghScope option" where
  "gh_decode raw =
     (if raw = RawEmpty then Some gh_zero
      else case unmarshal gh_field gh_zero raw of (s, ok) \<Rightarrow> if ok then Some s else None)"

definition gh_perm_error :: "(string \<times> string) list \<Rightarrow> string \<times> string \<Rightarrow> grant_error option" where
  "gh_perm_error ceiling pl =
     (case map_of ceiling (fst pl) of
        None \<Rightarrow> Some (GHPermMissing (fst pl))
      | Some cl \<Rightarrow> if permRank (snd pl) > permRank cl then Some (GHPermAbove (fst pl)) else None)"

definition GitHubScopeWithin :: "raw_message \<Rightarrow> raw_message \<Rightarrow> grant_error option" where
  "GitHubScopeWithin proposed ceiling =
     (case gh_decode proposed of None \<Rightarrow> Some GHUndecodable | Some p \<Rightarrow>
      case gh_decode ceiling of None \<Rightarrow> Some GHCeilingUndecodable | Some c \<Rightarrow>
      case find (\<lambda>r. folded r \<notin> toSet (gh_Repos c)) (gh_Repos p) of
        Some r \<Rightarrow> Some (GHRepoOutside r)
      | None \<Rightarrow>
          (case List.map_filter (gh_perm_error (gh_perms c)) (gh_perms p) of
             [] \<Rightarrow> None | e # _ \<Rightarrow> Some e))"

definition clamp_perm :: "(string \<times> string) list \<Rightarrow> string \<times> string \<Rightarrow> (string \<times> string) option" where
  "clamp_perm ceiling pl =
     (case map_of ceiling (fst pl) of
        None \<Rightarrow> None
      | Some cl \<Rightarrow> Some (fst pl, if permRank (snd pl) > permRank cl then cl else snd pl))"

definition clamp_perm_warning :: "(string \<times> string) list \<Rightarrow> string \<times> string \<Rightarrow> grant_warning option" where
  "clamp_perm_warning ceiling pl =
     (case map_of ceiling (fst pl) of
        None \<Rightarrow> Some (WarnGHPermDropped (fst pl))
      | Some cl \<Rightarrow> if permRank (snd pl) > permRank cl then Some (WarnGHPermClamped (fst pl) (snd pl) cl) else None)"

definition marshal_gh :: "ghScope \<Rightarrow> raw_message" where
  "marshal_gh s =
     RawJSON (JObject
       [(''repos'', if gh_Repos s = [] then JNull else JArray (map JString (gh_Repos s))),
        (''permissions'',
           case gh_Permissions s of
             None \<Rightarrow> JNull
           | Some m \<Rightarrow> JObject (map (\<lambda>(k, v). (k, JString v)) (sort_key fst m)))])"

definition clampGitHubScope :: "raw_message \<Rightarrow> raw_message \<Rightarrow> raw_message \<times> grant_warning list" where
  "clampGitHubScope proposed ceiling =
     (let p = fst (unmarshal gh_field gh_zero proposed);
          c = (if ceiling = RawEmpty then gh_zero else fst (unmarshal gh_field gh_zero ceiling));
          (kept, dropped) = go_partition (\<lambda>r. folded r \<in> toSet (gh_Repos c)) (gh_Repos p);
          perms = map_option (List.map_filter (clamp_perm (gh_perms c))) (gh_Permissions p)
      in (marshal_gh \<lparr>gh_Repos = kept, gh_Permissions = perms\<rparr>,
          (if dropped \<noteq> [] then [WarnGHRepos (length dropped)] else []) @
          List.map_filter (clamp_perm_warning (gh_perms c)) (gh_perms p)))"

subsection \<open>The identity of a grant\<close>

record grantPairing =
  gp_host :: string
  gp_secretRef :: string
  gp_knownHostsRef :: string
  gp_header :: string
  gp_format :: string
  gp_requireTLS :: bool

definition no_pairing :: grantPairing where
  "no_pairing = \<lparr>gp_host = [], gp_secretRef = [], gp_knownHostsRef = [], gp_header = [], gp_format = [],
                 gp_requireTLS = False\<rparr>"

definition apiKeyHeader :: "string \<Rightarrow> string" where
  "apiKeyHeader h = (if TrimSpace h = [] then ''authorization'' else folded h)"

definition apiKeyFormat :: "string \<Rightarrow> string" where
  "apiKeyFormat f = (if f = [] then ''Bearer %s'' else f)"

record pairingScope =
  sc_Host :: string
  sc_Name :: string
  sc_File :: string
  sc_SecretName :: string
  sc_KeySecretRef :: string
  sc_KnownHostsSecretRef :: string
  sc_Header :: string
  sc_Format :: string
  sc_RequireTLS :: bool

definition sc_zero :: pairingScope where
  "sc_zero = \<lparr>sc_Host = [], sc_Name = [], sc_File = [], sc_SecretName = [], sc_KeySecretRef = [],
              sc_KnownHostsSecretRef = [], sc_Header = [], sc_Format = [], sc_RequireTLS = False\<rparr>"

definition sc_field :: "string \<Rightarrow> json \<Rightarrow> pairingScope \<Rightarrow> pairingScope \<times> bool" where
  "sc_field k v s =
     (if k = ''host'' then (case set_str v (sc_Host s) of (x, ok) \<Rightarrow> (s\<lparr>sc_Host := x\<rparr>, ok))
      else if k = ''name'' then (case set_str v (sc_Name s) of (x, ok) \<Rightarrow> (s\<lparr>sc_Name := x\<rparr>, ok))
      else if k = ''file'' then (case set_str v (sc_File s) of (x, ok) \<Rightarrow> (s\<lparr>sc_File := x\<rparr>, ok))
      else if k = ''secret_name'' then (case set_str v (sc_SecretName s) of (x, ok) \<Rightarrow> (s\<lparr>sc_SecretName := x\<rparr>, ok))
      else if k = ''key_secret_ref'' then (case set_str v (sc_KeySecretRef s) of (x, ok) \<Rightarrow> (s\<lparr>sc_KeySecretRef := x\<rparr>, ok))
      else if k = ''known_hosts_secret_ref'' then
        (case set_str v (sc_KnownHostsSecretRef s) of (x, ok) \<Rightarrow> (s\<lparr>sc_KnownHostsSecretRef := x\<rparr>, ok))
      else if k = ''header'' then (case set_str v (sc_Header s) of (x, ok) \<Rightarrow> (s\<lparr>sc_Header := x\<rparr>, ok))
      else if k = ''format'' then (case set_str v (sc_Format s) of (x, ok) \<Rightarrow> (s\<lparr>sc_Format := x\<rparr>, ok))
      else if k = ''require_tls'' then (case set_bool v (sc_RequireTLS s) of (x, ok) \<Rightarrow> (s\<lparr>sc_RequireTLS := x\<rparr>, ok))
      else (s, True))"

definition GrantAPIKey :: GrantKind where "GrantAPIKey = ''api_key''"
definition GrantGitPAT :: GrantKind where "GrantGitPAT = ''git_pat''"
definition GrantSSHKey :: GrantKind where "GrantSSHKey = ''ssh_key''"
definition GrantEnvSecret :: GrantKind where "GrantEnvSecret = ''env_secret''"
definition GrantFileSecret :: GrantKind where "GrantFileSecret = ''file_secret''"
definition GrantGitHubToken :: GrantKind where "GrantGitHubToken = ''github_token''"
definition GrantCloudSTS :: GrantKind where "GrantCloudSTS = ''cloud_sts''"

lemmas grant_kind_defs =
  GrantAPIKey_def GrantGitPAT_def GrantSSHKey_def GrantEnvSecret_def GrantFileSecret_def GrantGitHubToken_def
  GrantCloudSTS_def

text \<open>\<open>grantPairingOf\<close>: the pairing, whether the kind names a stored secret, whether the scope gives one.\<close>

definition grantPairingOf :: "GrantSpec \<Rightarrow> grantPairing \<times> bool \<times> bool" where
  "grantPairingOf g =
     (case unmarshal sc_field sc_zero (Scope g) of (sc, ok) \<Rightarrow>
      if Kind g = GrantAPIKey then
        (if \<not> ok \<or> sc_Host sc = [] \<or> sc_SecretName sc = [] then (no_pairing, True, False)
         else (no_pairing\<lparr>gp_host := sc_Host sc, gp_secretRef := sc_SecretName sc,
                 gp_header := apiKeyHeader (sc_Header sc), gp_format := apiKeyFormat (sc_Format sc),
                 gp_requireTLS := sc_RequireTLS sc\<rparr>, True, True))
      else if Kind g = GrantGitPAT then
        (case DecodeGitPATScope (Scope g) of
           None \<Rightarrow> (no_pairing, True, False)
         | Some pat \<Rightarrow> (no_pairing\<lparr>gp_host := pat_Host pat, gp_secretRef := pat_SecretName pat\<rparr>, True, True))
      else if Kind g = GrantSSHKey then
        (if \<not> ok \<or> sc_Host sc = [] \<or> sc_KeySecretRef sc = [] then (no_pairing, True, False)
         else (no_pairing\<lparr>gp_host := sc_Host sc, gp_secretRef := sc_KeySecretRef sc,
                 gp_knownHostsRef := sc_KnownHostsSecretRef sc\<rparr>, True, True))
      else if Kind g = GrantEnvSecret then
        (if \<not> ok \<or> sc_Name sc = [] \<or> sc_SecretName sc = [] then (no_pairing, True, False)
         else (no_pairing\<lparr>gp_host := sc_Name sc, gp_secretRef := sc_SecretName sc\<rparr>, True, True))
      else if Kind g = GrantFileSecret then
        (if \<not> ok \<or> sc_File sc = [] \<or> sc_SecretName sc = [] then (no_pairing, True, False)
         else (no_pairing\<lparr>gp_host := sc_File sc, gp_secretRef := sc_SecretName sc\<rparr>, True, True))
      else (no_pairing, False, True))"

definition samePairing :: "grantPairing \<Rightarrow> grantPairing \<Rightarrow> bool" where
  "samePairing a b =
     (let norm = (\<lambda>h. ToLower (TrimSuffix (TrimSpace h) ''.'')) in
      gp_secretRef a = gp_secretRef b \<and> norm (gp_host a) = norm (gp_host b) \<and>
      gp_knownHostsRef a = gp_knownHostsRef b \<and> gp_header a = gp_header b \<and> gp_format a = gp_format b \<and>
      gp_requireTLS a = gp_requireTLS b)"

definition pairs_with :: "GrantSpec \<Rightarrow> grantPairing \<Rightarrow> bool" where
  "pairs_with cg want = (case grantPairingOf cg of (got, covered, ok) \<Rightarrow> covered \<and> ok \<and> samePairing got want)"

definition PairingInCeiling :: "GrantSpec \<Rightarrow> GrantSpec list \<Rightarrow> bool" where
  "PairingInCeiling g ceiling =
     (case grantPairingOf g of (want, covered, ok) \<Rightarrow>
        if \<not> covered \<or> \<not> ok then False
        else list_ex (\<lambda>cg. Kind cg = Kind g \<and> pairs_with cg want) ceiling)"

definition ceilingGrantsBounding :: "GrantSpec \<Rightarrow> GrantSpec list \<Rightarrow> GrantSpec list" where
  "ceilingGrantsBounding g ceiling =
     (let sameKind = filter (\<lambda>cg. Kind cg = Kind g) ceiling in
      if length sameKind \<le> 1 then sameKind
      else case grantPairingOf g of (want, covered, ok) \<Rightarrow>
        if \<not> covered \<or> \<not> ok then sameKind
        else case find (\<lambda>cg. pairs_with cg want) sameKind of Some cg \<Rightarrow> [cg] | None \<Rightarrow> sameKind)"

definition CeilingGrantsCovering :: "GrantSpec \<Rightarrow> GrantSpec list \<Rightarrow> GrantSpec list" where
  "CeilingGrantsCovering g ceiling =
     (case grantPairingOf g of (want, covered, ok) \<Rightarrow>
        filter (\<lambda>cg. Kind cg = Kind g \<and> (\<not> covered \<or> ok \<and> pairs_with cg want)) ceiling)"

text \<open>\<open>DuplicatePairing\<close>: the first entry that repeats an earlier one's pairing, with the earlier index.\<close>

definition named_pairing :: "GrantSpec \<Rightarrow> grantPairing option" where
  "named_pairing g = (case grantPairingOf g of (want, covered, ok) \<Rightarrow> if covered \<and> ok then Some want else None)"

definition prior_pairing :: "GrantSpec list \<Rightarrow> nat \<Rightarrow> nat option" where
  "prior_pairing grants j =
     (case named_pairing (grants ! j) of
        None \<Rightarrow> None
      | Some want \<Rightarrow> find (\<lambda>i. Kind (grants ! i) = Kind (grants ! j) \<and> pairs_with (grants ! i) want) [0..<j])"

definition DuplicatePairing :: "GrantSpec list \<Rightarrow> (nat \<times> nat) option" where
  "DuplicatePairing grants =
     (case List.map_filter (\<lambda>j. map_option (\<lambda>i. (i, j)) (prior_pairing grants j)) [0..<length grants] of
        [] \<Rightarrow> None | p # _ \<Rightarrow> Some p)"

subsection \<open>Dominance\<close>

definition maxGrantTTLSeconds :: int where "maxGrantTTLSeconds = 3600"

definition normalizeClampTTL :: "int \<Rightarrow> int" where
  "normalizeClampTTL ttl = (if ttl \<le> 0 \<or> ttl > maxGrantTTLSeconds then maxGrantTTLSeconds else ttl)"

definition knownKinds :: "GrantKind list" where
  "knownKinds = [GrantAPIKey, GrantGitPAT, GrantSSHKey, GrantEnvSecret, GrantFileSecret, GrantGitHubToken, GrantCloudSTS]"

text \<open>The body of the loop of \<open>GrantWithin\<close>: how far one covering ceiling grant is from dominating, with its rank.\<close>

definition bound_failure :: "GrantSpec \<Rightarrow> GrantSpec \<Rightarrow> (nat \<times> grant_error) option" where
  "bound_failure g cg =
     (if RequiresApproval cg \<and> \<not> RequiresApproval g then Some (0, StripsApproval)
      else if OwnerOnly cg \<and> \<not> OwnerOnly g then Some (1, StripsOwnerOnly)
      else if normalizeClampTTL (TTLSeconds g) > normalizeClampTTL (TTLSeconds cg) then Some (2, TTLAbove)
      else case (if Kind g = GrantGitHubToken then GitHubScopeWithin (Scope g) (Scope cg) else None) of
        Some e \<Rightarrow> Some (3, e)
      | None \<Rightarrow>
          (case (if Kind g = GrantGitPAT then PATScopeWithin (Scope g) (Scope cg) else None) of
             Some e \<Rightarrow> Some (4, e)
           | None \<Rightarrow> None))"

fun within_loop :: "GrantSpec \<Rightarrow> GrantSpec list \<Rightarrow> (nat \<times> grant_error) option \<Rightarrow> grant_error option" where
  "within_loop g [] worst = map_option snd worst"
| "within_loop g (cg # cgs) worst =
     (case bound_failure g cg of
        None \<Rightarrow> None
      | Some (rank, e) \<Rightarrow>
          within_loop g cgs
            (case worst of None \<Rightarrow> Some (rank, e) | Some (r, e0) \<Rightarrow> if rank \<ge> r then Some (rank, e) else worst))"

definition GrantWithin :: "GrantSpec \<Rightarrow> GrantSpec list \<Rightarrow> grant_error option" where
  "GrantWithin g ceiling =
     (if Kind g \<notin> set knownKinds then Some UnknownKind
      else case grantPairingOf g of (pairing, covered, ok) \<Rightarrow>
      if \<not> ok then Some BadScope
      else
        let covering = CeilingGrantsCovering g ceiling in
        if covering = [] then
          Some (if covered \<and> list_ex (\<lambda>cg. Kind cg = Kind g) ceiling then PairingNotInCeiling else NotInCeiling)
        else within_loop g covering None)"

definition grantDominatedBy :: "GrantSpec \<Rightarrow> GrantSpec \<Rightarrow> bool" where
  "grantDominatedBy g cg =
     (if RequiresApproval cg \<and> \<not> RequiresApproval g then False
      else if normalizeClampTTL (TTLSeconds g) > normalizeClampTTL (TTLSeconds cg) then False
      else if Kind g = GrantGitHubToken \<and> GitHubScopeWithin (Scope g) (Scope cg) \<noteq> None then False
      else if Kind g = GrantGitPAT \<and> PATScopeWithin (Scope g) (Scope cg) \<noteq> None then False
      else True)"

subsection \<open>Clamping a proposal's grants\<close>

definition clamp_bounds :: "GrantSpec \<Rightarrow> GrantSpec list \<Rightarrow> GrantSpec list" where
  "clamp_bounds g ceiling =
     (let covering = CeilingGrantsCovering g ceiling in
      if covering = [] then ceilingGrantsBounding g ceiling
      else case find (grantDominatedBy g) covering of Some cg \<Rightarrow> [cg] | None \<Rightarrow> covering)"

fun clamp_github :: "raw_message \<Rightarrow> GrantSpec list \<Rightarrow> raw_message \<times> grant_warning list" where
  "clamp_github scope [] = (scope, [])"
| "clamp_github scope (cg # cgs) =
     (case clampGitHubScope scope (Scope cg) of (scope', w) \<Rightarrow>
      case clamp_github scope' cgs of (scope'', w') \<Rightarrow> (scope'', w @ w'))"

definition ttl_cap :: "GrantSpec list \<Rightarrow> int" where
  "ttl_cap bounds =
     fold (\<lambda>cg mx. if TTLSeconds cg > 0 \<and> TTLSeconds cg < mx then TTLSeconds cg else mx) bounds maxGrantTTLSeconds"

text \<open>The tail of the loop body: the TTL cap, then approval and owner_only forced on.\<close>

definition clamp_axes :: "GrantSpec \<Rightarrow> GrantSpec list \<Rightarrow> GrantSpec \<times> grant_warning list" where
  "clamp_axes g bounds =
     (let mx = ttl_cap bounds;
          capped = TTLSeconds g \<le> 0 \<or> TTLSeconds g > mx;
          g1 = (if capped then g\<lparr>TTLSeconds := mx\<rparr> else g);
          forced = \<not> RequiresApproval g1 \<and> list_ex RequiresApproval bounds;
          g2 = (if forced then g1\<lparr>RequiresApproval := True\<rparr> else g1);
          g3 = (if \<not> OwnerOnly g2 \<and> list_ex OwnerOnly bounds then g2\<lparr>OwnerOnly := True\<rparr> else g2)
      in (g3, (if TTLSeconds g > mx then [WarnTTLCapped (Kind g) mx] else []) @
              (if forced then [WarnApprovalForced (Kind g)] else [])))"

definition clamp_grant :: "GrantSpec \<Rightarrow> GrantSpec list \<Rightarrow> GrantSpec option \<times> grant_warning list" where
  "clamp_grant g ceiling =
     (let bounds = clamp_bounds g ceiling in
      if bounds = [] then (None, [WarnGrantDropped (Kind g)])
      else if Kind g = GrantGitHubToken then
        (case clamp_github (Scope g) bounds of (scope, w) \<Rightarrow>
         case clamp_axes (g\<lparr>Scope := scope\<rparr>) bounds of (g', w') \<Rightarrow> (Some g', dedupeStrings w @ w'))
      else if Kind g = GrantGitPAT then
        (case PATScopeMeet (Scope g) (map Scope bounds) of
           (None, w) \<Rightarrow> (None, dedupeStrings w)
         | (Some scope, w) \<Rightarrow>
             (case clamp_axes (g\<lparr>Scope := scope\<rparr>) bounds of (g', w') \<Rightarrow> (Some g', dedupeStrings w @ w')))
      else (case clamp_axes g bounds of (g', w') \<Rightarrow> (Some g', w')))"

fun clampGrants :: "GrantSpec list \<Rightarrow> GrantSpec list \<Rightarrow> GrantSpec list \<times> grant_warning list" where
  "clampGrants [] ceiling = ([], [])"
| "clampGrants (g # gs) ceiling =
     (case clamp_grant g ceiling of (kept, w) \<Rightarrow>
      case clampGrants gs ceiling of (out, w') \<Rightarrow>
        ((case kept of None \<Rightarrow> out | Some g' \<Rightarrow> g' # out), w @ w'))"

subsection \<open>Repository entries\<close>

lemma PATRepoKey_same: "PATRepoKey f p = Some k \<Longrightarrow> k = p"
  by (auto simp: PATRepoKey_def Let_def split: if_splits)

lemma index_mem: "k \<in> newPATRepoIndex f xs \<longleftrightarrow> k \<in> set xs \<and> PATRepoKey f k = Some k"
proof -
  have "k \<in> newPATRepoIndex f xs \<longleftrightarrow> (\<exists>x\<in>set xs. PATRepoKey f x = Some k)"
    by (force simp: newPATRepoIndex_def map_filter_def)
  then show ?thesis using PATRepoKey_same by metis
qed

lemma Split_last_field: "c \<notin> set b \<Longrightarrow> b \<in> set (Split (a @ c # b) c)"
  by (simp add: Split_append Split_no_sep)

lemma key_last_segment:
  assumes "PATRepoKey f key = Some key" "\<not> HasSuffix key ''/*''" "key = base @ CHR ''/'' # rest" "CHR ''/'' \<notin> set rest"
  shows "rest \<noteq> []" "base \<noteq> []"
proof -
  have t: "TrimSuffix key ''/*'' = key" using assms(2) by (simp add: TrimSuffix_def)
  have segs: "seg \<in> set (Split key (CHR ''/'')) \<Longrightarrow> seg \<noteq> []" for seg
    using assms(1) by (auto simp: PATRepoKey_def Let_def t list_ex_iff split: if_splits)
  show "rest \<noteq> []" using segs Split_last_field [OF assms(4), of base] assms(3) by blast
  show "base \<noteq> []" using segs Split_append_sep [of "CHR ''/''" "[]" rest] assms(3) by fastforce
qed

text \<open>The wildcard lookup decides the pairwise rule, for keys that are not the entry itself.\<close>

lemma coveredByWildcard_iff:
  assumes key: "PATRepoKey f key = Some key"
  shows "coveredByWildcard ix key \<longleftrightarrow> (\<exists>entry\<in>ix. entry \<noteq> key \<and> PATRepoCovers entry key)"
proof (cases "HasSuffix key ''/*''")
  case True
  then show ?thesis by (auto simp: coveredByWildcard_def PATRepoCovers_def split: option.splits)
next
  case False
  note wild = this
  show ?thesis
  proof
    assume "coveredByWildcard ix key"
    then obtain i where i: "LastIndexByte key (CHR ''/'') = Some i" "take i key @ ''/*'' \<in> ix"
      by (auto simp: coveredByWildcard_def split: option.splits if_splits)
    then have k: "key = take i key @ CHR ''/'' # drop (Suc i) key" "CHR ''/'' \<notin> set (drop (Suc i) key)"
      using LastIndexByte_Some by blast+
    have ne: "drop (Suc i) key \<noteq> []" using key_last_segment [OF key wild k] by blast
    let ?e = "take i key @ ''/*''" and ?p = "take i key @ ''/''"
    have t: "TrimSuffix ?e ''/*'' = take i key" by simp
    have "HasPrefix key ?p" using k(1) by (auto simp: HasPrefix_iff)
    moreover have "TrimPrefix (?p @ drop (Suc i) key) ?p = drop (Suc i) key" by (simp add: TrimPrefix_def HasPrefix_def)
    then have "TrimPrefix key ?p = drop (Suc i) key" using k(1) by simp
    moreover have "HasSuffix ?e ''/*''" by (auto simp: HasSuffix_iff)
    ultimately have "PATRepoCovers ?e key" using wild ne k(2) by (simp add: PATRepoCovers_def t Contains_one Let_def)
    moreover have "?e \<noteq> key" using wild by (metis HasSuffix_iff)
    ultimately show "\<exists>entry\<in>ix. entry \<noteq> key \<and> PATRepoCovers entry key" using i(2) by blast
  next
    assume "\<exists>entry\<in>ix. entry \<noteq> key \<and> PATRepoCovers entry key"
    then obtain entry where e: "entry \<in> ix" "entry \<noteq> key" "PATRepoCovers entry key" by blast
    then obtain base where b: "entry = base @ ''/*''" by (auto simp: PATRepoCovers_def HasSuffix_iff split: if_splits)
    then have t: "TrimSuffix entry ''/*'' = base" by simp
    have pre: "HasPrefix key (base @ ''/'')" "CHR ''/'' \<notin> set (TrimPrefix key (base @ ''/''))"
      using e(2,3) by (auto simp: PATRepoCovers_def t Contains_one Let_def split: if_splits)
    then obtain rest where r: "key = base @ CHR ''/'' # rest" by (auto simp: HasPrefix_iff)
    have "CHR ''/'' \<notin> set rest" using pre by (simp add: r TrimPrefix_def HasPrefix_def)
    then have "LastIndexByte key (CHR ''/'') = Some (length base)" "base \<noteq> []"
      using r LastIndexByte_append key_last_segment(2) [OF key wild r] by auto
    then show "coveredByWildcard ix key" using e(1) b r wild by (simp add: coveredByWildcard_def)
  qed
qed

definition repo_ok :: "string \<Rightarrow> string \<Rightarrow> bool" where
  "repo_ok f e \<longleftrightarrow> PATRepoKey f e = Some e"

lemma index_covers_iff:
  "index_covers (newPATRepoIndex f xs) f e \<longleftrightarrow> repo_ok f e \<and> (\<exists>x\<in>set xs. repo_ok f x \<and> PATRepoCovers x e)"
proof (cases "PATRepoKey f e")
  case None
  then show ?thesis by (simp add: index_covers_def repo_ok_def)
next
  case (Some k)
  then have k: "PATRepoKey f e = Some e" using PATRepoKey_same by blast
  have "PATRepoCovers e e" by (simp add: PATRepoCovers_def)
  then show ?thesis
    using k coveredByWildcard_iff [OF k, of "newPATRepoIndex f xs"]
    by (auto simp: index_covers_def index_mem repo_ok_def)
qed

text \<open>
  C39: the repository index of a git_pat scope decides the pairwise rule. An entry is covered by an indexed list exactly
  when it is well formed and some well-formed entry of the list covers it by \<open>PATRepoCovers\<close>: equal, or a trailing
  wildcard one level above. The two map lookups miss no entry and invent none.
\<close>

theorem index_decides_covers:
  "index_covers (newPATRepoIndex f xs) f e \<longleftrightarrow>
     PATRepoKey f e = Some e \<and> (\<exists>x\<in>set xs. PATRepoKey f x = Some x \<and> PATRepoCovers x e)"
  by (simp add: index_covers_iff repo_ok_def)

lemma PATRepoCovers_refl [simp]: "PATRepoCovers e e"
  by (simp add: PATRepoCovers_def)

lemma PATRepoCovers_wild: "PATRepoCovers x e \<Longrightarrow> x \<noteq> e \<Longrightarrow> HasSuffix x ''/*'' \<and> \<not> HasSuffix e ''/*''"
  by (auto simp: PATRepoCovers_def split: if_splits)

lemma PATRepoCovers_trans: "PATRepoCovers x y \<Longrightarrow> PATRepoCovers y e \<Longrightarrow> PATRepoCovers x e"
  using PATRepoCovers_wild by metis

text \<open>One repos list within another.\<close>

definition repos_within :: "string \<Rightarrow> string list \<Rightarrow> string list \<Rightarrow> bool" where
  "repos_within f xs ys \<longleftrightarrow> (\<forall>x\<in>set xs. index_covers (newPATRepoIndex f ys) f x)"

lemma repos_within_refl: "\<forall>x\<in>set xs. repo_ok f x \<Longrightarrow> repos_within f xs xs"
  using PATRepoCovers_refl by (auto simp: repos_within_def index_covers_iff simp del: PATRepoCovers_refl)

lemma repos_within_trans: "repos_within f xs ys \<Longrightarrow> repos_within f ys zs \<Longrightarrow> repos_within f xs zs"
  by (auto simp: repos_within_def index_covers_iff intro: PATRepoCovers_trans) (meson PATRepoCovers_trans)

lemma intersect_within: "repos_within f (patIntersectRepos f a b) a \<and> repos_within f (patIntersectRepos f a b) b"
proof -
  have "x \<in> set (patIntersectRepos f a b) \<Longrightarrow>
      x \<in> set a \<and> index_covers (newPATRepoIndex f b) f x \<or> x \<in> set b \<and> index_covers (newPATRepoIndex f a) f x" for x
    by (auto simp: patIntersectRepos_def Let_def)
  then show ?thesis unfolding repos_within_def by (intro conjI ballI) (metis index_covers_iff PATRepoCovers_refl)+
qed

lemma patReposWithin_Some: "patReposWithin f (Some xs) (Some ys) \<longleftrightarrow> repos_within f xs ys"
  by (auto simp: patReposWithin_def repos_within_def list_all_iff)

subsection \<open>Scopes as sets of operations\<close>

text \<open>What a decoded token scope admits: a repository, with write access or not, through git or through the forge's API.\<close>

definition pat_admits :: "GitPATScope \<Rightarrow> string \<Rightarrow> bool \<Rightarrow> bool \<Rightarrow> bool" where
  "pat_admits s path wr api \<longleftrightarrow>
     (case pat_Repos s of
        None \<Rightarrow> True
      | Some rs \<Rightarrow> \<exists>e\<in>set rs. repo_ok (pat_Forge s) e \<and> PATRepoCovers e path) \<and>
     (wr \<longrightarrow> pat_Access s = ''write'') \<and> (api \<longrightarrow> pat_API s)"

text \<open>The decoded comparison.\<close>

definition pat_le :: "GitPATScope \<Rightarrow> GitPATScope \<Rightarrow> bool" where
  "pat_le g cg \<longleftrightarrow>
     (patForgeConstrained cg \<longrightarrow> pat_Forge g = pat_Forge cg) \<and>
     (\<forall>crs. pat_Repos cg = Some crs \<longrightarrow> (\<exists>rs. pat_Repos g = Some rs \<and> repos_within (pat_Forge g) rs crs)) \<and>
     patAccessRank (pat_Access g) \<le> patAccessRank (pat_Access cg) \<and> (pat_API g \<longrightarrow> pat_API cg)"

lemma find_SomeD: "find P xs = Some x \<Longrightarrow> x \<in> set xs \<and> P x"
  by (metis find_Some_iff nth_mem)

lemma PATScopeWithin_None:
  "PATScopeWithin p c = None \<longleftrightarrow>
     (\<exists>g cg. DecodeGitPATScope p = Some g \<and> DecodeGitPATScope c = Some cg \<and> pat_le g cg)"
  by (auto simp: PATScopeWithin_def pat_le_def Let_def repos_within_def find_None_iff split: option.splits if_splits
      dest: find_SomeD)

lemma decoded_access: "DecodeGitPATScope r = Some s \<Longrightarrow> pat_Access s = ''write'' \<or> pat_Access s = ''read''"
  by (auto simp: DecodeGitPATScope_def pat_Normalize_def Let_def split: prod.splits if_splits)

lemma repo_ok_forge: "f \<in> set pat_forges \<Longrightarrow> f' \<in> set pat_forges \<Longrightarrow> repo_ok f e = repo_ok f' e"
  by (auto simp: repo_ok_def PATRepoKey_def)

lemma decoded_forge: "DecodeGitPATScope r = Some s \<Longrightarrow> pat_Forge s \<in> set pat_forges"
  by (auto simp: DecodeGitPATScope_def pat_Normalize_def Let_def pat_forges_def split: prod.splits if_splits)

text \<open>
  C40: a personal access token scope within another admits nothing the other does not. Whenever \<open>PATScopeWithin\<close> accepts,
  every repository, access and API use the proposal's scope admits is admitted by the ceiling's scope, with each omitted
  field read as its default: no repos list is every repository, no access is write, no api is off.
\<close>

theorem pat_within_admits:
  assumes "PATScopeWithin p c = None"
  shows "\<exists>g cg. DecodeGitPATScope p = Some g \<and> DecodeGitPATScope c = Some cg \<and>
    (\<forall>path wr api. pat_admits g path wr api \<longrightarrow> pat_admits cg path wr api)"
proof -
  obtain g cg where g: "DecodeGitPATScope p = Some g" "DecodeGitPATScope c = Some cg" "pat_le g cg"
    using assms by (auto simp: PATScopeWithin_None)
  have f: "repo_ok (pat_Forge g) e = repo_ok (pat_Forge cg) e" for e
    using repo_ok_forge decoded_forge g(1,2) by blast
  have "pat_admits cg path wr api" if adm: "pat_admits g path wr api" for path wr api
  proof -
    have "\<exists>e\<in>set crs. repo_ok (pat_Forge cg) e \<and> PATRepoCovers e path" if c: "pat_Repos cg = Some crs" for crs
    proof -
      obtain rs where rs: "pat_Repos g = Some rs" "repos_within (pat_Forge g) rs crs" using g(3) c by (auto simp: pat_le_def)
      then obtain e where "e \<in> set rs" "PATRepoCovers e path" using adm by (auto simp: pat_admits_def)
      then show ?thesis using rs(2) f by (metis repos_within_def index_covers_iff PATRepoCovers_trans)
    qed
    moreover have "wr \<longrightarrow> pat_Access cg = ''write''"
      using adm g(3) decoded_access [OF g(2)] by (auto simp: pat_admits_def pat_le_def patAccessRank_def)
    moreover have "api \<longrightarrow> pat_API cg" using adm g(3) by (auto simp: pat_admits_def pat_le_def)
    ultimately show ?thesis by (simp add: pat_admits_def split: option.splits)
  qed
  then show ?thesis using g by blast
qed

text \<open>The GitHub comparison on decoded scopes, and what a clamp leaves.\<close>

definition gh_le :: "ghScope \<Rightarrow> ghScope \<Rightarrow> bool" where
  "gh_le p c \<longleftrightarrow> (\<forall>r\<in>set (gh_Repos p). folded r \<in> toSet (gh_Repos c)) \<and>
     (\<forall>k l. (k, l) \<in> set (gh_perms p) \<longrightarrow> (\<exists>cl. map_of (gh_perms c) k = Some cl \<and> permRank l \<le> permRank cl))"

lemma map_filter_Nil: "List.map_filter f xs = [] \<longleftrightarrow> (\<forall>x\<in>set xs. f x = None)"
  by (induction xs) (auto simp: List.map_filter_simps split: option.splits)

lemma gh_perm_error_None:
  "gh_perm_error c (k, l) = None \<longleftrightarrow> (\<exists>cl. map_of c k = Some cl \<and> permRank l \<le> permRank cl)"
  by (auto simp: gh_perm_error_def split: option.splits)

lemma GitHubScopeWithin_None:
  "GitHubScopeWithin p c = None \<longleftrightarrow> (\<exists>s t. gh_decode p = Some s \<and> gh_decode c = Some t \<and> gh_le s t)"
proof -
  have perms: "List.map_filter (gh_perm_error (gh_perms t)) (gh_perms s) = [] \<longleftrightarrow>
      (\<forall>k l. (k, l) \<in> set (gh_perms s) \<longrightarrow> (\<exists>cl. map_of (gh_perms t) k = Some cl \<and> permRank l \<le> permRank cl))" for s t
    by (simp add: map_filter_Nil Ball_def gh_perm_error_None)
  show ?thesis
  proof (cases "gh_decode p")
    case (Some s)
    note p = this
    show ?thesis
    proof (cases "gh_decode c")
      case (Some t)
      have "GitHubScopeWithin p c = None \<longleftrightarrow> find (\<lambda>r. folded r \<notin> toSet (gh_Repos t)) (gh_Repos s) = None \<and>
          List.map_filter (gh_perm_error (gh_perms t)) (gh_perms s) = []"
        by (simp add: GitHubScopeWithin_def p Some split: option.splits list.splits)
      then show ?thesis using p Some by (auto simp: find_None_iff gh_le_def perms)
    qed (simp add: GitHubScopeWithin_def p)
  qed (simp add: GitHubScopeWithin_def)
qed

subsection \<open>What a clamp leaves of a GitHub scope\<close>

lemma set_update_subset: "set (AList.update k v m) \<subseteq> insert (k, v) (set m)"
  by (induction m) (auto split: if_splits)

lemma set_fold_update: "set (fold (\<lambda>(k, v) m. AList.update k (g v) m) kvs m) \<subseteq> set m \<union> (\<lambda>(k, v). (k, g v)) ` set kvs"
proof (induction kvs arbitrary: m)
  case (Cons kv kvs)
  obtain k v where "kv = (k, v)" by (cases kv)
  then show ?case using Cons [of "AList.update k (g v) m"] set_update_subset [of k "g v" m] by auto
qed simp

lemma fold_key_ascii [simp]:
  "fold_key ''repos'' = ''repos''" "fold_key ''permissions'' = ''permissions''" "fold_key ''host'' = ''host''"
  "fold_key ''secret_name'' = ''secret_name''" "fold_key ''username'' = ''username''" "fold_key ''access'' = ''access''"
  "fold_key ''api'' = ''api''" "fold_key ''forge'' = ''forge''"
  by code_simp+

lemma set_str_JString [simp]:
  "map (\<lambda>x. fst (set_str x [])) (map JString xs) = xs" "map ((\<lambda>x. fst (set_str x [])) \<circ> JString) xs = xs"
  "list_all (\<lambda>x. snd (set_str x [])) (map JString xs)"
  by (simp_all add: comp_def list_all_iff)

text \<open>A scope that was written back decodes to the same repositories and to none but the same permissions.\<close>

lemma unmarshal_marshal_gh:
  "\<exists>s'. unmarshal gh_field gh_zero (marshal_gh s) = (s', True) \<and> gh_Repos s' = gh_Repos s \<and>
     set (gh_perms s') \<subseteq> set (gh_perms s)"
proof (cases "gh_Permissions s")
  case None
  then show ?thesis by (auto simp: marshal_gh_def decode_member_def gh_field_def gh_zero_def gh_perms_def)
next
  case (Some m)
  let ?kvs = "map (\<lambda>(k, v). (k, JString v)) (sort_key fst m)"
  let ?f = "fold (\<lambda>(k, v) m. AList.update k (fst (set_str v [])) m) ?kvs []"
  have "set ?f \<subseteq> (\<lambda>(k, v). (k, fst (set_str v []))) ` set ?kvs"
    using set_fold_update [of "\<lambda>v. fst (set_str v [])" ?kvs "[]"] by simp
  also have "\<dots> = set m" by (force simp: image_iff)
  finally have sub: "set ?f \<subseteq> set m" .
  have ok: "list_all (\<lambda>(k, v). snd (set_str v [])) ?kvs" by (auto simp: list_all_iff)
  have "unmarshal gh_field gh_zero (marshal_gh s) = (\<lparr>gh_Repos = gh_Repos s, gh_Permissions = Some ?f\<rparr>, True)"
    using ok by (simp add: marshal_gh_def decode_member_def gh_field_def gh_zero_def Some)
  then show ?thesis using sub by (simp add: gh_perms_def Some)
qed

definition gh_read :: "raw_message \<Rightarrow> ghScope" where
  "gh_read raw = fst (unmarshal gh_field gh_zero raw)"

text \<open>One clamp: the result decodes, is within the ceiling's scope, and within whatever the proposal was within.\<close>

lemma clampGitHubScope_le:
  assumes c: "gh_decode c = Some t"
  shows "\<exists>s. gh_decode (fst (clampGitHubScope p c)) = Some s \<and> gh_read (fst (clampGitHubScope p c)) = s \<and> gh_le s t \<and>
    (\<forall>x. gh_le (gh_read p) x \<longrightarrow> gh_le s x)"
proof -
  let ?p = "gh_read p"
  have t: "(if c = RawEmpty then gh_zero else fst (unmarshal gh_field gh_zero c)) = t"
    using c by (auto simp: gh_decode_def split: if_splits prod.splits)
  define m where "m = \<lparr>gh_Repos = filter (\<lambda>r. folded r \<in> toSet (gh_Repos t)) (gh_Repos ?p),
    gh_Permissions = map_option (List.map_filter (clamp_perm (gh_perms t))) (gh_Permissions ?p)\<rparr>"
  have r: "fst (clampGitHubScope p c) = marshal_gh m"
    by (simp add: clampGitHubScope_def t [symmetric] gh_read_def [symmetric] go_partition_def m_def Let_def)
  obtain s where s: "unmarshal gh_field gh_zero (marshal_gh m) = (s, True)" "gh_Repos s = gh_Repos m" "set (gh_perms s) \<subseteq> set (gh_perms m)"
    using unmarshal_marshal_gh by blast
  have perms: "\<exists>l0 cl. (k, l0) \<in> set (gh_perms ?p) \<and> map_of (gh_perms t) k = Some cl \<and> permRank l \<le> permRank cl \<and> permRank l \<le> permRank l0"
    if k: "(k, l) \<in> set (gh_perms s)" for k l
  proof -
    have "(k, l) \<in> set (gh_perms m)" using k s(3) by blast
    then obtain l0 where "(k, l0) \<in> set (gh_perms ?p)" "clamp_perm (gh_perms t) (k, l0) = Some (k, l)"
      by (cases "gh_Permissions ?p") (auto simp: gh_perms_def m_def map_filter_def clamp_perm_def split: option.splits)
    then show ?thesis by (auto simp: clamp_perm_def split: option.splits if_splits)
  qed
  have ne: "marshal_gh m \<noteq> RawEmpty" by (simp add: marshal_gh_def)
  have 1: "gh_le s t" using perms s(2) by (fastforce simp: gh_le_def m_def)
  have 2: "gh_le s x" if x: "gh_le ?p x" for x
  proof -
    have "\<exists>cl. map_of (gh_perms x) k = Some cl \<and> permRank l \<le> permRank cl" if "(k, l) \<in> set (gh_perms s)" for k l
      using perms [OF that] x unfolding gh_le_def by (meson order_trans)
    then show ?thesis using x s(2) by (auto simp: gh_le_def m_def)
  qed
  show ?thesis using s(1) ne 1 2 by (auto simp: r gh_decode_def gh_read_def)
qed

lemma clamp_github_le:
  assumes "\<forall>cg\<in>set bounds. gh_decode (Scope cg) \<noteq> None" "clamp_github scope bounds = (scope', w)" "bounds \<noteq> []"
  shows "\<exists>s. gh_decode scope' = Some s \<and> (\<forall>cg\<in>set bounds. \<exists>t. gh_decode (Scope cg) = Some t \<and> gh_le s t) \<and>
    (\<forall>x. gh_le (gh_read scope) x \<longrightarrow> gh_le s x)"
  using assms
proof (induction bounds arbitrary: scope scope' w)
  case (Cons cg cgs)
  let ?s1 = "fst (clampGitHubScope scope (Scope cg))"
  obtain t where t: "gh_decode (Scope cg) = Some t" using Cons.prems(1) by auto
  obtain s where s: "gh_decode ?s1 = Some s" "gh_read ?s1 = s" "gh_le s t" "\<forall>x. gh_le (gh_read scope) x \<longrightarrow> gh_le s x"
    using clampGitHubScope_le [OF t] by blast
  obtain w' where r: "clamp_github ?s1 cgs = (scope', w')" using Cons.prems(2) by (auto split: prod.splits)
  show ?case
  proof (cases "cgs = []")
    case True
    then have "scope' = ?s1" using r by simp
    then show ?thesis using True s t by auto
  next
    case False
    then obtain s' where s': "gh_decode scope' = Some s'" "\<forall>cg\<in>set cgs. \<exists>t. gh_decode (Scope cg) = Some t \<and> gh_le s' t"
      "\<forall>x. gh_le (gh_read ?s1) x \<longrightarrow> gh_le s' x"
      using Cons.IH [OF _ r] Cons.prems(1) by auto
    then show ?thesis using s t by auto
  qed
qed simp

subsection \<open>What a clamp leaves of a token scope\<close>

lemma unmarshal_marshal_pat: "unmarshal pat_field pat_zero (marshal_pat s) = (s, True)"
  by (cases s; cases "pat_Repos s")
    (simp_all add: marshal_pat_def marshal_str_def decode_member_def pat_field_def pat_zero_def)

text \<open>The repos met so far are within every bound's and within the ones the loop started from.\<close>

definition met_ok :: "GitPATScope \<Rightarrow> string list option \<times> bool \<times> string \<times> bool \<Rightarrow> GitPATScope \<Rightarrow> bool" where
  "met_ok s acc cg \<longleftrightarrow> (case acc of (repos, moved, access, api) \<Rightarrow>
     (patForgeConstrained cg \<longrightarrow> pat_Forge s = pat_Forge cg) \<and>
     (\<forall>crs. pat_Repos cg = Some crs \<longrightarrow> moved \<and> (\<exists>rs. repos = Some rs \<and> repos_within (pat_Forge s) rs crs)) \<and>
     patAccessRank access \<le> patAccessRank (pat_Access cg) \<and> (api \<longrightarrow> pat_API cg))"

definition repos_le :: "string \<Rightarrow> string list option \<Rightarrow> string list option \<Rightarrow> bool" where
  "repos_le f r r0 \<longleftrightarrow> (\<forall>rs0. r0 = Some rs0 \<longrightarrow> (\<exists>rs. r = Some rs \<and> (repos_within f rs rs0 \<or> rs = rs0)))"

lemma repos_le_trans: "repos_le f x y \<Longrightarrow> repos_le f y z \<Longrightarrow> repos_le f x z"
  unfolding repos_le_def by (metis repos_within_trans)

lemma repos_le_within: "repos_le f x (Some ys) \<Longrightarrow> repos_within f ys zs \<Longrightarrow> \<exists>xs. x = Some xs \<and> repos_within f xs zs"
  unfolding repos_le_def by (metis repos_within_trans)

definition acc_le :: "string \<Rightarrow> string list option \<times> bool \<times> string \<times> bool \<Rightarrow> string list option \<times> bool \<times> string \<times> bool \<Rightarrow> bool" where
  "acc_le f acc acc0 \<longleftrightarrow> (case (acc, acc0) of ((r, m, a, p), (r0, m0, a0, p0)) \<Rightarrow>
     repos_le f r r0 \<and>
     (m0 \<longrightarrow> m) \<and> (\<not> m \<longrightarrow> r = r0) \<and> (m \<longrightarrow> r \<noteq> None \<or> m0) \<and>
     patAccessRank a \<le> patAccessRank a0 \<and> (a = a0 \<or> a = ''read'') \<and> (p \<longrightarrow> p0))"

lemma acc_le_trans: "acc_le f x y \<Longrightarrow> acc_le f y z \<Longrightarrow> acc_le f x z"
proof -
  assume le: "acc_le f x y" "acc_le f y z"
  obtain r m a p r1 m1 a1 p1 r2 m2 a2 p2 where e: "x = (r, m, a, p)" "y = (r1, m1, a1, p1)" "z = (r2, m2, a2, p2)"
    by (cases x; cases y; cases z)
  have "repos_le f r r2" using le repos_le_trans by (auto simp: e acc_le_def)
  moreover have "m \<Longrightarrow> r \<noteq> None \<or> m2" using le by (auto simp: e acc_le_def repos_le_def)
  ultimately show "acc_le f x z" using le by (auto simp: e acc_le_def)
qed

lemma met_ok_mono:
  assumes "acc_le (pat_Forge s) acc acc0" "met_ok s acc0 cg"
  shows "met_ok s acc cg"
proof -
  obtain r m a p r0 m0 a0 p0 where e: "acc = (r, m, a, p)" "acc0 = (r0, m0, a0, p0)" by (cases acc; cases acc0)
  have "\<exists>rs. r = Some rs \<and> repos_within (pat_Forge s) rs crs" if "pat_Repos cg = Some crs" for crs
    using assms that repos_le_within by (auto simp: e acc_le_def met_ok_def)
  then show ?thesis using assms by (auto simp: e acc_le_def met_ok_def)
qed

definition repos_ok :: "GitPATScope \<Rightarrow> bool" where
  "repos_ok cg = (case pat_Repos cg of None \<Rightarrow> True | Some crs \<Rightarrow> list_all (repo_ok ''generic'') crs)"

definition meet_step :: "GitPATScope \<Rightarrow> GitPATScope \<Rightarrow> string list option \<times> bool \<times> string \<times> bool
    \<Rightarrow> string list option \<times> bool \<times> string \<times> bool" where
  "meet_step s cg acc = (case acc of (repos, moved, access, api) \<Rightarrow>
     let (repos', moved') =
       (case pat_Repos cg of
          None \<Rightarrow> (repos, moved)
        | Some crs \<Rightarrow>
            (case repos of
               None \<Rightarrow> (Some (sort crs), True)
             | Some rs \<Rightarrow> (Some (patIntersectRepos (pat_Forge s) rs crs), True)))
     in (repos', moved', (if patAccessRank (pat_Access cg) < patAccessRank access then pat_Access cg else access),
         api \<and> pat_API cg))"

lemma meet_bounds_Cons:
  "meet_bounds s (b # bs) acc =
     (case DecodeGitPATScope b of None \<Rightarrow> None | Some cg \<Rightarrow>
        if patForgeConstrained cg \<and> pat_Forge cg \<noteq> pat_Forge s then None else meet_bounds s bs (meet_step s cg acc))"
  by (cases acc) (auto simp: meet_step_def Let_def split: option.splits)

lemma repo_ok_any: "f \<in> set pat_forges \<Longrightarrow> repo_ok f' e \<Longrightarrow> repo_ok f e"
  by (auto simp: repo_ok_def PATRepoKey_def Let_def split: if_splits)

lemma meet_step_ok:
  assumes "pat_Forge s \<in> set pat_forges" "repos_ok cg" "\<not> (patForgeConstrained cg \<and> pat_Forge cg \<noteq> pat_Forge s)"
    "pat_Access cg = ''write'' \<or> pat_Access cg = ''read''"
  shows "acc_le (pat_Forge s) (meet_step s cg acc) acc" "met_ok s (meet_step s cg acc) cg"
proof -
  obtain repos moved access api where a: "acc = (repos, moved, access, api)" by (cases acc)
  have i: "repos_within f (patIntersectRepos f x y) x" "repos_within f (patIntersectRepos f x y) y" for f x y
    using intersect_within by blast+
  show "acc_le (pat_Forge s) (meet_step s cg acc) acc"
    using i(1) assms(4) by (auto simp: a acc_le_def repos_le_def meet_step_def patAccessRank_def split: option.splits if_splits)
  have srt: "repos_within (pat_Forge s) (sort crs) crs" if c: "pat_Repos cg = Some crs" for crs
  proof -
    have "\<forall>x\<in>set crs. repo_ok (pat_Forge s) x" using assms(1,2) c repo_ok_any by (auto simp: repos_ok_def list_all_iff)
    then show ?thesis using repos_within_refl by (simp add: repos_within_def)
  qed
  show "met_ok s (meet_step s cg acc) cg"
    using i(2) assms(3) srt by (auto simp: a met_ok_def meet_step_def patAccessRank_def split: option.splits if_splits)
qed

lemma meet_bounds_ok:
  assumes "meet_bounds s bs acc = Some acc'" "pat_Forge s \<in> set pat_forges"
    "\<forall>b\<in>set bs. \<forall>cg. DecodeGitPATScope b = Some cg \<longrightarrow> repos_ok cg"
  shows "acc_le (pat_Forge s) acc' acc \<and> (\<forall>b\<in>set bs. \<exists>cg. DecodeGitPATScope b = Some cg \<and> met_ok s acc' cg)"
  using assms
proof (induction bs arbitrary: acc)
  case Nil
  then show ?case by (auto simp: acc_le_def repos_le_def split: prod.splits)
next
  case (Cons b bs)
  then obtain cg where cg: "DecodeGitPATScope b = Some cg" "\<not> (patForgeConstrained cg \<and> pat_Forge cg \<noteq> pat_Forge s)"
    "meet_bounds s bs (meet_step s cg acc) = Some acc'"
    unfolding meet_bounds_Cons by (auto split: option.splits if_splits)
  have ok: "repos_ok cg" using Cons.prems(3) cg(1) by simp
  note st = meet_step_ok [OF Cons.prems(2) ok cg(2) decoded_access [OF cg(1)], of acc]
  have ih: "acc_le (pat_Forge s) acc' (meet_step s cg acc)" "\<forall>b\<in>set bs. \<exists>cg. DecodeGitPATScope b = Some cg \<and> met_ok s acc' cg"
    using Cons.IH [OF cg(3) Cons.prems(2)] Cons.prems(3) by auto
  then show ?case using st cg(1) acc_le_trans met_ok_mono by auto
qed

lemma pat_le_met:
  assumes "met_ok s (repos, moved, access, api) cg" "pat_Forge s' = pat_Forge s" "pat_Access s' = access" "pat_API s' = api"
    "pat_Repos s' = repos \<or> \<not> moved \<or> patReposWithin (pat_Forge s) (pat_Repos s') repos"
  shows "pat_le s' cg"
proof -
  have "\<exists>xs. pat_Repos s' = Some xs \<and> repos_within (pat_Forge s') xs crs" if c: "pat_Repos cg = Some crs" for crs
  proof -
    obtain rs where rs: "repos = Some rs" "repos_within (pat_Forge s) rs crs" "moved" using assms(1) c by (auto simp: met_ok_def)
    show ?thesis
    proof (cases "pat_Repos s'")
      case None
      then show ?thesis using assms(5) rs by (auto simp: patReposWithin_def)
    next
      case (Some xs)
      then have "xs = rs \<or> repos_within (pat_Forge s) xs rs" using assms(5) rs patReposWithin_Some by auto
      then show ?thesis using Some rs assms(2) repos_within_trans by auto
    qed
  qed
  then show ?thesis using assms by (auto simp: pat_le_def met_ok_def)
qed

text \<open>The rewritten scope reads back with the met axes; with no note the decoded scope already has them.\<close>

lemma pat_rewrite_ok:
  assumes "pat_rewrite raw s (repos, moved, access, api) = (out, nts)" "s = pat_Normalize raw"
    "access = pat_Access s \<or> access = ''read''" "s' = (if nts = [] then s else pat_Normalize out)"
  shows "pat_Host s' = pat_Host s" "pat_SecretName s' = pat_SecretName s" "pat_Forge s' = pat_Forge s"
    "pat_Access s' = access" "pat_API s' = api" "pat_Host out = pat_Host raw" "pat_SecretName out = pat_SecretName raw"
    "pat_Repos s' = repos \<or> \<not> moved \<or> patReposWithin (pat_Forge s) (pat_Repos s') repos"
proof -
  define narrowed where "narrowed \<longleftrightarrow> moved \<and> \<not> patReposWithin (pat_Forge s) (pat_Repos s) repos"
  have n: "nts = [] \<longleftrightarrow> \<not> narrowed \<and> access = pat_Access s \<and> api = pat_API s"
    using assms(1) by (auto simp: pat_rewrite_def narrowed_def [symmetric] Let_def split: if_splits)
  have out: "pat_Host out = pat_Host raw" "pat_SecretName out = pat_SecretName raw" "pat_Forge out = pat_Forge raw"
    "pat_API out = (if api \<noteq> pat_API s then api else pat_API raw)"
    "pat_Access out = (if access \<noteq> pat_Access s then access else pat_Access raw)"
    "pat_Repos out = (if narrowed then repos else pat_Repos raw)"
    using assms(1) by (auto simp: pat_rewrite_def narrowed_def [symmetric] Let_def split: if_splits)
  have "folded ''read'' = ''read''" by code_simp
  then have "pat_Access (pat_Normalize out) = access"
    using assms(2,3) out(5) by (auto simp: pat_Normalize_def Let_def)
  then show "pat_Access s' = access" using assms(4) n by auto
  show "pat_Host s' = pat_Host s" "pat_SecretName s' = pat_SecretName s" "pat_Forge s' = pat_Forge s"
    "pat_API s' = api" using assms(2,4) n out by (auto simp: pat_Normalize_def Let_def)
  show "pat_Host out = pat_Host raw" "pat_SecretName out = pat_SecretName raw" by (fact out)+
  have "pat_Repos s' = (if narrowed then repos else pat_Repos s)"
    using assms(2,4) n out by (auto simp: pat_Normalize_def Let_def)
  then show "pat_Repos s' = repos \<or> \<not> moved \<or> patReposWithin (pat_Forge s) (pat_Repos s') repos" by (auto simp: narrowed_def)
qed

lemma PATScopeMeet_le:
  assumes m: "PATScopeMeet g bounds = (Some g', w)"
    and ok: "\<forall>b\<in>set bounds. \<forall>cg. DecodeGitPATScope b = Some cg \<longrightarrow> repos_ok cg"
  shows "\<exists>s s'. DecodeGitPATScope g = Some s \<and> DecodeGitPATScope g' = Some s' \<and> pat_Host s' = pat_Host s \<and>
    pat_SecretName s' = pat_SecretName s \<and> (\<forall>b\<in>set bounds. \<exists>cg. DecodeGitPATScope b = Some cg \<and> pat_le s' cg)"
proof -
  obtain raw okr where r: "unmarshal pat_field pat_zero g = (raw, okr)" by (cases "unmarshal pat_field pat_zero g")
  obtain s where s: "DecodeGitPATScope g = Some s" using m r by (auto simp: PATScopeMeet_def split: if_splits option.splits)
  have okr: okr and sn: "s = pat_Normalize raw" and ne: "pat_Host raw \<noteq> []" "pat_SecretName raw \<noteq> []"
    using s r by (auto simp: DecodeGitPATScope_def split: if_splits)
  obtain acc where a: "meet_bounds s bounds (pat_Repos s, False, pat_Access s, pat_API s) = Some acc"
    using m r s okr by (auto simp: PATScopeMeet_def split: if_splits option.splits)
  obtain repos moved access api where acc: "acc = (repos, moved, access, api)" by (cases acc)
  have le: "acc_le (pat_Forge s) acc (pat_Repos s, False, pat_Access s, pat_API s)"
    and bs: "\<forall>b\<in>set bounds. \<exists>cg. DecodeGitPATScope b = Some cg \<and> met_ok s acc cg"
    using meet_bounds_ok [OF a decoded_forge [OF s] ok] by blast+
  obtain out nts where rw: "pat_rewrite raw s acc = (out, nts)" by (cases "pat_rewrite raw s acc")
  have g': "g' = (if nts = [] then g else marshal_pat out)"
    using m r s a okr rw by (simp add: PATScopeMeet_def split: if_splits)
  define s' where "s' = (if nts = [] then s else pat_Normalize out)"
  have ac: "access = pat_Access s \<or> access = ''read''" using le by (simp add: acc acc_le_def)
  note f = pat_rewrite_ok [OF rw [unfolded acc] sn ac s'_def]
  have "DecodeGitPATScope g' = Some s'"
    using g' s ne f(6,7) by (simp add: s'_def DecodeGitPATScope_def unmarshal_marshal_pat)
  moreover have "\<exists>cg. DecodeGitPATScope b = Some cg \<and> pat_le s' cg" if "b \<in> set bounds" for b
    using bs that pat_le_met [OF _ f(3,4,5,8)] unfolding acc by blast
  ultimately show ?thesis using s f(1,2) by blast
qed

subsection \<open>The clamp is within the ceiling\<close>

lemma ttl_cap_bounds:
  "0 < ttl_cap bounds \<and> ttl_cap bounds \<le> maxGrantTTLSeconds \<and>
   (\<forall>cg\<in>set bounds. 0 < TTLSeconds cg \<longrightarrow> ttl_cap bounds \<le> TTLSeconds cg)"
proof -
  let ?f = "\<lambda>cg mx. if TTLSeconds cg > 0 \<and> TTLSeconds cg < mx then TTLSeconds cg else mx"
  have "0 < fold ?f bs mx \<and> fold ?f bs mx \<le> mx \<and> (\<forall>cg\<in>set bs. 0 < TTLSeconds cg \<longrightarrow> fold ?f bs mx \<le> TTLSeconds cg)"
    if "0 < mx" for bs :: "GrantSpec list" and mx
    using that
  proof (induction bs arbitrary: mx)
    case (Cons b bs)
    show ?case using Cons.IH [of "?f b mx"] Cons.prems by fastforce
  qed simp
  then show ?thesis unfolding ttl_cap_def by (simp add: maxGrantTTLSeconds_def)
qed

lemma clamp_axes_ok:
  assumes "clamp_axes g bounds = (g', w)"
  shows "Kind g' = Kind g" "Scope g' = Scope g"
    "\<forall>cg\<in>set bounds. (RequiresApproval cg \<longrightarrow> RequiresApproval g') \<and> (OwnerOnly cg \<longrightarrow> OwnerOnly g') \<and>
       normalizeClampTTL (TTLSeconds g') \<le> normalizeClampTTL (TTLSeconds cg)"
proof -
  show "Kind g' = Kind g" "Scope g' = Scope g" using assms by (auto simp: clamp_axes_def Let_def)
  have t: "TTLSeconds g' = (if TTLSeconds g \<le> 0 \<or> TTLSeconds g > ttl_cap bounds then ttl_cap bounds else TTLSeconds g)"
    using assms by (auto simp: clamp_axes_def Let_def)
  have "normalizeClampTTL (TTLSeconds g') \<le> normalizeClampTTL (TTLSeconds cg)" if "cg \<in> set bounds" for cg
    using ttl_cap_bounds [of bounds] that by (auto simp: t normalizeClampTTL_def)
  moreover have "RequiresApproval cg \<longrightarrow> RequiresApproval g'" if "cg \<in> set bounds" for cg
    using assms that by (auto simp: clamp_axes_def Let_def list_ex_iff)
  moreover have "OwnerOnly cg \<longrightarrow> OwnerOnly g'" if "cg \<in> set bounds" for cg
    using assms that by (auto simp: clamp_axes_def Let_def list_ex_iff)
  ultimately show "\<forall>cg\<in>set bounds. (RequiresApproval cg \<longrightarrow> RequiresApproval g') \<and> (OwnerOnly cg \<longrightarrow> OwnerOnly g') \<and>
       normalizeClampTTL (TTLSeconds g') \<le> normalizeClampTTL (TTLSeconds cg)" by blast
qed

lemma within_loop_None:
  "within_loop g cgs worst = None \<longleftrightarrow> (\<exists>cg\<in>set cgs. bound_failure g cg = None) \<or> cgs = [] \<and> worst = None"
  by (induction cgs arbitrary: worst) (auto split: option.splits)

lemma GrantWithin_None:
  "GrantWithin g ceiling = None \<longleftrightarrow>
     Kind g \<in> set knownKinds \<and> snd (snd (grantPairingOf g)) \<and>
     (\<exists>cg\<in>set (CeilingGrantsCovering g ceiling). bound_failure g cg = None)"
  by (auto simp: GrantWithin_def within_loop_None Let_def split: prod.splits)

lemma bound_failure_None:
  "bound_failure g cg = None \<longleftrightarrow>
     (RequiresApproval cg \<longrightarrow> RequiresApproval g) \<and> (OwnerOnly cg \<longrightarrow> OwnerOnly g) \<and>
     normalizeClampTTL (TTLSeconds g) \<le> normalizeClampTTL (TTLSeconds cg) \<and>
     (Kind g = GrantGitHubToken \<longrightarrow> GitHubScopeWithin (Scope g) (Scope cg) = None) \<and>
     (Kind g = GrantGitPAT \<longrightarrow> PATScopeWithin (Scope g) (Scope cg) = None)"
  by (auto simp: bound_failure_def split: option.splits if_splits)

lemma covering_mem:
  "cg \<in> set (CeilingGrantsCovering g ceiling) \<Longrightarrow> cg \<in> set ceiling \<and> Kind cg = Kind g"
  by (auto simp: CeilingGrantsCovering_def split: prod.splits)

lemma clamp_bounds_mem: "cg \<in> set (clamp_bounds g ceiling) \<Longrightarrow> cg \<in> set ceiling \<and> Kind cg = Kind g"
  by (auto simp: clamp_bounds_def ceilingGrantsBounding_def Let_def split: if_splits option.splits prod.splits
      dest: covering_mem find_SomeD)

lemma clamp_bounds_covering:
  "CeilingGrantsCovering g ceiling \<noteq> [] \<Longrightarrow> set (clamp_bounds g ceiling) \<subseteq> set (CeilingGrantsCovering g ceiling)"
  by (auto simp: clamp_bounds_def Let_def split: option.splits dest: find_SomeD)

text \<open>What the ceiling's own scopes must be for the comparison to read them.\<close>

definition scope_readable :: "GrantSpec \<Rightarrow> bool" where
  "scope_readable cg =
     (if Kind cg = GrantGitHubToken then gh_decode (Scope cg) \<noteq> None
      else if Kind cg = GrantGitPAT then (case DecodeGitPATScope (Scope cg) of None \<Rightarrow> True | Some s \<Rightarrow> repos_ok s)
      else True)"

lemma clamp_grant_within:
  assumes c: "clamp_grant g ceiling = (Some g', w)" and r: "\<forall>cg\<in>set ceiling. scope_readable cg"
  shows "Kind g' = Kind g" "grantPairingOf g' = grantPairingOf g" "clamp_bounds g ceiling \<noteq> []"
    "\<forall>cg\<in>set (clamp_bounds g ceiling). bound_failure g' cg = None"
proof -
  let ?b = "clamp_bounds g ceiling"
  have rb: "scope_readable cg" "Kind cg = Kind g" if "cg \<in> set ?b" for cg using clamp_bounds_mem [OF that] r by auto
  show ne: "?b \<noteq> []" using c by (auto simp: clamp_grant_def Let_def)
  consider (gh) scope ws w' where "Kind g = GrantGitHubToken" "clamp_github (Scope g) ?b = (scope, ws)"
      "clamp_axes (g\<lparr>Scope := scope\<rparr>) ?b = (g', w')"
    | (pat) scope ws w' where "Kind g = GrantGitPAT" "PATScopeMeet (Scope g) (map Scope ?b) = (Some scope, ws)"
      "clamp_axes (g\<lparr>Scope := scope\<rparr>) ?b = (g', w')"
    | (plain) w' where "Kind g \<noteq> GrantGitHubToken" "Kind g \<noteq> GrantGitPAT" "clamp_axes g ?b = (g', w')"
    using c ne by (auto simp: clamp_grant_def Let_def split: if_splits prod.splits option.splits)
  then have "Kind g' = Kind g \<and> grantPairingOf g' = grantPairingOf g \<and> (\<forall>cg\<in>set ?b. bound_failure g' cg = None)"
  proof cases
    case gh
    note ax = clamp_axes_ok [OF gh(3)]
    obtain s where s: "gh_decode scope = Some s" "\<forall>cg\<in>set ?b. \<exists>t. gh_decode (Scope cg) = Some t \<and> gh_le s t"
      using clamp_github_le [OF _ gh(2) ne] rb gh(1) by (auto simp: scope_readable_def)
    have "Kind g \<noteq> GrantGitPAT" using gh(1) by (simp add: grant_kind_defs)
    moreover have "grantPairingOf x = (no_pairing, False, True)" if "Kind x = GrantGitHubToken" for x
      using that by (simp add: grantPairingOf_def grant_kind_defs split: prod.splits)
    ultimately show ?thesis using ax gh(1) s by (auto simp: bound_failure_None GitHubScopeWithin_None)
  next
    case pat
    note ax = clamp_axes_ok [OF pat(3)]
    have ok: "\<forall>b\<in>set (map Scope ?b). \<forall>cg. DecodeGitPATScope b = Some cg \<longrightarrow> repos_ok cg"
      using rb pat(1) by (fastforce simp: scope_readable_def grant_kind_defs)
    obtain s s' where s: "DecodeGitPATScope (Scope g) = Some s" "DecodeGitPATScope scope = Some s'" "pat_Host s' = pat_Host s"
      "pat_SecretName s' = pat_SecretName s" "\<forall>b\<in>set (map Scope ?b). \<exists>cg. DecodeGitPATScope b = Some cg \<and> pat_le s' cg"
      using PATScopeMeet_le [OF pat(2) ok] by blast
    have "Kind g \<noteq> GrantGitHubToken" using pat(1) by (simp add: grant_kind_defs)
    moreover have "grantPairingOf x = (no_pairing\<lparr>gp_host := pat_Host t, gp_secretRef := pat_SecretName t\<rparr>, True, True)"
      if "Kind x = GrantGitPAT" "DecodeGitPATScope (Scope x) = Some t" for x t
      using that by (simp add: grantPairingOf_def grant_kind_defs split: prod.splits)
    ultimately show ?thesis using ax pat(1) s by (auto simp: bound_failure_None PATScopeWithin_None)
  next
    case plain
    note ax = clamp_axes_ok [OF plain(3)]
    have "grantPairingOf g' = grantPairingOf g" unfolding grantPairingOf_def ax(1,2) ..
    then show ?thesis using ax plain(1,2) by (auto simp: bound_failure_None)
  qed
  then show "Kind g' = Kind g" "grantPairingOf g' = grantPairingOf g" "\<forall>cg\<in>set ?b. bound_failure g' cg = None" by blast+
qed

lemma clampGrants_source: "g' \<in> set (fst (clampGrants gs ceiling)) \<Longrightarrow> \<exists>g\<in>set gs. \<exists>w. clamp_grant g ceiling = (Some g', w)"
  by (induction gs) (auto split: prod.splits option.splits)

text \<open>
  C37: the clamp of a proposal's grants leaves nothing the ceiling does not dominate. Every grant it keeps has a ceiling
  grant of its kind whose approval and owner-only flags it carries and whose lifetime bounds it; and a kept grant whose
  pairing the ceiling names passes \<open>GrantWithin\<close>, the comparator of the write path, on every axis, repositories,
  permissions, access and forge included. The ceiling's own scopes must be readable and its repos well formed.
\<close>

theorem clampGrants_within:
  assumes "g' \<in> set (fst (clampGrants gs ceiling))" "\<forall>cg\<in>set ceiling. scope_readable cg"
  shows "(\<exists>cg\<in>set ceiling. Kind cg = Kind g' \<and> (RequiresApproval cg \<longrightarrow> RequiresApproval g') \<and>
            (OwnerOnly cg \<longrightarrow> OwnerOnly g') \<and> normalizeClampTTL (TTLSeconds g') \<le> normalizeClampTTL (TTLSeconds cg)) \<and>
         (Kind g' \<in> set knownKinds \<and> CeilingGrantsCovering g' ceiling \<noteq> [] \<longrightarrow> GrantWithin g' ceiling = None)"
proof -
  obtain g w where c: "clamp_grant g ceiling = (Some g', w)" using clampGrants_source [OF assms(1)] by blast
  note k = clamp_grant_within [OF c assms(2)]
  obtain cg where cg: "cg \<in> set (clamp_bounds g ceiling)" using k(3) by (cases "clamp_bounds g ceiling") auto
  have "cg \<in> set ceiling" "Kind cg = Kind g'" using clamp_bounds_mem [OF cg] k(1) by auto
  moreover have f: "bound_failure g' cg = None" using k(4) cg by blast
  moreover have "GrantWithin g' ceiling = None" if w: "Kind g' \<in> set knownKinds" "CeilingGrantsCovering g' ceiling \<noteq> []"
  proof -
    have same: "CeilingGrantsCovering g' ceiling = CeilingGrantsCovering g ceiling"
      unfolding CeilingGrantsCovering_def k(1,2) ..
    then have mem: "cg \<in> set (CeilingGrantsCovering g' ceiling)" using clamp_bounds_covering [of g ceiling] w(2) cg by auto
    have "snd (snd (grantPairingOf g'))"
    proof (rule ccontr)
      assume no: "\<not> snd (snd (grantPairingOf g'))"
      then have "fst (snd (grantPairingOf g'))"
        by (auto simp: grantPairingOf_def split: prod.splits if_splits option.splits)
      then show False using no w(2) by (auto simp: CeilingGrantsCovering_def split: prod.splits)
    qed
    then show ?thesis using w(1) mem f by (auto simp: GrantWithin_None)
  qed
  ultimately show ?thesis unfolding bound_failure_None by blast
qed

text \<open>A ceiling with a narrowed token, and a proposal that asks for more on every axis.\<close>

definition sample_pat :: "json list \<Rightarrow> string \<Rightarrow> raw_message" where
  "sample_pat repos access = RawJSON (JObject
     [(''host'', JString ''git.example.com''), (''secret_name'', JString ''pat''), (''repos'', JArray repos),
      (''access'', JString access)])"

definition sample_grant :: "raw_message \<Rightarrow> int \<Rightarrow> bool \<Rightarrow> GrantSpec" where
  "sample_grant scope ttl approval =
     \<lparr>Kind = GrantGitPAT, Scope = scope, TTLSeconds = ttl, RequiresApproval = approval, OwnerOnly = False, OwnerOnlyRefs = []\<rparr>"

lemma clampGrants_witness:
  "let ceiling = [sample_grant (sample_pat [JString ''team/*''] ''read'') 300 True];
       gs = [sample_grant (sample_pat [JString ''team/app'', JString ''other/app''] ''write'') 0 False];
       g' = sample_grant (sample_pat [JString ''team/app''] ''read'') 300 True
   in fst (clampGrants gs ceiling) = [g'] \<and> GrantWithin g' ceiling = None"
proof -
  let ?c = "[sample_grant (sample_pat [JString ''team/*''] ''read'') 300 True]"
  let ?gs = "[sample_grant (sample_pat [JString ''team/app'', JString ''other/app''] ''write'') 0 False]"
  let ?g = "sample_grant (sample_pat [JString ''team/app''] ''read'') 300 True"
  have out: "fst (clampGrants ?gs ?c) = [?g]" by code_simp
  have mem: "?g \<in> set (fst (clampGrants ?gs ?c))" unfolding out by simp
  have ok: "list_all scope_readable ?c" by code_simp
  have "Kind ?g \<in> set knownKinds" "CeilingGrantsCovering ?g ?c \<noteq> []" by code_simp+
  then have "GrantWithin ?g ?c = None" using clampGrants_within [OF mem ok [unfolded list_all_iff]] by blast
  then show ?thesis using out unfolding Let_def by blast
qed

lemma pat_within_admits_witness:
  "let p = sample_pat [JString ''team/app''] ''read''; c = sample_pat [JString ''team/*''] ''write''
   in PATScopeWithin p c = None \<and>
      (\<exists>g cg. DecodeGitPATScope p = Some g \<and> DecodeGitPATScope c = Some cg \<and>
         (\<forall>path wr api. pat_admits g path wr api \<longrightarrow> pat_admits cg path wr api))"
proof -
  have "PATScopeWithin (sample_pat [JString ''team/app''] ''read'') (sample_pat [JString ''team/*''] ''write'') = None" by code_simp
  from this pat_within_admits [OF this] show ?thesis unfolding Let_def by blast
qed

text \<open>\<open>grantDominatedBy\<close> does not ask about owner_only, so which of two dominating ceiling grants is found first shows in
  the result: listed the other way round the same ceiling leaves the proposal unchanged.\<close>

lemma clamp_order_shows:
  "let g = sample_grant (sample_pat [] ''read'') 300 True; a = g\<lparr>OwnerOnly := True\<rparr>
   in fst (clampGrants [g] [a, g]) = [a] \<and> fst (clampGrants [g] [g, a]) = [g] \<and>
      grantDominatedBy g a \<and> GrantWithin g [a] = Some StripsOwnerOnly"
  by code_simp

end
