(* ===== verification/DomainMeet.thy ===== *)
theory DomainMeet
  imports EgressGuard GoSlices
begin

section \<open>Composing domain lists: internal/composer/meet_domains.go\<close>

text \<open>
  How an overlay's allowed_domains narrow a base's (\<open>meetAllowedDomains\<close>), how two deny lists join (\<open>unionDenied\<close>) and
  when one list is provably within another (\<open>leqAllowedDomains\<close>, \<open>leqDeniedDomains\<close> of \<open>leq.go\<close>), over entries as the
  proxy reads them (\<open>domEntry\<close>, \<open>parseDomEntry\<close>). A Go map with string keys is an association list here. The lemmas read
  every operation as a statement about the requests the entries match, the ones the proxy's own evaluator uses
  (\<open>entry_matches\<close>), and show that an entry is spelled back as it was read.
\<close>

record domEntry =
  de_wild :: bool
  de_host :: string
  de_port :: int

definition parseDomEntry :: "string \<Rightarrow> domEntry option" where
  "parseDomEntry s =
     (case Classify s of (exact, wild, port) \<Rightarrow>
        if wild \<noteq> [] then Some \<lparr>de_wild = True, de_host = wild, de_port = port\<rparr>
        else if exact \<noteq> [] then Some \<lparr>de_wild = False, de_host = exact, de_port = port\<rparr>
        else None)"

definition domEntry_String :: "domEntry \<Rightarrow> string" where
  "domEntry_String e =
     (let host = (if de_wild e then CHR ''*'' # de_host e else de_host e) in
      if de_port e = 0 then host
      else if \<not> de_wild e \<and> Contains host '':'' then JoinHostPort host (Itoa (de_port e))
      else host @ '':'' @ Itoa (de_port e))"

definition covers_entry :: "domEntry \<Rightarrow> domEntry \<Rightarrow> bool" where
  "covers_entry e f =
     (if de_port e \<noteq> 0 \<and> de_port e \<noteq> de_port f then False
      else if \<not> de_wild f then \<not> de_wild e \<and> de_host e = de_host f
      else if de_wild e then MatchWild (de_host f) [de_host e]
      else False)"

definition intersect :: "domEntry \<Rightarrow> domEntry \<Rightarrow> domEntry option" where
  "intersect a b =
     (if de_port a \<noteq> 0 \<and> de_port b \<noteq> 0 \<and> de_port b \<noteq> de_port a then None
      else
        let port = (if de_port a = 0 then de_port b else de_port a) in
        if de_wild a \<and> de_wild b then
          (if HasSuffix (de_host a) (de_host b) then Some \<lparr>de_wild = True, de_host = de_host a, de_port = port\<rparr>
           else if HasSuffix (de_host b) (de_host a) then Some \<lparr>de_wild = True, de_host = de_host b, de_port = port\<rparr>
           else None)
        else
          let (x, y) = (if de_wild a then (b, a) else (a, b)) in
          if de_wild y \<or> de_host x \<noteq> de_host y then None
          else Some \<lparr>de_wild = False, de_host = de_host x, de_port = port\<rparr>)"

definition hasDominator :: "(string \<times> domEntry) list \<Rightarrow> string \<Rightarrow> domEntry \<Rightarrow> bool" where
  "hasDominator uniq name e =
     list_ex (\<lambda>(other, f). other \<noteq> name \<and> de_wild f = de_wild e \<and> covers_entry f e) uniq"

definition spelled :: "domEntry list \<Rightarrow> (string \<times> domEntry) list" where
  "spelled es = fold (\<lambda>e m. AList.update (domEntry_String e) e m) es []"

definition minimise :: "domEntry list \<Rightarrow> string list" where
  "minimise es =
     (let uniq = spelled es in sort (map fst (filter (\<lambda>(name, e). \<not> hasDominator uniq name e) uniq)))"

text \<open>\<open>meetAllowedDomains\<close> on the two lists: the composed list, and the entries the base does not cover.\<close>

definition parsed :: "string list \<Rightarrow> domEntry list" where
  "parsed ds = List.map_filter parseDomEntry ds"

definition uncovered :: "string list \<Rightarrow> string list \<Rightarrow> string list" where
  "uncovered base ov =
     filter (\<lambda>s. case parseDomEntry s of
               None \<Rightarrow> True | Some e \<Rightarrow> \<not> list_ex (\<lambda>b. covers_entry b e) (parsed base)) ov"

definition meet_domains :: "string list \<Rightarrow> string list \<Rightarrow> string list" where
  "meet_domains base ov =
     minimise (concat (map (\<lambda>b. List.map_filter (intersect b) (parsed ov)) (parsed base)))"

definition denied_spelling :: "string \<Rightarrow> string option" where
  "denied_spelling s =
     (case parseDomEntry s of
        Some e \<Rightarrow> Some (domEntry_String e)
      | None \<Rightarrow> let t = ToLower (TrimSpace s) in if t \<noteq> [] then Some t else None)"

definition unionDenied :: "string list \<Rightarrow> string list \<Rightarrow> string list" where
  "unionDenied a b = sort_compact (List.map_filter denied_spelling (a @ b))"

definition leqAllowedDomains :: "string list \<Rightarrow> string list \<Rightarrow> bool" where
  "leqAllowedDomains a b =
     list_all (\<lambda>s. case parseDomEntry s of None \<Rightarrow> False | Some e \<Rightarrow> list_ex (\<lambda>f. covers_entry f e) (parsed b)) a"

definition unreadable :: "string list \<Rightarrow> string list" where
  "unreadable ds = map (\<lambda>s. ToLower (TrimSpace s)) (filter (\<lambda>s. parseDomEntry s = None) ds)"

definition leqDeniedDomains :: "string list \<Rightarrow> string list \<Rightarrow> bool" where
  "leqDeniedDomains a b =
     list_all (\<lambda>s. case parseDomEntry s of
         Some f \<Rightarrow> list_ex (\<lambda>e. covers_entry e f) (parsed a)
       | None \<Rightarrow> let t = ToLower (TrimSpace s) in t = [] \<or> t \<in> set (unreadable a)) b"

subsection \<open>Entries as sets of requests\<close>

definition hits :: "domEntry \<Rightarrow> string \<Rightarrow> int \<Rightarrow> bool" where
  "hits e host port \<longleftrightarrow> (de_port e = 0 \<or> de_port e = port) \<and>
     (if de_wild e then HasSuffix host (de_host e) else host = de_host e)"

lemma entry_matches_hits: "entry_matches d host port \<longleftrightarrow> (\<exists>e. parseDomEntry d = Some e \<and> hits e host port)"
  by (auto simp: entry_matches_def parseDomEntry_def hits_def split: prod.splits)

lemma list_matches_hits: "(\<exists>d\<in>set ds. entry_matches d host port) \<longleftrightarrow> (\<exists>e\<in>set (parsed ds). hits e host port)"
  by (force simp: entry_matches_hits parsed_def map_filter_def)

lemma covers_hits: "covers_entry e f \<Longrightarrow> hits f host port \<Longrightarrow> hits e host port"
  by (auto simp: covers_entry_def hits_def MatchWild_iff split: if_splits dest: HasSuffix_trans)

lemma intersect_hits: "intersect a b = Some c \<Longrightarrow> hits c host port \<longleftrightarrow> hits a host port \<and> hits b host port"
  by (auto simp: intersect_def hits_def Let_def split: if_splits dest: HasSuffix_trans)

lemma intersect_meets:
  assumes "hits a host port" "hits b host port" "de_wild a = de_wild b"
  shows "\<exists>c. intersect a b = Some c"
  using assms HasSuffix_linear [of host "de_host a" "de_host b"] by (auto simp: intersect_def hits_def Let_def split: if_splits)

lemma intersect_kind: "intersect a b = Some c \<Longrightarrow> de_wild a = de_wild b \<and> de_wild c = de_wild a"
  by (auto simp: intersect_def Let_def split: if_splits)

lemma intersect_both:
  "(\<exists>c. intersect a b = Some c \<and> hits c host port) \<longleftrightarrow> de_wild a = de_wild b \<and> hits a host port \<and> hits b host port"
  using intersect_hits [of a b] intersect_kind [of a b] intersect_meets [of a host port b] by auto

lemma intersect_covered: "intersect a b = Some c \<Longrightarrow> covers_entry a c \<and> covers_entry b c"
  by (auto simp: intersect_def covers_entry_def MatchWild_iff Let_def split: if_splits)

lemma covers_entry_refl [simp]: "covers_entry e e"
  by (simp add: covers_entry_def)

lemma covers_entry_trans: "covers_entry a b \<Longrightarrow> covers_entry b c \<Longrightarrow> covers_entry a c"
  by (auto simp: covers_entry_def split: if_splits dest: HasSuffix_trans)

subsection \<open>Spelling an entry\<close>

text \<open>What an entry that can match a request looks like: a canonical host name or address, or a suffix with its dot.\<close>

definition entry_ok :: "domEntry \<Rightarrow> bool" where
  "entry_ok e \<longleftrightarrow> 0 \<le> de_port e \<and> de_port e \<le> 65535 \<and> de_host e \<noteq> [] \<and>
     (if de_wild e then ldhHost (de_host e) \<and> HasPrefix (de_host e) ''.'' \<and> last (de_host e) \<noteq> CHR ''.''
      else CanonHost (de_host e) = de_host e \<and>
        (ldhHost (de_host e) \<and> last (de_host e) \<noteq> CHR ''.'' \<or> (\<exists>ip. length ip = 16 \<and> de_host e = ip_String ip)))"

lemma trimmed_last:
  assumes "TrimSuffix (ToLower x) ''.'' = x" "x \<noteq> []"
  shows "last x \<noteq> CHR ''.''"
proof
  assume "last x = CHR ''.''"
  then obtain ys where x: "x = ys @ ''.''" using assms(2) by (metis append_butlast_last_id)
  have "ToLower x = ToLower ys @ ''.''" by (simp add: x ToLower_def lower_char_def is_upper_def)
  then have "length x = length ys" using assms(1) by (metis TrimSuffix_append length_ToLower)
  then show False by (simp add: x)
qed

lemma valid_entry_ok:
  assumes "ValidDomainEntry d = None"
  shows "\<exists>e. parseDomEntry d = Some e \<and> entry_ok e"
proof -
  obtain x w p where c: "Classify d = (x, w, p)" by (cases "Classify d")
  have p: "0 \<le> p" "p \<le> 65535" using Classify_port_range [OF c] by simp_all
  show ?thesis
  proof (cases "w = []")
    case False
    then have l: "ldhHost w" using assms by (auto simp: ValidDomainEntry_def c deadCharsetEntry_def split: if_splits)
    obtain d' where "d' = [] \<or> last d' \<noteq> CHR ''.''" "d' = CHR ''*'' # w" "HasPrefix w ''.''"
      by (rule Classify_host [OF c]) (use False in auto)
    then show ?thesis using False p l by (simp add: parseDomEntry_def c entry_ok_def)
  next
    case True
    then have x: "x \<noteq> []" using assms by (auto simp: ValidDomainEntry_def c split: if_splits)
    have cx: "CanonHost x = x" by (rule Classify_exact_normal(2) [OF c x])
    have "ldhHost x \<and> last x \<noteq> CHR ''.'' \<or> (\<exists>ip. length ip = 16 \<and> x = ip_String ip)"
    proof (cases "ParseIP x")
      case None
      then have "ldhHost x" using assms True x by (auto simp: ValidDomainEntry_def c deadCharsetEntry_def split: if_splits)
      moreover have "TrimSuffix (ToLower x) ''.'' = x" by (rule Classify_exact_normal(1) [OF c x])
      then have "last x \<noteq> CHR ''.''" by (rule trimmed_last [OF _ x])
      ultimately show ?thesis by blast
    next
      case (Some ip)
      then have "x = ip_String ip" using CanonHost_literal [of x ip] Classify_exact_normal [OF c x] by simp
      then show ?thesis using ParseIP_length [OF Some] by blast
    qed
    then show ?thesis using True x p cx by (simp add: parseDomEntry_def c entry_ok_def)
  qed
qed

text \<open>A spelled host: nothing in it is white space, upper case or a bracket, and it does not end in a dot.\<close>

lemma ldh_char: "ldhHost h \<Longrightarrow> c \<in> set h \<Longrightarrow> \<not> is_space c \<and> addr_char c \<and> c \<noteq> CHR '':''"
  by (auto simp: ldhHost_def list_all_iff is_lower_def is_digit_def is_space_def addr_char_def is_upper_def)

lemma ip_String_char:
  assumes "length ip = 16" "c \<in> set (ip_String ip)"
  shows "\<not> is_space c \<and> addr_char c"
proof -
  have "ip_text (ip_String ip)" using ParseIP_text [of "ip_String ip"] ParseIP_ip_String [of ip] assms(1) by simp
  then have "\<not> is_space c" using assms(2) ip_text_no_space by (auto simp: ip_text_def)
  then show ?thesis using assms ip_String_canonical(2) [of ip] by simp
qed

lemma entry_host_chars:
  assumes "entry_ok e" "c \<in> set (de_host e)"
  shows "\<not> is_space c \<and> addr_char c"
  using assms ldh_char ip_String_char by (auto simp: entry_ok_def split: if_splits)

lemma entry_host_last: "entry_ok e \<Longrightarrow> last (de_host e) \<noteq> CHR ''.''"
  using ip_String_canonical(3) by (auto simp: entry_ok_def split: if_splits)

lemma digit_plain: "is_digit c \<Longrightarrow> \<not> is_space c \<and> addr_char c \<and> c \<noteq> CHR ''.'' \<and> c \<noteq> CHR '':''"
  by (auto simp: is_digit_def is_space_def addr_char_def is_upper_def)

text \<open>An IPv6 literal has two colons at least, so it never reads as a host and a port.\<close>

lemma join_colon_count: "length (filter ((=) CHR '':'') (join_colon xs)) \<ge> length xs - 1"
proof (cases xs)
  case (Cons x ys)
  have "length ys \<le> length (filter ((=) CHR '':'') (concat (map (\<lambda>y. CHR '':'' # y) ys)))" by (induction ys) auto
  then show ?thesis by (simp add: Cons join_colon_def)
qed simp

lemma string6_colons: "length (filter ((=) CHR '':'') (string6 w)) \<ge> 2"
  using join_colon_count [of "map hex_str (groups6 w)"] groups6_ok(1) [of w]
  by (auto simp: string6_def Let_def split: option.splits)

lemma SplitHostPort_two_colons:
  assumes "length (filter ((=) CHR '':'') s) \<ge> 2" "hd s \<noteq> CHR ''[''"
  shows "SplitHostPort s = None"
proof (cases "LastIndexByte s (CHR '':'')")
  case (Some i)
  then have s: "s = take i s @ CHR '':'' # drop (Suc i) s" "CHR '':'' \<notin> set (drop (Suc i) s)" using LastIndexByte_Some by blast+
  have "filter ((=) CHR '':'') (drop (Suc i) s) = []" using s(2) by (auto simp: filter_empty_conv)
  then have "length (filter ((=) CHR '':'') (take i s)) \<ge> 1"
    using assms(1) by (subst (asm) s(1)) simp
  then have "CHR '':'' \<in> set (take i s)" by (metis filter_False length_0_conv not_one_le_zero)
  then show ?thesis using Some assms(2) by (simp add: SplitHostPort_def)
qed (simp add: SplitHostPort_def del: LastIndexByte_None)

lemma ip_String_colon:
  assumes "length ip = 16" "CHR '':'' \<in> set (ip_String ip)"
  shows "length (filter ((=) CHR '':'') (ip_String ip)) \<ge> 2"
proof (cases "To4 ip")
  case None
  then have "take 12 ip \<noteq> v4InV6Prefix" using assms by (auto simp: To4_def)
  then have "\<not> Is4In6 (Addr6 (be_word ip))" using Is4In6_iff [OF assms(1)] by blast
  then have "ip_String ip = string6 (be_word ip)" using None assms by (auto simp: ip_String_def simp del: Is4In6.simps)
  then show ?thesis using string6_colons by simp
next
  case (Some x)
  then have "ip_String ip = string4 (be_word x)" using assms by (auto simp: ip_String_def)
  moreover have "CHR '':'' \<notin> set (string4 v)" for v
    using dec_str_digits [OF octet_word(3)] dec_str_digits [OF octet_word(5)] digit_plain by (fastforce simp: string4_def)
  ultimately show ?thesis using assms(2) by simp
qed

lemma SplitHostPort_none: "CHR '':'' \<notin> set s \<Longrightarrow> SplitHostPort s = None"
  by (simp add: SplitHostPort_def LastIndexByte_None [THEN iffD2] del: LastIndexByte_None)

lemma SplitHostPort_plain:
  assumes "\<forall>c\<in>set h. addr_char c \<or> c = CHR ''*''" "CHR '':'' \<notin> set h" "\<forall>c\<in>set p. is_digit c"
  shows "SplitHostPort (h @ CHR '':'' # p) = Some (h, p)"
proof -
  have p: "CHR '':'' \<notin> set p" "CHR ''['' \<notin> set p" "CHR '']'' \<notin> set p" using assms(3) digit_plain by (auto simp: addr_char_def)
  have h: "CHR ''['' \<notin> set h" "CHR '']'' \<notin> set h" using assms(1) by (auto simp: addr_char_def)
  have "hd (h @ CHR '':'' # p) \<noteq> CHR ''[''" using h by (cases h) auto
  then show ?thesis using p h assms(2) by (simp add: SplitHostPort_def LastIndexByte_append)
qed

lemma SplitHostPort_bracketed:
  assumes "\<forall>c\<in>set h. addr_char c" "\<forall>c\<in>set p. is_digit c"
  shows "SplitHostPort (''['' @ h @ '']:'' @ p) = Some (h, p)"
proof -
  let ?s = "''['' @ h @ '']:'' @ p"
  have p: "CHR '':'' \<notin> set p" "CHR ''['' \<notin> set p" "CHR '']'' \<notin> set p" using assms(2) digit_plain by (auto simp: addr_char_def)
  have h: "CHR ''['' \<notin> set h" "CHR '']'' \<notin> set h" using assms(1) by (auto simp: addr_char_def)
  have "LastIndexByte ((''['' @ h @ '']'') @ CHR '':'' # p) (CHR '':'') = Some (length (''['' @ h @ '']''))"
    by (rule LastIndexByte_append [OF p(1)])
  then have li: "LastIndexByte ?s (CHR '':'') = Some (length h + 2)" by simp
  have "IndexByte ((''['' @ h) @ CHR '']'' # CHR '':'' # p) (CHR '']'') = Some (length (''['' @ h))"
    by (rule IndexByte_append) (use h in auto)
  then have ii: "IndexByte ?s (CHR '']'') = Some (Suc (length h))" by simp
  show ?thesis using li ii p h by (simp add: SplitHostPort_def)
qed

text \<open>The whole reading of a text that is already trimmed and lower case.\<close>

lemma Classify_trimmed:
  assumes "\<forall>c\<in>set s. \<not> is_space c \<and> \<not> is_upper c" "s \<noteq> []" "last s \<noteq> CHR ''.''"
  shows "Classify s =
    (case port_qualifier s of (d, port) \<Rightarrow> if HasPrefix d ''*.'' then ([], drop 1 d, port) else (CanonHost d, [], port))"
proof -
  have "TrimSpace s = s" using assms(1) by (intro TrimSpace_id) simp
  moreover have "ToLower s = s" using assms(1) by (intro ToLower_id) simp
  moreover have "TrimRight s ''.'' = s" unfolding TrimRight_def by (rule trim_right_by_id) (use assms in simp)
  ultimately show ?thesis using assms(2) by (simp add: Classify_def)
qed

lemma Itoa_port:
  assumes "1 \<le> p" "p \<le> 65535"
  shows "\<forall>c\<in>set (Itoa p). is_digit c" "Itoa p \<noteq> []" "Atoi (Itoa p) = Some p"
  using assms dec_str_digits [of p] Atoi_Itoa [of p] by (auto simp: Itoa_nonneg)

lemma TrimRight_dot_id: "last h \<noteq> CHR ''.'' \<Longrightarrow> TrimRight h ''.'' = h"
  unfolding TrimRight_def by (rule trim_right_by_id) simp

lemma port_qualifier_spelled:
  assumes "SplitHostPort s = Some (h, Itoa p)" "1 \<le> p" "p \<le> 65535" "last h \<noteq> CHR ''.''"
  shows "port_qualifier s = (h, p)"
  using assms Itoa_port [of p] by (simp add: port_qualifier_def TrimRight_dot_id)

lemma port_qualifier_none: "SplitHostPort s = None \<Longrightarrow> port_qualifier s = (s, 0)"
  by (simp add: port_qualifier_def)

lemma entry_ok_exact:
  assumes "entry_ok e" "\<not> de_wild e"
  shows "\<not> HasPrefix (de_host e) ''*.''" "CanonHost (de_host e) = de_host e"
    "CHR '':'' \<in> set (de_host e) \<Longrightarrow> SplitHostPort (de_host e) = None"
proof -
  have chars: "\<forall>c\<in>set (de_host e). addr_char c" using entry_host_chars [OF assms(1)] by blast
  have "CHR ''*'' \<notin> set (de_host e)" using chars by (auto simp: addr_char_def)
  then show "\<not> HasPrefix (de_host e) ''*.''" unfolding HasPrefix_iff by fastforce
  show "CanonHost (de_host e) = de_host e" using assms by (simp add: entry_ok_def)
  assume c: "CHR '':'' \<in> set (de_host e)"
  have "\<not> ldhHost (de_host e)" using ldh_char [of "de_host e" "CHR '':''"] c by blast
  then obtain ip where ip: "length ip = 16" "de_host e = ip_String ip" using assms by (auto simp: entry_ok_def)
  have ne: "de_host e \<noteq> []" using assms(1) by (simp add: entry_ok_def)
  have "hd (de_host e) \<noteq> CHR ''[''"
  proof
    assume "hd (de_host e) = CHR ''[''"
    then have "addr_char CHR ''[''" using chars ne by (metis list.set_sel(1))
    then show False by (simp add: addr_char_def)
  qed
  then show "SplitHostPort (de_host e) = None"
    using ip_String_colon [OF ip(1)] c ip(2) by (intro SplitHostPort_two_colons) simp_all
qed

lemma parse_spelling:
  assumes ok: "entry_ok e"
  shows "parseDomEntry (domEntry_String e) = Some e"
proof -
  let ?h = "if de_wild e then CHR ''*'' # de_host e else de_host e"
  have ne: "de_host e \<noteq> []" "last (de_host e) \<noteq> CHR ''.''" using ok entry_host_last [OF ok] by (simp_all add: entry_ok_def)
  have chars: "\<forall>c\<in>set (de_host e). \<not> is_space c \<and> addr_char c" using entry_host_chars [OF ok] by blast
  have hc: "\<forall>c\<in>set ?h. \<not> is_space c \<and> \<not> is_upper c \<and> (addr_char c \<or> c = CHR ''*'')"
    using chars by (auto simp: addr_char_def is_space_def is_upper_def)
  have last_h: "last ?h \<noteq> CHR ''.''" using ne by simp
  have read: "parseDomEntry s = Some e"
    if s: "\<forall>c\<in>set s. \<not> is_space c \<and> \<not> is_upper c" "s \<noteq> []" "last s \<noteq> CHR ''.''" and q: "port_qualifier s = (?h, de_port e)" for s
  proof (cases "de_wild e")
    case True
    then have "HasPrefix (de_host e) ''.''" using ok by (simp add: entry_ok_def)
    then have "HasPrefix ?h ''*.''" using True by (auto simp: HasPrefix_iff)
    then show ?thesis using True ne q unfolding parseDomEntry_def Classify_trimmed [OF s] by simp
  next
    case False
    then show ?thesis using entry_ok_exact [OF ok False] ne q unfolding parseDomEntry_def Classify_trimmed [OF s] by simp
  qed
  have wild_colon: "CHR '':'' \<notin> set ?h" if "de_wild e"
    using ok that ldh_char [of "de_host e" "CHR '':''"] by (auto simp: entry_ok_def)
  show ?thesis
  proof (cases "de_port e = 0")
    case True
    have "SplitHostPort ?h = None"
    proof (cases "CHR '':'' \<in> set ?h")
      case c: True
      then have "\<not> de_wild e" using wild_colon by blast
      then show ?thesis using entry_ok_exact(3) [OF ok] c by simp
    qed (rule SplitHostPort_none)
    then have "port_qualifier ?h = (?h, de_port e)" using True by (simp add: port_qualifier_none)
    then show ?thesis using read [of ?h] hc last_h ne True by (simp add: domEntry_String_def Let_def)
  next
    case False
    then have p: "1 \<le> de_port e" "de_port e \<le> 65535" using ok by (auto simp: entry_ok_def)
    note it = Itoa_port [OF p]
    have dig: "\<forall>c\<in>set (Itoa (de_port e)). \<not> is_space c \<and> \<not> is_upper c" "last (Itoa (de_port e)) \<noteq> CHR ''.''"
      using it digit_plain by (auto simp: addr_char_def)
    show ?thesis
    proof (cases "CHR '':'' \<in> set ?h")
      case c: True
      then have w: "\<not> de_wild e" using wild_colon by blast
      let ?s = "''['' @ de_host e @ '']:'' @ Itoa (de_port e)"
      have "SplitHostPort ?s = Some (de_host e, Itoa (de_port e))" by (rule SplitHostPort_bracketed) (use chars it in auto)
      then have "port_qualifier ?s = (?h, de_port e)" using p ne w by (simp add: port_qualifier_spelled)
      moreover have "\<forall>c\<in>set ?s. \<not> is_space c \<and> \<not> is_upper c" using chars dig by (auto simp: addr_char_def is_space_def is_upper_def)
      ultimately have "parseDomEntry ?s = Some e" using dig it by (intro read) simp_all
      then show ?thesis using False c w by (simp add: domEntry_String_def Contains_one JoinHostPort_def)
    next
      case c: False
      let ?s = "?h @ '':'' @ Itoa (de_port e)"
      have "SplitHostPort (?h @ CHR '':'' # Itoa (de_port e)) = Some (?h, Itoa (de_port e))"
        by (rule SplitHostPort_plain) (use hc c it in auto)
      then have "port_qualifier ?s = (?h, de_port e)" using p last_h by (simp add: port_qualifier_spelled)
      moreover have "\<forall>c\<in>set ?s. \<not> is_space c \<and> \<not> is_upper c" using hc dig by (auto simp: is_space_def is_upper_def)
      ultimately have "parseDomEntry ?s = Some e" using dig it by (intro read) simp_all
      then show ?thesis using False c by (auto simp: domEntry_String_def Contains_one Let_def)
    qed
  qed
qed

lemma entry_ok_hits: "ValidDomainEntry d = None \<Longrightarrow> parseDomEntry d = Some e \<Longrightarrow> entry_ok e"
  using valid_entry_ok [of d] by auto

lemma spelling_inject: "entry_ok a \<Longrightarrow> entry_ok b \<Longrightarrow> domEntry_String a = domEntry_String b \<Longrightarrow> a = b"
  by (metis parse_spelling option.inject)

lemma intersect_ok: "intersect a b = Some c \<Longrightarrow> entry_ok a \<Longrightarrow> entry_ok b \<Longrightarrow> entry_ok c"
  by (auto simp: intersect_def entry_ok_def Let_def split: if_splits)

subsection \<open>The minimal spelling of a set of entries\<close>

lemma set_spelled: "set (spelled es) \<subseteq> (\<lambda>e. (domEntry_String e, e)) ` set es"
proof -
  have "set (fold (\<lambda>e m. AList.update (domEntry_String e) e m) es m) \<subseteq> (\<lambda>e. (domEntry_String e, e)) ` set es \<union> set m" for m
  proof (induction es arbitrary: m)
    case (Cons e es)
    have "set (AList.update (domEntry_String e) e m) \<subseteq> insert (domEntry_String e, e) (set m)"
      by (induction m) auto
    then show ?case using Cons.IH [of "AList.update (domEntry_String e) e m"] by auto
  qed simp
  from this [of "[]"] show ?thesis by (simp add: spelled_def)
qed

lemma dom_spelled: "fst ` set (spelled es) = domEntry_String ` set es"
proof -
  have "fst ` set (fold (\<lambda>e m. AList.update (domEntry_String e) e m) es m) = domEntry_String ` set es \<union> fst ` set m" for m
    by (induction es arbitrary: m) (auto simp: dom_update)
  from this [of "[]"] show ?thesis by (simp add: spelled_def)
qed

lemma spelled_mem:
  assumes "\<forall>e\<in>set es. entry_ok e"
  shows "(n, e) \<in> set (spelled es) \<longleftrightarrow> e \<in> set es \<and> n = domEntry_String e"
proof
  assume "e \<in> set es \<and> n = domEntry_String e"
  then obtain f where f: "(n, f) \<in> set (spelled es)" using dom_spelled [of es] by force
  then have "f \<in> set es" "domEntry_String f = n" using set_spelled [of es] by auto
  then have "f = e" using \<open>e \<in> set es \<and> n = domEntry_String e\<close> assms spelling_inject by auto
  then show "(n, e) \<in> set (spelled es)" using f by simp
qed (use set_spelled [of es] in auto)

text \<open>A strict domination makes an entry shorter or drops its port, so every entry has an undominated one over it.\<close>

definition entry_size :: "domEntry \<Rightarrow> nat" where
  "entry_size e = 2 * length (de_host e) + (if de_port e = 0 then 0 else 1)"

lemma HasSuffix_shorter: "HasSuffix a b \<Longrightarrow> b = a \<or> length b < length a"
  by (auto simp: HasSuffix_iff)

lemma covers_shrinks:
  assumes "covers_entry f e" "de_wild f = de_wild e" "f \<noteq> e"
  shows "entry_size f < entry_size e"
proof -
  have "de_host f = de_host e \<or> length (de_host f) < length (de_host e)"
    using assms(1,2) HasSuffix_shorter [of "de_host e" "de_host f"] by (auto simp: covers_entry_def MatchWild_iff split: if_splits)
  then show ?thesis
  proof
    assume h: "de_host f = de_host e"
    then have "de_port f \<noteq> de_port e" using assms(2,3) by auto
    then have "de_port f = 0" "de_port e \<noteq> 0" using assms(1) by (auto simp: covers_entry_def split: if_splits)
    then show ?thesis using h by (simp add: entry_size_def)
  qed (simp add: entry_size_def)
qed

lemma undominated:
  assumes ok: "\<forall>e\<in>set es. entry_ok e"
  shows "e \<in> set es \<Longrightarrow> \<exists>f\<in>set es. de_wild f = de_wild e \<and> covers_entry f e \<and> \<not> hasDominator (spelled es) (domEntry_String f) f"
proof (induction e rule: measure_induct_rule [of entry_size])
  case (less e)
  show ?case
  proof (cases "hasDominator (spelled es) (domEntry_String e) e")
    case True
    then obtain f where f: "f \<in> set es" "domEntry_String f \<noteq> domEntry_String e" "de_wild f = de_wild e" "covers_entry f e"
      using spelled_mem [OF ok] by (auto simp: hasDominator_def list_ex_iff)
    then have "entry_size f < entry_size e" by (intro covers_shrinks) auto
    from less.IH [OF this f(1)] show ?thesis using f covers_entry_trans by metis
  qed (use less.prems in auto)
qed

lemma minimise_mem:
  assumes "\<forall>e\<in>set es. entry_ok e"
  shows "set (minimise es) = {domEntry_String e |e. e \<in> set es \<and> \<not> hasDominator (spelled es) (domEntry_String e) e}"
  using spelled_mem [OF assms] by (force simp: minimise_def Let_def image_iff)

lemma minimise_hits:
  assumes ok: "\<forall>e\<in>set es. entry_ok e"
  shows "(\<exists>d\<in>set (minimise es). entry_matches d host port) \<longleftrightarrow> (\<exists>e\<in>set es. hits e host port)"
proof
  assume "\<exists>d\<in>set (minimise es). entry_matches d host port"
  then show "\<exists>e\<in>set es. hits e host port"
    using ok parse_spelling unfolding minimise_mem [OF ok] by (auto simp: entry_matches_hits)
next
  assume "\<exists>e\<in>set es. hits e host port"
  then obtain e where e: "e \<in> set es" "hits e host port" by blast
  from undominated [OF ok e(1)] obtain f where
    f: "f \<in> set es" "covers_entry f e" "\<not> hasDominator (spelled es) (domEntry_String f) f" by blast
  have "parseDomEntry (domEntry_String f) = Some f" using f(1) ok by (intro parse_spelling) simp
  then have "entry_matches (domEntry_String f) host port" using covers_hits [OF f(2) e(2)] by (simp add: entry_matches_hits)
  moreover have "domEntry_String f \<in> set (minimise es)" unfolding minimise_mem [OF ok] using f(1,3) by blast
  ultimately show "\<exists>d\<in>set (minimise es). entry_matches d host port" by blast
qed

subsection \<open>The meet of two allow lists\<close>

lemma parsed_mem: "e \<in> set (parsed ds) \<longleftrightarrow> (\<exists>d\<in>set ds. parseDomEntry d = Some e)"
  by (force simp: parsed_def map_filter_def)

lemma parsedI: "d \<in> set ds \<Longrightarrow> parseDomEntry d = Some e \<Longrightarrow> e \<in> set (parsed ds)"
  by (auto simp: parsed_mem)

lemma parsedE: "e \<in> set (parsed ds) \<Longrightarrow> (\<And>d. d \<in> set ds \<Longrightarrow> parseDomEntry d = Some e \<Longrightarrow> thesis) \<Longrightarrow> thesis"
  by (auto simp: parsed_mem)

lemma parsed_ok: "\<forall>d\<in>set ds. ValidDomainEntry d = None \<Longrightarrow> \<forall>e\<in>set (parsed ds). entry_ok e"
  by (metis parsed_mem entry_ok_hits)

definition met_entries :: "string list \<Rightarrow> string list \<Rightarrow> domEntry list" where
  "met_entries base ov = concat (map (\<lambda>b. List.map_filter (intersect b) (parsed ov)) (parsed base))"

lemma met_entries_mem: "c \<in> set (met_entries base ov) \<longleftrightarrow> (\<exists>b\<in>set (parsed base). \<exists>x\<in>set (parsed ov). intersect b x = Some c)"
  by (force simp: met_entries_def map_filter_def)

lemma met_entries_ok:
  "\<forall>d\<in>set base \<union> set ov. ValidDomainEntry d = None \<Longrightarrow> \<forall>e\<in>set (met_entries base ov). entry_ok e"
  using parsed_ok [of base] parsed_ok [of ov] intersect_ok by (auto simp: met_entries_mem)

text \<open>Two entries are of one kind when both are hosts or both are wildcards.\<close>

definition same_kind :: "string \<Rightarrow> string \<Rightarrow> bool" where
  "same_kind d d' \<longleftrightarrow> (fst (snd (Classify d)) = []) = (fst (snd (Classify d')) = [])"

lemma parse_kind: "parseDomEntry d = Some e \<Longrightarrow> de_wild e \<longleftrightarrow> fst (snd (Classify d)) \<noteq> []"
  by (auto simp: parseDomEntry_def split: prod.splits if_splits)

lemma bex_parsed_pair:
  "(\<exists>b\<in>set (parsed base). \<exists>x\<in>set (parsed ov). de_wild b = de_wild x \<and> hits b host port \<and> hits x host port) \<longleftrightarrow>
   (\<exists>d\<in>set base. \<exists>d'\<in>set ov. same_kind d d' \<and> entry_matches d host port \<and> entry_matches d' host port)" (is "?l \<longleftrightarrow> ?r")
proof
  assume ?l
  then obtain b x d d' where "d \<in> set base" "d' \<in> set ov" "parseDomEntry d = Some b" "parseDomEntry d' = Some x"
    "de_wild b = de_wild x" "hits b host port" "hits x host port" by (auto simp: parsed_mem)
  then show ?r using parse_kind [of d b] parse_kind [of d' x] unfolding entry_matches_hits same_kind_def by blast
next
  assume ?r
  then obtain b x d d' where "d \<in> set base" "d' \<in> set ov" "parseDomEntry d = Some b" "parseDomEntry d' = Some x"
    "same_kind d d'" "hits b host port" "hits x host port" by (auto simp: entry_matches_hits)
  then show ?l using parse_kind [of d b] parse_kind [of d' x] unfolding parsed_mem same_kind_def Bex_def by blast
qed

text \<open>
  C38: what the composed allow list admits. For entries the writer accepts, a request matches the meet of two allow lists
  exactly when an entry of the base and an entry of the overlay of the same kind, both hosts or both wildcards, match
  it. So no request is admitted that either list leaves out, nothing both lists admit in the same way is lost, and the
  minimal respelling drops no reach.
\<close>

theorem meet_domains_admits:
  assumes "\<forall>d\<in>set base \<union> set ov. ValidDomainEntry d = None"
  shows "(\<exists>d\<in>set (meet_domains base ov). entry_matches d host port) \<longleftrightarrow>
    (\<exists>b\<in>set base. \<exists>x\<in>set ov. same_kind b x \<and> entry_matches b host port \<and> entry_matches x host port)"
proof -
  have eq: "meet_domains base ov = minimise (met_entries base ov)" by (simp add: meet_domains_def met_entries_def)
  have "(\<exists>d\<in>set (meet_domains base ov). entry_matches d host port) \<longleftrightarrow>
      (\<exists>b\<in>set (parsed base). \<exists>x\<in>set (parsed ov). \<exists>c. intersect b x = Some c \<and> hits c host port)"
    unfolding eq minimise_hits [OF met_entries_ok [OF assms]] by (auto simp: Bex_def met_entries_mem)
  also have "\<dots> \<longleftrightarrow> (\<exists>b\<in>set (parsed base). \<exists>x\<in>set (parsed ov). de_wild b = de_wild x \<and> hits b host port \<and> hits x host port)"
    unfolding intersect_both ..
  also have "\<dots> \<longleftrightarrow> (\<exists>b\<in>set base. \<exists>x\<in>set ov. same_kind b x \<and> entry_matches b host port \<and> entry_matches x host port)"
    by (rule bex_parsed_pair)
  finally show ?thesis .
qed

lemma meet_domains_witness:
  "meet_domains [''*.example.com'', ''api.github.com:443''] [''*.eu.example.com:443'', ''api.github.com'', ''evil.test''] =
     [''*.eu.example.com:443'', ''api.github.com:443''] \<and>
   (\<exists>b\<in>set [''*.example.com'', ''api.github.com:443'']. \<exists>x\<in>set [''*.eu.example.com:443'', ''api.github.com'', ''evil.test''].
      same_kind b x \<and> entry_matches b ''a.eu.example.com'' 443 \<and> entry_matches x ''a.eu.example.com'' 443)"
proof -
  let ?b = "[''*.example.com'', ''api.github.com:443'']"
  let ?o = "[''*.eu.example.com:443'', ''api.github.com'', ''evil.test'']"
  have m: "meet_domains ?b ?o = [''*.eu.example.com:443'', ''api.github.com:443'']" by code_simp
  have v: "\<forall>d\<in>set ?b \<union> set ?o. ValidDomainEntry d = None" by code_simp
  have "entry_matches ''*.eu.example.com:443'' ''a.eu.example.com'' 443" by code_simp
  then have "\<exists>d\<in>set (meet_domains ?b ?o). entry_matches d ''a.eu.example.com'' 443" unfolding m by auto
  with meet_domains_admits [OF v] have "\<exists>b\<in>set ?b. \<exists>x\<in>set ?o.
      same_kind b x \<and> entry_matches b ''a.eu.example.com'' 443 \<and> entry_matches x ''a.eu.example.com'' 443" by blast
  with m show ?thesis by blast
qed

text \<open>
  An entry is spelled as it is read. Every entry the writer accepts reads as an entry whose canonical spelling is
  accepted too and reads back as the same entry, IPv6 literals with a port included.
\<close>

theorem spelling_roundtrip:
  assumes "ValidDomainEntry d = None"
  shows "\<exists>e. parseDomEntry d = Some e \<and> parseDomEntry (domEntry_String e) = Some e \<and> ValidDomainEntry (domEntry_String e) = None"
proof -
  obtain e where e: "parseDomEntry d = Some e" "entry_ok e" using valid_entry_ok [OF assms] by blast
  note s = parse_spelling [OF e(2)]
  obtain h port where "wire_host h" "entry_matches d (CanonHost h) port"
    using assms valid_entry_matchable by blast
  then have "entry_matches (domEntry_String e) (CanonHost h) port" using e(1) s by (simp add: entry_matches_hits)
  then show ?thesis using e(1) s dead_entry_matches_nothing [OF \<open>wire_host h\<close>] by blast
qed

lemma spelling_roundtrip_witness:
  "parseDomEntry '' [2001:DB8::1]:0443. '' = Some \<lparr>de_wild = False, de_host = ''2001:db8::1'', de_port = 443\<rparr> \<and>
   parseDomEntry ''[2001:db8::1]:443'' = Some \<lparr>de_wild = False, de_host = ''2001:db8::1'', de_port = 443\<rparr>"
proof -
  have p: "parseDomEntry '' [2001:DB8::1]:0443. '' = Some \<lparr>de_wild = False, de_host = ''2001:db8::1'', de_port = 443\<rparr>" by code_simp
  have "ValidDomainEntry '' [2001:DB8::1]:0443. '' = None" by code_simp
  moreover have "domEntry_String \<lparr>de_wild = False, de_host = ''2001:db8::1'', de_port = 443\<rparr> = ''[2001:db8::1]:443''" by code_simp
  ultimately show ?thesis using spelling_roundtrip [of "'' [2001:DB8::1]:0443. ''"] p by auto
qed

text \<open>
  An entry the writer would refuse does not keep its reading: a host that ends in a space before its root dot matches no
  request, and its canonical spelling reads as the host without the space. Composing two lists that both carry it gives
  a list that admits the host, which neither list does.
\<close>

lemma meet_dead_entry_widens:
  "\<not> entry_matches ''example.com .'' ''example.com'' 443 \<and>
   (\<exists>d\<in>set (meet_domains [''example.com .''] [''example.com .'']). entry_matches d ''example.com'' 443)"
proof
  show "\<not> entry_matches ''example.com .'' ''example.com'' 443" by code_simp
  have "meet_domains [''example.com .''] [''example.com .''] = [''example.com '']" by code_simp
  moreover have "entry_matches ''example.com '' ''example.com'' 443" by code_simp
  ultimately show "\<exists>d\<in>set (meet_domains [''example.com .''] [''example.com .'']). entry_matches d ''example.com'' 443" by simp
qed

text \<open>A host under a base wildcard does not survive the meet, though both lists admit its requests.\<close>

lemma meet_mixed_kinds_drops:
  "entry_matches ''*.example.com'' ''www.example.com'' 443 \<and> entry_matches ''www.example.com'' ''www.example.com'' 443 \<and>
   meet_domains [''*.example.com''] [''www.example.com''] = []"
  by code_simp

subsection \<open>The order of two lists\<close>

lemma leqAllowedDomains_iff:
  "leqAllowedDomains a b \<longleftrightarrow>
     (\<forall>s\<in>set a. \<exists>e. parseDomEntry s = Some e \<and> (\<exists>f\<in>set (parsed b). covers_entry f e))"
  unfolding leqAllowedDomains_def list_all_iff list_ex_iff by (rule ball_cong [OF refl]) (simp split: option.split)

lemma leqDeniedDomains_iff:
  "leqDeniedDomains a b \<longleftrightarrow>
     (\<forall>s\<in>set b. (\<forall>f. parseDomEntry s = Some f \<longrightarrow> (\<exists>e\<in>set (parsed a). covers_entry e f)) \<and>
        (parseDomEntry s = None \<longrightarrow> ToLower (TrimSpace s) = [] \<or> ToLower (TrimSpace s) \<in> set (unreadable a)))"
  unfolding leqDeniedDomains_def list_all_iff list_ex_iff Let_def by (rule ball_cong [OF refl]) (simp split: option.split)

lemma leqAllowedDomains_sound:
  assumes "leqAllowedDomains a b" "d \<in> set a" "entry_matches d host port"
  shows "\<exists>d'\<in>set b. entry_matches d' host port"
proof -
  obtain e where e: "parseDomEntry d = Some e" "hits e host port" using assms(3) by (auto simp: entry_matches_hits)
  then obtain f where "f \<in> set (parsed b)" "covers_entry f e"
    using assms(1,2) unfolding leqAllowedDomains_iff by fastforce
  then have "\<exists>f\<in>set (parsed b). hits f host port" using covers_hits e(2) by blast
  then show ?thesis by (simp add: list_matches_hits)
qed

lemma leqDeniedDomains_sound:
  assumes "leqDeniedDomains a b" "d \<in> set b" "entry_matches d host port"
  shows "\<exists>d'\<in>set a. entry_matches d' host port"
proof -
  obtain e where e: "parseDomEntry d = Some e" "hits e host port" using assms(3) by (auto simp: entry_matches_hits)
  then obtain f where "f \<in> set (parsed a)" "covers_entry f e"
    using assms(1,2) unfolding leqDeniedDomains_iff by blast
  then have "\<exists>f\<in>set (parsed a). hits f host port" using covers_hits e(2) by blast
  then show ?thesis by (simp add: list_matches_hits)
qed

lemma leqAllowedDomains_trans:
  assumes "leqAllowedDomains a b" "leqAllowedDomains b c"
  shows "leqAllowedDomains a c"
  unfolding leqAllowedDomains_iff
proof
  fix s assume "s \<in> set a"
  then obtain e f where e: "parseDomEntry s = Some e" "f \<in> set (parsed b)" "covers_entry f e"
    using assms(1) unfolding leqAllowedDomains_iff by blast
  from e(2) obtain d where d: "d \<in> set b" "parseDomEntry d = Some f" by (rule parsedE)
  then obtain g where "g \<in> set (parsed c)" "covers_entry g f"
    using assms(2) unfolding leqAllowedDomains_iff by fastforce
  then show "\<exists>e. parseDomEntry s = Some e \<and> (\<exists>f\<in>set (parsed c). covers_entry f e)"
    using e covers_entry_trans by blast
qed

lemma valid_parses: "ValidDomainEntry d = None \<Longrightarrow> parseDomEntry d \<noteq> None"
  by (auto simp: ValidDomainEntry_def parseDomEntry_def split: prod.splits if_splits)

lemma leqAllowedDomains_refl: "\<forall>d\<in>set a. parseDomEntry d \<noteq> None \<Longrightarrow> leqAllowedDomains a a"
  unfolding leqAllowedDomains_iff using parsedI covers_entry_refl by fastforce

lemma leqDeniedDomains_refl: "leqDeniedDomains a a"
  unfolding leqDeniedDomains_iff unreadable_def using parsedI covers_entry_refl by fastforce

text \<open>Every entry of the meet is covered by an entry of the base.\<close>

lemma meet_domains_leq:
  assumes "\<forall>d\<in>set base \<union> set ov. ValidDomainEntry d = None"
  shows "leqAllowedDomains (meet_domains base ov) base"
proof -
  have ok: "\<forall>e\<in>set (met_entries base ov). entry_ok e" by (rule met_entries_ok [OF assms])
  have "\<exists>e. parseDomEntry s = Some e \<and> (\<exists>f\<in>set (parsed base). covers_entry f e)" if s: "s \<in> set (meet_domains base ov)" for s
  proof -
    obtain e where "s = domEntry_String e" "e \<in> set (met_entries base ov)"
      using s minimise_mem [OF ok] by (auto simp: meet_domains_def met_entries_def)
    moreover then obtain b x where "b \<in> set (parsed base)" "intersect b x = Some e" by (auto simp: met_entries_mem)
    ultimately show ?thesis using parse_spelling ok intersect_covered by blast
  qed
  then show ?thesis unfolding leqAllowedDomains_iff by blast
qed

text \<open>The spelling of an unreadable entry reads no better.\<close>

lemma is_space_lower_iff: "is_space (lower_char c) \<longleftrightarrow> is_space c"
  by (auto simp: is_space_def ord_lower_char is_upper_def)

lemma dropWhile_space_lower: "dropWhile is_space (map lower_char s) = map lower_char (dropWhile is_space s)"
  by (induction s) (simp_all add: is_space_lower_iff)

lemma TrimSpace_ToLower: "TrimSpace (ToLower s) = ToLower (TrimSpace s)"
  by (simp add: TrimSpace_def ToLower_def trim_left_by_def trim_right_by_def dropWhile_space_lower rev_map)

lemma trim_right_prefix: "\<exists>r. s = trim_right_by P s @ r"
proof -
  have "rev s = takeWhile P (rev s) @ dropWhile P (rev s)" by simp
  then have "s = rev (dropWhile P (rev s)) @ rev (takeWhile P (rev s))" by (metis rev_append rev_rev_ident)
  then show ?thesis unfolding trim_right_by_def by blast
qed

lemma TrimSpace_idem: "TrimSpace (TrimSpace s) = TrimSpace s"
proof -
  have l: "dropWhile P s = [] \<or> \<not> P (hd (dropWhile P s))" for P and s :: string by (metis hd_dropWhile)
  have "trim_left_by is_space (TrimSpace s) = TrimSpace s"
  proof (cases "TrimSpace s")
    case (Cons c t)
    obtain r where "trim_left_by is_space s = TrimSpace s @ r"
      using trim_right_prefix [of "trim_left_by is_space s" is_space] by (auto simp: TrimSpace_def)
    then have "\<not> is_space c" using l [of is_space s] Cons by (auto simp: trim_left_by_def)
    then show ?thesis by (simp add: Cons trim_left_by_def)
  qed (simp add: trim_left_by_def)
  then show ?thesis by (simp add: TrimSpace_def)
qed

lemma normal_spelling: "ToLower (TrimSpace (ToLower (TrimSpace s))) = ToLower (TrimSpace s)"
  by (simp add: TrimSpace_ToLower TrimSpace_idem)

lemma parse_normal: "parseDomEntry (ToLower (TrimSpace s)) = parseDomEntry s"
  by (simp add: parseDomEntry_def Classify_def normal_spelling)

lemma unionDenied_leq:
  assumes "\<forall>d\<in>set a. parseDomEntry d = None \<or> ValidDomainEntry d = None"
  shows "leqDeniedDomains (unionDenied a b) a"
proof -
  have mem: "s \<in> set (unionDenied a b) \<longleftrightarrow> (\<exists>d\<in>set a \<union> set b. denied_spelling d = Some s)" for s
    by (force simp: unionDenied_def map_filter_def)
  show ?thesis unfolding leqDeniedDomains_iff
  proof (intro ballI conjI allI impI)
    fix s f assume s: "s \<in> set a" "parseDomEntry s = Some f"
    then have "entry_ok f" using assms entry_ok_hits [of s f] by auto
    then have "parseDomEntry (domEntry_String f) = Some f" by (rule parse_spelling)
    moreover have "denied_spelling s = Some (domEntry_String f)" using s by (simp add: denied_spelling_def)
    then have "domEntry_String f \<in> set (unionDenied a b)" using mem s(1) by blast
    ultimately show "\<exists>e\<in>set (parsed (unionDenied a b)). covers_entry e f" using parsedI covers_entry_refl by blast
  next
    fix s assume s: "s \<in> set a" "parseDomEntry s = None"
    let ?t = "ToLower (TrimSpace s)"
    have "?t = [] \<or> denied_spelling s = Some ?t" using s by (simp add: denied_spelling_def Let_def)
    then have "?t = [] \<or> ?t \<in> set (unionDenied a b)" using mem s(1) by blast
    moreover have "parseDomEntry ?t = None" using s by (simp add: parse_normal)
    moreover have "x \<in> set ds \<Longrightarrow> parseDomEntry x = None \<Longrightarrow> ToLower (TrimSpace x) \<in> set (unreadable ds)" for x ds
      by (simp add: unreadable_def)
    ultimately show "?t = [] \<or> ?t \<in> set (unreadable (unionDenied a b))" by (metis normal_spelling)
  qed
qed

end
