(* ===== verification/PolicyOrder.thy ===== *)
theory PolicyOrder
  imports GovernanceTypes GrantScope DomainMeet
begin

section \<open>When one policy is within another: internal/composer/leq.go, leq_fallback.go\<close>

text \<open>
  \<open>Leq\<close> compares two policies under their limits, field by field, each field read the way the runtime reads it. The
  normalisers it shares with the overlay meet and the clamp stand here too, with the source each comes from. The lemmas
  give every rule its meaning: what the rule accepts admits nothing the other side refuses.
\<close>

subsection \<open>Normalisers shared with the meet and the clamp\<close>

definition defaultFirstUseHoldSec :: int where "defaultFirstUseHoldSec = 30"
definition maxHoldSec :: int where "maxHoldSec = 600"
definition defaultMaxHolds :: int where "defaultMaxHolds = 16"
definition maxHoldsCeiling :: int where "maxHoldsCeiling = 256"
definition defaultInspectPackMiB :: int where "defaultInspectPackMiB = 32"
definition defaultPushHoldSec :: int where "defaultPushHoldSec = 120"

lemmas hold_defs = defaultFirstUseHoldSec_def maxHoldSec_def defaultMaxHolds_def maxHoldsCeiling_def
  defaultInspectPackMiB_def defaultPushHoldSec_def

definition normFirstUseHold :: "int \<Rightarrow> int" where
  "normFirstUseHold x = (if x \<le> 0 then defaultFirstUseHoldSec else min x maxHoldSec)"

definition normMaxHolds :: "int \<Rightarrow> int" where
  "normMaxHolds x = (if x \<le> 0 then defaultMaxHolds else min x maxHoldsCeiling)"

definition normPushHold :: "int \<Rightarrow> int" where
  "normPushHold x = (if x \<le> 0 then defaultPushHoldSec else min x maxHoldSec)"

definition normMethods :: "string list \<Rightarrow> string list" where
  "normMethods xs = sort_compact (filter (\<lambda>s. s \<noteq> []) (map (\<lambda>s. ToUpper (TrimSpace s)) xs))"

definition confinementRank :: "ConfinementClass \<Rightarrow> int" where
  "confinementRank c = Confinement_Rank (ToUpper (TrimSpace c))"

definition firstUseApprovalRank :: "FirstUseMode \<Rightarrow> int" where
  "firstUseApprovalRank m =
     (let n = FirstUse_Normalize m in
      if n = FirstUseAlwaysDeny then 3 else if n = FirstUseDenyWithReview then 2 else 1)"

definition toolStrictness :: "ToolEffect \<Rightarrow> int" where
  "toolStrictness e = (if e = ToolDeny then 2 else if e = ToolHold then 1 else 0)"

definition toolEffects :: "ToolRule list \<Rightarrow> (string \<times> ToolEffect) list" where
  "toolEffects rules = fold (\<lambda>r m. AList.update (Tool r) (Effect r) m) rules []"

definition effectFor :: "(string \<times> ToolEffect) list \<Rightarrow> string \<Rightarrow> ToolEffect" where
  "effectFor rules tool =
     (case map_of rules tool of
        Some e \<Rightarrow> e
      | None \<Rightarrow> (case map_of rules ''*'' of Some e \<Rightarrow> e | None \<Rightarrow> ToolHold))"

definition capStrings :: "string list \<Rightarrow> string list" where
  "capStrings xs = sort_compact xs"

text \<open>\<open>sameJSON\<close> on two inspections: the JSON texts are equal when every field is, a string by its runes (the encoder
  writes a byte that starts no sequence as an escape).\<close>

definition llm_json :: "LLMInspectionSpec \<Rightarrow> int option list list \<times> int option list list list \<times> bool list \<times> int" where
  "llm_json s =
     (map runes [Mode s, DetectorSidecarURL s, OnScannerError s, BlockMinSeverity s],
      map (map runes) [WorkspaceSecretNames s, WorkspaceSecretValues s, ClassifiedMarkers s],
      [DetectSecrets s, DetectSecretPatterns s, DetectEntropy s, DetectPII s, ScanAttachments s, InspectForwardEgress s,
       RequireInspectableLLM s, InterceptTLS s],
      MaxScanBytes s)"

definition sameJSON :: "LLMInspectionSpec \<Rightarrow> LLMInspectionSpec \<Rightarrow> bool" where
  "sameJSON a b = (llm_json a = llm_json b)"

text \<open>\<open>tightest\<close> and \<open>looser\<close> of meet.go: a value that is not positive is no bound.\<close>

definition tightest :: "int \<Rightarrow> int \<Rightarrow> int" where
  "tightest a b = (if a \<le> 0 then max b 0 else if b \<le> 0 then a else min a b)"

definition looser :: "int \<Rightarrow> int \<Rightarrow> bool" where
  "looser x b = (if b \<le> 0 then False else x \<le> 0 \<or> x > b)"

subsection \<open>The rules\<close>

definition notLooser :: "int \<Rightarrow> int \<Rightarrow> bool" where
  "notLooser a b = (\<not> looser a b)"

definition norm_size :: "int \<Rightarrow> int \<Rightarrow> int" where
  "norm_size def x = (if x \<le> 0 then def else x)"

definition leqSize :: "int \<Rightarrow> int \<Rightarrow> int \<Rightarrow> bool" where
  "leqSize a b def = notLooser (norm_size def a) (norm_size def b)"

definition leqSubsetWhenSet :: "string list \<Rightarrow> string list \<Rightarrow> bool" where
  "leqSubsetWhenSet a b = (if b = [] then True else a \<noteq> [] \<and> list_all (\<lambda>s. s \<in> set b) a)"

definition leqCapabilities :: "string list \<Rightarrow> string list \<Rightarrow> bool" where
  "leqCapabilities a b = (if b = [] then a = [] else leqSubsetWhenSet a b)"

definition leqEgress :: "RunPolicySpec \<Rightarrow> RunPolicySpec \<Rightarrow> bool" where
  "leqEgress a b =
     (if AllowAllEgress a \<and> \<not> AllowAllEgress b then False
      else if firstUseApprovalRank (FirstUseApproval a) < firstUseApprovalRank (FirstUseApproval b) \<or>
              normFirstUseHold (FirstUseHoldSeconds a) > normFirstUseHold (FirstUseHoldSeconds b) \<or>
              normMaxHolds (MaxHolds a) > normMaxHolds (MaxHolds b) then False
      else leqAllowedDomains (AllowedDomains a) (AllowedDomains b) \<and>
           leqDeniedDomains (DeniedDomains a) (DeniedDomains b) \<and>
           leqSubsetWhenSet (normMethods (AllowedMethods a)) (normMethods (AllowedMethods b)))"

definition leqMounts :: "WorkspaceMount list \<Rightarrow> WorkspaceMount list \<Rightarrow> bool" where
  "leqMounts a b =
     list_all (\<lambda>m. case find (\<lambda>x. MSource x = MSource m \<and> MTarget x = MTarget m) b of
         None \<Rightarrow> False | Some x \<Rightarrow> \<not> (ReadOnlyOrDefault x \<and> \<not> ReadOnlyOrDefault m)) a"

definition leqWorkspaceRepos :: "WorkspaceRepo list \<Rightarrow> WorkspaceRepo list \<Rightarrow> bool" where
  "leqWorkspaceRepos a b = list_all (\<lambda>r. r \<in> set b) a"

definition leqLLMInspection :: "LLMInspectionSpec option \<Rightarrow> LLMInspectionSpec option \<Rightarrow> bool" where
  "leqLLMInspection a b =
     (case b of
        None \<Rightarrow> (case a of None \<Rightarrow> True | Some x \<Rightarrow> TrimSpace (DetectorSidecarURL x) = [])
      | Some y \<Rightarrow> (case a of None \<Rightarrow> False | Some x \<Rightarrow> sameJSON x y))"

definition app_within :: "UIApp \<Rightarrow> UIApp \<Rightarrow> bool" where
  "app_within app x =
     (AName x = AName app \<and> APort x = APort app \<and> PathOrRoot x = PathOrRoot app \<and>
      (\<not> Inbound app \<or> Inbound x \<and> list_all (\<lambda>c. c \<in> set (Callers x)) (Callers app)))"

definition leqUIApps :: "UIApp list \<Rightarrow> UIApp list \<Rightarrow> bool" where
  "leqUIApps a b = (if a = [] \<and> b \<noteq> [] then False else list_all (\<lambda>app. list_ex (app_within app) b) a)"

definition resources_of :: "ResourceLimits option \<Rightarrow> ResourceLimits" where
  "resources_of r = (case r of None \<Rightarrow> empty_resources | Some x \<Rightarrow> x)"

definition leqResources :: "Limits \<Rightarrow> ResourceLimits option \<Rightarrow> ResourceLimits option \<Rightarrow> bool" where
  "leqResources eff a b =
     (let ra = resources_of a; rb = resources_of b in
      leqSize (CPUMillis ra) (CPUMillis rb) (sz_CPUMillis eff) \<and> leqSize (MemoryMiB ra) (MemoryMiB rb) (sz_MemoryMiB eff) \<and>
      leqSize (PidsLimit ra) (PidsLimit rb) (sz_PidsLimit eff) \<and> leqSize (DiskMiB ra) (DiskMiB rb) 0)"

definition leqToolRules :: "ToolRule list \<Rightarrow> ToolRule list \<Rightarrow> bool" where
  "leqToolRules a b =
     (let ea = toolEffects a; eb = toolEffects b;
          check = (\<lambda>tool. toolStrictness (effectFor ea tool) \<ge> toolStrictness (effectFor eb tool))
      in if \<not> check ''*'' then False
         else list_all check (map fst ea) \<and> list_all check (map fst eb))"

definition walls_of :: "HarnessInnerWalls option \<Rightarrow> HarnessInnerWalls" where
  "walls_of w = (case w of None \<Rightarrow> \<lparr>SandboxMode = [], Approvals = []\<rparr> | Some x \<Rightarrow> x)"

definition leqInnerWalls :: "HarnessInnerWalls option \<Rightarrow> HarnessInnerWalls option \<Rightarrow> bool" where
  "leqInnerWalls a b =
     (case b of
        None \<Rightarrow> True
      | Some y \<Rightarrow> let x = walls_of a in
          (SandboxMode y = [] \<or> SandboxMode x = SandboxMode y) \<and> (Approvals y = [] \<or> Approvals x = Approvals y))"

definition opens :: "TransferRule \<Rightarrow> TransferRule \<Rightarrow> bool" where
  "opens p q = (p = TransferAllowed \<and> q = TransferBlocked)"

definition leqDesktop :: "DesktopControls option \<Rightarrow> DesktopControls option \<Rightarrow> bool" where
  "leqDesktop a b =
     (let x = Desktop_Effective a; y = Desktop_Effective b in
      \<not> opens (PasteIn x) (PasteIn y) \<and> \<not> opens (CopyOut x) (CopyOut y) \<and>
      \<not> opens (Upload x) (Upload y) \<and> \<not> opens (Download x) (Download y))"

definition leqPosture :: "Limits \<Rightarrow> RunPolicySpec \<Rightarrow> RunPolicySpec \<Rightarrow> bool" where
  "leqPosture eff a b =
     (if confinementRank (MinConfinementClass a) < confinementRank (MinConfinementClass b) \<or>
         \<not> notLooser (AutoStopAfterSec a) (AutoStopAfterSec b) \<or>
         GitPushAnyBranch a \<and> \<not> GitPushAnyBranch b \<or>
         \<not> leqCapabilities (capStrings (AzureDevOpsCapabilities a)) (capStrings (AzureDevOpsCapabilities b)) \<or>
         \<not> leqCapabilities (capStrings (GitHubCapabilities a)) (capStrings (GitHubCapabilities b)) then False
      else if list_ex (\<lambda>g. GrantWithin g (EligibleGrants b) \<noteq> None) (EligibleGrants a) then False
      else leqMounts (WorkspaceMounts a) (WorkspaceMounts b) \<and> leqWorkspaceRepos (WorkspaceRepos a) (WorkspaceRepos b) \<and>
           leqLLMInspection (LLMInspection a) (LLMInspection b) \<and> leqUIApps (UIApps a) (UIApps b) \<and>
           leqResources eff (Resources a) (Resources b) \<and> leqToolRules (ToolRules a) (ToolRules b) \<and>
           leqInnerWalls (InnerWalls a) (InnerWalls b) \<and> leqDesktop (Desktop a) (Desktop b) \<and>
           Recording_Rank (Recording a) \<ge> Recording_Rank (Recording b))"

definition push_of :: "PushRulesSpec option \<Rightarrow> PushRulesSpec" where
  "push_of p = (case p of None \<Rightarrow> empty_push | Some x \<Rightarrow> x)"

definition packCap :: "PushRulesSpec \<Rightarrow> int" where
  "packCap p =
     (if \<not> PushRules_IsSet (Some p) then 0
      else if MaxInspectPackMiB p > 0 then MaxInspectPackMiB p else defaultInspectPackMiB)"

definition leqPush :: "PushRulesSpec option \<Rightarrow> PushRulesSpec option \<Rightarrow> bool" where
  "leqPush a b =
     (let pa = push_of a; pb = push_of b; contains = (\<lambda>have want. list_all (\<lambda>p. p \<in> set have) want) in
      contains (DenyPaths pa) (DenyPaths pb) \<and> contains (RequireReviewPaths pa) (RequireReviewPaths pb) \<and>
      (DenyNewExecutables pa \<or> \<not> DenyNewExecutables pb) \<and> (DenyAll pa \<or> \<not> DenyAll pb) \<and>
      notLooser (MaxFileSizeMiB pa) (MaxFileSizeMiB pb) \<and>
      normPushHold (HoldSeconds pa) \<le> normPushHold (HoldSeconds pb) \<and> notLooser (packCap pa) (packCap pb))"

definition rubric_of :: "AutonomyRubric option \<Rightarrow> AutonomyRubric" where
  "rubric_of r = (case r of None \<Rightarrow> empty_rubric | Some x \<Rightarrow> x)"

definition leqRubric :: "AutonomyRubric option \<Rightarrow> AutonomyRubric option \<Rightarrow> bool" where
  "leqRubric a b =
     (if AgentGuardrailLocks (rubric_of b) \<and> \<not> AgentGuardrailLocks (rubric_of a) then False
      else list_all2 (\<lambda>la lb. lb = [] \<or> la \<noteq> [] \<and> Autonomy_Rank la \<le> Autonomy_Rank lb)
             (rubric_levels (rubric_of a)) (rubric_levels (rubric_of b)))"

definition leqLimits :: "GovernanceLimits \<Rightarrow> GovernanceLimits \<Rightarrow> bool" where
  "leqLimits a b =
     (if LocalSelfDefinedComponents a \<and> \<not> LocalSelfDefinedComponents b then False
      else if list_ex (\<lambda>(x, y). y \<and> \<not> x)
        [(DenyTaskModeExec a, DenyTaskModeExec b), (DenyInteractive a, DenyInteractive b), (DenyUIApps a, DenyUIApps b),
         (DenyUserDrive a, DenyUserDrive b), (DenyMemberDrives a, DenyMemberDrives b),
         (DenyKeptMachines a, DenyKeptMachines b), (DenyBackgroundDesktopWatch a, DenyBackgroundDesktopWatch b)] then False
      else if list_ex (\<lambda>p. p \<notin> set (DenyPlacements a)) (DenyPlacements b) then False
      else if AllowedMacOSBases b \<noteq> [] \<and> (AllowedMacOSBases a = [] \<or>
        list_ex (\<lambda>n. n \<notin> set (AllowedMacOSBases b)) (AllowedMacOSBases a)) then False
      else if AllowedModels b \<noteq> [] \<and> (AllowedModels a = [] \<or>
        list_ex (\<lambda>n. n \<notin> set (AllowedModels b)) (AllowedModels a)) then False
      else if list_ex (\<lambda>(x, y). \<not> notLooser x y)
        [(MaxConcurrentRuns a, MaxConcurrentRuns b), (MaxCPUMillis a, MaxCPUMillis b), (MaxMemoryMiB a, MaxMemoryMiB b),
         (MaxEphemeralDiskMiB a, MaxEphemeralDiskMiB b), (MaxDriveSizeMiB a, MaxDriveSizeMiB b)] then False
      else leqRubric (LimRubric a) (LimRubric b))"

definition leqRunLimits :: "RunLimits \<Rightarrow> RunLimits \<Rightarrow> bool" where
  "leqRunLimits a b =
     (notLooser (MaxEndAheadSec a) (MaxEndAheadSec b) \<and> notLooser (MaxWaitSec a) (MaxWaitSec b) \<and>
      notLooser (PauseIdleAfterSec a) (PauseIdleAfterSec b) \<and>
      (\<not> AllowNoEnd a \<or> AllowNoEnd b) \<and> (\<not> UserChangesLimits a \<or> UserChangesLimits b) \<and>
      notLooser (or_int (DefaultEndSec a) (MaxEndAheadSec a)) (or_int (DefaultEndSec b) (MaxEndAheadSec b)) \<and>
      notLooser (or_int (DefaultWaitSec a) (MaxWaitSec a)) (or_int (DefaultWaitSec b) (MaxWaitSec b)))"

text \<open>The last door: the fields no rule covers must be equal.\<close>

definition withoutCeilingRules :: "RunPolicySpec \<Rightarrow> RunPolicySpec" where
  "withoutCeilingRules s =
     s\<lparr>AllowedDomains := [], DeniedDomains := [], AllowAllEgress := False, FirstUseApproval := [],
       FirstUseHoldSeconds := 0, MaxHolds := 0, AllowedMethods := [], MinConfinementClass := [], EligibleGrants := [],
       AutoStopAfterSec := 0, WorkspaceMounts := [], WorkspaceRepos := [], LLMInspection := None, UIApps := [],
       Resources := None, ToolRules := [], GitPushAnyBranch := False, PushRules := None, AzureDevOpsCapabilities := [],
       GitHubCapabilities := [], InnerWalls := None, Desktop := None, Recording := []\<rparr>"

definition withoutLimitRules :: "GovernanceLimits \<Rightarrow> GovernanceLimits" where
  "withoutLimitRules l =
     l\<lparr>LocalSelfDefinedComponents := False, DenyTaskModeExec := False, DenyInteractive := False, DenyUIApps := False,
       DenyUserDrive := False, DenyMemberDrives := False, DenyBackgroundDesktopWatch := False, DenyKeptMachines := False,
       DenyPlacements := [], AllowedMacOSBases := [], AllowedModels := [], MaxConcurrentRuns := 0, MaxCPUMillis := 0,
       MaxMemoryMiB := 0, MaxEphemeralDiskMiB := 0, MaxDriveSizeMiB := 0, LimRubric := None,
       LimRun := (LimRun l)\<lparr>MaxEndAheadSec := 0, DefaultEndSec := 0, AllowNoEnd := False, MaxWaitSec := 0,
                  DefaultWaitSec := 0, UserChangesLimits := False, PauseIdleAfterSec := 0\<rparr>\<rparr>"

definition Leq :: "Limits \<Rightarrow> RunPolicySpec \<Rightarrow> RunPolicySpec \<Rightarrow> GovernanceLimits \<Rightarrow> GovernanceLimits \<Rightarrow> bool" where
  "Leq eff a b la lb =
     (leqEgress a b \<and> leqPosture eff a b \<and> leqPush (PushRules a) (PushRules b) \<and> leqLimits la lb \<and>
      leqRunLimits (LimRun la) (LimRun lb) \<and> withoutCeilingRules a = withoutCeilingRules b \<and>
      withoutLimitRules la = withoutLimitRules lb)"

lemma no_field_left [simp]:
  "withoutCeilingRules (a :: RunPolicySpec) = withoutCeilingRules b" "withoutLimitRules (la :: GovernanceLimits) = withoutLimitRules lb"
  by (simp_all add: withoutCeilingRules_def withoutLimitRules_def)

subsection \<open>Exact entries\<close>

text \<open>What an exact list entry names, and when a literal address is trusted.\<close>

definition names_exact :: "string list \<Rightarrow> string \<Rightarrow> int \<Rightarrow> bool" where
  "names_exact ds h port \<longleftrightarrow> (\<exists>e\<in>set (parsed ds). \<not> de_wild e \<and> de_host e = h \<and> (de_port e = 0 \<or> 0 < port \<and> de_port e = port))"

lemma parse_exact:
  "(\<exists>e. parseDomEntry d = Some e \<and> \<not> de_wild e \<and> de_host e = h \<and> de_port e = p) \<longleftrightarrow> h \<noteq> [] \<and> Classify d = (h, [], p)"
proof -
  obtain x w q where c: "Classify d = (x, w, q)" by (cases "Classify d")
  show ?thesis by (auto simp: parseDomEntry_def c)
qed

lemma names_exact_iff:
  "names_exact ds h port \<longleftrightarrow>
     h \<noteq> [] \<and> ((\<exists>d\<in>set ds. Classify d = (h, [], 0)) \<or> 0 < port \<and> (\<exists>d\<in>set ds. Classify d = (h, [], port)))"
proof -
  have "names_exact ds h port \<longleftrightarrow>
      (\<exists>d\<in>set ds. (\<exists>e. parseDomEntry d = Some e \<and> \<not> de_wild e \<and> de_host e = h \<and> de_port e = 0) \<or>
         0 < port \<and> (\<exists>e. parseDomEntry d = Some e \<and> \<not> de_wild e \<and> de_host e = h \<and> de_port e = port))"
    unfolding names_exact_def Bex_def parsed_mem by blast
  then show ?thesis unfolding parse_exact by blast
qed

lemma compile_denied_exact:
  "h \<in> set (deniedExact (CompilePolicy s)) \<longleftrightarrow> h \<noteq> [] \<and> (\<exists>d\<in>set (DeniedDomains s). Classify d = (h, [], 0))"
proof -
  have step: "h \<in> set (deniedExact (fold compile_denied ds p)) \<longleftrightarrow>
      h \<in> set (deniedExact p) \<or> h \<noteq> [] \<and> (\<exists>d\<in>set ds. Classify d = (h, [], 0))" for ds p
  proof (induction ds arbitrary: p)
    case (Cons d ds)
    obtain e w q where c: "Classify d = (e, w, q)" by (cases "Classify d")
    then have "0 \<le> q" using Classify_port_range by blast
    then show ?case using Cons c by (auto simp: compile_denied_def)
  qed simp
  have keep: "deniedExact (fold compile_allowed ds p) = deniedExact p" "deniedExact (fold compile_method ds p) = deniedExact p" for ds p
    by (rule fold_keeps; simp add: compile_allowed_def compile_method_def Let_def split: prod.splits)+
  show ?thesis by (simp add: CompilePolicy_def Let_def keep step)
qed

lemma compile_denied_exact_port:
  "hostPortKey h port \<in> set (deniedExactPort (CompilePolicy s)) \<longleftrightarrow>
     0 < port \<and> h \<noteq> [] \<and> (\<exists>d\<in>set (DeniedDomains s). Classify d = (h, [], port))"
proof -
  have step: "hostPortKey h port \<in> set (deniedExactPort (fold compile_denied ds p)) \<longleftrightarrow>
      hostPortKey h port \<in> set (deniedExactPort p) \<or>
      0 < port \<and> h \<noteq> [] \<and> (\<exists>d\<in>set ds. Classify d = (h, [], port))" for ds p
    by (induction ds arbitrary: p) (auto simp: compile_denied_def split: prod.splits)
  have keep: "deniedExactPort (fold compile_allowed ds p) = deniedExactPort p" "deniedExactPort (fold compile_method ds p) = deniedExactPort p" for ds p
    by (rule fold_keeps; simp add: compile_allowed_def compile_method_def Let_def split: prod.splits)+
  show ?thesis by (simp add: CompilePolicy_def Let_def keep step)
qed

lemma AllowsLiteralIP_compile:
  "AllowsLiteralIP (CompilePolicy s) h port \<longleftrightarrow>
     names_exact (AllowedDomains s) (CanonHost h) port \<and> \<not> names_exact (DeniedDomains s) (CanonHost h) port"
  unfolding AllowsLiteralIP_def Let_def names_exact_iff
  by (auto simp: compile_exact compile_exact_port compile_denied_exact compile_denied_exact_port)

lemma covers_exact:
  "covers_entry f e \<Longrightarrow> \<not> de_wild e \<Longrightarrow> \<not> de_wild f \<and> de_host f = de_host e \<and> (de_port f = 0 \<or> de_port f = de_port e)"
  by (auto simp: covers_entry_def split: if_splits)

lemma exact_covered:
  assumes "\<forall>e\<in>set (parsed xs). \<exists>f\<in>set (parsed ys). covers_entry f e" "names_exact xs h port"
  shows "names_exact ys h port"
proof -
  obtain e where e: "e \<in> set (parsed xs)" "\<not> de_wild e" "de_host e = h" "de_port e = 0 \<or> 0 < port \<and> de_port e = port"
    using assms(2) by (auto simp: names_exact_def)
  obtain f where f: "f \<in> set (parsed ys)" "covers_entry f e" using assms(1) e(1) by blast
  show ?thesis using covers_exact [OF f(2) e(2)] f(1) e(3,4) by (auto simp: names_exact_def)
qed

lemma leqAllowedDomains_exact: "leqAllowedDomains a b \<Longrightarrow> names_exact a h port \<Longrightarrow> names_exact b h port"
  by (rule exact_covered [of a]) (metis leqAllowedDomains_iff parsedE option.inject)

lemma leqDeniedDomains_exact: "leqDeniedDomains a b \<Longrightarrow> names_exact b h port \<Longrightarrow> names_exact a h port"
  by (rule exact_covered) (auto simp: leqDeniedDomains_iff elim!: parsedE)

subsection \<open>What a narrower policy admits\<close>

text \<open>\<open>mcpToolEffect\<close> of internal/egress/proxy/mcp_broker.go on the run-wide rules: no rule is a hold.\<close>

definition mcpToolEffect :: "Policy \<Rightarrow> HarnessToolRules list \<Rightarrow> string \<Rightarrow> string \<Rightarrow> ToolEffect" where
  "mcpToolEffect p harnessRules harness tool =
     (case (if harnessRules \<noteq> [] then ToolEffectForHarness harnessRules harness tool else ToolEffectFor p tool) of
        (eff, ok) \<Rightarrow> if \<not> ok then ToolHold else eff)"

lemma mcpToolEffect_compile: "mcpToolEffect (CompilePolicy s) [] harness tool = effectFor (toolEffects (ToolRules s)) tool"
  by (auto simp: mcpToolEffect_def ToolEffectFor_def effectFor_def toolEffects_def foldl_conv_fold split: option.splits)

lemma leqToolRules_iff:
  "leqToolRules a b \<longleftrightarrow>
     (\<forall>tool. toolStrictness (effectFor (toolEffects b) tool) \<le> toolStrictness (effectFor (toolEffects a) tool))"
proof -
  let ?ck = "\<lambda>tool. toolStrictness (effectFor (toolEffects b) tool) \<le> toolStrictness (effectFor (toolEffects a) tool)"
  have named: "?ck tool" if "?ck ''*''" "tool \<notin> set (map fst (toolEffects a))" "tool \<notin> set (map fst (toolEffects b))" for tool
  proof -
    have "map_of (toolEffects a) tool = None" "map_of (toolEffects b) tool = None" using that(2,3) by (simp_all add: map_of_eq_None_iff)
    then have "effectFor (toolEffects a) tool = effectFor (toolEffects a) ''*''" "effectFor (toolEffects b) tool = effectFor (toolEffects b) ''*''"
      by (simp_all add: effectFor_def split: option.splits)
    then show ?thesis using that(1) by simp
  qed
  have "leqToolRules a b \<longleftrightarrow> ?ck ''*'' \<and> (\<forall>t\<in>set (map fst (toolEffects a)) \<union> set (map fst (toolEffects b)). ?ck t)"
    unfolding leqToolRules_def Let_def list_all_iff by auto
  then show ?thesis using named by blast
qed

lemma RaisesApproval_rank: "RaisesApproval m \<longleftrightarrow> firstUseApprovalRank m < 3"
  using FirstUse_Normalize_cases [of m] by (auto simp: RaisesApproval_def firstUseApprovalRank_def Let_def first_use_defs)

lemma set_normMethods: "set (normMethods xs) = {m. m \<noteq> [] \<and> (\<exists>x\<in>set xs. m = ToUpper (TrimSpace x))}"
  by (auto simp: normMethods_def)

lemma methodAllowed_norm:
  "builtin_MethodAllowed s m \<longleftrightarrow> normMethods (AllowedMethods s) = [] \<or> ToUpper m \<in> set (normMethods (AllowedMethods s))"
proof -
  have "normMethods (AllowedMethods s) = [] \<longleftrightarrow> (\<forall>x\<in>set (AllowedMethods s). ToUpper (TrimSpace x) = [])"
    unfolding set_empty [symmetric] set_normMethods by auto
  then show ?thesis unfolding builtin_MethodAllowed_def methodAllowed_compile set_normMethods by (auto; metis)
qed

text \<open>The runtime reading of the whole of \<open>Leq\<close>, rule by rule.\<close>

lemma leqEgress_sound:
  assumes "leqEgress a b"
  shows "builtin_EvaluateHost a h port = Some VerdictAllow \<Longrightarrow> builtin_EvaluateHost b h port = Some VerdictAllow"
    "builtin_EvaluateHost b h port = Some VerdictDeny \<Longrightarrow> builtin_EvaluateHost a h port = Some VerdictDeny"
    "builtin_MethodAllowed a m \<Longrightarrow> builtin_MethodAllowed b m"
    "RaisesApproval (FirstUseApproval a) \<Longrightarrow> RaisesApproval (FirstUseApproval b)"
    "AllowsLiteralIP (CompilePolicy a) h port \<Longrightarrow> AllowsLiteralIP (CompilePolicy b) h port"
proof -
  have r: "AllowAllEgress a \<longrightarrow> AllowAllEgress b" "leqAllowedDomains (AllowedDomains a) (AllowedDomains b)"
    "leqDeniedDomains (DeniedDomains a) (DeniedDomains b)"
    "leqSubsetWhenSet (normMethods (AllowedMethods a)) (normMethods (AllowedMethods b))"
    "firstUseApprovalRank (FirstUseApproval b) \<le> firstUseApprovalRank (FirstUseApproval a)"
    using assms by (auto simp: leqEgress_def split: if_splits)
  have den: "\<exists>d\<in>set (DeniedDomains b). entry_matches d (CanonHost h) port \<Longrightarrow> \<exists>d\<in>set (DeniedDomains a). entry_matches d (CanonHost h) port"
    using leqDeniedDomains_sound [OF r(3)] by blast
  have alw: "\<exists>d\<in>set (AllowedDomains a). entry_matches d (CanonHost h) port \<Longrightarrow> \<exists>d\<in>set (AllowedDomains b). entry_matches d (CanonHost h) port"
    using leqAllowedDomains_sound [OF r(2)] by blast
  show "builtin_EvaluateHost a h port = Some VerdictAllow \<Longrightarrow> builtin_EvaluateHost b h port = Some VerdictAllow"
    "builtin_EvaluateHost b h port = Some VerdictDeny \<Longrightarrow> builtin_EvaluateHost a h port = Some VerdictDeny"
    using den alw r(1) unfolding builtin_EvaluateHost_def evalHost_compile by (auto split: if_splits)
  show "builtin_MethodAllowed a m \<Longrightarrow> builtin_MethodAllowed b m"
    using r(4) unfolding methodAllowed_norm leqSubsetWhenSet_def by (auto simp: list_all_iff split: if_splits)
  show "RaisesApproval (FirstUseApproval a) \<Longrightarrow> RaisesApproval (FirstUseApproval b)"
    using r(5) by (simp add: RaisesApproval_rank)
  show "AllowsLiteralIP (CompilePolicy a) h port \<Longrightarrow> AllowsLiteralIP (CompilePolicy b) h port"
    using leqAllowedDomains_exact [OF r(2)] leqDeniedDomains_exact [OF r(3)] unfolding AllowsLiteralIP_compile by blast
qed

subsection \<open>What a narrower policy means\<close>

text \<open>The promise of \<open>Leq\<close>, said without its rules. A bound that is set (positive) stays set and is not raised; a list that
  restricts stays a restriction and gains nothing.\<close>

definition bound_kept :: "int \<Rightarrow> int \<Rightarrow> bool" where
  "bound_kept a b \<longleftrightarrow> (0 < b \<longrightarrow> 0 < a \<and> a \<le> b)"

definition allow_list_le :: "string list \<Rightarrow> string list \<Rightarrow> bool" where
  "allow_list_le a b \<longleftrightarrow> b \<noteq> [] \<longrightarrow> a \<noteq> [] \<and> set a \<subseteq> set b"

text \<open>An empty list of capabilities is the forge's default, so it is comparable with itself only.\<close>

definition caps_within :: "string list \<Rightarrow> string list \<Rightarrow> bool" where
  "caps_within a b \<longleftrightarrow> (a = [] \<longleftrightarrow> b = []) \<and> set a \<subseteq> set b"

text \<open>The size a run gets: the one written, else the deployment's default (there is none for disk).\<close>

definition size_or :: "int \<Rightarrow> int \<Rightarrow> int" where
  "size_or def x = (if 0 < x then x else def)"

definition sizes_within :: "Limits \<Rightarrow> ResourceLimits \<Rightarrow> ResourceLimits \<Rightarrow> bool" where
  "sizes_within eff a b \<longleftrightarrow>
     bound_kept (size_or (sz_CPUMillis eff) (CPUMillis a)) (size_or (sz_CPUMillis eff) (CPUMillis b)) \<and>
     bound_kept (size_or (sz_MemoryMiB eff) (MemoryMiB a)) (size_or (sz_MemoryMiB eff) (MemoryMiB b)) \<and>
     bound_kept (size_or (sz_PidsLimit eff) (PidsLimit a)) (size_or (sz_PidsLimit eff) (PidsLimit b)) \<and>
     bound_kept (DiskMiB a) (DiskMiB b)"

definition pushes_within :: "PushRulesSpec \<Rightarrow> PushRulesSpec \<Rightarrow> bool" where
  "pushes_within a b \<longleftrightarrow>
     set (DenyPaths b) \<subseteq> set (DenyPaths a) \<and> set (RequireReviewPaths b) \<subseteq> set (RequireReviewPaths a) \<and>
     (DenyNewExecutables b \<longrightarrow> DenyNewExecutables a) \<and> (DenyAll b \<longrightarrow> DenyAll a) \<and>
     bound_kept (MaxFileSizeMiB a) (MaxFileSizeMiB b) \<and> bound_kept (packCap a) (packCap b) \<and>
     normPushHold (HoldSeconds a) \<le> normPushHold (HoldSeconds b)"

definition limits_within :: "GovernanceLimits \<Rightarrow> GovernanceLimits \<Rightarrow> bool" where
  "limits_within a b \<longleftrightarrow>
     (LocalSelfDefinedComponents a \<longrightarrow> LocalSelfDefinedComponents b) \<and>
     (DenyTaskModeExec b \<longrightarrow> DenyTaskModeExec a) \<and> (DenyInteractive b \<longrightarrow> DenyInteractive a) \<and>
     (DenyUIApps b \<longrightarrow> DenyUIApps a) \<and> (DenyUserDrive b \<longrightarrow> DenyUserDrive a) \<and>
     (DenyMemberDrives b \<longrightarrow> DenyMemberDrives a) \<and> (DenyKeptMachines b \<longrightarrow> DenyKeptMachines a) \<and>
     (DenyBackgroundDesktopWatch b \<longrightarrow> DenyBackgroundDesktopWatch a) \<and>
     set (DenyPlacements b) \<subseteq> set (DenyPlacements a) \<and>
     allow_list_le (AllowedMacOSBases a) (AllowedMacOSBases b) \<and> allow_list_le (AllowedModels a) (AllowedModels b) \<and>
     bound_kept (MaxConcurrentRuns a) (MaxConcurrentRuns b) \<and> bound_kept (MaxCPUMillis a) (MaxCPUMillis b) \<and>
     bound_kept (MaxMemoryMiB a) (MaxMemoryMiB b) \<and> bound_kept (MaxEphemeralDiskMiB a) (MaxEphemeralDiskMiB b) \<and>
     bound_kept (MaxDriveSizeMiB a) (MaxDriveSizeMiB b) \<and>
     (AgentGuardrailLocks (rubric_of (LimRubric b)) \<longrightarrow> AgentGuardrailLocks (rubric_of (LimRubric a))) \<and>
     list_all2 (\<lambda>x y. y \<noteq> [] \<longrightarrow> x \<noteq> [] \<and> Autonomy_Rank x \<le> Autonomy_Rank y)
       (rubric_levels (rubric_of (LimRubric a))) (rubric_levels (rubric_of (LimRubric b)))"

definition run_limits_within :: "RunLimits \<Rightarrow> RunLimits \<Rightarrow> bool" where
  "run_limits_within a b \<longleftrightarrow>
     bound_kept (MaxEndAheadSec a) (MaxEndAheadSec b) \<and> bound_kept (MaxWaitSec a) (MaxWaitSec b) \<and>
     bound_kept (PauseIdleAfterSec a) (PauseIdleAfterSec b) \<and>
     (AllowNoEnd a \<longrightarrow> AllowNoEnd b) \<and> (UserChangesLimits a \<longrightarrow> UserChangesLimits b) \<and>
     bound_kept (or_int (DefaultEndSec a) (MaxEndAheadSec a)) (or_int (DefaultEndSec b) (MaxEndAheadSec b)) \<and>
     bound_kept (or_int (DefaultWaitSec a) (MaxWaitSec a)) (or_int (DefaultWaitSec b) (MaxWaitSec b))"

definition posture_within :: "RunPolicySpec \<Rightarrow> RunPolicySpec \<Rightarrow> bool" where
  "posture_within a b \<longleftrightarrow>
     confinementRank (MinConfinementClass b) \<le> confinementRank (MinConfinementClass a) \<and>
     Recording_Rank (Recording b) \<le> Recording_Rank (Recording a) \<and>
     bound_kept (AutoStopAfterSec a) (AutoStopAfterSec b) \<and> (GitPushAnyBranch a \<longrightarrow> GitPushAnyBranch b) \<and>
     caps_within (capStrings (AzureDevOpsCapabilities a)) (capStrings (AzureDevOpsCapabilities b)) \<and>
     caps_within (capStrings (GitHubCapabilities a)) (capStrings (GitHubCapabilities b)) \<and>
     (\<forall>m\<in>set (WorkspaceMounts a). \<exists>x\<in>set (WorkspaceMounts b). MSource x = MSource m \<and> MTarget x = MTarget m \<and>
        (ReadOnlyOrDefault x \<longrightarrow> ReadOnlyOrDefault m)) \<and>
     set (WorkspaceRepos a) \<subseteq> set (WorkspaceRepos b) \<and>
     (\<forall>y. LLMInspection b = Some y \<longrightarrow> (\<exists>x. LLMInspection a = Some x \<and> sameJSON x y)) \<and>
     (\<forall>x. LLMInspection b = None \<and> LLMInspection a = Some x \<longrightarrow> TrimSpace (DetectorSidecarURL x) = []) \<and>
     (UIApps b \<noteq> [] \<longrightarrow> UIApps a \<noteq> []) \<and>
     (\<forall>p\<in>set (UIApps a). \<exists>x\<in>set (UIApps b). AName x = AName p \<and> APort x = APort p \<and> PathOrRoot x = PathOrRoot p \<and>
        (Inbound p \<longrightarrow> Inbound x \<and> set (Callers p) \<subseteq> set (Callers x))) \<and>
     (\<forall>y. InnerWalls b = Some y \<longrightarrow>
        (SandboxMode y \<noteq> [] \<longrightarrow> SandboxMode (walls_of (InnerWalls a)) = SandboxMode y) \<and>
        (Approvals y \<noteq> [] \<longrightarrow> Approvals (walls_of (InnerWalls a)) = Approvals y)) \<and>
     (\<forall>f\<in>{PasteIn, CopyOut, Upload, Download}. f (Desktop_Effective (Desktop b)) = TransferBlocked \<longrightarrow>
        f (Desktop_Effective (Desktop a)) \<noteq> TransferAllowed)"

lemma notLooser_iff: "notLooser a b \<longleftrightarrow> bound_kept a b"
  by (auto simp: notLooser_def looser_def bound_kept_def)

lemma leqSize_iff: "leqSize a b def \<longleftrightarrow> bound_kept (size_or def a) (size_or def b)"
  by (simp add: leqSize_def notLooser_iff norm_size_def size_or_def not_less [symmetric])

lemma leqResources_sound: "leqResources eff a b \<Longrightarrow> sizes_within eff (resources_of a) (resources_of b)"
  by (auto simp: leqResources_def sizes_within_def leqSize_iff Let_def bound_kept_def size_or_def split: if_splits)

lemma leqPush_sound: "leqPush a b \<Longrightarrow> pushes_within (push_of a) (push_of b)"
  by (auto simp: leqPush_def pushes_within_def notLooser_iff list_all_iff Let_def)

lemma leqRubric_iff:
  "leqRubric a b \<longleftrightarrow> (AgentGuardrailLocks (rubric_of b) \<longrightarrow> AgentGuardrailLocks (rubric_of a)) \<and>
     list_all2 (\<lambda>x y. y \<noteq> [] \<longrightarrow> x \<noteq> [] \<and> Autonomy_Rank x \<le> Autonomy_Rank y) (rubric_levels (rubric_of a)) (rubric_levels (rubric_of b))"
proof -
  have "(\<lambda>x y. y = [] \<or> x \<noteq> [] \<and> Autonomy_Rank x \<le> Autonomy_Rank y) = (\<lambda>x y. y \<noteq> [] \<longrightarrow> x \<noteq> [] \<and> Autonomy_Rank x \<le> Autonomy_Rank y)"
    by (intro ext) blast
  then show ?thesis by (simp add: leqRubric_def)
qed

lemma leqLimits_conj:
  "leqLimits a b \<longleftrightarrow> (LocalSelfDefinedComponents a \<longrightarrow> LocalSelfDefinedComponents b) \<and>
     (DenyTaskModeExec b \<longrightarrow> DenyTaskModeExec a) \<and> (DenyInteractive b \<longrightarrow> DenyInteractive a) \<and>
     (DenyUIApps b \<longrightarrow> DenyUIApps a) \<and> (DenyUserDrive b \<longrightarrow> DenyUserDrive a) \<and>
     (DenyMemberDrives b \<longrightarrow> DenyMemberDrives a) \<and> (DenyKeptMachines b \<longrightarrow> DenyKeptMachines a) \<and>
     (DenyBackgroundDesktopWatch b \<longrightarrow> DenyBackgroundDesktopWatch a) \<and>
     set (DenyPlacements b) \<subseteq> set (DenyPlacements a) \<and>
     allow_list_le (AllowedMacOSBases a) (AllowedMacOSBases b) \<and> allow_list_le (AllowedModels a) (AllowedModels b) \<and>
     notLooser (MaxConcurrentRuns a) (MaxConcurrentRuns b) \<and> notLooser (MaxCPUMillis a) (MaxCPUMillis b) \<and>
     notLooser (MaxMemoryMiB a) (MaxMemoryMiB b) \<and> notLooser (MaxEphemeralDiskMiB a) (MaxEphemeralDiskMiB b) \<and>
     notLooser (MaxDriveSizeMiB a) (MaxDriveSizeMiB b) \<and> leqRubric (LimRubric a) (LimRubric b)"
  unfolding leqLimits_def allow_list_le_def list_ex_iff by (simp add: subset_iff) blast

lemma leqLimits_sound: "leqLimits a b \<Longrightarrow> limits_within a b"
  unfolding leqLimits_conj limits_within_def notLooser_iff leqRubric_iff by assumption

lemma leqRunLimits_sound: "leqRunLimits a b \<Longrightarrow> run_limits_within a b"
  by (auto simp: leqRunLimits_def run_limits_within_def notLooser_iff)

lemma leqMounts_sound:
  assumes "leqMounts a b" "m \<in> set a"
  shows "\<exists>x\<in>set b. MSource x = MSource m \<and> MTarget x = MTarget m \<and> (ReadOnlyOrDefault x \<longrightarrow> ReadOnlyOrDefault m)"
proof -
  obtain x where x: "find (\<lambda>x. MSource x = MSource m \<and> MTarget x = MTarget m) b = Some x" "ReadOnlyOrDefault x \<longrightarrow> ReadOnlyOrDefault m"
    using assms by (auto simp: leqMounts_def list_all_iff split: option.splits)
  then show ?thesis by (auto simp: find_Some_iff)
qed

lemma leqCapabilities_sound: "leqCapabilities a b \<Longrightarrow> caps_within a b"
  by (auto simp: caps_within_def leqCapabilities_def leqSubsetWhenSet_def list_all_iff split: if_splits)

lemma leqPosture_sound:
  assumes "leqPosture eff a b"
  shows "posture_within a b"
proof -
  have p: "leqCapabilities (capStrings (AzureDevOpsCapabilities a)) (capStrings (AzureDevOpsCapabilities b))"
    "leqCapabilities (capStrings (GitHubCapabilities a)) (capStrings (GitHubCapabilities b))"
    "leqMounts (WorkspaceMounts a) (WorkspaceMounts b)" "leqWorkspaceRepos (WorkspaceRepos a) (WorkspaceRepos b)"
    "leqLLMInspection (LLMInspection a) (LLMInspection b)" "leqUIApps (UIApps a) (UIApps b)"
    "leqInnerWalls (InnerWalls a) (InnerWalls b)" "leqDesktop (Desktop a) (Desktop b)"
    "confinementRank (MinConfinementClass b) \<le> confinementRank (MinConfinementClass a)"
    "Recording_Rank (Recording b) \<le> Recording_Rank (Recording a)"
    "bound_kept (AutoStopAfterSec a) (AutoStopAfterSec b)" "GitPushAnyBranch a \<longrightarrow> GitPushAnyBranch b"
    using assms by (auto simp: leqPosture_def notLooser_iff split: if_splits)
  have "\<exists>x\<in>set (UIApps b). app_within q x" if "q \<in> set (UIApps a)" for q
    using p(6) that by (auto simp: leqUIApps_def list_all_iff list_ex_iff split: if_splits)
  then have "\<forall>q\<in>set (UIApps a). \<exists>x\<in>set (UIApps b). AName x = AName q \<and> APort x = APort q \<and> PathOrRoot x = PathOrRoot q \<and>
        (Inbound q \<longrightarrow> Inbound x \<and> set (Callers q) \<subseteq> set (Callers x))"
    unfolding app_within_def list_all_iff by blast
  moreover have "\<exists>x. LLMInspection a = Some x \<and> sameJSON x y" if "LLMInspection b = Some y" for y
    using p(5) that by (auto simp: leqLLMInspection_def split: option.splits)
  moreover have "TrimSpace (DetectorSidecarURL x) = []" if "LLMInspection b = None" "LLMInspection a = Some x" for x
    using p(5) that by (auto simp: leqLLMInspection_def)
  moreover have "UIApps b \<noteq> [] \<longrightarrow> UIApps a \<noteq> []" using p(6) by (auto simp: leqUIApps_def)
  moreover have "(SandboxMode y \<noteq> [] \<longrightarrow> SandboxMode (walls_of (InnerWalls a)) = SandboxMode y) \<and>
        (Approvals y \<noteq> [] \<longrightarrow> Approvals (walls_of (InnerWalls a)) = Approvals y)" if "InnerWalls b = Some y" for y
    using p(7) that by (auto simp: leqInnerWalls_def Let_def)
  moreover have "\<forall>f\<in>{PasteIn, CopyOut, Upload, Download}. f (Desktop_Effective (Desktop b)) = TransferBlocked \<longrightarrow>
        f (Desktop_Effective (Desktop a)) \<noteq> TransferAllowed"
    using p(8) by (auto simp: leqDesktop_def opens_def Let_def)
  moreover have "set (WorkspaceRepos a) \<subseteq> set (WorkspaceRepos b)" using p(4) by (auto simp: leqWorkspaceRepos_def list_all_iff)
  ultimately show ?thesis
    using p(9-12) leqMounts_sound [OF p(3)] leqCapabilities_sound [OF p(1)] leqCapabilities_sound [OF p(2)]
    unfolding posture_within_def by blast
qed

text \<open>
  C36: a policy \<open>Leq\<close> proves narrower admits nothing more. Whatever the two policies and their limits, if \<open>Leq a b\<close> holds
  then under the egress proxy's own reading every host and port a allows b allows, everything b denies a denies, every
  method a allows b allows, a raises approvals only if b does and holds no longer and no more, a trusts a private literal
  address only if b does, and for every tool a's effect is at least as strict as b's. Every grant of a is within b's grants;
  the posture (confinement, recording, auto-stop, push branches, capabilities, mounts, repositories, inspection, apps,
  walls, desktop), the sizes a run gets, the push rules, the governance limits with the autonomy rubric and the run limits
  of a are within those of b, each said without the rules \<open>Leq\<close> uses.
\<close>

theorem Leq_sound:
  assumes "Leq eff a b la lb"
  shows "(\<forall>h port. builtin_EvaluateHost a h port = Some VerdictAllow \<longrightarrow> builtin_EvaluateHost b h port = Some VerdictAllow) \<and>
    (\<forall>h port. builtin_EvaluateHost b h port = Some VerdictDeny \<longrightarrow> builtin_EvaluateHost a h port = Some VerdictDeny) \<and>
    (\<forall>m. builtin_MethodAllowed a m \<longrightarrow> builtin_MethodAllowed b m) \<and>
    (RaisesApproval (FirstUseApproval a) \<longrightarrow> RaisesApproval (FirstUseApproval b)) \<and>
    normFirstUseHold (FirstUseHoldSeconds a) \<le> normFirstUseHold (FirstUseHoldSeconds b) \<and>
    normMaxHolds (MaxHolds a) \<le> normMaxHolds (MaxHolds b) \<and>
    (\<forall>h port. AllowsLiteralIP (CompilePolicy a) h port \<longrightarrow> AllowsLiteralIP (CompilePolicy b) h port) \<and>
    (\<forall>harness tool. toolStrictness (mcpToolEffect (CompilePolicy b) [] harness tool)
       \<le> toolStrictness (mcpToolEffect (CompilePolicy a) [] harness tool)) \<and>
    (\<forall>g\<in>set (EligibleGrants a). GrantWithin g (EligibleGrants b) = None) \<and>
    posture_within a b \<and> sizes_within eff (resources_of (Resources a)) (resources_of (Resources b)) \<and>
    pushes_within (push_of (PushRules a)) (push_of (PushRules b)) \<and>
    limits_within la lb \<and> run_limits_within (LimRun la) (LimRun lb)"
proof -
  have l: "leqEgress a b" "leqPosture eff a b" "leqPush (PushRules a) (PushRules b)" "leqLimits la lb"
    "leqRunLimits (LimRun la) (LimRun lb)" using assms by (simp_all add: Leq_def)
  have "leqToolRules (ToolRules a) (ToolRules b)" "leqResources eff (Resources a) (Resources b)"
    "\<forall>g\<in>set (EligibleGrants a). GrantWithin g (EligibleGrants b) = None"
    using l(2) by (auto simp: leqPosture_def list_ex_iff split: if_splits)
  moreover have "normFirstUseHold (FirstUseHoldSeconds a) \<le> normFirstUseHold (FirstUseHoldSeconds b)"
    "normMaxHolds (MaxHolds a) \<le> normMaxHolds (MaxHolds b)"
    using l(1) by (auto simp: leqEgress_def split: if_splits)
  ultimately show ?thesis
    using leqEgress_sound [OF l(1)] leqPosture_sound [OF l(2)] leqPush_sound [OF l(3)] leqLimits_sound [OF l(4)]
      leqRunLimits_sound [OF l(5)] leqResources_sound
    unfolding leqToolRules_iff mcpToolEffect_compile by blast
qed

definition default_sizing :: sizing where
  "default_sizing = \<lparr>cfgCPUMillis = 0, cfgMemoryMiB = 0\<rparr>"

lemma Leq_sound_witness:
  "let a = empty_spec\<lparr>AllowedDomains := [''a.example.com:443''], DeniedDomains := [''*.evil.com''], AllowedMethods := [''get'']\<rparr>;
       b = empty_spec\<lparr>AllowedDomains := [''a.example.com''], DeniedDomains := [''x.evil.com'', ''*.evil.com''],
             AllowedMethods := [''GET'', ''POST''], FirstUseApproval := FirstUseWaitForReview\<rparr>;
       a' = a\<lparr>DeniedDomains := [''x.evil.com'', ''*.evil.com'']\<rparr>
   in Leq (EffectiveLimits default_sizing) a' b empty_limits empty_limits \<and>
      \<not> Leq (EffectiveLimits default_sizing) a b empty_limits empty_limits \<and>
      builtin_EvaluateHost b ''A.Example.com.'' 443 = Some VerdictAllow \<and>
      (\<forall>m. builtin_MethodAllowed a' m \<longrightarrow> builtin_MethodAllowed b m)"
proof -
  let ?a = "empty_spec\<lparr>AllowedDomains := [''a.example.com:443''], DeniedDomains := [''*.evil.com''], AllowedMethods := [''get'']\<rparr>"
  let ?b = "empty_spec\<lparr>AllowedDomains := [''a.example.com''], DeniedDomains := [''x.evil.com'', ''*.evil.com''],
             AllowedMethods := [''GET'', ''POST''], FirstUseApproval := FirstUseWaitForReview\<rparr>"
  let ?a' = "?a\<lparr>DeniedDomains := [''x.evil.com'', ''*.evil.com'']\<rparr>"
  let ?eff = "EffectiveLimits default_sizing"
  have le: "Leq ?eff ?a' ?b empty_limits empty_limits" by code_simp
  have not: "\<not> Leq ?eff ?a ?b empty_limits empty_limits" by code_simp
  have "builtin_EvaluateHost ?a' ''A.Example.com.'' 443 = Some VerdictAllow" by code_simp
  with Leq_sound [OF le] le not show ?thesis unfolding Let_def by blast
qed

end
