(* ===== verification/PolicyMeet.thy ===== *)
theory PolicyMeet
  imports PolicyOrder
begin

section \<open>The governance overlay: internal/composer meet.go, meet_domains.go, meet_posture.go, meet_push.go, meet_limits.go\<close>

text \<open>
  \<open>ApplyOverlay\<close> narrows a resolved authority (a ceiling and its limits) by an overlay; \<open>ValidateOverlay\<close> is the same
  composition in strict mode. The meeter is a record, every method a function on it, in the order the code calls them;
  a warning and a refusal keep their field, and the sentence that explains them is left out. Copies of slices and
  pointees are values here, so \<open>cloneAuthority\<close> is the identity. A range over a map runs in the order of its list.
\<close>

subsection \<open>The meeter\<close>

record Authority =
  au_Ceiling :: RunPolicySpec
  au_Limits :: GovernanceLimits

record Overlay =
  ov_Ceiling :: CeilingOverlay
  ov_Limits :: LimitsOverlay

datatype overlay_reason = ReasonOverlayInvalid | ReasonOverlayUnsatisfiable

record OverlayError =
  oe_Reason :: overlay_reason
  oe_Field :: string

record meeter =
  m_out :: Authority
  m_strict :: bool
  m_warns :: "string list"
  m_err :: "OverlayError option"

abbreviation ceiling_of :: "meeter \<Rightarrow> RunPolicySpec" where
  "ceiling_of m \<equiv> au_Ceiling (m_out m)"

abbreviation limits_of :: "meeter \<Rightarrow> GovernanceLimits" where
  "limits_of m \<equiv> au_Limits (m_out m)"

definition meet_fail :: "overlay_reason \<Rightarrow> string \<Rightarrow> meeter \<Rightarrow> meeter" where
  "meet_fail reason field m =
     (if m_err m = None then m\<lparr>m_err := Some \<lparr>oe_Reason = reason, oe_Field = field\<rparr>\<rparr> else m)"

definition widen :: "string \<Rightarrow> meeter \<Rightarrow> meeter" where
  "widen field m =
     (if m_strict m then meet_fail ReasonOverlayInvalid field m else m\<lparr>m_warns := m_warns m @ [field]\<rparr>)"

definition widenIf :: "string \<Rightarrow> bool \<Rightarrow> meeter \<Rightarrow> meeter" where
  "widenIf field widens m = (if widens then widen field m else m)"

definition failIf :: "overlay_reason \<Rightarrow> string \<Rightarrow> bool \<Rightarrow> meeter \<Rightarrow> meeter" where
  "failIf reason field fails m = (if fails then meet_fail reason field m else m)"

text \<open>A field the overlay does not name is inherited.\<close>

definition named :: "'a option \<Rightarrow> ('a \<Rightarrow> meeter \<Rightarrow> meeter) \<Rightarrow> meeter \<Rightarrow> meeter" where
  "named ov f m = (case ov of None \<Rightarrow> m | Some v \<Rightarrow> f v m)"

definition on_ceiling :: "(RunPolicySpec \<Rightarrow> RunPolicySpec) \<Rightarrow> meeter \<Rightarrow> meeter" where
  "on_ceiling f m = m\<lparr>m_out := (m_out m)\<lparr>au_Ceiling := f (ceiling_of m)\<rparr>\<rparr>"

definition on_limits :: "(GovernanceLimits \<Rightarrow> GovernanceLimits) \<Rightarrow> meeter \<Rightarrow> meeter" where
  "on_limits f m = m\<lparr>m_out := (m_out m)\<lparr>au_Limits := f (limits_of m)\<rparr>\<rparr>"

subsection \<open>Network reach\<close>

definition meetAllowedDomains :: "string list \<Rightarrow> meeter \<Rightarrow> meeter" where
  "meetAllowedDomains ov m =
     (let base = AllowedDomains (ceiling_of m) in
      on_ceiling (\<lambda>c. c\<lparr>AllowedDomains := meet_domains base ov\<rparr>)
        (widenIf ''allowed_domains'' (uncovered base ov \<noteq> []) m))"

definition meetDeniedDomains :: "string list \<Rightarrow> meeter \<Rightarrow> meeter" where
  "meetDeniedDomains ov m = on_ceiling (\<lambda>c. c\<lparr>DeniedDomains := unionDenied (DeniedDomains c) ov\<rparr>) m"

definition meetAllowAll :: "bool \<Rightarrow> meeter \<Rightarrow> meeter" where
  "meetAllowAll v m =
     on_ceiling (\<lambda>c. c\<lparr>AllowAllEgress := AllowAllEgress c \<and> v\<rparr>)
       (widenIf ''allow_all_egress'' (v \<and> \<not> AllowAllEgress (ceiling_of m)) m)"

definition meetFirstUse :: "FirstUseMode \<Rightarrow> meeter \<Rightarrow> meeter" where
  "meetFirstUse ov m =
     (let b = FirstUse_Normalize (FirstUseApproval (ceiling_of m)); v = FirstUse_Normalize ov in
      on_ceiling (\<lambda>c. c\<lparr>FirstUseApproval := (if firstUseApprovalRank v > firstUseApprovalRank b then v else b)\<rparr>)
        (widenIf ''first_use_approval'' (firstUseApprovalRank v < firstUseApprovalRank b) m))"

definition meetFirstUseHold :: "int \<Rightarrow> meeter \<Rightarrow> meeter" where
  "meetFirstUseHold ov m =
     (let b = normFirstUseHold (FirstUseHoldSeconds (ceiling_of m)); v = normFirstUseHold ov in
      on_ceiling (\<lambda>c. c\<lparr>FirstUseHoldSeconds := min b v\<rparr>) (widenIf ''first_use_hold_seconds'' (v > b) m))"

definition meetMaxHolds :: "int \<Rightarrow> meeter \<Rightarrow> meeter" where
  "meetMaxHolds ov m =
     (let b = normMaxHolds (MaxHolds (ceiling_of m)); v = normMaxHolds ov in
      on_ceiling (\<lambda>c. c\<lparr>MaxHolds := min b v\<rparr>) (widenIf ''max_holds'' (v > b) m))"

definition meetMethods :: "string list \<Rightarrow> meeter \<Rightarrow> meeter" where
  "meetMethods ov m =
     (let base = normMethods (AllowedMethods (ceiling_of m)) in
      if base = [] then on_ceiling (\<lambda>c. c\<lparr>AllowedMethods := ov\<rparr>) m
      else
        let both = filter (\<lambda>s. s \<in> set base) ov in
        on_ceiling (\<lambda>c. c\<lparr>AllowedMethods := both\<rparr>)
          (if both = [] then meet_fail ReasonOverlayUnsatisfiable ''allowed_methods'' m
           else widenIf ''allowed_methods'' (length both < length ov) m))"

definition meetEgress :: "CeilingOverlay \<Rightarrow> meeter \<Rightarrow> meeter" where
  "meetEgress ov m =
     (let m = named (co_AllowedDomains ov) meetAllowedDomains m;
          m = named (co_DeniedDomains ov) meetDeniedDomains m;
          m = named (co_AllowAllEgress ov) meetAllowAll m;
          m = named (co_FirstUseApproval ov) meetFirstUse m;
          m = named (co_FirstUseHoldSeconds ov) meetFirstUseHold m;
          m = named (co_MaxHolds ov) meetMaxHolds m;
          m = named (co_AllowedMethods ov) (\<lambda>v. meetMethods (normMethods v)) m
      in m)"

subsection \<open>Posture\<close>

definition meetConfinement :: "ConfinementClass \<Rightarrow> meeter \<Rightarrow> meeter" where
  "meetConfinement v m =
     (let br = confinementRank (MinConfinementClass (ceiling_of m)); vr = confinementRank v in
      if vr > br then on_ceiling (\<lambda>c. c\<lparr>MinConfinementClass := ToUpper (TrimSpace v)\<rparr>) m
      else widenIf ''min_confinement_class'' (vr < br) m)"

definition autoStopMeet :: "int \<Rightarrow> int \<Rightarrow> int" where
  "autoStopMeet a b = (if a \<le> 0 \<and> b \<le> 0 then min a b else tightest a b)"

definition meetAutoStop :: "int \<Rightarrow> meeter \<Rightarrow> meeter" where
  "meetAutoStop v m =
     (let b = AutoStopAfterSec (ceiling_of m) in
      on_ceiling (\<lambda>c. c\<lparr>AutoStopAfterSec := autoStopMeet b v\<rparr>) (widenIf ''auto_stop_after_sec'' (looser v b) m))"

fun mounts_loop :: "WorkspaceMount list \<Rightarrow> WorkspaceMount list \<Rightarrow> (string \<times> string) list \<Rightarrow> meeter
    \<Rightarrow> WorkspaceMount list \<times> meeter" where
  "mounts_loop base [] seen m = ([], m)"
| "mounts_loop base (v # vs) seen m =
     (let k = (MSource v, MTarget v) in
      case find (\<lambda>b. (MSource b, MTarget b) = k) base of
        None \<Rightarrow> mounts_loop base vs seen (widen ''workspace_mounts'' m)
      | Some b \<Rightarrow>
          let m1 = widenIf ''workspace_mounts'' (ReadOnlyOrDefault b \<and> \<not> ReadOnlyOrDefault v) m in
          if k \<in> set seen then mounts_loop base vs seen m1
          else case mounts_loop base vs (k # seen) m1 of (out, m2) \<Rightarrow>
            (\<lparr>MSource = MSource v, MTarget = MTarget v,
              MReadOnly = Some (ReadOnlyOrDefault b \<or> ReadOnlyOrDefault v)\<rparr> # out, m2))"

definition meetMounts :: "WorkspaceMount list \<Rightarrow> meeter \<Rightarrow> meeter" where
  "meetMounts ov m =
     (case mounts_loop (WorkspaceMounts (ceiling_of m)) ov [] m of (out, m1) \<Rightarrow>
        on_ceiling (\<lambda>c. c\<lparr>WorkspaceMounts := sort_key (\<lambda>x. MSource x @ [CHR 0x00] @ MTarget x) out\<rparr>) m1)"

fun repos_loop :: "WorkspaceRepo list \<Rightarrow> WorkspaceRepo list \<Rightarrow> WorkspaceRepo list \<Rightarrow> meeter \<Rightarrow> WorkspaceRepo list \<times> meeter" where
  "repos_loop base [] out m = (out, m)"
| "repos_loop base (v # vs) out m =
     (if v \<notin> set base then repos_loop base vs out (widen ''workspace_repos'' m)
      else if v \<notin> set out then repos_loop base vs (out @ [v]) m
      else repos_loop base vs out m)"

definition meetRepos :: "WorkspaceRepo list \<Rightarrow> meeter \<Rightarrow> meeter" where
  "meetRepos ov m =
     (case repos_loop (WorkspaceRepos (ceiling_of m)) ov [] m of (out, m1) \<Rightarrow>
        on_ceiling (\<lambda>c. c\<lparr>WorkspaceRepos :=
          sort_key (\<lambda>x. Repo x @ [CHR 0x00] @ RTarget x @ [CHR 0x00] @ Ref x) out\<rparr>) m1)"

definition meetLLM :: "LLMInspectionSpec \<Rightarrow> meeter \<Rightarrow> meeter" where
  "meetLLM v m =
     (case LLMInspection (ceiling_of m) of
        None \<Rightarrow> on_ceiling (\<lambda>c. c\<lparr>LLMInspection := Some v\<rparr>) m
      | Some x \<Rightarrow> failIf ReasonOverlayInvalid ''llm_inspection'' (\<not> sameJSON x v) m)"

definition met_app :: "UIApp \<Rightarrow> UIApp \<Rightarrow> UIApp" where
  "met_app b v =
     (let inbound = (Inbound b \<and> Inbound v) in
      \<lparr>AName = AName v, APort = APort v, APath = APath b, Inbound = inbound,
       Callers = (if inbound then filter (\<lambda>x. x \<in> set (Callers b)) (Callers v) else [])\<rparr>)"

fun apps_loop :: "UIApp list \<Rightarrow> UIApp list \<Rightarrow> UIApp list \<Rightarrow> meeter \<Rightarrow> UIApp list \<times> meeter" where
  "apps_loop base [] out m = (out, m)"
| "apps_loop base (v # vs) out m =
     (case find (\<lambda>b. AName b = AName v \<and> APort b = APort v) base of
        None \<Rightarrow> apps_loop base vs out (widen ''ui_apps'' m)
      | Some b \<Rightarrow>
          if PathOrRoot b \<noteq> PathOrRoot v then apps_loop base vs out (widen ''ui_apps'' m)
          else
            let app = met_app b v;
                m1 = widenIf ''ui_apps'' (Inbound v \<and> \<not> Inbound b) m;
                m2 = widenIf ''ui_apps'' (Inbound app \<and> filter (\<lambda>x. x \<notin> set (Callers b)) (Callers v) \<noteq> []) m1
            in apps_loop base vs
                 (if list_ex (\<lambda>x. AName x = AName app \<and> APort x = APort app) out then out else out @ [app]) m2)"

definition meetUIApps :: "UIApp list \<Rightarrow> meeter \<Rightarrow> meeter" where
  "meetUIApps ov m =
     (let base = UIApps (ceiling_of m) in
      if ov = [] \<and> base \<noteq> [] then on_limits (\<lambda>l. l\<lparr>DenyUIApps := True\<rparr>) m
      else case apps_loop base ov [] m of (out, m1) \<Rightarrow>
        on_ceiling (\<lambda>c. c\<lparr>UIApps := sort_key AName (sort_key APort out)\<rparr>)
          (failIf ReasonOverlayUnsatisfiable ''ui_apps'' (base \<noteq> [] \<and> out = []) m1))"

definition meet_size :: "string \<Rightarrow> int \<Rightarrow> int option \<Rightarrow> int \<Rightarrow> meeter \<Rightarrow> int \<times> meeter" where
  "meet_size field base ov def m =
     (case ov of
        None \<Rightarrow> (base, m)
      | Some x \<Rightarrow>
          let b = norm_size def base; v = norm_size def x in (tightest b v, widenIf field (looser v b) m))"

definition meetResources :: "Limits \<Rightarrow> ResourcesOverlay \<Rightarrow> meeter \<Rightarrow> meeter" where
  "meetResources eff ov m =
     (let r = resources_of (Resources (ceiling_of m)) in
      case meet_size ''resources.cpu_millis'' (CPUMillis r) (ro_CPUMillis ov) (sz_CPUMillis eff) m of (cpu, m1) \<Rightarrow>
      case meet_size ''resources.memory_mib'' (MemoryMiB r) (ro_MemoryMiB ov) (sz_MemoryMiB eff) m1 of (mem, m2) \<Rightarrow>
      case meet_size ''resources.pids_limit'' (PidsLimit r) (ro_PidsLimit ov) (sz_PidsLimit eff) m2 of (pids, m3) \<Rightarrow>
      case meet_size ''resources.disk_mib'' (DiskMiB r) (ro_DiskMiB ov) 0 m3 of (disk, m4) \<Rightarrow>
      let r' = \<lparr>CPUMillis = cpu, MemoryMiB = mem, PidsLimit = pids, DiskMiB = disk\<rparr> in
      on_ceiling (\<lambda>c. c\<lparr>Resources := (if r' = empty_resources then None else Some r')\<rparr>) m4)"

definition met_effect :: "(string \<times> ToolEffect) list \<Rightarrow> (string \<times> ToolEffect) list \<Rightarrow> string \<Rightarrow> ToolEffect" where
  "met_effect b v t =
     (if toolStrictness (effectFor v t) > toolStrictness (effectFor b t) then effectFor v t else effectFor b t)"

definition meetToolRules :: "ToolRule list \<Rightarrow> meeter \<Rightarrow> meeter" where
  "meetToolRules ov m =
     (let base = ToolRules (ceiling_of m) in
      if base = [] \<and> ov = [] then on_ceiling (\<lambda>c. c\<lparr>ToolRules := []\<rparr>) m
      else
        let b = toolEffects base; v = toolEffects ov; tools = remdups (''*'' # map fst b @ map fst v) in
        on_ceiling (\<lambda>c. c\<lparr>ToolRules := sort_key Tool (map (\<lambda>t. \<lparr>Tool = t, Effect = met_effect b v t\<rparr>) tools)\<rparr>)
          (fold (\<lambda>t. widenIf ''tool_rules'' (toolStrictness (effectFor v t) < toolStrictness (effectFor b t))) tools m))"

definition meetPushAnyBranch :: "bool \<Rightarrow> meeter \<Rightarrow> meeter" where
  "meetPushAnyBranch v m =
     on_ceiling (\<lambda>c. c\<lparr>GitPushAnyBranch := GitPushAnyBranch c \<and> v\<rparr>)
       (widenIf ''git_push_any_branch'' (v \<and> \<not> GitPushAnyBranch (ceiling_of m)) m)"

definition meetCapabilities :: "string \<Rightarrow> string list \<Rightarrow> string list \<Rightarrow> meeter \<Rightarrow> string list option \<times> meeter" where
  "meetCapabilities field base want m =
     (if base = [] then (None, widen field m)
      else
        let both = filter (\<lambda>s. s \<in> set base) want in
        (Some both,
         if both = [] then meet_fail ReasonOverlayUnsatisfiable field m
         else widenIf field (length both < length want) m))"

definition meetAzureDevOps :: "string list \<Rightarrow> meeter \<Rightarrow> meeter" where
  "meetAzureDevOps v m =
     (case meetCapabilities ''azure_devops_capabilities'' (capStrings (AzureDevOpsCapabilities (ceiling_of m))) (capStrings v) m of
        (None, m1) \<Rightarrow> m1
      | (Some both, m1) \<Rightarrow> on_ceiling (\<lambda>c. c\<lparr>AzureDevOpsCapabilities := both\<rparr>) m1)"

definition meetGitHub :: "string list \<Rightarrow> meeter \<Rightarrow> meeter" where
  "meetGitHub v m =
     (case meetCapabilities ''github_capabilities'' (capStrings (GitHubCapabilities (ceiling_of m))) (capStrings v) m of
        (None, m1) \<Rightarrow> m1
      | (Some both, m1) \<Rightarrow> on_ceiling (\<lambda>c. c\<lparr>GitHubCapabilities := both\<rparr>) m1)"

definition meetInnerWall :: "string \<Rightarrow> string \<Rightarrow> string \<Rightarrow> meeter \<Rightarrow> string \<times> meeter" where
  "meetInnerWall field base over m =
     (if over = [] then (base, m)
      else if base = [] then (over, m)
      else (base, failIf ReasonOverlayInvalid field (base \<noteq> over) m))"

definition meetInnerWalls :: "HarnessInnerWalls \<Rightarrow> meeter \<Rightarrow> meeter" where
  "meetInnerWalls v m =
     (let b = walls_of (InnerWalls (ceiling_of m)) in
      case meetInnerWall ''harness_inner_walls.sandbox_mode'' (SandboxMode b) (SandboxMode v) m of (sm, m1) \<Rightarrow>
      case meetInnerWall ''harness_inner_walls.approvals'' (Approvals b) (Approvals v) m1 of (ap, m2) \<Rightarrow>
      if sm \<noteq> [] \<or> ap \<noteq> [] then on_ceiling (\<lambda>c. c\<lparr>InnerWalls := Some \<lparr>SandboxMode = sm, Approvals = ap\<rparr>\<rparr>) m2
      else m2)"

definition meetDesktop :: "DesktopControls \<Rightarrow> meeter \<Rightarrow> meeter" where
  "meetDesktop v m =
     on_ceiling (\<lambda>c. c\<lparr>Desktop := Some (Desktop_Meet (Desktop c) (Some v))\<rparr>)
       (widenIf ''desktop'' (\<not> leqDesktop (Some v) (Desktop (ceiling_of m))) m)"

definition meetRecording :: "RecordingLevel \<Rightarrow> meeter \<Rightarrow> meeter" where
  "meetRecording v m =
     on_ceiling (\<lambda>c. c\<lparr>Recording := AtLeast (Recording c) v\<rparr>)
       (widenIf ''recording'' (Recording_Rank v < Recording_Rank (Recording (ceiling_of m))) m)"

definition meetPosture :: "Limits \<Rightarrow> CeilingOverlay \<Rightarrow> meeter \<Rightarrow> meeter" where
  "meetPosture eff ov m =
     (let m = named (co_MinConfinementClass ov) meetConfinement m;
          m = named (co_EligibleGrants ov) (\<lambda>v. on_ceiling (\<lambda>c. c\<lparr>EligibleGrants := v\<rparr>)) m;
          m = named (co_AutoStopAfterSec ov) meetAutoStop m;
          m = named (co_WorkspaceMounts ov) meetMounts m;
          m = named (co_WorkspaceRepos ov) meetRepos m;
          m = named (co_LLMInspection ov) meetLLM m;
          m = named (co_UIApps ov) meetUIApps m;
          m = named (co_Resources ov) (meetResources eff) m;
          m = named (co_ToolRules ov) meetToolRules m;
          m = named (co_GitPushAnyBranch ov) meetPushAnyBranch m;
          m = named (co_AzureDevOpsCapabilities ov) meetAzureDevOps m;
          m = named (co_InnerWalls ov) meetInnerWalls m;
          m = named (co_Desktop ov) meetDesktop m;
          m = named (co_Recording ov) meetRecording m;
          m = named (co_GitHubCapabilities ov) meetGitHub m
      in m)"

subsection \<open>Push rules\<close>

text \<open>\<open>meetPack\<close>: the cap to write and whether the overlay's is a weaker one.\<close>

definition meetPack :: "PushRulesSpec \<Rightarrow> int \<Rightarrow> bool \<Rightarrow> bool \<Rightarrow> meeter \<Rightarrow> int \<times> meeter" where
  "meetPack res v0 activeBase active m =
     (let b = (if activeBase then (if MaxInspectPackMiB res > 0 then MaxInspectPackMiB res else defaultInspectPackMiB) else 0);
          v = (if v0 \<le> 0 \<and> active then defaultInspectPackMiB else v0)
      in (tightest b v, widenIf ''push_rules.max_inspect_pack_mib'' (looser v b) m))"

definition push_flags :: "PushRulesOverlay \<Rightarrow> PushRulesSpec \<Rightarrow> PushRulesSpec" where
  "push_flags ov res =
     res\<lparr>DenyPaths := (case po_DenyPaths ov of None \<Rightarrow> DenyPaths res | Some v \<Rightarrow> unionPaths (DenyPaths res) v),
         RequireReviewPaths :=
           (case po_RequireReviewPaths ov of None \<Rightarrow> RequireReviewPaths res | Some v \<Rightarrow> unionPaths (RequireReviewPaths res) v),
         DenyNewExecutables :=
           (case po_DenyNewExecutables ov of None \<Rightarrow> DenyNewExecutables res | Some v \<Rightarrow> DenyNewExecutables res \<or> v),
         DenyAll := (case po_DenyAll ov of None \<Rightarrow> DenyAll res | Some v \<Rightarrow> DenyAll res \<or> v)\<rparr>"

definition push_file_size :: "PushRulesOverlay \<Rightarrow> PushRulesSpec \<Rightarrow> meeter \<Rightarrow> PushRulesSpec \<times> meeter" where
  "push_file_size ov res m =
     (case po_MaxFileSizeMiB ov of
        None \<Rightarrow> (res, m)
      | Some v \<Rightarrow> (res\<lparr>MaxFileSizeMiB := tightest (MaxFileSizeMiB res) v\<rparr>,
                   widenIf ''push_rules.max_file_size_mib'' (looser v (MaxFileSizeMiB res)) m))"

definition push_hold_seconds :: "PushRulesOverlay \<Rightarrow> PushRulesSpec \<Rightarrow> meeter \<Rightarrow> PushRulesSpec \<times> meeter" where
  "push_hold_seconds ov res m =
     (case po_HoldSeconds ov of
        None \<Rightarrow> (res, m)
      | Some x \<Rightarrow>
          let b = normPushHold (HoldSeconds res); v = normPushHold x in
          (res\<lparr>HoldSeconds := min b v\<rparr>, widenIf ''push_rules.hold_seconds'' (v > b) m))"

definition push_pack :: "PushRulesOverlay \<Rightarrow> bool \<Rightarrow> PushRulesSpec \<Rightarrow> meeter \<Rightarrow> PushRulesSpec \<times> meeter" where
  "push_pack ov activeBase res m =
     (let active = (PushRules_IsSet (Some res) \<or>
            (case po_MaxInspectPackMiB ov of None \<Rightarrow> False | Some v \<Rightarrow> v > 0));
          (res1, m1) =
            (case po_MaxInspectPackMiB ov of
               None \<Rightarrow> (res, m)
             | Some v \<Rightarrow> (case meetPack res v activeBase active m of (p, m') \<Rightarrow> (res\<lparr>MaxInspectPackMiB := p\<rparr>, m')))
      in (if active \<and> MaxInspectPackMiB res1 \<le> 0 then res1\<lparr>MaxInspectPackMiB := defaultInspectPackMiB\<rparr> else res1, m1))"

definition push_result :: "PushRulesSpec \<Rightarrow> PushRulesSpec option" where
  "push_result res =
     (if PushRules_IsSet (Some res) \<or> HoldSeconds res > 0 \<or> DenyNewExecutables res then Some res else None)"

definition meetPush :: "PushRulesOverlay \<Rightarrow> meeter \<Rightarrow> meeter" where
  "meetPush ov m =
     (let base = push_of (PushRules (ceiling_of m)); activeBase = PushRules_IsSet (Some base) in
      case push_file_size ov (push_flags ov base) m of (res1, m1) \<Rightarrow>
      case push_hold_seconds ov res1 m1 of (res2, m2) \<Rightarrow>
      case push_pack ov activeBase res2 m2 of (res3, m3) \<Rightarrow>
      on_ceiling (\<lambda>c. c\<lparr>PushRules := push_result res3\<rparr>) m3)"

subsection \<open>Limits\<close>

definition TighterSec :: "int \<Rightarrow> int \<Rightarrow> int" where
  "TighterSec a b = (if a = 0 \<or> b > 0 \<and> b < a then b else a)"

definition TightenRunLimits :: "RunLimits \<Rightarrow> RunLimits \<Rightarrow> RunLimits" where
  "TightenRunLimits captured profile =
     captured\<lparr>MaxEndAheadSec := TighterSec (MaxEndAheadSec captured) (MaxEndAheadSec profile),
       MaxWaitSec := TighterSec (MaxWaitSec captured) (MaxWaitSec profile),
       PauseIdleAfterSec := TighterSec (PauseIdleAfterSec captured) (PauseIdleAfterSec profile),
       AllowNoEnd := AllowNoEnd captured \<and> AllowNoEnd profile,
       UserChangesLimits := UserChangesLimits captured \<and> UserChangesLimits profile\<rparr>"

definition derefInt :: "int option \<Rightarrow> int" where
  "derefInt p = (case p of None \<Rightarrow> 0 | Some v \<Rightarrow> v)"

definition clampDefault :: "int \<Rightarrow> int \<Rightarrow> int" where
  "clampDefault def resMax = (if resMax > 0 \<and> (def = 0 \<or> def > resMax) then resMax else def)"

definition meetDefault :: "string \<Rightarrow> int \<Rightarrow> int \<Rightarrow> int option \<Rightarrow> int \<Rightarrow> meeter \<Rightarrow> int \<times> meeter" where
  "meetDefault field baseDef baseMax ov resMax m =
     (case ov of
        None \<Rightarrow> (clampDefault baseDef resMax, m)
      | Some x \<Rightarrow>
          let b = or_int baseDef baseMax; v = or_int x resMax in
          (clampDefault (tightest b v) resMax, widenIf field (looser v b) m))"

definition runLimitsNamed :: "LimitsOverlay \<Rightarrow> bool" where
  "runLimitsNamed ov =
     (\<not> (lo_MaxEndAheadSec ov = None \<and> lo_DefaultEndSec ov = None \<and> lo_AllowNoEnd ov = None \<and> lo_MaxWaitSec ov = None \<and>
         lo_DefaultWaitSec ov = None \<and> lo_UserChangesLimits ov = None \<and> lo_PauseIdleAfterSec ov = None))"

definition overlayRunLimits :: "LimitsOverlay \<Rightarrow> RunLimits" where
  "overlayRunLimits ov =
     \<lparr>MaxEndAheadSec = derefInt (lo_MaxEndAheadSec ov), DefaultEndSec = 0,
      AllowNoEnd = (case lo_AllowNoEnd ov of None \<Rightarrow> True | Some v \<Rightarrow> v),
      MaxWaitSec = derefInt (lo_MaxWaitSec ov), DefaultWaitSec = 0,
      UserChangesLimits = (case lo_UserChangesLimits ov of None \<Rightarrow> True | Some v \<Rightarrow> v),
      PauseIdleAfterSec = derefInt (lo_PauseIdleAfterSec ov)\<rparr>"

definition looser_named :: "int option \<Rightarrow> int \<Rightarrow> bool" where
  "looser_named ov b = (case ov of None \<Rightarrow> False | Some v \<Rightarrow> looser v b)"

definition meetRunLimits :: "LimitsOverlay \<Rightarrow> meeter \<Rightarrow> meeter" where
  "meetRunLimits ov m =
     (if \<not> runLimitsNamed ov then m
      else
        let base = LimRun (limits_of m);
            got = TightenRunLimits base (overlayRunLimits ov);
            m = widenIf ''max_end_ahead_sec'' (looser_named (lo_MaxEndAheadSec ov) (MaxEndAheadSec base)) m;
            m = widenIf ''max_wait_sec'' (looser_named (lo_MaxWaitSec ov) (MaxWaitSec base)) m;
            m = widenIf ''pause_idle_after_sec'' (looser_named (lo_PauseIdleAfterSec ov) (PauseIdleAfterSec base)) m;
            m = widenIf ''allow_no_end'' (lo_AllowNoEnd ov = Some True \<and> \<not> AllowNoEnd base) m;
            m = widenIf ''user_changes_limits'' (lo_UserChangesLimits ov = Some True \<and> \<not> UserChangesLimits base) m;
            (e, m) = meetDefault ''default_end_sec'' (DefaultEndSec base) (MaxEndAheadSec base) (lo_DefaultEndSec ov)
                       (MaxEndAheadSec got) m;
            (w, m) = meetDefault ''default_wait_sec'' (DefaultWaitSec base) (MaxWaitSec base) (lo_DefaultWaitSec ov)
                       (MaxWaitSec got) m
        in on_limits (\<lambda>l. l\<lparr>LimRun := got\<lparr>DefaultEndSec := e, DefaultWaitSec := w\<rparr>\<rparr>) m)"

definition meet_level :: "string \<Rightarrow> AutonomyLevel \<Rightarrow> AutonomyLevel \<Rightarrow> meeter \<Rightarrow> AutonomyLevel \<times> meeter" where
  "meet_level field base ov m =
     (if ov = [] then (base, m)
      else if base = [] \<or> Autonomy_Rank ov < Autonomy_Rank base then (ov, m)
      else (base, widenIf field (Autonomy_Rank ov > Autonomy_Rank base) m))"

definition meetRubric :: "AutonomyRubric \<Rightarrow> meeter \<Rightarrow> meeter" where
  "meetRubric ov m =
     (let b = rubric_of (LimRubric (limits_of m));
          (x1, m) = meet_level ''autonomy_rubric.egress_open'' (EgressOpen b) (EgressOpen ov) m;
          (x2, m) = meet_level ''autonomy_rubric.egress_reviewed'' (EgressReviewed b) (EgressReviewed ov) m;
          (x3, m) = meet_level ''autonomy_rubric.egress_sealed'' (EgressSealed b) (EgressSealed ov) m;
          (x4, m) = meet_level ''autonomy_rubric.secrets_powerful'' (SecretsPowerful b) (SecretsPowerful ov) m;
          (x5, m) = meet_level ''autonomy_rubric.secrets_baseline'' (SecretsBaseline b) (SecretsBaseline ov) m;
          (x6, m) = meet_level ''autonomy_rubric.secrets_none'' (SecretsNone b) (SecretsNone ov) m;
          (x7, m) = meet_level ''autonomy_rubric.confinement_cc1'' (ConfinementCC1 b) (ConfinementCC1 ov) m;
          (x8, m) = meet_level ''autonomy_rubric.confinement_cc2'' (ConfinementCC2 b) (ConfinementCC2 ov) m;
          (x9, m) = meet_level ''autonomy_rubric.confinement_cc3'' (ConfinementCC3 b) (ConfinementCC3 ov) m;
          r = \<lparr>EgressOpen = x1, EgressReviewed = x2, EgressSealed = x3, SecretsPowerful = x4, SecretsBaseline = x5,
               SecretsNone = x6, ConfinementCC1 = x7, ConfinementCC2 = x8, ConfinementCC3 = x9,
               AgentGuardrailLocks = AgentGuardrailLocks b \<or> AgentGuardrailLocks ov\<rparr>
      in on_limits (\<lambda>l. l\<lparr>LimRubric := (if r = empty_rubric then None else Some r)\<rparr>) m)"

text \<open>\<open>meetMacOSBases\<close> and \<open>meetAllowedModels\<close> share one body over the base's list: the list to write, if any.\<close>

definition meet_allow_list :: "string \<Rightarrow> string list \<Rightarrow> string list \<Rightarrow> meeter \<Rightarrow> string list \<times> meeter" where
  "meet_allow_list field base ov m =
     (if ov = [] then (base, m)
      else if base = [] then (ov, m)
      else
        let both = filter (\<lambda>n. n \<in> set base) ov in
        (both, if both = [] then meet_fail ReasonOverlayUnsatisfiable field m
               else widenIf field (length both < length ov) m))"

definition meetMacOSBases :: "string list \<Rightarrow> meeter \<Rightarrow> meeter" where
  "meetMacOSBases ov m =
     (case meet_allow_list ''allowed_macos_bases'' (AllowedMacOSBases (limits_of m)) ov m of (out, m1) \<Rightarrow>
        on_limits (\<lambda>l. l\<lparr>AllowedMacOSBases := out\<rparr>) m1)"

definition meetAllowedModels :: "string list \<Rightarrow> meeter \<Rightarrow> meeter" where
  "meetAllowedModels ov m =
     (case meet_allow_list ''allowed_models'' (AllowedModels (limits_of m)) ov m of (out, m1) \<Rightarrow>
        on_limits (\<lambda>l. l\<lparr>AllowedModels := out\<rparr>) m1)"

definition unionPlacements :: "Placement list \<Rightarrow> Placement list \<Rightarrow> Placement list" where
  "unionPlacements base ov = filter (\<lambda>p. p \<in> set base \<or> p \<in> set ov) [PlacementRemote, PlacementLocal]"

definition or_named :: "bool \<Rightarrow> bool option \<Rightarrow> bool" where
  "or_named b ov = (case ov of None \<Rightarrow> b | Some v \<Rightarrow> b \<or> v)"

definition meetDenials :: "LimitsOverlay \<Rightarrow> GovernanceLimits \<Rightarrow> GovernanceLimits" where
  "meetDenials ov l =
     l\<lparr>DenyTaskModeExec := or_named (DenyTaskModeExec l) (lo_DenyTaskModeExec ov),
       DenyInteractive := or_named (DenyInteractive l) (lo_DenyInteractive ov),
       DenyUIApps := or_named (DenyUIApps l) (lo_DenyUIApps ov),
       DenyUserDrive := or_named (DenyUserDrive l) (lo_DenyUserDrive ov),
       DenyMemberDrives := or_named (DenyMemberDrives l) (lo_DenyMemberDrives ov),
       DenyKeptMachines := or_named (DenyKeptMachines l) (lo_DenyKeptMachines ov),
       DenyBackgroundDesktopWatch := or_named (DenyBackgroundDesktopWatch l) (lo_DenyBackgroundDesktopWatch ov)\<rparr>"

definition meet_bound :: "string \<Rightarrow> (GovernanceLimits \<Rightarrow> int) \<Rightarrow> ((int \<Rightarrow> int) \<Rightarrow> GovernanceLimits \<Rightarrow> GovernanceLimits)
    \<Rightarrow> int \<Rightarrow> meeter \<Rightarrow> meeter" where
  "meet_bound field get upd v m =
     (let b = get (limits_of m) in on_limits (upd (\<lambda>_. tightest b v)) (widenIf field (looser v b) m))"

definition meetLocal :: "bool \<Rightarrow> meeter \<Rightarrow> meeter" where
  "meetLocal v m =
     on_limits (\<lambda>l. l\<lparr>LocalSelfDefinedComponents := LocalSelfDefinedComponents l \<and> v\<rparr>)
       (widenIf ''local_self_defined_components'' (v \<and> \<not> LocalSelfDefinedComponents (limits_of m)) m)"

definition meetLimits :: "LimitsOverlay \<Rightarrow> meeter \<Rightarrow> meeter" where
  "meetLimits ov m =
     (let m = named (lo_LocalSelfDefinedComponents ov) meetLocal m;
          m = on_limits (meetDenials ov) m;
          m = named (lo_DenyPlacements ov) (\<lambda>v. on_limits (\<lambda>l. l\<lparr>DenyPlacements := unionPlacements (DenyPlacements l) v\<rparr>)) m;
          m = named (lo_AllowedMacOSBases ov) meetMacOSBases m;
          m = named (lo_AllowedModels ov) meetAllowedModels m;
          m = named (lo_MaxConcurrentRuns ov) (meet_bound ''max_concurrent_runs'' MaxConcurrentRuns MaxConcurrentRuns_update) m;
          m = named (lo_MaxCPUMillis ov) (meet_bound ''max_cpu_millis'' MaxCPUMillis MaxCPUMillis_update) m;
          m = named (lo_MaxMemoryMiB ov) (meet_bound ''max_memory_mib'' MaxMemoryMiB MaxMemoryMiB_update) m;
          m = named (lo_MaxEphemeralDiskMiB ov)
                (meet_bound ''max_ephemeral_disk_mib'' MaxEphemeralDiskMiB MaxEphemeralDiskMiB_update) m;
          m = named (lo_MaxDriveSizeMiB ov) (meet_bound ''max_drive_size_mib'' MaxDriveSizeMiB MaxDriveSizeMiB_update) m;
          m = named (lo_AutonomyRubric ov) meetRubric m
      in meetRunLimits ov m)"

subsection \<open>Validation and the whole composition\<close>

definition validInnerWalls :: "HarnessInnerWalls \<Rightarrow> bool" where
  "validInnerWalls w =
     (SandboxMode w \<in> {[], ''off'', ''workspace-write'', ''read-only''} \<and>
      Approvals w \<in> {[], ''harness'', ''wardyn'', ''none''})"

definition validDesktop :: "DesktopControls \<Rightarrow> bool" where
  "validDesktop d =
     (ValidTransferRule (PasteIn d) \<and> ValidTransferRule (CopyOut d) \<and> ValidTransferRule (Upload d) \<and>
      ValidTransferRule (Download d))"

fun validate_tools :: "string list \<Rightarrow> ToolRule list \<Rightarrow> meeter \<Rightarrow> meeter" where
  "validate_tools seen [] m = m"
| "validate_tools seen (r # rs) m =
     validate_tools (Tool r # seen) rs
       (widenIf ''tool_rules'' (Tool r \<in> set seen)
         (failIf ReasonOverlayInvalid ''tool_rules'' (\<not> ValidToolEffect (Effect r)) m))"

definition resource_fields :: "ResourcesOverlay option \<Rightarrow> (string \<times> int option) list" where
  "resource_fields r =
     (case r of
        None \<Rightarrow> []
      | Some r \<Rightarrow> [(''resources.cpu_millis'', ro_CPUMillis r), (''resources.memory_mib'', ro_MemoryMiB r),
                   (''resources.pids_limit'', ro_PidsLimit r), (''resources.disk_mib'', ro_DiskMiB r)])"

definition push_fields :: "PushRulesOverlay option \<Rightarrow> (string \<times> int option) list" where
  "push_fields p =
     (case p of
        None \<Rightarrow> []
      | Some p \<Rightarrow> [(''push_rules.max_inspect_pack_mib'', po_MaxInspectPackMiB p),
                   (''push_rules.hold_seconds'', po_HoldSeconds p),
                   (''push_rules.max_file_size_mib'', po_MaxFileSizeMiB p)])"

definition counted_fields :: "Overlay \<Rightarrow> (string \<times> int option) list" where
  "counted_fields ov =
     (let c = ov_Ceiling ov; l = ov_Limits ov in
      [(''first_use_hold_seconds'', co_FirstUseHoldSeconds c), (''max_holds'', co_MaxHolds c),
       (''max_concurrent_runs'', lo_MaxConcurrentRuns l), (''max_cpu_millis'', lo_MaxCPUMillis l),
       (''max_memory_mib'', lo_MaxMemoryMiB l), (''max_ephemeral_disk_mib'', lo_MaxEphemeralDiskMiB l),
       (''max_drive_size_mib'', lo_MaxDriveSizeMiB l), (''max_end_ahead_sec'', lo_MaxEndAheadSec l),
       (''default_end_sec'', lo_DefaultEndSec l), (''max_wait_sec'', lo_MaxWaitSec l),
       (''default_wait_sec'', lo_DefaultWaitSec l), (''pause_idle_after_sec'', lo_PauseIdleAfterSec l)] @
      resource_fields (co_Resources c) @ push_fields (co_PushRules c))"

definition validateNonNegative :: "Overlay \<Rightarrow> meeter \<Rightarrow> meeter" where
  "validateNonNegative ov m =
     fold (\<lambda>(name, v). failIf ReasonOverlayInvalid name (case v of None \<Rightarrow> False | Some x \<Rightarrow> x < 0)) (counted_fields ov) m"

definition holds_for :: "('a \<Rightarrow> bool) \<Rightarrow> 'a option \<Rightarrow> bool" where
  "holds_for P x = (case x of None \<Rightarrow> False | Some v \<Rightarrow> P v)"

definition validatePresence :: "Overlay \<Rightarrow> meeter \<Rightarrow> meeter" where
  "validatePresence ov m =
     (let c = ov_Ceiling ov; l = ov_Limits ov; invalid = failIf ReasonOverlayInvalid;
          m = invalid ''allowed_methods'' (holds_for (\<lambda>v. normMethods v = []) (co_AllowedMethods c)) m;
          m = invalid ''allowed_domains'' (holds_for (\<lambda>v. length v > MaxAllowedDomainsPerSpec) (co_AllowedDomains c)) m;
          m = invalid ''azure_devops_capabilities'' (holds_for (\<lambda>v. v = []) (co_AzureDevOpsCapabilities c)) m;
          m = invalid ''github_capabilities'' (holds_for (\<lambda>v. v = []) (co_GitHubCapabilities c)) m;
          m = invalid ''llm_inspection.workspace_secret_values''
                (holds_for (\<lambda>v. WorkspaceSecretValues v \<noteq> []) (co_LLMInspection c)) m;
          m = named (co_ToolRules c) (validate_tools []) m;
          m = invalid ''recording'' (holds_for (\<lambda>v. v = [] \<or> \<not> Recording_Valid v) (co_Recording c)) m;
          m = invalid ''harness_inner_walls'' (holds_for (\<lambda>v. \<not> validInnerWalls v) (co_InnerWalls c)) m;
          m = invalid ''desktop'' (holds_for (\<lambda>v. \<not> validDesktop v) (co_Desktop c)) m;
          m = validateNonNegative ov m;
          m = named (lo_DenyPlacements l) (fold (\<lambda>p. invalid ''deny_placements'' (\<not> Placement_Valid p))) m;
          m = named (lo_AllowedMacOSBases l) (fold (\<lambda>n. invalid ''allowed_macos_bases'' (\<not> ValidMacOSBaseName n))) m;
          m = invalid ''allowed_models'' (holds_for (\<lambda>v. \<not> ValidAllowedModels v) (lo_AllowedModels l)) m
      in invalid ''autonomy_rubric'' (holds_for (\<lambda>v. \<not> Rubric_Validate v) (lo_AutonomyRubric l)) m)"

definition negative_limit :: "GovernanceLimits \<Rightarrow> bool" where
  "negative_limit l =
     (let r = LimRun l in
      DefaultEndSec r < 0 \<or> DefaultWaitSec r < 0 \<or> MaxEndAheadSec r < 0 \<or> MaxWaitSec r < 0 \<or> PauseIdleAfterSec r < 0 \<or>
      MaxConcurrentRuns l < 0 \<or> MaxCPUMillis l < 0 \<or> MaxMemoryMiB l < 0 \<or> MaxEphemeralDiskMiB l < 0 \<or> MaxDriveSizeMiB l < 0)"

definition checkResult :: "meeter \<Rightarrow> meeter" where
  "checkResult m =
     (let l = limits_of m; r = LimRun l; refuse = failIf ReasonOverlayUnsatisfiable;
          m = refuse ''limits'' (negative_limit l) m;
          m = refuse ''limits.default_end_sec'' (MaxEndAheadSec r > 0 \<and> DefaultEndSec r > MaxEndAheadSec r) m;
          m = refuse ''limits.default_wait_sec'' (MaxWaitSec r > 0 \<and> DefaultWaitSec r > MaxWaitSec r) m;
          m = refuse ''limits.deny_placements'' (DeniesEveryPlacement (DenyPlacements l)) m
      in refuse ''limits.autonomy_rubric'' (holds_for (\<lambda>v. \<not> Rubric_Validate v) (LimRubric l)) m)"

definition meeter_run :: "Limits \<Rightarrow> Overlay \<Rightarrow> meeter \<Rightarrow> meeter" where
  "meeter_run eff ov m =
     (let m = validatePresence ov m in
      if m_err m \<noteq> None then m
      else
        let m = meetEgress (ov_Ceiling ov) m;
            m = meetPosture eff (ov_Ceiling ov) m;
            m = named (co_PushRules (ov_Ceiling ov)) meetPush m;
            m = meetLimits (ov_Limits ov) m
        in checkResult m)"

definition new_meeter :: "bool \<Rightarrow> Authority \<Rightarrow> meeter" where
  "new_meeter strict base = \<lparr>m_out = base, m_strict = strict, m_warns = [], m_err = None\<rparr>"

definition ApplyOverlay :: "Limits \<Rightarrow> Authority \<Rightarrow> Overlay \<Rightarrow> OverlayError + (Authority \<times> string list)" where
  "ApplyOverlay eff base ov =
     (let m = meeter_run eff ov (new_meeter False base) in
      case m_err m of Some e \<Rightarrow> Inl e | None \<Rightarrow> Inr (m_out m, m_warns m))"

definition ValidateOverlay :: "Limits \<Rightarrow> Authority \<Rightarrow> Overlay \<Rightarrow> OverlayError option" where
  "ValidateOverlay eff base ov = m_err (meeter_run eff ov (new_meeter True base))"

text \<open>\<open>MeetWalls\<close> (meet_walls.go): a person's walls as an overlay. An open policy meets a walls allowlist as that list.\<close>

definition MeetWalls :: "Limits \<Rightarrow> RunPolicySpec \<Rightarrow> CeilingOverlay \<Rightarrow> OverlayError + RunPolicySpec" where
  "MeetWalls eff spec ov =
     (let base = (if AllowAllEgress spec \<and> co_AllowedDomains ov \<noteq> None
                  then spec\<lparr>AllowedDomains := AllowedDomains spec @ (case co_AllowedDomains ov of None \<Rightarrow> [] | Some v \<Rightarrow> v)\<rparr>
                  else spec)
      in case ApplyOverlay eff \<lparr>au_Ceiling = base, au_Limits = empty_limits\<rparr>
                \<lparr>ov_Ceiling = ov, ov_Limits = empty_limits_overlay\<rparr> of
           Inl e \<Rightarrow> Inl e
         | Inr (out, _) \<Rightarrow> Inr (au_Ceiling out))"

subsection \<open>The contract of a step\<close>

text \<open>A lenient and a strict run side by side: the same result so far, and the strict one has refused exactly when the
  lenient one has refused or warned.\<close>

definition agree :: "meeter \<Rightarrow> meeter \<Rightarrow> bool" where
  "agree m m' \<longleftrightarrow> m_out m = m_out m' \<and> \<not> m_strict m \<and> m_strict m' \<and>
     (m_err m' = None \<longleftrightarrow> m_err m = None \<and> m_warns m = [])"

lemma meeter_prims [simp]:
  "m_out (meet_fail r f m) = m_out m" "m_out (widen f m) = m_out m" "m_out (widenIf f b m) = m_out m"
  "m_out (failIf r f b m) = m_out m"
  "m_out (on_ceiling g m) = (m_out m)\<lparr>au_Ceiling := g (ceiling_of m)\<rparr>"
  "m_out (on_limits h m) = (m_out m)\<lparr>au_Limits := h (limits_of m)\<rparr>"
  "m_err (meet_fail r f m) \<noteq> None" "m_err (on_ceiling g m) = m_err m" "m_err (on_limits h m) = m_err m"
  by (simp_all add: meet_fail_def widen_def widenIf_def failIf_def on_ceiling_def on_limits_def)

lemma err_kept:
  "m_err (widen f m) = None \<Longrightarrow> m_err m = None" "m_err (widenIf f b m) = None \<Longrightarrow> m_err m = None"
  "m_err (failIf r f b m) = None \<Longrightarrow> m_err m = None \<and> \<not> b"
  by (auto simp: meet_fail_def widen_def widenIf_def failIf_def split: if_splits)

lemma agree_prims:
  "agree m m' \<Longrightarrow> agree (meet_fail r f m) (meet_fail r f m')" "agree m m' \<Longrightarrow> agree (widen f m) (widen f m')"
  "agree m m' \<Longrightarrow> agree (widenIf f b m) (widenIf f b m')" "agree m m' \<Longrightarrow> agree (failIf r f b m) (failIf r f b m')"
  "agree m m' \<Longrightarrow> agree (on_ceiling g m) (on_ceiling g m')" "agree m m' \<Longrightarrow> agree (on_limits h m) (on_limits h m')"
  by (auto simp: agree_def meet_fail_def widen_def widenIf_def failIf_def on_ceiling_def on_limits_def)

lemma agree_out: "agree m m' \<Longrightarrow> m_out m = m_out m'"
  by (simp add: agree_def)

text \<open>What every rule of the composition promises: the result it writes is a function of the result before it, it
  refuses unless its condition held and nothing was refused before, and its lenient and strict readings agree.\<close>

locale overlay_step =
  fixes step :: "'v \<Rightarrow> meeter \<Rightarrow> meeter"
    and upd :: "'v \<Rightarrow> Authority \<Rightarrow> Authority"
    and ok :: "'v \<Rightarrow> Authority \<Rightarrow> bool"
  assumes out: "m_out (step v m) = upd v (m_out m)"
    and err: "m_err (step v m) = None \<Longrightarrow> m_err m = None \<and> ok v (m_out m)"
    and agrees: "agree m m' \<Longrightarrow> m_out m' = m_out m \<Longrightarrow> agree (step v m) (step v m')"
begin

lemma named_out: "m_out (named ov step m) = (case ov of None \<Rightarrow> m_out m | Some v \<Rightarrow> upd v (m_out m))"
  by (simp add: named_def out split: option.split)

lemma named_err: "m_err (named ov step m) = None \<Longrightarrow> m_err m = None \<and> (case ov of None \<Rightarrow> True | Some v \<Rightarrow> ok v (m_out m))"
  using err by (simp add: named_def split: option.splits)

lemma named_agree: "agree m m' \<Longrightarrow> agree (named ov step m) (named ov step m')"
  using agrees agree_out [of m m'] by (simp add: named_def split: option.splits)

end

subsection \<open>The rules of network reach meet the contract\<close>

abbreviation on_c :: "(RunPolicySpec \<Rightarrow> RunPolicySpec) \<Rightarrow> Authority \<Rightarrow> Authority" where
  "on_c f a \<equiv> a\<lparr>au_Ceiling := f (au_Ceiling a)\<rparr>"

abbreviation on_l :: "(GovernanceLimits \<Rightarrow> GovernanceLimits) \<Rightarrow> Authority \<Rightarrow> Authority" where
  "on_l f a \<equiv> a\<lparr>au_Limits := f (au_Limits a)\<rparr>"

definition met_methods :: "string list \<Rightarrow> string list \<Rightarrow> string list" where
  "met_methods ov base = (if normMethods base = [] then ov else filter (\<lambda>s. s \<in> set (normMethods base)) ov)"

definition met_first_use :: "FirstUseMode \<Rightarrow> FirstUseMode \<Rightarrow> FirstUseMode" where
  "met_first_use ov base =
     (let b = FirstUse_Normalize base; v = FirstUse_Normalize ov in
      if firstUseApprovalRank v > firstUseApprovalRank b then v else b)"

interpretation domains: overlay_step meetAllowedDomains
  "\<lambda>v. on_c (\<lambda>c. c\<lparr>AllowedDomains := meet_domains (AllowedDomains c) v\<rparr>)" "\<lambda>_ _. True"
  by unfold_locales (auto simp: meetAllowedDomains_def Let_def dest: err_kept intro: agree_prims)

interpretation denied: overlay_step meetDeniedDomains
  "\<lambda>v. on_c (\<lambda>c. c\<lparr>DeniedDomains := unionDenied (DeniedDomains c) v\<rparr>)" "\<lambda>_ _. True"
  by unfold_locales (auto simp: meetDeniedDomains_def intro: agree_prims)

interpretation allow_all: overlay_step meetAllowAll
  "\<lambda>v. on_c (\<lambda>c. c\<lparr>AllowAllEgress := AllowAllEgress c \<and> v\<rparr>)" "\<lambda>_ _. True"
  by unfold_locales (auto simp: meetAllowAll_def dest: err_kept intro: agree_prims)

interpretation first_use: overlay_step meetFirstUse
  "\<lambda>v. on_c (\<lambda>c. c\<lparr>FirstUseApproval := met_first_use v (FirstUseApproval c)\<rparr>)" "\<lambda>_ _. True"
  by unfold_locales (auto simp: meetFirstUse_def met_first_use_def Let_def dest: err_kept intro: agree_prims)

interpretation first_use_hold: overlay_step meetFirstUseHold
  "\<lambda>v. on_c (\<lambda>c. c\<lparr>FirstUseHoldSeconds := min (normFirstUseHold (FirstUseHoldSeconds c)) (normFirstUseHold v)\<rparr>)" "\<lambda>_ _. True"
  by unfold_locales (auto simp: meetFirstUseHold_def Let_def dest: err_kept intro: agree_prims)

interpretation max_holds: overlay_step meetMaxHolds
  "\<lambda>v. on_c (\<lambda>c. c\<lparr>MaxHolds := min (normMaxHolds (MaxHolds c)) (normMaxHolds v)\<rparr>)" "\<lambda>_ _. True"
  by unfold_locales (auto simp: meetMaxHolds_def Let_def dest: err_kept intro: agree_prims)

interpretation methods: overlay_step "\<lambda>v. meetMethods (normMethods v)"
  "\<lambda>v. on_c (\<lambda>c. c\<lparr>AllowedMethods := met_methods (normMethods v) (AllowedMethods c)\<rparr>)"
  "\<lambda>v a. normMethods (AllowedMethods (au_Ceiling a)) = [] \<or> met_methods (normMethods v) (AllowedMethods (au_Ceiling a)) \<noteq> []"
  by unfold_locales (auto simp: meetMethods_def met_methods_def Let_def dest: err_kept intro: agree_prims split: if_splits)

subsection \<open>The rules of posture meet the contract\<close>

definition met_class :: "ConfinementClass \<Rightarrow> ConfinementClass \<Rightarrow> ConfinementClass" where
  "met_class v b = (if confinementRank v > confinementRank b then ToUpper (TrimSpace v) else b)"

interpretation confinement: overlay_step meetConfinement
  "\<lambda>v. on_c (\<lambda>c. c\<lparr>MinConfinementClass := met_class v (MinConfinementClass c)\<rparr>)" "\<lambda>_ _. True"
  by unfold_locales (auto simp: meetConfinement_def met_class_def Let_def dest: err_kept intro: agree_prims split: if_splits)

interpretation grants: overlay_step "\<lambda>v. on_ceiling (\<lambda>c. c\<lparr>EligibleGrants := v\<rparr>)"
  "\<lambda>v. on_c (\<lambda>c. c\<lparr>EligibleGrants := v\<rparr>)" "\<lambda>_ _. True"
  by unfold_locales (auto intro: agree_prims)

interpretation auto_stop: overlay_step meetAutoStop
  "\<lambda>v. on_c (\<lambda>c. c\<lparr>AutoStopAfterSec := autoStopMeet (AutoStopAfterSec c) v\<rparr>)" "\<lambda>_ _. True"
  by unfold_locales (auto simp: meetAutoStop_def Let_def dest: err_kept intro: agree_prims)

text \<open>A loop that only reads the base: its list does not depend on the meeter.\<close>

fun met_mounts :: "WorkspaceMount list \<Rightarrow> WorkspaceMount list \<Rightarrow> (string \<times> string) list \<Rightarrow> WorkspaceMount list" where
  "met_mounts base [] seen = []"
| "met_mounts base (v # vs) seen =
     (let k = (MSource v, MTarget v) in
      case find (\<lambda>b. (MSource b, MTarget b) = k) base of
        None \<Rightarrow> met_mounts base vs seen
      | Some b \<Rightarrow>
          if k \<in> set seen then met_mounts base vs seen
          else \<lparr>MSource = MSource v, MTarget = MTarget v, MReadOnly = Some (ReadOnlyOrDefault b \<or> ReadOnlyOrDefault v)\<rparr> #
               met_mounts base vs (k # seen))"

lemma mounts_loop_out: "fst (mounts_loop base vs seen m) = met_mounts base vs seen" "m_out (snd (mounts_loop base vs seen m)) = m_out m"
  by (induction vs arbitrary: seen m) (auto simp: Let_def case_prod_unfold split: option.splits)

lemma mounts_loop_err: "m_err (snd (mounts_loop base vs seen m)) = None \<Longrightarrow> m_err m = None"
proof (induction vs arbitrary: seen m)
  case (Cons v vs)
  show ?case
  proof (cases "find (\<lambda>b. (MSource b, MTarget b) = (MSource v, MTarget v)) base")
    case None
    then have "m_err (snd (mounts_loop base vs seen (widen ''workspace_mounts'' m))) = None" using Cons.prems by simp
    then show ?thesis using Cons.IH err_kept(1) by blast
  next
    case (Some b)
    then obtain seen' where "m_err (snd (mounts_loop base vs seen'
        (widenIf ''workspace_mounts'' (ReadOnlyOrDefault b \<and> \<not> ReadOnlyOrDefault v) m))) = None"
      using Cons.prems by (auto simp: Let_def case_prod_unfold split: if_splits)
    then show ?thesis using Cons.IH err_kept(2) by blast
  qed
qed simp

lemma mounts_loop_agree: "agree m m' \<Longrightarrow> agree (snd (mounts_loop base vs seen m)) (snd (mounts_loop base vs seen m'))"
proof (induction vs arbitrary: seen m m')
  case (Cons v vs)
  then show ?case by (auto simp: Let_def agree_prims case_prod_unfold split: option.splits)
qed simp

interpretation mounts: overlay_step meetMounts
  "\<lambda>v. on_c (\<lambda>c. c\<lparr>WorkspaceMounts := sort_key (\<lambda>x. MSource x @ [CHR 0x00] @ MTarget x) (met_mounts (WorkspaceMounts c) v [])\<rparr>)"
  "\<lambda>_ _. True"
  by unfold_locales
    (auto simp: meetMounts_def case_prod_unfold mounts_loop_out dest: mounts_loop_err intro!: agree_prims mounts_loop_agree)

fun met_repos :: "WorkspaceRepo list \<Rightarrow> WorkspaceRepo list \<Rightarrow> WorkspaceRepo list \<Rightarrow> WorkspaceRepo list" where
  "met_repos base [] out = out"
| "met_repos base (v # vs) out = met_repos base vs (if v \<in> set base \<and> v \<notin> set out then out @ [v] else out)"

lemma repos_loop_out: "fst (repos_loop base vs out m) = met_repos base vs out" "m_out (snd (repos_loop base vs out m)) = m_out m"
  by (induction vs arbitrary: out m) auto

lemma repos_loop_err: "m_err (snd (repos_loop base vs out m)) = None \<Longrightarrow> m_err m = None"
proof (induction vs arbitrary: out m)
  case (Cons v vs)
  obtain out' m1 where "m_err (snd (repos_loop base vs out' m1)) = None" "m1 = m \<or> m1 = widen ''workspace_repos'' m"
    using Cons.prems by (auto split: if_splits)
  then show ?case using Cons.IH err_kept(1) by blast
qed simp

lemma repos_loop_agree: "agree m m' \<Longrightarrow> agree (snd (repos_loop base vs out m)) (snd (repos_loop base vs out m'))"
  by (induction vs arbitrary: out m m') (auto simp: agree_prims)

interpretation repos: overlay_step meetRepos
  "\<lambda>v. on_c (\<lambda>c. c\<lparr>WorkspaceRepos := sort_key (\<lambda>x. Repo x @ [CHR 0x00] @ RTarget x @ [CHR 0x00] @ Ref x)
      (met_repos (WorkspaceRepos c) v [])\<rparr>)" "\<lambda>_ _. True"
  by unfold_locales
    (auto simp: meetRepos_def case_prod_unfold repos_loop_out dest: repos_loop_err intro!: agree_prims repos_loop_agree)

interpretation llm: overlay_step meetLLM
  "\<lambda>v. on_c (\<lambda>c. c\<lparr>LLMInspection := (case LLMInspection c of None \<Rightarrow> Some v | Some x \<Rightarrow> Some x)\<rparr>)"
  "\<lambda>v a. (case LLMInspection (au_Ceiling a) of None \<Rightarrow> True | Some x \<Rightarrow> sameJSON x v)"
  by unfold_locales (auto simp: meetLLM_def split: option.splits dest: err_kept intro: agree_prims)

fun met_apps :: "UIApp list \<Rightarrow> UIApp list \<Rightarrow> UIApp list \<Rightarrow> UIApp list" where
  "met_apps base [] out = out"
| "met_apps base (v # vs) out =
     (case find (\<lambda>b. AName b = AName v \<and> APort b = APort v) base of
        None \<Rightarrow> met_apps base vs out
      | Some b \<Rightarrow>
          if PathOrRoot b \<noteq> PathOrRoot v then met_apps base vs out
          else met_apps base vs
            (if list_ex (\<lambda>x. AName x = AName (met_app b v) \<and> APort x = APort (met_app b v)) out then out else out @ [met_app b v]))"

lemma apps_loop_out: "fst (apps_loop base vs out m) = met_apps base vs out" "m_out (snd (apps_loop base vs out m)) = m_out m"
  by (induction vs arbitrary: out m) (auto simp: Let_def split: option.splits)

lemma apps_loop_err: "m_err (snd (apps_loop base vs out m)) = None \<Longrightarrow> m_err m = None"
proof (induction vs arbitrary: out m)
  case (Cons v vs)
  obtain out' m1 where "m_err (snd (apps_loop base vs out' m1)) = None"
    "m1 = widen ''ui_apps'' m \<or> (\<exists>b1 b2. m1 = widenIf ''ui_apps'' b2 (widenIf ''ui_apps'' b1 m))"
    using Cons.prems by (auto simp: Let_def split: option.splits if_splits)
  then show ?case using Cons.IH err_kept(1,2) by blast
qed simp

lemma apps_loop_agree: "agree m m' \<Longrightarrow> agree (snd (apps_loop base vs out m)) (snd (apps_loop base vs out m'))"
  by (induction vs arbitrary: out m m') (auto simp: agree_prims Let_def split: option.splits)

definition sorted_apps :: "UIApp list \<Rightarrow> UIApp list" where
  "sorted_apps out = sort_key AName (sort_key APort out)"

definition apps_upd :: "UIApp list \<Rightarrow> Authority \<Rightarrow> Authority" where
  "apps_upd v a =
     (if v = [] \<and> UIApps (au_Ceiling a) \<noteq> [] then on_l (\<lambda>l. l\<lparr>DenyUIApps := True\<rparr>) a
      else on_c (\<lambda>c. c\<lparr>UIApps := sorted_apps (met_apps (UIApps c) v [])\<rparr>) a)"

lemma meetUIApps_err:
  assumes "m_err (meetUIApps v m) = None"
  shows "m_err m = None \<and> (v = [] \<or> UIApps (ceiling_of m) = [] \<or> met_apps (UIApps (ceiling_of m)) v [] \<noteq> [])"
proof (cases "v = [] \<and> UIApps (ceiling_of m) \<noteq> []")
  case True
  then show ?thesis using assms by (simp add: meetUIApps_def)
next
  case False
  then have "m_err (failIf ReasonOverlayUnsatisfiable ''ui_apps''
      (UIApps (ceiling_of m) \<noteq> [] \<and> met_apps (UIApps (ceiling_of m)) v [] = []) (snd (apps_loop (UIApps (ceiling_of m)) v [] m))) = None"
    using assms by (simp add: meetUIApps_def Let_def case_prod_unfold apps_loop_out split: if_splits)
  from err_kept(3) [OF this] show ?thesis using apps_loop_err by blast
qed

interpretation ui_apps: overlay_step meetUIApps apps_upd
  "\<lambda>v a. v = [] \<or> UIApps (au_Ceiling a) = [] \<or> met_apps (UIApps (au_Ceiling a)) v [] \<noteq> []"
proof unfold_locales
  fix v m m'
  show "m_out (meetUIApps v m) = apps_upd v (m_out m)"
    by (auto simp: meetUIApps_def apps_upd_def sorted_apps_def Let_def case_prod_unfold apps_loop_out)
  show "m_err (meetUIApps v m) = None \<Longrightarrow>
      m_err m = None \<and> (v = [] \<or> UIApps (ceiling_of m) = [] \<or> met_apps (UIApps (ceiling_of m)) v [] \<noteq> [])"
    by (rule meetUIApps_err)
  show "agree (meetUIApps v m) (meetUIApps v m')" if "agree m m'" "m_out m' = m_out m"
    using that by (auto simp: meetUIApps_def Let_def case_prod_unfold apps_loop_out intro!: agree_prims apps_loop_agree)
qed

definition met_size :: "int \<Rightarrow> int option \<Rightarrow> int \<Rightarrow> int" where
  "met_size def ov base = (case ov of None \<Rightarrow> base | Some x \<Rightarrow> tightest (norm_size def base) (norm_size def x))"

lemma meet_size_out: "fst (meet_size f b ov def m) = met_size def ov b" "m_out (snd (meet_size f b ov def m)) = m_out m"
  by (auto simp: meet_size_def met_size_def Let_def split: option.splits)

lemma meet_size_err: "m_err (snd (meet_size f b ov def m)) = None \<Longrightarrow> m_err m = None"
  by (auto simp: meet_size_def Let_def split: option.splits dest: err_kept)

lemma meet_size_agree: "agree m m' \<Longrightarrow> agree (snd (meet_size f b ov def m)) (snd (meet_size f b ov def m'))"
  by (auto simp: meet_size_def Let_def agree_prims split: option.splits)

definition met_resources :: "Limits \<Rightarrow> ResourcesOverlay \<Rightarrow> ResourceLimits option \<Rightarrow> ResourceLimits option" where
  "met_resources eff ov base =
     (let r = resources_of base;
          r' = \<lparr>CPUMillis = met_size (sz_CPUMillis eff) (ro_CPUMillis ov) (CPUMillis r),
                MemoryMiB = met_size (sz_MemoryMiB eff) (ro_MemoryMiB ov) (MemoryMiB r),
                PidsLimit = met_size (sz_PidsLimit eff) (ro_PidsLimit ov) (PidsLimit r),
                DiskMiB = met_size 0 (ro_DiskMiB ov) (DiskMiB r)\<rparr>
      in if r' = empty_resources then None else Some r')"

interpretation resources: overlay_step "meetResources eff"
  "\<lambda>v. on_c (\<lambda>c. c\<lparr>Resources := met_resources eff v (Resources c)\<rparr>)" "\<lambda>_ _. True"
  for eff :: Limits
proof unfold_locales
  fix v m m'
  show "m_out (meetResources eff v m) = on_c (\<lambda>c. c\<lparr>Resources := met_resources eff v (Resources c)\<rparr>) (m_out m)"
    by (simp add: meetResources_def met_resources_def Let_def case_prod_unfold meet_size_out)
  show "m_err (meetResources eff v m) = None \<Longrightarrow> m_err m = None \<and> True"
    by (simp add: meetResources_def Let_def case_prod_unfold) (blast dest: meet_size_err)
  show "agree (meetResources eff v m) (meetResources eff v m')" if "agree m m'" "m_out m' = m_out m"
    using that by (simp add: meetResources_def Let_def case_prod_unfold meet_size_out agree_prims meet_size_agree)
qed

definition met_tools :: "ToolRule list \<Rightarrow> ToolRule list \<Rightarrow> ToolRule list" where
  "met_tools ov base =
     (if base = [] \<and> ov = [] then []
      else
        let b = toolEffects base; v = toolEffects ov in
        sort_key Tool (map (\<lambda>t. \<lparr>Tool = t, Effect = met_effect b v t\<rparr>) (remdups (''*'' # map fst b @ map fst v))))"

lemma fold_widen_out: "m_out (fold (\<lambda>t. widenIf f (P t)) ts m) = m_out m"
  by (induction ts arbitrary: m) simp_all

lemma fold_widen_err: "m_err (fold (\<lambda>t. widenIf f (P t)) ts m) = None \<Longrightarrow> m_err m = None"
  by (induction ts arbitrary: m) (auto dest: err_kept)

lemma fold_widen_agree: "agree m m' \<Longrightarrow> agree (fold (\<lambda>t. widenIf f (P t)) ts m) (fold (\<lambda>t. widenIf f (P t)) ts m')"
  by (induction ts arbitrary: m m') (simp_all add: agree_prims)

interpretation tools: overlay_step meetToolRules
  "\<lambda>v. on_c (\<lambda>c. c\<lparr>ToolRules := met_tools v (ToolRules c)\<rparr>)" "\<lambda>_ _. True"
proof unfold_locales
  fix v m m'
  show "m_out (meetToolRules v m) = on_c (\<lambda>c. c\<lparr>ToolRules := met_tools v (ToolRules c)\<rparr>) (m_out m)"
    by (simp add: meetToolRules_def met_tools_def Let_def fold_widen_out)
  show "m_err (meetToolRules v m) = None \<Longrightarrow> m_err m = None \<and> True"
    unfolding meetToolRules_def Let_def by (auto simp del: remdups.simps split: if_splits dest: fold_widen_err)
  show "agree (meetToolRules v m) (meetToolRules v m')" if "agree m m'" "m_out m' = m_out m"
    using that by (simp add: meetToolRules_def Let_def agree_prims fold_widen_agree)
qed

interpretation any_branch: overlay_step meetPushAnyBranch
  "\<lambda>v. on_c (\<lambda>c. c\<lparr>GitPushAnyBranch := GitPushAnyBranch c \<and> v\<rparr>)" "\<lambda>_ _. True"
  by unfold_locales (auto simp: meetPushAnyBranch_def dest: err_kept intro: agree_prims)

definition met_caps :: "string list \<Rightarrow> string list \<Rightarrow> string list" where
  "met_caps v base = (if base = [] then [] else filter (\<lambda>s. s \<in> set base) (capStrings v))"

lemma capStrings_Nil [simp]: "capStrings xs = [] \<longleftrightarrow> xs = []"
  by (metis capStrings_def set_empty set_sort_compact)

lemma set_capStrings [simp]: "set (capStrings xs) = set xs"
  by (simp add: capStrings_def)

interpretation azure: overlay_step meetAzureDevOps
  "\<lambda>v. on_c (\<lambda>c. c\<lparr>AzureDevOpsCapabilities := met_caps v (AzureDevOpsCapabilities c)\<rparr>)"
  "\<lambda>v a. AzureDevOpsCapabilities (au_Ceiling a) = [] \<or> met_caps v (AzureDevOpsCapabilities (au_Ceiling a)) \<noteq> []"
  by unfold_locales
    (auto simp: meetAzureDevOps_def meetCapabilities_def met_caps_def Let_def split: if_splits dest: err_kept intro: agree_prims)

interpretation github: overlay_step meetGitHub
  "\<lambda>v. on_c (\<lambda>c. c\<lparr>GitHubCapabilities := met_caps v (GitHubCapabilities c)\<rparr>)"
  "\<lambda>v a. GitHubCapabilities (au_Ceiling a) = [] \<or> met_caps v (GitHubCapabilities (au_Ceiling a)) \<noteq> []"
  by unfold_locales
    (auto simp: meetGitHub_def meetCapabilities_def met_caps_def Let_def split: if_splits dest: err_kept intro: agree_prims)

definition met_wall :: "string \<Rightarrow> string \<Rightarrow> string" where
  "met_wall over base = (if base = [] then over else base)"

definition met_walls :: "HarnessInnerWalls \<Rightarrow> HarnessInnerWalls option \<Rightarrow> HarnessInnerWalls option" where
  "met_walls v base =
     (let b = walls_of base; sm = met_wall (SandboxMode v) (SandboxMode b); ap = met_wall (Approvals v) (Approvals b) in
      if sm \<noteq> [] \<or> ap \<noteq> [] then Some \<lparr>SandboxMode = sm, Approvals = ap\<rparr> else base)"

lemma meetInnerWall_out: "fst (meetInnerWall f b v m) = met_wall v b" "m_out (snd (meetInnerWall f b v m)) = m_out m"
  by (auto simp: meetInnerWall_def met_wall_def)

lemma meetInnerWall_err: "m_err (snd (meetInnerWall f b v m)) = None \<Longrightarrow> m_err m = None"
  by (auto simp: meetInnerWall_def dest: err_kept split: if_splits)

lemma meetInnerWall_agree: "agree m m' \<Longrightarrow> agree (snd (meetInnerWall f b v m)) (snd (meetInnerWall f b v m'))"
  by (auto simp: meetInnerWall_def agree_prims)

interpretation walls: overlay_step meetInnerWalls
  "\<lambda>v. on_c (\<lambda>c. c\<lparr>InnerWalls := met_walls v (InnerWalls c)\<rparr>)" "\<lambda>_ _. True"
proof unfold_locales
  fix v m m'
  show "m_out (meetInnerWalls v m) = on_c (\<lambda>c. c\<lparr>InnerWalls := met_walls v (InnerWalls c)\<rparr>) (m_out m)"
    by (simp add: meetInnerWalls_def met_walls_def Let_def case_prod_unfold meetInnerWall_out)
  show "m_err (meetInnerWalls v m) = None \<Longrightarrow> m_err m = None \<and> True"
    by (simp add: meetInnerWalls_def Let_def case_prod_unfold split: if_splits) (blast dest: meetInnerWall_err)+
  show "agree (meetInnerWalls v m) (meetInnerWalls v m')" if "agree m m'" "m_out m' = m_out m"
    using that by (simp add: meetInnerWalls_def Let_def case_prod_unfold meetInnerWall_out agree_prims meetInnerWall_agree)
qed

interpretation desktop: overlay_step meetDesktop
  "\<lambda>v. on_c (\<lambda>c. c\<lparr>Desktop := Some (Desktop_Meet (Desktop c) (Some v))\<rparr>)" "\<lambda>_ _. True"
  by unfold_locales (auto simp: meetDesktop_def dest: err_kept intro: agree_prims)

interpretation recording: overlay_step meetRecording
  "\<lambda>v. on_c (\<lambda>c. c\<lparr>Recording := AtLeast (Recording c) v\<rparr>)" "\<lambda>_ _. True"
  by unfold_locales (auto simp: meetRecording_def dest: err_kept intro: agree_prims)

subsection \<open>Push rules and limits meet the contract\<close>

definition met_pack :: "PushRulesOverlay \<Rightarrow> bool \<Rightarrow> PushRulesSpec \<Rightarrow> PushRulesSpec" where
  "met_pack ov activeBase res =
     (let active = (PushRules_IsSet (Some res) \<or> (case po_MaxInspectPackMiB ov of None \<Rightarrow> False | Some v \<Rightarrow> v > 0));
          p = (case po_MaxInspectPackMiB ov of
                 None \<Rightarrow> MaxInspectPackMiB res
               | Some v \<Rightarrow> tightest
                   (if activeBase then (if MaxInspectPackMiB res > 0 then MaxInspectPackMiB res else defaultInspectPackMiB) else 0)
                   (if v \<le> 0 \<and> active then defaultInspectPackMiB else v))
      in res\<lparr>MaxInspectPackMiB := (if active \<and> p \<le> 0 then defaultInspectPackMiB else p)\<rparr>)"

definition met_push_res :: "PushRulesOverlay \<Rightarrow> PushRulesSpec \<Rightarrow> PushRulesSpec" where
  "met_push_res ov base =
     (let r = push_flags ov base;
          r1 = r\<lparr>MaxFileSizeMiB := (case po_MaxFileSizeMiB ov of None \<Rightarrow> MaxFileSizeMiB r | Some v \<Rightarrow> tightest (MaxFileSizeMiB r) v)\<rparr>;
          r2 = r1\<lparr>HoldSeconds := (case po_HoldSeconds ov of None \<Rightarrow> HoldSeconds r1
                     | Some v \<Rightarrow> min (normPushHold (HoldSeconds r1)) (normPushHold v))\<rparr>
      in met_pack ov (PushRules_IsSet (Some base)) r2)"

definition met_push :: "PushRulesOverlay \<Rightarrow> PushRulesSpec option \<Rightarrow> PushRulesSpec option" where
  "met_push ov base = push_result (met_push_res ov (push_of base))"

lemma push_steps_out:
  "fst (push_file_size ov r m) = r\<lparr>MaxFileSizeMiB := (case po_MaxFileSizeMiB ov of None \<Rightarrow> MaxFileSizeMiB r | Some v \<Rightarrow> tightest (MaxFileSizeMiB r) v)\<rparr>"
  "fst (push_hold_seconds ov r m) = r\<lparr>HoldSeconds := (case po_HoldSeconds ov of None \<Rightarrow> HoldSeconds r
     | Some v \<Rightarrow> min (normPushHold (HoldSeconds r)) (normPushHold v))\<rparr>"
  "fst (push_pack ov act r m) = met_pack ov act r"
  "m_out (snd (push_file_size ov r m)) = m_out m" "m_out (snd (push_hold_seconds ov r m)) = m_out m"
  "m_out (snd (push_pack ov act r m)) = m_out m"
  by (cases r; simp add: push_file_size_def push_hold_seconds_def push_pack_def met_pack_def meetPack_def Let_def split: option.split)+

lemma push_steps_err:
  "m_err (snd (push_file_size ov r m)) = None \<Longrightarrow> m_err m = None"
  "m_err (snd (push_hold_seconds ov r m)) = None \<Longrightarrow> m_err m = None"
  "m_err (snd (push_pack ov act r m)) = None \<Longrightarrow> m_err m = None"
  by (auto simp: push_file_size_def push_hold_seconds_def push_pack_def meetPack_def Let_def split: option.splits dest: err_kept)

lemma push_steps_agree:
  "agree m m' \<Longrightarrow> agree (snd (push_file_size ov r m)) (snd (push_file_size ov r m'))"
  "agree m m' \<Longrightarrow> agree (snd (push_hold_seconds ov r m)) (snd (push_hold_seconds ov r m'))"
  "agree m m' \<Longrightarrow> agree (snd (push_pack ov act r m)) (snd (push_pack ov act r m'))"
  by (auto simp: push_file_size_def push_hold_seconds_def push_pack_def meetPack_def Let_def agree_prims split: option.splits)

interpretation push: overlay_step meetPush
  "\<lambda>v. on_c (\<lambda>c. c\<lparr>PushRules := met_push v (PushRules c)\<rparr>)" "\<lambda>_ _. True"
proof unfold_locales
  fix v m m'
  show "m_out (meetPush v m) = on_c (\<lambda>c. c\<lparr>PushRules := met_push v (PushRules c)\<rparr>) (m_out m)"
    by (cases "po_HoldSeconds v") (simp_all add: meetPush_def met_push_def met_push_res_def Let_def case_prod_unfold push_steps_out)
  show "m_err (meetPush v m) = None \<Longrightarrow> m_err m = None \<and> True"
    by (simp add: meetPush_def Let_def case_prod_unfold) (blast dest: push_steps_err)
  show "agree (meetPush v m) (meetPush v m')" if "agree m m'" "m_out m' = m_out m"
    using that by (cases "po_HoldSeconds v") (simp_all add: meetPush_def Let_def case_prod_unfold push_steps_out agree_prims push_steps_agree)
qed

interpretation local_components: overlay_step meetLocal
  "\<lambda>v. on_l (\<lambda>l. l\<lparr>LocalSelfDefinedComponents := LocalSelfDefinedComponents l \<and> v\<rparr>)" "\<lambda>_ _. True"
  by unfold_locales (auto simp: meetLocal_def dest: err_kept intro: agree_prims)

interpretation denials: overlay_step "\<lambda>v. on_limits (meetDenials v)" "\<lambda>v. on_l (meetDenials v)" "\<lambda>_ _. True"
  by unfold_locales (auto intro: agree_prims)

interpretation placements: overlay_step "\<lambda>v. on_limits (\<lambda>l. l\<lparr>DenyPlacements := unionPlacements (DenyPlacements l) v\<rparr>)"
  "\<lambda>v. on_l (\<lambda>l. l\<lparr>DenyPlacements := unionPlacements (DenyPlacements l) v\<rparr>)" "\<lambda>_ _. True"
  by unfold_locales (auto intro: agree_prims)

definition met_allow_list :: "string list \<Rightarrow> string list \<Rightarrow> string list" where
  "met_allow_list ov base = (if ov = [] then base else if base = [] then ov else filter (\<lambda>n. n \<in> set base) ov)"

definition allow_list_ok :: "string list \<Rightarrow> string list \<Rightarrow> bool" where
  "allow_list_ok ov base \<longleftrightarrow> ov = [] \<or> base = [] \<or> met_allow_list ov base \<noteq> []"

lemma meet_allow_list_out:
  "fst (meet_allow_list f base ov m) = met_allow_list ov base" "m_out (snd (meet_allow_list f base ov m)) = m_out m"
  by (auto simp: meet_allow_list_def met_allow_list_def Let_def)

lemma meet_allow_list_err: "m_err (snd (meet_allow_list f base ov m)) = None \<Longrightarrow> m_err m = None \<and> allow_list_ok ov base"
  by (auto simp: meet_allow_list_def met_allow_list_def allow_list_ok_def Let_def split: if_splits dest: err_kept)

lemma meet_allow_list_agree:
  "agree m m' \<Longrightarrow> agree (snd (meet_allow_list f base ov m)) (snd (meet_allow_list f base ov m'))"
  by (auto simp: meet_allow_list_def Let_def agree_prims)

lemmas allow_list_rules = case_prod_unfold meet_allow_list_out

interpretation macos_bases: overlay_step meetMacOSBases
  "\<lambda>v. on_l (\<lambda>l. l\<lparr>AllowedMacOSBases := met_allow_list v (AllowedMacOSBases l)\<rparr>)"
  "\<lambda>v a. allow_list_ok v (AllowedMacOSBases (au_Limits a))"
  by unfold_locales
    (auto simp: meetMacOSBases_def allow_list_rules dest: meet_allow_list_err intro!: agree_prims meet_allow_list_agree)

interpretation models: overlay_step meetAllowedModels
  "\<lambda>v. on_l (\<lambda>l. l\<lparr>AllowedModels := met_allow_list v (AllowedModels l)\<rparr>)"
  "\<lambda>v a. allow_list_ok v (AllowedModels (au_Limits a))"
  by unfold_locales
    (auto simp: meetAllowedModels_def allow_list_rules dest: meet_allow_list_err intro!: agree_prims meet_allow_list_agree)

interpretation bound: overlay_step "meet_bound f get upd" "\<lambda>v. on_l (\<lambda>l. upd (\<lambda>_. tightest (get l) v) l)" "\<lambda>_ _. True"
  for f :: string and get :: "GovernanceLimits \<Rightarrow> int" and upd :: "(int \<Rightarrow> int) \<Rightarrow> GovernanceLimits \<Rightarrow> GovernanceLimits"
  by unfold_locales (auto simp: meet_bound_def Let_def dest: err_kept intro: agree_prims)

definition met_level :: "AutonomyLevel \<Rightarrow> AutonomyLevel \<Rightarrow> AutonomyLevel" where
  "met_level ov base = (if ov \<noteq> [] \<and> (base = [] \<or> Autonomy_Rank ov < Autonomy_Rank base) then ov else base)"

lemma meet_level_out: "fst (meet_level f b v m) = met_level v b" "m_out (snd (meet_level f b v m)) = m_out m"
  by (auto simp: meet_level_def met_level_def)

lemma meet_level_err: "m_err (snd (meet_level f b v m)) = None \<Longrightarrow> m_err m = None"
  by (auto simp: meet_level_def split: if_splits dest: err_kept)

lemma meet_level_agree: "agree m m' \<Longrightarrow> agree (snd (meet_level f b v m)) (snd (meet_level f b v m'))"
  by (auto simp: meet_level_def agree_prims)

definition met_rubric :: "AutonomyRubric \<Rightarrow> AutonomyRubric option \<Rightarrow> AutonomyRubric option" where
  "met_rubric v base =
     (let b = rubric_of base;
          r = \<lparr>EgressOpen = met_level (EgressOpen v) (EgressOpen b), EgressReviewed = met_level (EgressReviewed v) (EgressReviewed b),
               EgressSealed = met_level (EgressSealed v) (EgressSealed b),
               SecretsPowerful = met_level (SecretsPowerful v) (SecretsPowerful b),
               SecretsBaseline = met_level (SecretsBaseline v) (SecretsBaseline b),
               SecretsNone = met_level (SecretsNone v) (SecretsNone b),
               ConfinementCC1 = met_level (ConfinementCC1 v) (ConfinementCC1 b),
               ConfinementCC2 = met_level (ConfinementCC2 v) (ConfinementCC2 b),
               ConfinementCC3 = met_level (ConfinementCC3 v) (ConfinementCC3 b),
               AgentGuardrailLocks = AgentGuardrailLocks b \<or> AgentGuardrailLocks v\<rparr>
      in if r = empty_rubric then None else Some r)"

interpretation rubric: overlay_step meetRubric
  "\<lambda>v. on_l (\<lambda>l. l\<lparr>LimRubric := met_rubric v (LimRubric l)\<rparr>)" "\<lambda>_ _. True"
proof unfold_locales
  fix v m m'
  show "m_out (meetRubric v m) = on_l (\<lambda>l. l\<lparr>LimRubric := met_rubric v (LimRubric l)\<rparr>) (m_out m)"
    by (simp add: meetRubric_def met_rubric_def Let_def case_prod_unfold meet_level_out)
  show "m_err (meetRubric v m) = None \<Longrightarrow> m_err m = None \<and> True"
    by (simp add: meetRubric_def Let_def case_prod_unfold) (meson meet_level_err)
  show "agree (meetRubric v m) (meetRubric v m')" if "agree m m'" "m_out m' = m_out m"
    using that by (simp add: meetRubric_def Let_def case_prod_unfold meet_level_out agree_prims meet_level_agree)
qed

definition met_default :: "int option \<Rightarrow> int \<Rightarrow> int \<Rightarrow> int \<Rightarrow> int" where
  "met_default ov baseDef baseMax resMax =
     (case ov of None \<Rightarrow> clampDefault baseDef resMax
      | Some x \<Rightarrow> clampDefault (tightest (or_int baseDef baseMax) (or_int x resMax)) resMax)"

lemma meetDefault_out: "fst (meetDefault f d x ov r m) = met_default ov d x r" "m_out (snd (meetDefault f d x ov r m)) = m_out m"
  by (auto simp: meetDefault_def met_default_def Let_def split: option.splits)

lemma meetDefault_err: "m_err (snd (meetDefault f d x ov r m)) = None \<Longrightarrow> m_err m = None"
  by (auto simp: meetDefault_def Let_def split: option.splits dest: err_kept)

lemma meetDefault_agree: "agree m m' \<Longrightarrow> agree (snd (meetDefault f d x ov r m)) (snd (meetDefault f d x ov r m'))"
  by (auto simp: meetDefault_def Let_def agree_prims split: option.splits)

definition met_run :: "LimitsOverlay \<Rightarrow> RunLimits \<Rightarrow> RunLimits" where
  "met_run ov base =
     (if \<not> runLimitsNamed ov then base
      else
        let got = TightenRunLimits base (overlayRunLimits ov) in
        got\<lparr>DefaultEndSec := met_default (lo_DefaultEndSec ov) (DefaultEndSec base) (MaxEndAheadSec base) (MaxEndAheadSec got),
            DefaultWaitSec := met_default (lo_DefaultWaitSec ov) (DefaultWaitSec base) (MaxWaitSec base) (MaxWaitSec got)\<rparr>)"

interpretation run_limits: overlay_step meetRunLimits "\<lambda>v. on_l (\<lambda>l. l\<lparr>LimRun := met_run v (LimRun l)\<rparr>)" "\<lambda>_ _. True"
proof unfold_locales
  fix v m m'
  show "m_out (meetRunLimits v m) = on_l (\<lambda>l. l\<lparr>LimRun := met_run v (LimRun l)\<rparr>) (m_out m)"
    by (simp add: meetRunLimits_def met_run_def Let_def case_prod_unfold meetDefault_out)
  show "m_err (meetRunLimits v m) = None \<Longrightarrow> m_err m = None \<and> True"
    by (simp add: meetRunLimits_def Let_def case_prod_unfold split: if_splits) (meson meetDefault_err err_kept(2))
  show "agree (meetRunLimits v m) (meetRunLimits v m')" if "agree m m'" "m_out m' = m_out m"
    using that by (simp add: meetRunLimits_def Let_def case_prod_unfold meetDefault_out agree_prims meetDefault_agree)
qed

subsection \<open>The whole composition\<close>

lemma fold_fail_out: "m_out (fold (\<lambda>x. failIf r (f x) (P x)) xs m) = m_out m"
  by (induction xs arbitrary: m) simp_all

lemma fold_fail_err: "m_err (fold (\<lambda>x. failIf r (f x) (P x)) xs m) = None \<Longrightarrow> m_err m = None \<and> (\<forall>x\<in>set xs. \<not> P x)"
proof (induction xs arbitrary: m)
  case (Cons x xs)
  have "m_err (fold (\<lambda>x. failIf r (f x) (P x)) xs (failIf r (f x) (P x) m)) = None" using Cons.prems by simp
  from Cons.IH [OF this] show ?case using err_kept(3) [of r "f x" "P x" m] by simp
qed simp

lemma fold_fail_agree: "agree m m' \<Longrightarrow> agree (fold (\<lambda>x. failIf r (f x) (P x)) xs m) (fold (\<lambda>x. failIf r (f x) (P x)) xs m')"
  by (induction xs arbitrary: m m') (simp_all add: agree_prims)

lemma validate_tools_out: "m_out (validate_tools seen rs m) = m_out m"
  by (induction rs arbitrary: seen m) simp_all

lemma validate_tools_err: "m_err (validate_tools seen rs m) = None \<Longrightarrow> m_err m = None"
proof (induction rs arbitrary: seen m)
  case (Cons r rs)
  then have "m_err (widenIf ''tool_rules'' (Tool r \<in> set seen)
      (failIf ReasonOverlayInvalid ''tool_rules'' (\<not> ValidToolEffect (Effect r)) m)) = None"
    unfolding validate_tools.simps by blast
  then show ?case using err_kept(2,3) by blast
qed simp

lemma validate_tools_agree: "agree m m' \<Longrightarrow> agree (validate_tools seen rs m) (validate_tools seen rs m')"
  by (induction rs arbitrary: seen m m') (simp_all add: agree_prims)

interpretation v_tools: overlay_step "validate_tools []" "\<lambda>_ a. a" "\<lambda>_ _. True"
  by unfold_locales (auto simp: validate_tools_out dest: validate_tools_err intro: validate_tools_agree)

interpretation v_counts: overlay_step validateNonNegative "\<lambda>_ a. a"
  "\<lambda>ov _. \<forall>f\<in>set (counted_fields ov). \<not> holds_for (\<lambda>x. x < 0) (snd f)"
  unfolding validateNonNegative_def holds_for_def
  by unfold_locales (auto simp: case_prod_unfold fold_fail_out dest: fold_fail_err intro: fold_fail_agree)

interpretation v_placements: overlay_step "fold (\<lambda>p. failIf ReasonOverlayInvalid ''deny_placements'' (\<not> Placement_Valid p))"
  "\<lambda>_ a. a" "\<lambda>v _. \<forall>p\<in>set v. Placement_Valid p"
  by unfold_locales (auto simp: fold_fail_out dest: fold_fail_err intro: fold_fail_agree)

interpretation v_bases: overlay_step "fold (\<lambda>n. failIf ReasonOverlayInvalid ''allowed_macos_bases'' (\<not> ValidMacOSBaseName n))"
  "\<lambda>_ a. a" "\<lambda>v _. \<forall>n\<in>set v. ValidMacOSBaseName n"
  by unfold_locales (auto simp: fold_fail_out dest: fold_fail_err intro: fold_fail_agree)

lemma validatePresence_out [simp]: "m_out (validatePresence ov m) = m_out m"
  by (simp add: validatePresence_def Let_def v_tools.named_out v_counts.out v_placements.named_out v_bases.named_out
      split: option.split)

lemma validatePresence_agree: "agree m m' \<Longrightarrow> agree (validatePresence ov m) (validatePresence ov m')"
proof -
  have counts: "agree x y \<Longrightarrow> agree (validateNonNegative ov x) (validateNonNegative ov y)" for x y
    using v_counts.agrees agree_out by metis
  show "agree m m' \<Longrightarrow> agree (validatePresence ov m) (validatePresence ov m')"
    unfolding validatePresence_def Let_def
    by (intro agree_prims v_tools.named_agree counts v_placements.named_agree v_bases.named_agree)
qed

text \<open>The agreement of the two readings goes through every group of rules.\<close>

lemmas ceiling_agrees =
  domains.named_agree denied.named_agree allow_all.named_agree first_use.named_agree first_use_hold.named_agree
  max_holds.named_agree methods.named_agree confinement.named_agree grants.named_agree auto_stop.named_agree
  mounts.named_agree repos.named_agree llm.named_agree ui_apps.named_agree resources.named_agree tools.named_agree
  any_branch.named_agree azure.named_agree walls.named_agree desktop.named_agree recording.named_agree
  github.named_agree push.named_agree

lemmas limit_agrees =
  local_components.named_agree placements.named_agree macos_bases.named_agree models.named_agree bound.named_agree
  rubric.named_agree

lemma meetEgress_agree: "agree m m' \<Longrightarrow> agree (meetEgress ov m) (meetEgress ov m')"
  unfolding meetEgress_def Let_def by (intro ceiling_agrees)

lemma meetPosture_agree: "agree m m' \<Longrightarrow> agree (meetPosture eff ov m) (meetPosture eff ov m')"
  unfolding meetPosture_def Let_def by (intro ceiling_agrees)

lemma meetLimits_agree: "agree m m' \<Longrightarrow> agree (meetLimits ov m) (meetLimits ov m')"
proof -
  have run: "agree x y \<Longrightarrow> agree (meetRunLimits ov x) (meetRunLimits ov y)" for x y
    using run_limits.agrees agree_out by metis
  show "agree m m' \<Longrightarrow> agree (meetLimits ov m) (meetLimits ov m')"
    unfolding meetLimits_def Let_def by (intro run limit_agrees agree_prims)
qed

lemma checkResult_agree: "agree m m' \<Longrightarrow> agree (checkResult m) (checkResult m')"
  using agree_out [of m m'] unfolding checkResult_def Let_def by (simp add: agree_prims)

text \<open>The result as one value: every field is the base's, met with what the overlay names.\<close>

definition opt_meet :: "('v \<Rightarrow> 'a \<Rightarrow> 'a) \<Rightarrow> 'v option \<Rightarrow> 'a \<Rightarrow> 'a" where
  "opt_meet f ov x = (case ov of None \<Rightarrow> x | Some v \<Rightarrow> f v x)"

definition kept_apps :: "UIApp list \<Rightarrow> UIApp list \<Rightarrow> UIApp list" where
  "kept_apps v base = (if v = [] \<and> base \<noteq> [] then base else sorted_apps (met_apps base v []))"

definition closes_apps :: "UIApp list option \<Rightarrow> UIApp list \<Rightarrow> bool" where
  "closes_apps ov base \<longleftrightarrow> ov = Some [] \<and> base \<noteq> []"

definition sorted_mounts :: "WorkspaceMount list \<Rightarrow> WorkspaceMount list \<Rightarrow> WorkspaceMount list" where
  "sorted_mounts v base = sort_key (\<lambda>x. MSource x @ [CHR 0x00] @ MTarget x) (met_mounts base v [])"

definition sorted_repos :: "WorkspaceRepo list \<Rightarrow> WorkspaceRepo list \<Rightarrow> WorkspaceRepo list" where
  "sorted_repos v base = sort_key (\<lambda>x. Repo x @ [CHR 0x00] @ RTarget x @ [CHR 0x00] @ Ref x) (met_repos base v [])"

definition met_llm :: "LLMInspectionSpec \<Rightarrow> LLMInspectionSpec option \<Rightarrow> LLMInspectionSpec option" where
  "met_llm v base = (case base of None \<Rightarrow> Some v | Some x \<Rightarrow> Some x)"

lemmas field_defs = sorted_mounts_def sorted_repos_def met_llm_def

lemma AllowedDomains_field:
  "m_out (named ov meetAllowedDomains m) = au_Ceiling_update (AllowedDomains_update (opt_meet (\<lambda>v b. meet_domains b v) ov)) (m_out m)"
  by (cases "m_out m") (simp add: domains.named_out opt_meet_def field_defs split: option.split)

lemma DeniedDomains_field:
  "m_out (named ov meetDeniedDomains m) = au_Ceiling_update (DeniedDomains_update (opt_meet (\<lambda>v b. unionDenied b v) ov)) (m_out m)"
  by (cases "m_out m") (simp add: denied.named_out opt_meet_def field_defs split: option.split)

lemma AllowAllEgress_field:
  "m_out (named ov meetAllowAll m) = au_Ceiling_update (AllowAllEgress_update (opt_meet (\<lambda>v b. b \<and> v) ov)) (m_out m)"
  by (cases "m_out m") (simp add: allow_all.named_out opt_meet_def field_defs split: option.split)

lemma FirstUseApproval_field:
  "m_out (named ov meetFirstUse m) = au_Ceiling_update (FirstUseApproval_update (opt_meet met_first_use ov)) (m_out m)"
  by (cases "m_out m") (simp add: first_use.named_out opt_meet_def field_defs split: option.split)

lemma FirstUseHoldSeconds_field:
  "m_out (named ov meetFirstUseHold m) = au_Ceiling_update (FirstUseHoldSeconds_update (opt_meet (\<lambda>v b. min (normFirstUseHold b) (normFirstUseHold v)) ov)) (m_out m)"
  by (cases "m_out m") (simp add: first_use_hold.named_out opt_meet_def field_defs split: option.split)

lemma MaxHolds_field:
  "m_out (named ov meetMaxHolds m) = au_Ceiling_update (MaxHolds_update (opt_meet (\<lambda>v b. min (normMaxHolds b) (normMaxHolds v)) ov)) (m_out m)"
  by (cases "m_out m") (simp add: max_holds.named_out opt_meet_def field_defs split: option.split)

lemma AllowedMethods_field:
  "m_out (named ov (\<lambda>v. meetMethods (normMethods v)) m) = au_Ceiling_update (AllowedMethods_update (opt_meet (\<lambda>v. met_methods (normMethods v)) ov)) (m_out m)"
  by (cases "m_out m") (simp add: methods.named_out opt_meet_def field_defs split: option.split)

lemma MinConfinementClass_field:
  "m_out (named ov meetConfinement m) = au_Ceiling_update (MinConfinementClass_update (opt_meet met_class ov)) (m_out m)"
  by (cases "m_out m") (simp add: confinement.named_out opt_meet_def field_defs split: option.split)

lemma EligibleGrants_field:
  "m_out (named ov (\<lambda>v. on_ceiling (\<lambda>c. c\<lparr>EligibleGrants := v\<rparr>)) m) = au_Ceiling_update (EligibleGrants_update (opt_meet (\<lambda>v b. v) ov)) (m_out m)"
  by (cases "m_out m") (simp add: grants.named_out opt_meet_def field_defs split: option.split)

lemma AutoStopAfterSec_field:
  "m_out (named ov meetAutoStop m) = au_Ceiling_update (AutoStopAfterSec_update (opt_meet (\<lambda>v b. autoStopMeet b v) ov)) (m_out m)"
  by (cases "m_out m") (simp add: auto_stop.named_out opt_meet_def field_defs split: option.split)

lemma WorkspaceMounts_field:
  "m_out (named ov meetMounts m) = au_Ceiling_update (WorkspaceMounts_update (opt_meet sorted_mounts ov)) (m_out m)"
  by (cases "m_out m") (simp add: mounts.named_out opt_meet_def field_defs split: option.split)

lemma WorkspaceRepos_field:
  "m_out (named ov meetRepos m) = au_Ceiling_update (WorkspaceRepos_update (opt_meet sorted_repos ov)) (m_out m)"
  by (cases "m_out m") (simp add: repos.named_out opt_meet_def field_defs split: option.split)

lemma LLMInspection_field:
  "m_out (named ov meetLLM m) = au_Ceiling_update (LLMInspection_update (opt_meet met_llm ov)) (m_out m)"
  by (cases "m_out m") (simp add: llm.named_out opt_meet_def field_defs split: option.split)

lemma Resources_field:
  "m_out (named ov (meetResources eff) m) = au_Ceiling_update (Resources_update (opt_meet (met_resources eff) ov)) (m_out m)"
  by (cases "m_out m") (simp add: resources.named_out opt_meet_def field_defs split: option.split)

lemma ToolRules_field:
  "m_out (named ov meetToolRules m) = au_Ceiling_update (ToolRules_update (opt_meet met_tools ov)) (m_out m)"
  by (cases "m_out m") (simp add: tools.named_out opt_meet_def field_defs split: option.split)

lemma GitPushAnyBranch_field:
  "m_out (named ov meetPushAnyBranch m) = au_Ceiling_update (GitPushAnyBranch_update (opt_meet (\<lambda>v b. b \<and> v) ov)) (m_out m)"
  by (cases "m_out m") (simp add: any_branch.named_out opt_meet_def field_defs split: option.split)

lemma AzureDevOpsCapabilities_field:
  "m_out (named ov meetAzureDevOps m) = au_Ceiling_update (AzureDevOpsCapabilities_update (opt_meet met_caps ov)) (m_out m)"
  by (cases "m_out m") (simp add: azure.named_out opt_meet_def field_defs split: option.split)

lemma InnerWalls_field:
  "m_out (named ov meetInnerWalls m) = au_Ceiling_update (InnerWalls_update (opt_meet met_walls ov)) (m_out m)"
  by (cases "m_out m") (simp add: walls.named_out opt_meet_def field_defs split: option.split)

lemma Desktop_field:
  "m_out (named ov meetDesktop m) = au_Ceiling_update (Desktop_update (opt_meet (\<lambda>v b. Some (Desktop_Meet b (Some v))) ov)) (m_out m)"
  by (cases "m_out m") (simp add: desktop.named_out opt_meet_def field_defs split: option.split)

lemma Recording_field:
  "m_out (named ov meetRecording m) = au_Ceiling_update (Recording_update (opt_meet (\<lambda>v b. AtLeast b v) ov)) (m_out m)"
  by (cases "m_out m") (simp add: recording.named_out opt_meet_def field_defs split: option.split)

lemma GitHubCapabilities_field:
  "m_out (named ov meetGitHub m) = au_Ceiling_update (GitHubCapabilities_update (opt_meet met_caps ov)) (m_out m)"
  by (cases "m_out m") (simp add: github.named_out opt_meet_def field_defs split: option.split)

lemma PushRules_field:
  "m_out (named ov meetPush m) = au_Ceiling_update (PushRules_update (opt_meet met_push ov)) (m_out m)"
  by (cases "m_out m") (simp add: push.named_out opt_meet_def field_defs split: option.split)

lemma LocalSelfDefinedComponents_field:
  "m_out (named ov meetLocal m) = au_Limits_update (LocalSelfDefinedComponents_update (opt_meet (\<lambda>v b. b \<and> v) ov)) (m_out m)"
  by (cases "m_out m") (simp add: local_components.named_out opt_meet_def field_defs split: option.split)

lemma DenyPlacements_field:
  "m_out (named ov (\<lambda>v. on_limits (\<lambda>l. l\<lparr>DenyPlacements := unionPlacements (DenyPlacements l) v\<rparr>)) m) = au_Limits_update (DenyPlacements_update (opt_meet (\<lambda>v b. unionPlacements b v) ov)) (m_out m)"
  by (cases "m_out m") (simp add: placements.named_out opt_meet_def field_defs split: option.split)

lemma AllowedMacOSBases_field:
  "m_out (named ov meetMacOSBases m) = au_Limits_update (AllowedMacOSBases_update (opt_meet met_allow_list ov)) (m_out m)"
  by (cases "m_out m") (simp add: macos_bases.named_out opt_meet_def field_defs split: option.split)

lemma AllowedModels_field:
  "m_out (named ov meetAllowedModels m) = au_Limits_update (AllowedModels_update (opt_meet met_allow_list ov)) (m_out m)"
  by (cases "m_out m") (simp add: models.named_out opt_meet_def field_defs split: option.split)

lemma LimRubric_field:
  "m_out (named ov meetRubric m) = au_Limits_update (LimRubric_update (opt_meet met_rubric ov)) (m_out m)"
  by (cases "m_out m") (simp add: rubric.named_out opt_meet_def field_defs split: option.split)

lemma MaxConcurrentRuns_field:
  "m_out (named ov (meet_bound ''max_concurrent_runs'' MaxConcurrentRuns MaxConcurrentRuns_update) m) = au_Limits_update (MaxConcurrentRuns_update (opt_meet (\<lambda>v b. tightest b v) ov)) (m_out m)"
  by (cases "m_out m") (simp add: bound.named_out opt_meet_def field_defs split: option.split)

lemma MaxCPUMillis_field:
  "m_out (named ov (meet_bound ''max_cpu_millis'' MaxCPUMillis MaxCPUMillis_update) m) = au_Limits_update (MaxCPUMillis_update (opt_meet (\<lambda>v b. tightest b v) ov)) (m_out m)"
  by (cases "m_out m") (simp add: bound.named_out opt_meet_def field_defs split: option.split)

lemma MaxMemoryMiB_field:
  "m_out (named ov (meet_bound ''max_memory_mib'' MaxMemoryMiB MaxMemoryMiB_update) m) = au_Limits_update (MaxMemoryMiB_update (opt_meet (\<lambda>v b. tightest b v) ov)) (m_out m)"
  by (cases "m_out m") (simp add: bound.named_out opt_meet_def field_defs split: option.split)

lemma MaxEphemeralDiskMiB_field:
  "m_out (named ov (meet_bound ''max_ephemeral_disk_mib'' MaxEphemeralDiskMiB MaxEphemeralDiskMiB_update) m) = au_Limits_update (MaxEphemeralDiskMiB_update (opt_meet (\<lambda>v b. tightest b v) ov)) (m_out m)"
  by (cases "m_out m") (simp add: bound.named_out opt_meet_def field_defs split: option.split)

lemma MaxDriveSizeMiB_field:
  "m_out (named ov (meet_bound ''max_drive_size_mib'' MaxDriveSizeMiB MaxDriveSizeMiB_update) m) = au_Limits_update (MaxDriveSizeMiB_update (opt_meet (\<lambda>v b. tightest b v) ov)) (m_out m)"
  by (cases "m_out m") (simp add: bound.named_out opt_meet_def field_defs split: option.split)

lemma UIApps_field:
  "m_out (named ov meetUIApps m) =
     au_Ceiling_update (UIApps_update (opt_meet kept_apps ov))
       (au_Limits_update (DenyUIApps_update (\<lambda>d. d \<or> closes_apps ov (UIApps (ceiling_of m)))) (m_out m))"
  by (cases "m_out m") (auto simp: ui_apps.named_out opt_meet_def apps_upd_def kept_apps_def closes_apps_def split: option.split)

lemma denials_field: "m_out (on_limits (meetDenials ov) m) = au_Limits_update (meetDenials ov) (m_out m)"
  by (cases "m_out m") simp

lemma run_limits_field: "m_out (meetRunLimits ov m) = au_Limits_update (LimRun_update (met_run ov)) (m_out m)"
  by (cases "m_out m") (simp add: run_limits.out)

lemmas ceiling_fields =
  AllowedDomains_field DeniedDomains_field AllowAllEgress_field FirstUseApproval_field
  FirstUseHoldSeconds_field MaxHolds_field AllowedMethods_field MinConfinementClass_field EligibleGrants_field
  AutoStopAfterSec_field WorkspaceMounts_field WorkspaceRepos_field LLMInspection_field Resources_field
  ToolRules_field GitPushAnyBranch_field AzureDevOpsCapabilities_field InnerWalls_field Desktop_field
  Recording_field GitHubCapabilities_field PushRules_field UIApps_field

lemmas limit_fields =
  LocalSelfDefinedComponents_field DenyPlacements_field AllowedMacOSBases_field AllowedModels_field
  LimRubric_field MaxConcurrentRuns_field MaxCPUMillis_field MaxMemoryMiB_field MaxEphemeralDiskMiB_field
  MaxDriveSizeMiB_field denials_field run_limits_field

lemma meetEgress_fields:
  "AllowedDomains (ceiling_of (meetEgress ov m)) = opt_meet (\<lambda>v b. meet_domains b v) (co_AllowedDomains ov) (AllowedDomains (ceiling_of m))"
  "DeniedDomains (ceiling_of (meetEgress ov m)) = opt_meet (\<lambda>v b. unionDenied b v) (co_DeniedDomains ov) (DeniedDomains (ceiling_of m))"
  "AllowAllEgress (ceiling_of (meetEgress ov m)) = opt_meet (\<lambda>v b. b \<and> v) (co_AllowAllEgress ov) (AllowAllEgress (ceiling_of m))"
  "FirstUseApproval (ceiling_of (meetEgress ov m)) = opt_meet met_first_use (co_FirstUseApproval ov) (FirstUseApproval (ceiling_of m))"
  "FirstUseHoldSeconds (ceiling_of (meetEgress ov m)) = opt_meet (\<lambda>v b. min (normFirstUseHold b) (normFirstUseHold v)) (co_FirstUseHoldSeconds ov) (FirstUseHoldSeconds (ceiling_of m))"
  "MaxHolds (ceiling_of (meetEgress ov m)) = opt_meet (\<lambda>v b. min (normMaxHolds b) (normMaxHolds v)) (co_MaxHolds ov) (MaxHolds (ceiling_of m))"
  "AllowedMethods (ceiling_of (meetEgress ov m)) = opt_meet (\<lambda>v. met_methods (normMethods v)) (co_AllowedMethods ov) (AllowedMethods (ceiling_of m))"
  "limits_of (meetEgress ov m) = limits_of m"
  "MinConfinementClass (ceiling_of (meetEgress ov m)) = MinConfinementClass (ceiling_of m)"
  "EligibleGrants (ceiling_of (meetEgress ov m)) = EligibleGrants (ceiling_of m)"
  "AutoStopAfterSec (ceiling_of (meetEgress ov m)) = AutoStopAfterSec (ceiling_of m)"
  "WorkspaceMounts (ceiling_of (meetEgress ov m)) = WorkspaceMounts (ceiling_of m)"
  "WorkspaceRepos (ceiling_of (meetEgress ov m)) = WorkspaceRepos (ceiling_of m)"
  "LLMInspection (ceiling_of (meetEgress ov m)) = LLMInspection (ceiling_of m)"
  "Resources (ceiling_of (meetEgress ov m)) = Resources (ceiling_of m)"
  "ToolRules (ceiling_of (meetEgress ov m)) = ToolRules (ceiling_of m)"
  "GitPushAnyBranch (ceiling_of (meetEgress ov m)) = GitPushAnyBranch (ceiling_of m)"
  "AzureDevOpsCapabilities (ceiling_of (meetEgress ov m)) = AzureDevOpsCapabilities (ceiling_of m)"
  "InnerWalls (ceiling_of (meetEgress ov m)) = InnerWalls (ceiling_of m)"
  "Desktop (ceiling_of (meetEgress ov m)) = Desktop (ceiling_of m)"
  "Recording (ceiling_of (meetEgress ov m)) = Recording (ceiling_of m)"
  "GitHubCapabilities (ceiling_of (meetEgress ov m)) = GitHubCapabilities (ceiling_of m)"
  "PushRules (ceiling_of (meetEgress ov m)) = PushRules (ceiling_of m)"
  "UIApps (ceiling_of (meetEgress ov m)) = UIApps (ceiling_of m)"
  by (simp_all add: meetEgress_def Let_def ceiling_fields)

lemma meetPosture_fields:
  "MinConfinementClass (ceiling_of (meetPosture eff ov m)) = opt_meet met_class (co_MinConfinementClass ov) (MinConfinementClass (ceiling_of m))"
  "EligibleGrants (ceiling_of (meetPosture eff ov m)) = opt_meet (\<lambda>v b. v) (co_EligibleGrants ov) (EligibleGrants (ceiling_of m))"
  "AutoStopAfterSec (ceiling_of (meetPosture eff ov m)) = opt_meet (\<lambda>v b. autoStopMeet b v) (co_AutoStopAfterSec ov) (AutoStopAfterSec (ceiling_of m))"
  "WorkspaceMounts (ceiling_of (meetPosture eff ov m)) = opt_meet sorted_mounts (co_WorkspaceMounts ov) (WorkspaceMounts (ceiling_of m))"
  "WorkspaceRepos (ceiling_of (meetPosture eff ov m)) = opt_meet sorted_repos (co_WorkspaceRepos ov) (WorkspaceRepos (ceiling_of m))"
  "LLMInspection (ceiling_of (meetPosture eff ov m)) = opt_meet met_llm (co_LLMInspection ov) (LLMInspection (ceiling_of m))"
  "Resources (ceiling_of (meetPosture eff ov m)) = opt_meet (met_resources eff) (co_Resources ov) (Resources (ceiling_of m))"
  "ToolRules (ceiling_of (meetPosture eff ov m)) = opt_meet met_tools (co_ToolRules ov) (ToolRules (ceiling_of m))"
  "GitPushAnyBranch (ceiling_of (meetPosture eff ov m)) = opt_meet (\<lambda>v b. b \<and> v) (co_GitPushAnyBranch ov) (GitPushAnyBranch (ceiling_of m))"
  "AzureDevOpsCapabilities (ceiling_of (meetPosture eff ov m)) = opt_meet met_caps (co_AzureDevOpsCapabilities ov) (AzureDevOpsCapabilities (ceiling_of m))"
  "InnerWalls (ceiling_of (meetPosture eff ov m)) = opt_meet met_walls (co_InnerWalls ov) (InnerWalls (ceiling_of m))"
  "Desktop (ceiling_of (meetPosture eff ov m)) = opt_meet (\<lambda>v b. Some (Desktop_Meet b (Some v))) (co_Desktop ov) (Desktop (ceiling_of m))"
  "Recording (ceiling_of (meetPosture eff ov m)) = opt_meet (\<lambda>v b. AtLeast b v) (co_Recording ov) (Recording (ceiling_of m))"
  "GitHubCapabilities (ceiling_of (meetPosture eff ov m)) = opt_meet met_caps (co_GitHubCapabilities ov) (GitHubCapabilities (ceiling_of m))"
  "UIApps (ceiling_of (meetPosture eff ov m)) = opt_meet kept_apps (co_UIApps ov) (UIApps (ceiling_of m))"
  "AllowedDomains (ceiling_of (meetPosture eff ov m)) = AllowedDomains (ceiling_of m)"
  "DeniedDomains (ceiling_of (meetPosture eff ov m)) = DeniedDomains (ceiling_of m)"
  "AllowAllEgress (ceiling_of (meetPosture eff ov m)) = AllowAllEgress (ceiling_of m)"
  "FirstUseApproval (ceiling_of (meetPosture eff ov m)) = FirstUseApproval (ceiling_of m)"
  "FirstUseHoldSeconds (ceiling_of (meetPosture eff ov m)) = FirstUseHoldSeconds (ceiling_of m)"
  "MaxHolds (ceiling_of (meetPosture eff ov m)) = MaxHolds (ceiling_of m)"
  "AllowedMethods (ceiling_of (meetPosture eff ov m)) = AllowedMethods (ceiling_of m)"
  "PushRules (ceiling_of (meetPosture eff ov m)) = PushRules (ceiling_of m)"
  "limits_of (meetPosture eff ov m) =
     DenyUIApps_update (\<lambda>d. d \<or> closes_apps (co_UIApps ov) (UIApps (ceiling_of m))) (limits_of m)"
  by (simp_all add: meetPosture_def Let_def ceiling_fields)

lemma meetLimits_fields:
  "LocalSelfDefinedComponents (limits_of (meetLimits ov m)) = opt_meet (\<lambda>v b. b \<and> v) (lo_LocalSelfDefinedComponents ov) (LocalSelfDefinedComponents (limits_of m))"
  "DenyPlacements (limits_of (meetLimits ov m)) = opt_meet (\<lambda>v b. unionPlacements b v) (lo_DenyPlacements ov) (DenyPlacements (limits_of m))"
  "AllowedMacOSBases (limits_of (meetLimits ov m)) = opt_meet met_allow_list (lo_AllowedMacOSBases ov) (AllowedMacOSBases (limits_of m))"
  "AllowedModels (limits_of (meetLimits ov m)) = opt_meet met_allow_list (lo_AllowedModels ov) (AllowedModels (limits_of m))"
  "LimRubric (limits_of (meetLimits ov m)) = opt_meet met_rubric (lo_AutonomyRubric ov) (LimRubric (limits_of m))"
  "MaxConcurrentRuns (limits_of (meetLimits ov m)) = opt_meet (\<lambda>v b. tightest b v) (lo_MaxConcurrentRuns ov) (MaxConcurrentRuns (limits_of m))"
  "MaxCPUMillis (limits_of (meetLimits ov m)) = opt_meet (\<lambda>v b. tightest b v) (lo_MaxCPUMillis ov) (MaxCPUMillis (limits_of m))"
  "MaxMemoryMiB (limits_of (meetLimits ov m)) = opt_meet (\<lambda>v b. tightest b v) (lo_MaxMemoryMiB ov) (MaxMemoryMiB (limits_of m))"
  "MaxEphemeralDiskMiB (limits_of (meetLimits ov m)) = opt_meet (\<lambda>v b. tightest b v) (lo_MaxEphemeralDiskMiB ov) (MaxEphemeralDiskMiB (limits_of m))"
  "MaxDriveSizeMiB (limits_of (meetLimits ov m)) = opt_meet (\<lambda>v b. tightest b v) (lo_MaxDriveSizeMiB ov) (MaxDriveSizeMiB (limits_of m))"
  "DenyTaskModeExec (limits_of (meetLimits ov m)) = or_named (DenyTaskModeExec (limits_of m)) (lo_DenyTaskModeExec ov)"
  "DenyInteractive (limits_of (meetLimits ov m)) = or_named (DenyInteractive (limits_of m)) (lo_DenyInteractive ov)"
  "DenyUIApps (limits_of (meetLimits ov m)) = or_named (DenyUIApps (limits_of m)) (lo_DenyUIApps ov)"
  "DenyUserDrive (limits_of (meetLimits ov m)) = or_named (DenyUserDrive (limits_of m)) (lo_DenyUserDrive ov)"
  "DenyMemberDrives (limits_of (meetLimits ov m)) = or_named (DenyMemberDrives (limits_of m)) (lo_DenyMemberDrives ov)"
  "DenyKeptMachines (limits_of (meetLimits ov m)) = or_named (DenyKeptMachines (limits_of m)) (lo_DenyKeptMachines ov)"
  "DenyBackgroundDesktopWatch (limits_of (meetLimits ov m)) = or_named (DenyBackgroundDesktopWatch (limits_of m)) (lo_DenyBackgroundDesktopWatch ov)"
  "LimRun (limits_of (meetLimits ov m)) = met_run ov (LimRun (limits_of m))"
  "ceiling_of (meetLimits ov m) = ceiling_of m"
  by (simp_all add: meetLimits_def Let_def limit_fields meetDenials_def del: meeter_prims(5,6))

end
