(* ===== verification/OverlayNarrows.thy ===== *)
theory OverlayNarrows
  imports PolicyMeet
begin

section \<open>What a composed authority promises\<close>

text \<open>
  The lenient reading of an overlay (\<open>ApplyOverlay\<close>) and the strict one (\<open>ValidateOverlay\<close>) agree; the composed authority
  is within its base by \<open>Leq\<close>, every field rule being one interpretation of the locale \<open>narrowing\<close>; and its limits are
  ones a writer accepts.
\<close>

subsection \<open>A refusal is kept\<close>

lemmas ceiling_errs =
  domains.named_err denied.named_err allow_all.named_err first_use.named_err first_use_hold.named_err
  max_holds.named_err methods.named_err confinement.named_err grants.named_err auto_stop.named_err
  mounts.named_err repos.named_err llm.named_err ui_apps.named_err resources.named_err tools.named_err
  any_branch.named_err azure.named_err walls.named_err desktop.named_err recording.named_err
  github.named_err push.named_err

lemmas limit_errs =
  local_components.named_err placements.named_err macos_bases.named_err models.named_err bound.named_err
  rubric.named_err run_limits.err

lemmas ceiling_kept = ceiling_errs [THEN conjunct1]
lemmas limit_kept = limit_errs [THEN conjunct1]

lemma meetEgress_kept: "m_err (meetEgress ov m) = None \<Longrightarrow> m_err m = None"
  unfolding meetEgress_def Let_def by ((drule ceiling_kept)+, assumption)

lemma meetPosture_kept: "m_err (meetPosture eff ov m) = None \<Longrightarrow> m_err m = None"
  unfolding meetPosture_def Let_def by ((drule ceiling_kept)+, assumption)

lemma meetLimits_kept: "m_err (meetLimits ov m) = None \<Longrightarrow> m_err m = None"
  unfolding meetLimits_def Let_def by (drule limit_kept, (drule limit_kept)+, simp, drule limit_kept, assumption)

text \<open>What the last door let through.\<close>

definition limits_sound :: "GovernanceLimits \<Rightarrow> bool" where
  "limits_sound l \<longleftrightarrow> \<not> negative_limit l \<and>
     (let r = LimRun l in
      (MaxEndAheadSec r > 0 \<longrightarrow> DefaultEndSec r \<le> MaxEndAheadSec r) \<and>
      (MaxWaitSec r > 0 \<longrightarrow> DefaultWaitSec r \<le> MaxWaitSec r)) \<and>
     \<not> DeniesEveryPlacement (DenyPlacements l) \<and> \<not> holds_for (\<lambda>v. \<not> Rubric_Validate v) (LimRubric l)"

lemma checkResult_out [simp]: "m_out (checkResult m) = m_out m"
  by (simp add: checkResult_def Let_def)

lemma checkResult_ok: "m_err (checkResult m) = None \<Longrightarrow> m_err m = None \<and> limits_sound (limits_of m)"
  unfolding checkResult_def Let_def limits_sound_def by (auto dest!: err_kept(3))

subsection \<open>The strict reading\<close>

definition compose_rest :: "Limits \<Rightarrow> Overlay \<Rightarrow> meeter \<Rightarrow> meeter" where
  "compose_rest eff ov m =
     checkResult (meetLimits (ov_Limits ov)
       (named (co_PushRules (ov_Ceiling ov)) meetPush (meetPosture eff (ov_Ceiling ov) (meetEgress (ov_Ceiling ov) m))))"

lemma meeter_run_rest:
  "meeter_run eff ov m = (let m1 = validatePresence ov m in if m_err m1 \<noteq> None then m1 else compose_rest eff ov m1)"
  by (simp add: meeter_run_def compose_rest_def Let_def)

lemma compose_rest_agree: "agree m m' \<Longrightarrow> agree (compose_rest eff ov m) (compose_rest eff ov m')"
  unfolding compose_rest_def by (intro checkResult_agree meetLimits_agree push.named_agree meetPosture_agree meetEgress_agree)

lemma compose_rest_kept: "m_err (compose_rest eff ov m) = None \<Longrightarrow> m_err m = None"
  unfolding compose_rest_def
  by (drule checkResult_ok [THEN conjunct1], drule meetLimits_kept, drule push.named_err [THEN conjunct1],
      drule meetPosture_kept, drule meetEgress_kept)

text \<open>
  C13: a write is accepted exactly when a resolve of it warns of nothing. \<open>ValidateOverlay\<close>, which refuses an overlay that
  names anything its base does not permit, accepts an overlay over a base if and only if \<open>ApplyOverlay\<close>, which narrows
  silently, composes the two with no warning.
\<close>

theorem validate_iff_apply:
  "ValidateOverlay eff base ov = None \<longleftrightarrow> (\<exists>out. ApplyOverlay eff base ov = Inr (out, []))"
proof -
  let ?l = "validatePresence ov (new_meeter False base)" and ?s = "validatePresence ov (new_meeter True base)"
  have "agree (new_meeter False base) (new_meeter True base)" by (simp add: agree_def new_meeter_def)
  then have a: "agree ?l ?s" by (rule validatePresence_agree)
  then have r: "agree (compose_rest eff ov ?l) (compose_rest eff ov ?s)" by (rule compose_rest_agree)
  have "m_err (meeter_run eff ov (new_meeter True base)) = None \<longleftrightarrow> m_err (compose_rest eff ov ?s) = None"
    using compose_rest_kept [of eff ov ?s] by (auto simp: meeter_run_rest Let_def)
  moreover have "m_err (meeter_run eff ov (new_meeter False base)) = None \<and> m_warns (meeter_run eff ov (new_meeter False base)) = [] \<longleftrightarrow>
      m_err (compose_rest eff ov ?l) = None \<and> m_warns (compose_rest eff ov ?l) = []"
    using compose_rest_kept [of eff ov ?l] by (auto simp: meeter_run_rest Let_def)
  ultimately show ?thesis
    using r by (auto simp: ValidateOverlay_def ApplyOverlay_def agree_def Let_def split: option.splits)
qed

subsection \<open>Field rules that only narrow\<close>

text \<open>One field: an order the comparator reads it by, and the rule that meets it with what an overlay names. The order is
  reflexive on the values a base may hold, and the rule goes down under its condition.\<close>

locale narrowing =
  fixes le :: "'a \<Rightarrow> 'a \<Rightarrow> bool"
    and f :: "'v \<Rightarrow> 'a \<Rightarrow> 'a"
    and fit :: "'v \<Rightarrow> 'a \<Rightarrow> bool"
  assumes below: "le x x \<Longrightarrow> fit v x \<Longrightarrow> le (f v x) x"
begin

lemma opt_below: "le x x \<Longrightarrow> (\<And>v. ov = Some v \<Longrightarrow> fit v x) \<Longrightarrow> le (opt_meet f ov x) x"
  by (cases ov) (simp_all add: opt_meet_def below)

end

lemma tightest_notLooser [simp]: "notLooser (tightest b v) b"
  by (auto simp: notLooser_def looser_def tightest_def)

lemma notLooser_refl [simp]: "notLooser b b"
  by (simp add: notLooser_def looser_def)

interpretation n_domains: narrowing leqAllowedDomains "\<lambda>v b. meet_domains b v"
  "\<lambda>v b. \<forall>d\<in>set b \<union> set v. ValidDomainEntry d = None"
  by unfold_locales (rule meet_domains_leq)

interpretation n_denied: narrowing leqDeniedDomains "\<lambda>v b. unionDenied b v"
  "\<lambda>v b. \<forall>d\<in>set b. parseDomEntry d = None \<or> ValidDomainEntry d = None"
  by unfold_locales (rule unionDenied_leq)

interpretation n_flag: narrowing "\<lambda>a b. a \<longrightarrow> b" "\<lambda>v b. b \<and> v" "\<lambda>_ _. True"
  by unfold_locales simp

lemma met_first_use_rank: "firstUseApprovalRank b \<le> firstUseApprovalRank (met_first_use v b)"
  by (auto simp: met_first_use_def firstUseApprovalRank_def Let_def)

interpretation n_first_use: narrowing "\<lambda>a b. firstUseApprovalRank b \<le> firstUseApprovalRank a" met_first_use "\<lambda>_ _. True"
  by unfold_locales (rule met_first_use_rank)

lemmas norm_hold_defs = normFirstUseHold_def normMaxHolds_def normPushHold_def hold_defs

interpretation n_first_use_hold: narrowing "\<lambda>a b. normFirstUseHold a \<le> normFirstUseHold b"
  "\<lambda>v b. min (normFirstUseHold b) (normFirstUseHold v)" "\<lambda>_ _. True"
  by unfold_locales (auto simp: norm_hold_defs min_def)

interpretation n_max_holds: narrowing "\<lambda>a b. normMaxHolds a \<le> normMaxHolds b"
  "\<lambda>v b. min (normMaxHolds b) (normMaxHolds v)" "\<lambda>_ _. True"
  by unfold_locales (auto simp: norm_hold_defs min_def)

text \<open>A method list is normalised once.\<close>

lemma ord_upper_char: "ord (upper_char c) = (if is_lower c then ord c - 32 else ord c)"
  by (auto simp: upper_char_def is_lower_def)

lemma is_space_upper_iff: "is_space (upper_char c) \<longleftrightarrow> is_space c"
  by (auto simp: is_space_def ord_upper_char is_lower_def)

lemma ToUpper_idem: "ToUpper (ToUpper s) = ToUpper s"
  by (simp add: ToUpper_def upper_char_def is_lower_def)

lemma TrimSpace_ToUpper: "TrimSpace (ToUpper s) = ToUpper (TrimSpace s)"
proof -
  have "dropWhile is_space (map upper_char s) = map upper_char (dropWhile is_space s)" for s
    by (induction s) (simp_all add: is_space_upper_iff)
  then show ?thesis by (simp add: TrimSpace_def ToUpper_def trim_left_by_def trim_right_by_def rev_map)
qed

lemma normal_method: "m \<in> set (normMethods xs) \<Longrightarrow> ToUpper (TrimSpace m) = m \<and> m \<noteq> []"
  by (auto simp: set_normMethods TrimSpace_ToUpper TrimSpace_idem ToUpper_idem)

lemma set_normMethods_normal: "set ys \<subseteq> set (normMethods xs) \<Longrightarrow> set (normMethods ys) = set ys"
proof -
  assume "set ys \<subseteq> set (normMethods xs)"
  then have n: "ToUpper (TrimSpace m) = m \<and> m \<noteq> []" if "m \<in> set ys" for m using normal_method that by blast
  have "m \<in> set (normMethods ys) \<longleftrightarrow> m \<in> set ys" for m unfolding set_normMethods by (auto simp: n) (metis n)
  then show ?thesis by blast
qed

interpretation n_methods: narrowing "\<lambda>a b. leqSubsetWhenSet (normMethods a) (normMethods b)"
  "\<lambda>v. met_methods (normMethods v)"
  "\<lambda>v b. normMethods b = [] \<or> met_methods (normMethods v) b \<noteq> []"
proof unfold_locales
  fix v b :: "string list"
  assume ok: "normMethods b = [] \<or> met_methods (normMethods v) b \<noteq> []"
  show "leqSubsetWhenSet (normMethods (met_methods (normMethods v) b)) (normMethods b)"
  proof (cases "normMethods b = []")
    case False
    then have "set (met_methods (normMethods v) b) \<subseteq> set (normMethods b)" "met_methods (normMethods v) b \<noteq> []"
      using ok by (auto simp: met_methods_def)
    then show ?thesis using set_normMethods_normal [of "met_methods (normMethods v) b" b]
      by (auto simp: leqSubsetWhenSet_def list_all_iff)
  qed (simp add: leqSubsetWhenSet_def)
qed












lemma sorted_apps_Nil [simp]: "sorted_apps xs = [] \<longleftrightarrow> xs = []"
  by (metis set_empty set_sort sorted_apps_def)












text \<open>Push rules.\<close>

lemma unionPaths_Nil [simp]: "unionPaths a b = [] \<longleftrightarrow> a = [] \<and> b = []"
  by (metis Un_empty set_empty set_unionPaths)









lemma rubric_of_met: "AgentGuardrailLocks (rubric_of b) \<Longrightarrow> AgentGuardrailLocks (rubric_of (met_rubric v b))"
  "rubric_levels (rubric_of (met_rubric v b)) = map2 met_level (rubric_levels v) (rubric_levels (rubric_of b))"
  unfolding met_rubric_def Let_def rubric_of_def by (auto simp: empty_rubric_def rubric_levels_def split: option.splits)

lemma met_level_le: "lb = [] \<or> met_level v lb \<noteq> [] \<and> Autonomy_Rank (met_level v lb) \<le> Autonomy_Rank lb"
  by (auto simp: met_level_def)

interpretation n_rubric: narrowing leqRubric met_rubric "\<lambda>_ _. True"
  by unfold_locales (unfold leqRubric_def rubric_of_met(2), simp add: rubric_of_met(1) rubric_levels_def met_level_le)

lemma notLooserI: "(0 < b \<Longrightarrow> 0 < a \<and> a \<le> b) \<Longrightarrow> notLooser a b"
  by (auto simp: notLooser_def looser_def)

lemma bound_le:
  "0 < x \<Longrightarrow> 0 < TighterSec x y \<and> TighterSec x y \<le> x" "0 < x \<Longrightarrow> 0 < tightest x y \<and> tightest x y \<le> x"
  "0 < x \<Longrightarrow> 0 < clampDefault x y \<and> clampDefault x y \<le> x"
  by (auto simp: TighterSec_def tightest_def clampDefault_def)

lemma TighterSec_notLooser: "notLooser (TighterSec a b) a"
  by (rule notLooserI) (rule bound_le(1))

lemma met_default_notLooser: "notLooser (or_int (met_default ov d x (TighterSec x y)) (TighterSec x y)) (or_int d x)"
proof (rule notLooserI)
  let ?r = "TighterSec x y"
  assume pos: "0 < or_int d x"
  have "0 < met_default ov d x ?r \<and> met_default ov d x ?r \<le> or_int d x"
  proof (cases ov)
    case None
    show ?thesis
    proof (cases "d = 0")
      case True
      then show ?thesis using None pos bound_le(1) [of x y] by (simp add: met_default_def clampDefault_def or_int_def)
    next
      case False
      then show ?thesis using None pos bound_le(3) [of d ?r] by (simp add: met_default_def or_int_def)
    qed
  next
    case (Some v)
    have "0 < tightest (or_int d x) (or_int v ?r)" "tightest (or_int d x) (or_int v ?r) \<le> or_int d x"
      using bound_le(2) [OF pos] by auto
    then show ?thesis using Some bound_le(3) [of "tightest (or_int d x) (or_int v ?r)" ?r] by (simp add: met_default_def)
  qed
  then show "0 < or_int (met_default ov d x ?r) ?r \<and> or_int (met_default ov d x ?r) ?r \<le> or_int d x"
    by (simp add: or_int_def)
qed

lemma met_run_leq: "leqRunLimits (met_run ov b) b"
  by (auto simp: leqRunLimits_def met_run_def TightenRunLimits_def Let_def TighterSec_notLooser met_default_notLooser)

subsection \<open>The conditions a composition that was not refused met\<close>

lemma meetEgress_ok:
  assumes "m_err (meetEgress ov m) = None" "co_AllowedMethods ov = Some v"
  shows "normMethods (AllowedMethods (ceiling_of m)) = [] \<or> met_methods (normMethods v) (AllowedMethods (ceiling_of m)) \<noteq> []"
  using methods.named_err [OF assms(1) [unfolded meetEgress_def Let_def]] assms(2) by (simp add: ceiling_fields)

lemma meetPosture_ok:
  assumes "m_err (meetPosture eff ov m) = None"
  shows "co_UIApps ov = Some apps \<Longrightarrow> apps = [] \<or> UIApps (ceiling_of m) = [] \<or> met_apps (UIApps (ceiling_of m)) apps [] \<noteq> []"
    and "co_AzureDevOpsCapabilities ov = Some v \<Longrightarrow> AzureDevOpsCapabilities (ceiling_of m) = [] \<or>
           met_caps v (AzureDevOpsCapabilities (ceiling_of m)) \<noteq> []"
    and "co_GitHubCapabilities ov = Some v' \<Longrightarrow> GitHubCapabilities (ceiling_of m) = [] \<or>
           met_caps v' (GitHubCapabilities (ceiling_of m)) \<noteq> []"
proof -
  note gh = github.named_err [OF assms [unfolded meetPosture_def Let_def]]
  note desk = walls.named_err [OF conjunct1 [OF desktop.named_err [OF conjunct1 [OF recording.named_err [OF conjunct1 [OF gh]]]]]]
  note az = azure.named_err [OF conjunct1 [OF desk]]
  note res = resources.named_err [OF conjunct1 [OF tools.named_err [OF conjunct1 [OF any_branch.named_err [OF conjunct1 [OF az]]]]]]
  note apps = ui_apps.named_err [OF conjunct1 [OF res]]
  show "co_UIApps ov = Some apps \<Longrightarrow> apps = [] \<or> UIApps (ceiling_of m) = [] \<or> met_apps (UIApps (ceiling_of m)) apps [] \<noteq> []"
    using conjunct2 [OF apps] by (simp add: ceiling_fields)
  show "co_AzureDevOpsCapabilities ov = Some v \<Longrightarrow> AzureDevOpsCapabilities (ceiling_of m) = [] \<or>
      met_caps v (AzureDevOpsCapabilities (ceiling_of m)) \<noteq> []"
    using conjunct2 [OF az] by (simp add: ceiling_fields)
  show "co_GitHubCapabilities ov = Some v' \<Longrightarrow> GitHubCapabilities (ceiling_of m) = [] \<or>
      met_caps v' (GitHubCapabilities (ceiling_of m)) \<noteq> []"
    using conjunct2 [OF gh] by (simp add: ceiling_fields)
qed

lemma meetLimits_ok:
  assumes "m_err (meetLimits ov m) = None"
  shows "lo_AllowedMacOSBases ov = Some v \<Longrightarrow> allow_list_ok v (AllowedMacOSBases (limits_of m))"
    and "lo_AllowedModels ov = Some v' \<Longrightarrow> allow_list_ok v' (AllowedModels (limits_of m))"
proof -
  note r = rubric.named_err [OF conjunct1 [OF run_limits.err [OF assms [unfolded meetLimits_def Let_def]]]]
  note b3 = bound.named_err [OF conjunct1 [OF bound.named_err [OF conjunct1 [OF bound.named_err [OF conjunct1 [OF r]]]]]]
  note mo = models.named_err [OF conjunct1 [OF bound.named_err [OF conjunct1 [OF bound.named_err [OF conjunct1 [OF b3]]]]]]
  note ma = macos_bases.named_err [OF conjunct1 [OF mo]]
  show "lo_AllowedMacOSBases ov = Some v \<Longrightarrow> allow_list_ok v (AllowedMacOSBases (limits_of m))"
    using conjunct2 [OF ma] by (simp add: limit_fields meetDenials_def del: meeter_prims(5,6))
  show "lo_AllowedModels ov = Some v' \<Longrightarrow> allow_list_ok v' (AllowedModels (limits_of m))"
    using conjunct2 [OF mo] by (simp add: limit_fields meetDenials_def del: meeter_prims(5,6))
qed

subsection \<open>The composed authority, field by field\<close>

lemma ApplyOverlay_composed:
  assumes "ApplyOverlay eff base ov = Inr (out, w)"
  obtains m where "m_out m = base" "m_err (compose_rest eff ov m) = None" "out = m_out (compose_rest eff ov m)"
proof
  let ?m = "validatePresence ov (new_meeter False base)"
  show "m_out ?m = base" by (simp add: new_meeter_def)
  show "m_err (compose_rest eff ov ?m) = None" "out = m_out (compose_rest eff ov ?m)"
    using assms by (auto simp: ApplyOverlay_def meeter_run_rest Let_def split: option.splits if_splits)
qed

lemma compose_rest_fields:
  "AllowedDomains (ceiling_of (compose_rest eff ov m)) = opt_meet (\<lambda>v b. meet_domains b v) (co_AllowedDomains (ov_Ceiling ov)) (AllowedDomains (ceiling_of m))"
  "DeniedDomains (ceiling_of (compose_rest eff ov m)) = opt_meet (\<lambda>v b. unionDenied b v) (co_DeniedDomains (ov_Ceiling ov)) (DeniedDomains (ceiling_of m))"
  "AllowAllEgress (ceiling_of (compose_rest eff ov m)) = opt_meet (\<lambda>v b. b \<and> v) (co_AllowAllEgress (ov_Ceiling ov)) (AllowAllEgress (ceiling_of m))"
  "FirstUseApproval (ceiling_of (compose_rest eff ov m)) = opt_meet met_first_use (co_FirstUseApproval (ov_Ceiling ov)) (FirstUseApproval (ceiling_of m))"
  "FirstUseHoldSeconds (ceiling_of (compose_rest eff ov m)) = opt_meet (\<lambda>v b. min (normFirstUseHold b) (normFirstUseHold v)) (co_FirstUseHoldSeconds (ov_Ceiling ov)) (FirstUseHoldSeconds (ceiling_of m))"
  "MaxHolds (ceiling_of (compose_rest eff ov m)) = opt_meet (\<lambda>v b. min (normMaxHolds b) (normMaxHolds v)) (co_MaxHolds (ov_Ceiling ov)) (MaxHolds (ceiling_of m))"
  "AllowedMethods (ceiling_of (compose_rest eff ov m)) = opt_meet (\<lambda>v. met_methods (normMethods v)) (co_AllowedMethods (ov_Ceiling ov)) (AllowedMethods (ceiling_of m))"
  "MinConfinementClass (ceiling_of (compose_rest eff ov m)) = opt_meet met_class (co_MinConfinementClass (ov_Ceiling ov)) (MinConfinementClass (ceiling_of m))"
  "EligibleGrants (ceiling_of (compose_rest eff ov m)) = opt_meet (\<lambda>v b. v) (co_EligibleGrants (ov_Ceiling ov)) (EligibleGrants (ceiling_of m))"
  "AutoStopAfterSec (ceiling_of (compose_rest eff ov m)) = opt_meet (\<lambda>v b. autoStopMeet b v) (co_AutoStopAfterSec (ov_Ceiling ov)) (AutoStopAfterSec (ceiling_of m))"
  "WorkspaceMounts (ceiling_of (compose_rest eff ov m)) = opt_meet sorted_mounts (co_WorkspaceMounts (ov_Ceiling ov)) (WorkspaceMounts (ceiling_of m))"
  "WorkspaceRepos (ceiling_of (compose_rest eff ov m)) = opt_meet sorted_repos (co_WorkspaceRepos (ov_Ceiling ov)) (WorkspaceRepos (ceiling_of m))"
  "LLMInspection (ceiling_of (compose_rest eff ov m)) = opt_meet met_llm (co_LLMInspection (ov_Ceiling ov)) (LLMInspection (ceiling_of m))"
  "Resources (ceiling_of (compose_rest eff ov m)) = opt_meet (met_resources eff) (co_Resources (ov_Ceiling ov)) (Resources (ceiling_of m))"
  "ToolRules (ceiling_of (compose_rest eff ov m)) = opt_meet met_tools (co_ToolRules (ov_Ceiling ov)) (ToolRules (ceiling_of m))"
  "GitPushAnyBranch (ceiling_of (compose_rest eff ov m)) = opt_meet (\<lambda>v b. b \<and> v) (co_GitPushAnyBranch (ov_Ceiling ov)) (GitPushAnyBranch (ceiling_of m))"
  "AzureDevOpsCapabilities (ceiling_of (compose_rest eff ov m)) = opt_meet met_caps (co_AzureDevOpsCapabilities (ov_Ceiling ov)) (AzureDevOpsCapabilities (ceiling_of m))"
  "InnerWalls (ceiling_of (compose_rest eff ov m)) = opt_meet met_walls (co_InnerWalls (ov_Ceiling ov)) (InnerWalls (ceiling_of m))"
  "Desktop (ceiling_of (compose_rest eff ov m)) = opt_meet (\<lambda>v b. Some (Desktop_Meet b (Some v))) (co_Desktop (ov_Ceiling ov)) (Desktop (ceiling_of m))"
  "Recording (ceiling_of (compose_rest eff ov m)) = opt_meet (\<lambda>v b. AtLeast b v) (co_Recording (ov_Ceiling ov)) (Recording (ceiling_of m))"
  "GitHubCapabilities (ceiling_of (compose_rest eff ov m)) = opt_meet met_caps (co_GitHubCapabilities (ov_Ceiling ov)) (GitHubCapabilities (ceiling_of m))"
  "UIApps (ceiling_of (compose_rest eff ov m)) = opt_meet kept_apps (co_UIApps (ov_Ceiling ov)) (UIApps (ceiling_of m))"
  "PushRules (ceiling_of (compose_rest eff ov m)) = opt_meet met_push (co_PushRules (ov_Ceiling ov)) (PushRules (ceiling_of m))"
  "LocalSelfDefinedComponents (limits_of (compose_rest eff ov m)) = opt_meet (\<lambda>v b. b \<and> v) (lo_LocalSelfDefinedComponents (ov_Limits ov)) (LocalSelfDefinedComponents (limits_of m))"
  "DenyPlacements (limits_of (compose_rest eff ov m)) = opt_meet (\<lambda>v b. unionPlacements b v) (lo_DenyPlacements (ov_Limits ov)) (DenyPlacements (limits_of m))"
  "AllowedMacOSBases (limits_of (compose_rest eff ov m)) = opt_meet met_allow_list (lo_AllowedMacOSBases (ov_Limits ov)) (AllowedMacOSBases (limits_of m))"
  "AllowedModels (limits_of (compose_rest eff ov m)) = opt_meet met_allow_list (lo_AllowedModels (ov_Limits ov)) (AllowedModels (limits_of m))"
  "LimRubric (limits_of (compose_rest eff ov m)) = opt_meet met_rubric (lo_AutonomyRubric (ov_Limits ov)) (LimRubric (limits_of m))"
  "MaxConcurrentRuns (limits_of (compose_rest eff ov m)) = opt_meet (\<lambda>v b. tightest b v) (lo_MaxConcurrentRuns (ov_Limits ov)) (MaxConcurrentRuns (limits_of m))"
  "MaxCPUMillis (limits_of (compose_rest eff ov m)) = opt_meet (\<lambda>v b. tightest b v) (lo_MaxCPUMillis (ov_Limits ov)) (MaxCPUMillis (limits_of m))"
  "MaxMemoryMiB (limits_of (compose_rest eff ov m)) = opt_meet (\<lambda>v b. tightest b v) (lo_MaxMemoryMiB (ov_Limits ov)) (MaxMemoryMiB (limits_of m))"
  "MaxEphemeralDiskMiB (limits_of (compose_rest eff ov m)) = opt_meet (\<lambda>v b. tightest b v) (lo_MaxEphemeralDiskMiB (ov_Limits ov)) (MaxEphemeralDiskMiB (limits_of m))"
  "MaxDriveSizeMiB (limits_of (compose_rest eff ov m)) = opt_meet (\<lambda>v b. tightest b v) (lo_MaxDriveSizeMiB (ov_Limits ov)) (MaxDriveSizeMiB (limits_of m))"
  "DenyTaskModeExec (limits_of (compose_rest eff ov m)) = or_named (DenyTaskModeExec (limits_of m)) (lo_DenyTaskModeExec (ov_Limits ov))"
  "DenyInteractive (limits_of (compose_rest eff ov m)) = or_named (DenyInteractive (limits_of m)) (lo_DenyInteractive (ov_Limits ov))"
  "DenyUIApps (limits_of (compose_rest eff ov m)) = or_named (DenyUIApps (limits_of m) \<or> closes_apps (co_UIApps (ov_Ceiling ov)) (UIApps (ceiling_of m))) (lo_DenyUIApps (ov_Limits ov))"
  "DenyUserDrive (limits_of (compose_rest eff ov m)) = or_named (DenyUserDrive (limits_of m)) (lo_DenyUserDrive (ov_Limits ov))"
  "DenyMemberDrives (limits_of (compose_rest eff ov m)) = or_named (DenyMemberDrives (limits_of m)) (lo_DenyMemberDrives (ov_Limits ov))"
  "DenyKeptMachines (limits_of (compose_rest eff ov m)) = or_named (DenyKeptMachines (limits_of m)) (lo_DenyKeptMachines (ov_Limits ov))"
  "DenyBackgroundDesktopWatch (limits_of (compose_rest eff ov m)) = or_named (DenyBackgroundDesktopWatch (limits_of m)) (lo_DenyBackgroundDesktopWatch (ov_Limits ov))"
  "LimRun (limits_of (compose_rest eff ov m)) = met_run (ov_Limits ov) (LimRun (limits_of m))"
  by (simp_all add: compose_rest_def meetEgress_fields meetPosture_fields meetLimits_fields PushRules_field)

lemma compose_rest_ok:
  assumes "m_err (compose_rest eff ov m) = None"
  shows "limits_sound (limits_of (compose_rest eff ov m))"
    and "co_AllowedMethods (ov_Ceiling ov) = Some ms \<Longrightarrow> normMethods (AllowedMethods (ceiling_of m)) = [] \<or>
           met_methods (normMethods ms) (AllowedMethods (ceiling_of m)) \<noteq> []"
    and "co_UIApps (ov_Ceiling ov) = Some apps \<Longrightarrow> apps = [] \<or> UIApps (ceiling_of m) = [] \<or>
           met_apps (UIApps (ceiling_of m)) apps [] \<noteq> []"
    and "co_AzureDevOpsCapabilities (ov_Ceiling ov) = Some az \<Longrightarrow> AzureDevOpsCapabilities (ceiling_of m) = [] \<or>
           met_caps az (AzureDevOpsCapabilities (ceiling_of m)) \<noteq> []"
    and "co_GitHubCapabilities (ov_Ceiling ov) = Some gh \<Longrightarrow> GitHubCapabilities (ceiling_of m) = [] \<or>
           met_caps gh (GitHubCapabilities (ceiling_of m)) \<noteq> []"
    and "lo_AllowedMacOSBases (ov_Limits ov) = Some ma \<Longrightarrow> allow_list_ok ma (AllowedMacOSBases (limits_of m))"
    and "lo_AllowedModels (ov_Limits ov) = Some mo \<Longrightarrow> allow_list_ok mo (AllowedModels (limits_of m))"
proof -
  let ?e = "meetEgress (ov_Ceiling ov) m"
  let ?p = "meetPosture eff (ov_Ceiling ov) ?e"
  let ?q = "named (co_PushRules (ov_Ceiling ov)) meetPush ?p"
  note c = checkResult_ok [OF assms [unfolded compose_rest_def]]
  note p = push.named_err [OF meetLimits_kept [OF conjunct1 [OF c]], THEN conjunct1]
  note e = meetPosture_kept [OF p]
  show "limits_sound (limits_of (compose_rest eff ov m))" using c by (simp add: compose_rest_def)
  show "co_AllowedMethods (ov_Ceiling ov) = Some ms \<Longrightarrow> normMethods (AllowedMethods (ceiling_of m)) = [] \<or>
      met_methods (normMethods ms) (AllowedMethods (ceiling_of m)) \<noteq> []" by (rule meetEgress_ok [OF e])
  show "co_UIApps (ov_Ceiling ov) = Some apps \<Longrightarrow> apps = [] \<or> UIApps (ceiling_of m) = [] \<or>
      met_apps (UIApps (ceiling_of m)) apps [] \<noteq> []" using meetPosture_ok(1) [OF p] by (simp add: meetEgress_fields)
  show "co_AzureDevOpsCapabilities (ov_Ceiling ov) = Some az \<Longrightarrow> AzureDevOpsCapabilities (ceiling_of m) = [] \<or>
      met_caps az (AzureDevOpsCapabilities (ceiling_of m)) \<noteq> []" using meetPosture_ok(2) [OF p] by (simp add: meetEgress_fields)
  show "co_GitHubCapabilities (ov_Ceiling ov) = Some gh \<Longrightarrow> GitHubCapabilities (ceiling_of m) = [] \<or>
      met_caps gh (GitHubCapabilities (ceiling_of m)) \<noteq> []" using meetPosture_ok(3) [OF p] by (simp add: meetEgress_fields)
  show "lo_AllowedMacOSBases (ov_Limits ov) = Some ma \<Longrightarrow> allow_list_ok ma (AllowedMacOSBases (limits_of m))"
    using meetLimits_ok(1) [OF conjunct1 [OF c]] by (simp add: PushRules_field meetPosture_fields meetEgress_fields)
  show "lo_AllowedModels (ov_Limits ov) = Some mo \<Longrightarrow> allow_list_ok mo (AllowedModels (limits_of m))"
    using meetLimits_ok(2) [OF conjunct1 [OF c]] by (simp add: PushRules_field meetPosture_fields meetEgress_fields)
qed

subsection \<open>The composed authority is within its base\<close>

lemma leqEgress_conj:
  "leqEgress a b \<longleftrightarrow> (AllowAllEgress a \<longrightarrow> AllowAllEgress b) \<and>
     firstUseApprovalRank (FirstUseApproval b) \<le> firstUseApprovalRank (FirstUseApproval a) \<and>
     normFirstUseHold (FirstUseHoldSeconds a) \<le> normFirstUseHold (FirstUseHoldSeconds b) \<and>
     normMaxHolds (MaxHolds a) \<le> normMaxHolds (MaxHolds b) \<and>
     leqAllowedDomains (AllowedDomains a) (AllowedDomains b) \<and> leqDeniedDomains (DeniedDomains a) (DeniedDomains b) \<and>
     leqSubsetWhenSet (normMethods (AllowedMethods a)) (normMethods (AllowedMethods b))"
  unfolding leqEgress_def by (simp add: not_less)



text \<open>What the network part asks of the two sides: the entries of the allow lists are ones the writer accepts, and so is every
  denial of the base that can be read.\<close>

definition entries_accepted :: "Authority \<Rightarrow> Overlay \<Rightarrow> bool" where
  "entries_accepted base ov \<longleftrightarrow>
     (\<forall>d\<in>set (AllowedDomains (au_Ceiling base)). ValidDomainEntry d = None) \<and>
     \<not> holds_for (list_ex (\<lambda>d. ValidDomainEntry d \<noteq> None)) (co_AllowedDomains (ov_Ceiling ov)) \<and>
     (\<forall>d\<in>set (DeniedDomains (au_Ceiling base)). parseDomEntry d = None \<or> ValidDomainEntry d = None)"


lemma composed_egress:
  assumes "m_err (compose_rest eff ov m) = None" "entries_accepted (m_out m) ov"
  shows "leqEgress (ceiling_of (compose_rest eff ov m)) (ceiling_of m)"
proof -
  have a: "leqAllowedDomains (AllowedDomains (ceiling_of m)) (AllowedDomains (ceiling_of m))"
    by (rule leqAllowedDomains_refl) (use assms(2) valid_parses in \<open>auto simp: entries_accepted_def\<close>)
  have d: "leqDeniedDomains (DeniedDomains (ceiling_of m)) (DeniedDomains (ceiling_of m))"
    by (rule leqDeniedDomains_refl)
  have s: "leqSubsetWhenSet (normMethods (AllowedMethods (ceiling_of m))) (normMethods (AllowedMethods (ceiling_of m)))"
    by (simp add: leqSubsetWhenSet_def list_all_iff)
  show ?thesis unfolding leqEgress_conj compose_rest_fields
  proof (intro conjI)
    show "opt_meet (\<lambda>v b. b \<and> v) (co_AllowAllEgress (ov_Ceiling ov)) (AllowAllEgress (ceiling_of m)) \<longrightarrow> AllowAllEgress (ceiling_of m)"
      by (rule n_flag.opt_below) simp_all
    show "leqAllowedDomains (opt_meet (\<lambda>v b. meet_domains b v) (co_AllowedDomains (ov_Ceiling ov)) (AllowedDomains (ceiling_of m)))
        (AllowedDomains (ceiling_of m))"
      by (rule n_domains.opt_below [OF a]) (use assms(2) in \<open>auto simp: entries_accepted_def holds_for_def list_ex_iff\<close>)
    show "leqDeniedDomains (opt_meet (\<lambda>v b. unionDenied b v) (co_DeniedDomains (ov_Ceiling ov)) (DeniedDomains (ceiling_of m)))
        (DeniedDomains (ceiling_of m))"
      by (rule n_denied.opt_below [OF d]) (use assms(2) in \<open>auto simp: entries_accepted_def\<close>)
    show "leqSubsetWhenSet (normMethods (opt_meet (\<lambda>v. met_methods (normMethods v)) (co_AllowedMethods (ov_Ceiling ov))
        (AllowedMethods (ceiling_of m)))) (normMethods (AllowedMethods (ceiling_of m)))"
      by (rule n_methods.opt_below [OF s]) (use compose_rest_ok(2) [OF assms(1)] in blast)
  qed (rule n_first_use.opt_below n_first_use_hold.opt_below n_max_holds.opt_below; simp)+
qed



lemma overlay_egress:
  assumes "ApplyOverlay eff base ov = Inr (out, w)" "entries_accepted base ov"
  shows "leqEgress (au_Ceiling out) (au_Ceiling base)"
proof -
  obtain m where m: "m_out m = base" "m_err (compose_rest eff ov m) = None" "out = m_out (compose_rest eff ov m)"
    using ApplyOverlay_composed [OF assms(1)] by blast
  then show ?thesis using composed_egress [OF m(2)] assms(2) by simp
qed

text \<open>The rubric needs no condition.\<close>

lemma overlay_rubric:
  assumes "ApplyOverlay eff base ov = Inr (out, w)"
  shows "leqRubric (LimRubric (au_Limits out)) (LimRubric (au_Limits base))"
proof -
  obtain m where m: "m_out m = base" "out = m_out (compose_rest eff ov m)"
    using ApplyOverlay_composed [OF assms] by blast
  have "leqRubric (LimRubric (limits_of m)) (LimRubric (limits_of m))"
    by (auto simp: leqRubric_def intro!: list_all2_refl)
  then have "leqRubric (LimRubric (limits_of (compose_rest eff ov m))) (LimRubric (limits_of m))"
    unfolding compose_rest_fields by (rule n_rubric.opt_below) simp
  then show ?thesis using m by simp
qed



lemma notLooser_named: "notLooser (opt_meet (\<lambda>v b. tightest b v) ov b) b" "ov = Some v \<Longrightarrow> notLooser (opt_meet (\<lambda>v b. tightest b v) ov b) v"
  by (auto simp: opt_meet_def notLooser_def looser_def tightest_def split: option.split)

lemma tighter_named:
  "0 \<le> TighterSec b (derefInt ov) \<Longrightarrow> ov = Some v \<Longrightarrow> notLooser (TighterSec b (derefInt ov)) v"
  by (auto simp: notLooser_def looser_def TighterSec_def derefInt_def split: if_splits)

lemma met_run_named:
  "0 \<le> MaxEndAheadSec (met_run ov b) \<Longrightarrow> lo_MaxEndAheadSec ov = Some v \<Longrightarrow> notLooser (MaxEndAheadSec (met_run ov b)) v"
  "0 \<le> MaxWaitSec (met_run ov b) \<Longrightarrow> lo_MaxWaitSec ov = Some v \<Longrightarrow> notLooser (MaxWaitSec (met_run ov b)) v"
  "0 \<le> PauseIdleAfterSec (met_run ov b) \<Longrightarrow> lo_PauseIdleAfterSec ov = Some v \<Longrightarrow> notLooser (PauseIdleAfterSec (met_run ov b)) v"
  using tighter_named by (simp_all add: met_run_def runLimitsNamed_def overlayRunLimits_def TightenRunLimits_def Let_def)

text \<open>The bounds of a profile: where the composed, the base's and the overlay's value of each is.\<close>

definition limit_bounds :: "((GovernanceLimits \<Rightarrow> int) \<times> (LimitsOverlay \<Rightarrow> int option)) list" where
  "limit_bounds =
     [(MaxConcurrentRuns, lo_MaxConcurrentRuns), (MaxCPUMillis, lo_MaxCPUMillis), (MaxMemoryMiB, lo_MaxMemoryMiB),
      (MaxEphemeralDiskMiB, lo_MaxEphemeralDiskMiB), (MaxDriveSizeMiB, lo_MaxDriveSizeMiB),
      (\<lambda>l. MaxEndAheadSec (LimRun l), lo_MaxEndAheadSec), (\<lambda>l. MaxWaitSec (LimRun l), lo_MaxWaitSec),
      (\<lambda>l. PauseIdleAfterSec (LimRun l), lo_PauseIdleAfterSec)]"

text \<open>
  C11: the numbers of a composed profile stay in bounds. Every bound of the composed limits, the three run lifetimes
  included, is not negative and at least as tight as the base's and as the one the overlay names, where a value that is
  not positive bounds nothing; and neither default lies past its own maximum.
\<close>

theorem composed_limits_bounded:
  assumes "ApplyOverlay eff base ov = Inr (out, w)"
  shows "(\<forall>(get, given)\<in>set limit_bounds. 0 \<le> get (au_Limits out) \<and> notLooser (get (au_Limits out)) (get (au_Limits base)) \<and>
      (\<forall>v. given (ov_Limits ov) = Some v \<longrightarrow> notLooser (get (au_Limits out)) v)) \<and>
    (let r = LimRun (au_Limits out) in 0 \<le> DefaultEndSec r \<and> 0 \<le> DefaultWaitSec r \<and>
      (0 < MaxEndAheadSec r \<longrightarrow> DefaultEndSec r \<le> MaxEndAheadSec r) \<and> (0 < MaxWaitSec r \<longrightarrow> DefaultWaitSec r \<le> MaxWaitSec r))"
proof -
  obtain m where m: "m_out m = base" "m_err (compose_rest eff ov m) = None" "out = m_out (compose_rest eff ov m)"
    using ApplyOverlay_composed [OF assms] by blast
  have s: "limits_sound (au_Limits out)" using compose_rest_ok(1) [OF m(2)] m(3) by simp
  have run: "LimRun (au_Limits out) = met_run (ov_Limits ov) (LimRun (au_Limits base))"
    unfolding m(3) compose_rest_fields m(1) ..
  have base: "leqRunLimits (LimRun (au_Limits out)) (LimRun (au_Limits base))" unfolding run by (rule met_run_leq)
  have five: "notLooser (get (au_Limits out)) (get (au_Limits base)) \<and>
      (\<forall>v. given (ov_Limits ov) = Some v \<longrightarrow> notLooser (get (au_Limits out)) v)"
    if "(get, given) \<in> set (take 5 limit_bounds)" for get given
    using that unfolding m(3) m(1) [symmetric]
    by (auto simp: limit_bounds_def compose_rest_fields intro: notLooser_named)
  have n: "0 \<le> get (au_Limits out)" if "(get, given) \<in> set limit_bounds" for get given
    using that s by (auto simp: limit_bounds_def limits_sound_def negative_limit_def Let_def)
  have "notLooser (get (au_Limits out)) (get (au_Limits base)) \<and>
      (\<forall>v. given (ov_Limits ov) = Some v \<longrightarrow> notLooser (get (au_Limits out)) v)"
    if g: "(get, given) \<in> set (drop 5 limit_bounds)" for get given
  proof -
    have "0 \<le> get (au_Limits out)" using n g in_set_dropD by fast
    then show ?thesis using g base met_run_named [of "ov_Limits ov" "LimRun (au_Limits base)"]
      by (auto simp: limit_bounds_def leqRunLimits_def run)
  qed
  moreover have "set limit_bounds = set (take 5 limit_bounds) \<union> set (drop 5 limit_bounds)"
    by (metis append_take_drop_id set_append)
  ultimately have "\<forall>(get, given)\<in>set limit_bounds. 0 \<le> get (au_Limits out) \<and> notLooser (get (au_Limits out)) (get (au_Limits base)) \<and>
      (\<forall>v. given (ov_Limits ov) = Some v \<longrightarrow> notLooser (get (au_Limits out)) v)"
    using five n by blast
  then show ?thesis using s by (simp add: limits_sound_def negative_limit_def Let_def)
qed

subsection \<open>Examples\<close>

definition sample_base :: Authority where
  "sample_base = \<lparr>au_Ceiling = empty_spec\<lparr>AllowedDomains := [''example.com'', ''*.corp.example:443''], DeniedDomains := [''bad.example.com''],
       AllowedMethods := [''GET'', ''POST''], ToolRules := [\<lparr>Tool = ''Bash'', Effect = ToolHold\<rparr>]\<rparr>,
     au_Limits = empty_limits\<lparr>MaxConcurrentRuns := 5\<rparr>\<rparr>"

definition sample_overlay :: Overlay where
  "sample_overlay = \<lparr>ov_Ceiling = empty_ceiling_overlay\<lparr>co_AllowedDomains := Some [''*.corp.example''], co_AllowedMethods := Some [''get''],
       co_ToolRules := Some [\<lparr>Tool = ''*'', Effect = ToolDeny\<rparr>]\<rparr>,
     ov_Limits = empty_limits_overlay\<lparr>lo_MaxConcurrentRuns := Some 9, lo_MaxEndAheadSec := Some 3600\<rparr>\<rparr>"

definition sample_out :: "Authority \<times> string list" where
  "sample_out = projr (ApplyOverlay (EffectiveLimits default_sizing) sample_base sample_overlay)"

lemma sample_composes:
  "ApplyOverlay (EffectiveLimits default_sizing) sample_base sample_overlay = Inr sample_out"
  "AllowedDomains (au_Ceiling (fst sample_out)) = [''*.corp.example:443'']"
  "snd sample_out = [''allowed_domains'', ''max_concurrent_runs'']"
  by code_simp+


lemma composed_limits_witness:
  "0 \<le> MaxConcurrentRuns (au_Limits (fst sample_out)) \<and> notLooser (MaxConcurrentRuns (au_Limits (fst sample_out))) 5 \<and>
   notLooser (MaxConcurrentRuns (au_Limits (fst sample_out))) 9 \<and> notLooser (MaxEndAheadSec (LimRun (au_Limits (fst sample_out)))) 3600"
proof -
  have a: "ApplyOverlay (EffectiveLimits default_sizing) sample_base sample_overlay = Inr (fst sample_out, snd sample_out)"
    using sample_composes(1) by simp
  show ?thesis
    using composed_limits_bounded [OF a]
    by (auto simp: limit_bounds_def sample_base_def sample_overlay_def empty_limits_def empty_limits_overlay_def)
qed

end
