(* ===== verification/PolicyClamp.thy ===== *)
theory PolicyClamp
  imports OverlayNarrows
begin

section \<open>Clamping a proposal to a ceiling: internal/composer/clamp.go\<close>

text \<open>
  \<open>Clamp\<close> tightens a proposed policy to the operator's ceiling, one step per field, with a warning for every cut. A step
  is a function on the policy and the warnings so far; the sentence of a warning is a constructor with what it names.
  \<open>url.Parse\<close> of the detector's address is an argument, the host name it finds if it parses; \<open>cloneProposal\<close> is the
  identity on values. The lemmas show that what leaves the clamp is within the ceiling, field by field, as the runtime
  reads it.
\<close>

datatype clamp_warning =
  WarnConfinement ConfinementClass ConfinementClass | WarnAllowAll | WarnAnyBranch | WarnWall string string | WarnDesktop
| WarnRecording RecordingLevel RecordingLevel | WarnTool string ToolEffect ToolEffect | WarnDomains "string list"
| WarnFirstUse FirstUseMode FirstUseMode | WarnFirstUseHold int int | WarnMaxHolds int int
| WarnLLMSet string | WarnLLMDropped | WarnMethods "string list" | WarnMethodsRestricted "string list"
| WarnAppsDropped "string list" | WarnAppsInbound "string list" | WarnAppsCallers "string list"
| WarnGrant grant_warning | WarnResourcesCapped | WarnAutoStop int | WarnMounts nat
| WarnPushInherited | WarnPackCapped int | WarnFileSizeCapped int

type_synonym clamped = "RunPolicySpec \<times> clamp_warning list"

subsection \<open>Confinement, switches, walls, desktop, recording\<close>

definition EffectiveConfinementFloor :: "ConfinementClass \<Rightarrow> ConfinementClass \<Rightarrow> ConfinementClass \<Rightarrow> ConfinementClass" where
  "EffectiveConfinementFloor policyMin floor cap =
     (let floor' = (if confinementRank cap > 0 \<and> confinementRank floor > confinementRank cap then cap else floor) in
      if confinementRank floor' > confinementRank policyMin then floor' else policyMin)"

definition clamp_confinement :: "RunPolicySpec \<Rightarrow> clamped \<Rightarrow> clamped" where
  "clamp_confinement ceiling st =
     (case st of (out, w) \<Rightarrow>
      let cr = confinementRank (MinConfinementClass ceiling) in
      if cr > 0 \<and> confinementRank (MinConfinementClass out) < cr
      then (out\<lparr>MinConfinementClass := MinConfinementClass ceiling\<rparr>,
            w @ [WarnConfinement (MinConfinementClass out) (MinConfinementClass ceiling)])
      else (out, w))"

definition clampOperatorSwitches :: "RunPolicySpec \<Rightarrow> clamped \<Rightarrow> clamped" where
  "clampOperatorSwitches ceiling st =
     (case st of (out, w) \<Rightarrow>
      let (out, w) = (if AllowAllEgress out \<and> \<not> AllowAllEgress ceiling
                      then (out\<lparr>AllowAllEgress := False\<rparr>, w @ [WarnAllowAll]) else (out, w))
      in if GitPushAnyBranch out \<and> \<not> GitPushAnyBranch ceiling
         then (out\<lparr>GitPushAnyBranch := False\<rparr>, w @ [WarnAnyBranch]) else (out, w))"

definition clampInnerWall :: "string \<Rightarrow> string \<Rightarrow> string \<Rightarrow> clamp_warning list \<Rightarrow> string \<times> clamp_warning list" where
  "clampInnerWall field proposed ceiling w =
     (if ceiling = [] \<or> proposed = ceiling then (proposed, w)
      else (ceiling, if proposed \<noteq> [] then w @ [WarnWall field ceiling] else w))"

definition clampInnerWalls :: "RunPolicySpec \<Rightarrow> clamped \<Rightarrow> clamped" where
  "clampInnerWalls ceiling st =
     (case st of (out, w) \<Rightarrow>
      case InnerWalls ceiling of
        None \<Rightarrow> (out, w)
      | Some c \<Rightarrow>
          let p = walls_of (InnerWalls out);
              (sm, w) = clampInnerWall ''harness_inner_walls.sandbox_mode'' (SandboxMode p) (SandboxMode c) w;
              (ap, w) = clampInnerWall ''harness_inner_walls.approvals'' (Approvals p) (Approvals c) w
          in (if sm \<noteq> [] \<or> ap \<noteq> [] then out\<lparr>InnerWalls := Some \<lparr>SandboxMode = sm, Approvals = ap\<rparr>\<rparr> else out, w))"

definition clampDesktop :: "RunPolicySpec \<Rightarrow> clamped \<Rightarrow> clamped" where
  "clampDesktop ceiling st =
     (case st of (out, w) \<Rightarrow>
      if Desktop out = None \<and> Desktop ceiling \<noteq> None then (out\<lparr>Desktop := Desktop ceiling\<rparr>, w)
      else if leqDesktop (Desktop out) (Desktop ceiling) then (out, w)
      else (out\<lparr>Desktop := Some (Desktop_Meet (Desktop out) (Desktop ceiling))\<rparr>, w @ [WarnDesktop]))"

definition clampRecording :: "RunPolicySpec \<Rightarrow> clamped \<Rightarrow> clamped" where
  "clampRecording ceiling st =
     (case st of (out, w) \<Rightarrow>
      let raised = AtLeast (Recording out) (Recording ceiling) in
      (out\<lparr>Recording := raised\<rparr>,
       if raised \<noteq> Recording out \<and> Recording out \<noteq> [] then w @ [WarnRecording (Recording out) raised] else w))"

subsection \<open>Tool rules\<close>

fun ceiling_effect :: "ToolRule list \<Rightarrow> string \<Rightarrow> ToolEffect \<Rightarrow> ToolEffect" where
  "ceiling_effect [] tool def = def"
| "ceiling_effect (r # rs) tool def =
     (if Tool r = tool then Effect r else ceiling_effect rs tool (if Tool r = ''*'' then Effect r else def))"

definition ceilingToolEffect :: "RunPolicySpec \<Rightarrow> string \<Rightarrow> ToolEffect" where
  "ceilingToolEffect ceiling tool = ceiling_effect (ToolRules ceiling) tool ToolHold"

fun raise_rules :: "RunPolicySpec \<Rightarrow> ToolRule list \<Rightarrow> ToolRule list \<times> clamp_warning list" where
  "raise_rules ceiling [] = ([], [])"
| "raise_rules ceiling (r # rs) =
     (let floor = ceilingToolEffect ceiling (Tool r); (kept, w) = raise_rules ceiling rs in
      if toolStrictness (Effect r) < toolStrictness floor
      then (r\<lparr>Effect := floor\<rparr> # kept, WarnTool (Tool r) (Effect r) floor # w)
      else (r # kept, w))"

definition clampToolRules :: "RunPolicySpec \<Rightarrow> clamped \<Rightarrow> clamped" where
  "clampToolRules ceiling st =
     (case st of (out, w) \<Rightarrow>
      if ToolRules out = [] then
        (if ToolRules ceiling \<noteq> [] then (out\<lparr>ToolRules := ToolRules ceiling\<rparr>, w) else (out, w))
      else case raise_rules ceiling (ToolRules out) of (kept, w') \<Rightarrow>
        (out\<lparr>ToolRules := kept @ filter (\<lambda>r. Tool r \<notin> Tool ` set (ToolRules out)) (ToolRules ceiling)\<rparr>, w @ w'))"

text \<open>\<open>validateToolRules\<close> of internal/api/policy.go, which every authored policy passes: the first refusal, with the
  index of its rule.\<close>

datatype tool_refusal =
  TooManyRules nat | ToolRequired nat | ToolNameLong nat | ToolPadded nat string | ToolDuplicate nat string | ToolEffectBad nat string

definition maxToolRulesPerPolicy :: nat where "maxToolRulesPerPolicy = 32"
definition maxToolRuleNameLen :: nat where "maxToolRuleNameLen = 64"

fun tools_refused :: "nat \<Rightarrow> string set \<Rightarrow> ToolRule list \<Rightarrow> tool_refusal option" where
  "tools_refused i seen [] = None"
| "tools_refused i seen (r # rs) =
     (let nm = TrimSpace (Tool r) in
      if nm = [] then Some (ToolRequired i)
      else if length nm > maxToolRuleNameLen then Some (ToolNameLong i)
      else if nm \<noteq> Tool r then Some (ToolPadded i (Tool r))
      else if nm \<in> seen then Some (ToolDuplicate i nm)
      else if \<not> ValidToolEffect (Effect r) then Some (ToolEffectBad i (Effect r))
      else tools_refused (i + 1) (insert nm seen) rs)"

definition validateToolRules :: "ToolRule list \<Rightarrow> tool_refusal option" where
  "validateToolRules rules =
     (if length rules > maxToolRulesPerPolicy then Some (TooManyRules (length rules)) else tools_refused 0 {} rules)"

subsection \<open>Network reach\<close>

definition clamp_domains :: "RunPolicySpec \<Rightarrow> clamped \<Rightarrow> clamped" where
  "clamp_domains ceiling st =
     (case st of (out, w) \<Rightarrow>
      if AllowAllEgress ceiling then (out, w)
      else case go_partition (\<lambda>d. folded d \<in> toSet (AllowedDomains ceiling)) (AllowedDomains out) of (kept, dropped) \<Rightarrow>
        if dropped \<noteq> [] then (out\<lparr>AllowedDomains := kept\<rparr>, w @ [WarnDomains dropped]) else (out, w))"

definition clamp_denied :: "RunPolicySpec \<Rightarrow> clamped \<Rightarrow> clamped" where
  "clamp_denied ceiling st =
     (case st of (out, w) \<Rightarrow>
      (if DeniedDomains ceiling \<noteq> [] then out\<lparr>DeniedDomains := go_union (DeniedDomains out) (DeniedDomains ceiling)\<rparr> else out, w))"

definition clamp_first_use :: "RunPolicySpec \<Rightarrow> clamped \<Rightarrow> clamped" where
  "clamp_first_use ceiling st =
     (case st of (out, w) \<Rightarrow>
      let v = FirstUse_Normalize (FirstUseApproval out); c = FirstUse_Normalize (FirstUseApproval ceiling) in
      if firstUseApprovalRank c > firstUseApprovalRank v
      then (out\<lparr>FirstUseApproval := c\<rparr>, w @ [WarnFirstUse v c]) else (out\<lparr>FirstUseApproval := v\<rparr>, w))"

definition clamp_holds :: "RunPolicySpec \<Rightarrow> clamped \<Rightarrow> clamped" where
  "clamp_holds ceiling st =
     (case st of (out, w) \<Rightarrow>
      let v = normFirstUseHold (FirstUseHoldSeconds out); c = normFirstUseHold (FirstUseHoldSeconds ceiling);
          (out, w) = (if v > c then (out\<lparr>FirstUseHoldSeconds := c\<rparr>, w @ [WarnFirstUseHold v c]) else (out, w));
          v = normMaxHolds (MaxHolds out); c = normMaxHolds (MaxHolds ceiling)
      in if v > c then (out\<lparr>MaxHolds := c\<rparr>, w @ [WarnMaxHolds v c]) else (out, w))"

definition clamp_llm :: "(string \<Rightarrow> string option) \<Rightarrow> RunPolicySpec \<Rightarrow> clamped \<Rightarrow> clamped" where
  "clamp_llm hostname ceiling st =
     (case st of (out, w) \<Rightarrow>
      case LLMInspection ceiling of
        Some li \<Rightarrow>
          let out = out\<lparr>LLMInspection := Some (li\<lparr>WorkspaceSecretValues := []\<rparr>)\<rparr> in
          (if AllowAllEgress out then out
           else case hostname (TrimSpace (DetectorSidecarURL li)) of
             None \<Rightarrow> out
           | Some h \<Rightarrow> if h = [] then out else out\<lparr>AllowedDomains := go_union (AllowedDomains out) [h]\<rparr>,
           w @ [WarnLLMSet (Mode li)])
      | None \<Rightarrow>
          if LLMInspection out \<noteq> None then (out\<lparr>LLMInspection := None\<rparr>, w @ [WarnLLMDropped]) else (out, w))"

definition clampMethods :: "RunPolicySpec \<Rightarrow> clamped \<Rightarrow> clamped" where
  "clampMethods ceiling st =
     (case st of (out, w) \<Rightarrow>
      if AllowedMethods ceiling = [] then (out, w)
      else case go_partition (\<lambda>m. folded m \<in> toSet (AllowedMethods ceiling)) (AllowedMethods out) of (kept, dropped) \<Rightarrow>
        let (out, w) = (if dropped \<noteq> [] then (out\<lparr>AllowedMethods := kept\<rparr>, w @ [WarnMethods dropped]) else (out, w)) in
        if normMethods (AllowedMethods out) = []
        then (out\<lparr>AllowedMethods := AllowedMethods ceiling\<rparr>, w @ [WarnMethodsRestricted (AllowedMethods ceiling)])
        else (out, w))"

subsection \<open>UI apps\<close>

definition app_name :: "UIApp \<Rightarrow> string" where
  "app_name a = AName a @ '':'' @ Itoa (APort a)"

text \<open>The loop: the apps kept, then the names dropped, made not inbound and cut to the ceiling's callers.\<close>

fun apps_clamp :: "UIApp list \<Rightarrow> UIApp list \<Rightarrow> UIApp list \<times> string list \<times> string list \<times> string list" where
  "apps_clamp ceiling [] = ([], [], [], [])"
| "apps_clamp ceiling (a # as) =
     (case apps_clamp ceiling as of (kept, dropped, uninbound, uncalled) \<Rightarrow>
      case find (\<lambda>c. AName c = AName a \<and> APort c = APort a) ceiling of
        None \<Rightarrow> (kept, app_name a # dropped, uninbound, uncalled)
      | Some c \<Rightarrow>
          if Inbound a \<and> \<not> Inbound c
          then (a\<lparr>Inbound := False, Callers := []\<rparr> # kept, dropped, app_name a # uninbound, uncalled)
          else
            let allowed = filter (\<lambda>x. x \<in> set (Callers c)) (Callers a) in
            if Inbound a \<and> length allowed \<noteq> length (Callers a)
            then (a\<lparr>Callers := allowed\<rparr> # kept, dropped, uninbound, app_name a # uncalled)
            else (a # kept, dropped, uninbound, uncalled))"

definition clampUIApps :: "UIApp list \<Rightarrow> UIApp list \<Rightarrow> UIApp list \<times> clamp_warning list" where
  "clampUIApps proposed ceiling =
     (if ceiling = [] \<or> proposed = [] then (proposed, [])
      else case apps_clamp ceiling proposed of (kept, dropped, uninbound, uncalled) \<Rightarrow>
        (kept, (if dropped \<noteq> [] then [WarnAppsDropped dropped] else []) @
               (if uninbound \<noteq> [] then [WarnAppsInbound uninbound] else []) @
               (if uncalled \<noteq> [] then [WarnAppsCallers uncalled] else [])))"

definition clamp_apps :: "RunPolicySpec \<Rightarrow> clamped \<Rightarrow> clamped" where
  "clamp_apps ceiling st =
     (case st of (out, w) \<Rightarrow>
      case clampUIApps (UIApps out) (UIApps ceiling) of (apps, w') \<Rightarrow> (out\<lparr>UIApps := apps\<rparr>, w @ w'))"

definition clamp_grants :: "RunPolicySpec \<Rightarrow> clamped \<Rightarrow> clamped" where
  "clamp_grants ceiling st =
     (case st of (out, w) \<Rightarrow>
      case clampGrants (EligibleGrants out) (EligibleGrants ceiling) of (gs, w') \<Rightarrow>
        (out\<lparr>EligibleGrants := gs\<rparr>, w @ map WarnGrant w'))"

subsection \<open>Sizes\<close>

definition MemberCap :: "int \<Rightarrow> int \<Rightarrow> int \<Rightarrow> int" where
  "MemberCap ceiling profileMax untouched =
     (let sz = (if ceiling < 1 then profileMax else if profileMax > 0 then min ceiling profileMax else ceiling) in
      max sz untouched)"

definition MemberDefault :: "Limits \<Rightarrow> ResourceLimits \<Rightarrow> ResourceLimits option \<Rightarrow> ResourceLimits" where
  "MemberDefault eff deployment ceiling =
     (let cpu = or_int (CPUMillis deployment) (sz_CPUMillis eff); mem = or_int (MemoryMiB deployment) (sz_MemoryMiB eff) in
      case ceiling of
        None \<Rightarrow> empty_resources\<lparr>CPUMillis := cpu, MemoryMiB := mem\<rparr>
      | Some c \<Rightarrow> empty_resources
          \<lparr>CPUMillis := (if CPUMillis c > 0 then min cpu (CPUMillis c) else cpu),
           MemoryMiB := (if MemoryMiB c > 0 then min mem (MemoryMiB c) else mem)\<rparr>)"

definition CapDiskMiB :: "int \<Rightarrow> int \<Rightarrow> int" where
  "CapDiskMiB disk ceil = (if disk > 0 \<and> ceil > 0 \<and> ceil < disk then ceil else disk)"

definition capField :: "int \<Rightarrow> int \<Rightarrow> int \<Rightarrow> int \<times> bool" where
  "capField proposed ceil fill =
     (if ceil \<le> 0 then (proposed, False)
      else if proposed > ceil then (ceil, True)
      else if proposed \<le> 0 then (fill, False) else (proposed, False))"

definition clampResources :: "Limits \<Rightarrow> RunPolicySpec \<Rightarrow> GovernanceLimits \<Rightarrow> ResourceLimits \<Rightarrow> ResourceLimits \<Rightarrow> bool
    \<Rightarrow> clamped \<Rightarrow> clamped" where
  "clampResources eff ceiling limits sz untouched warnSize st =
     (case st of (out, w) \<Rightarrow>
      let own = resources_of (Resources ceiling);
          pids = (case Resources ceiling of None \<Rightarrow> sz_PidsLimit eff | Some r \<Rightarrow> or_int (PidsLimit r) (sz_PidsLimit eff));
          cpuCap = MemberCap (CPUMillis sz) (MaxCPUMillis limits) (CPUMillis untouched);
          memCap = MemberCap (MemoryMiB sz) (MaxMemoryMiB limits) (MemoryMiB untouched);
          cr = resources_of (Resources out);
          (cpu, cpuCut) = capField (CPUMillis cr) cpuCap (min (or_int (CPUMillis own) (sz_CPUMillis eff)) cpuCap);
          (mem, memCut) = capField (MemoryMiB cr) memCap (min (or_int (MemoryMiB own) (sz_MemoryMiB eff)) memCap);
          (pd, pidsCut) = capField (PidsLimit cr) pids pids;
          (dk, diskCut) = capField (DiskMiB cr) (DiskMiB own) (DiskMiB own);
          capped = CapDiskMiB dk (MaxEphemeralDiskMiB limits);
          exceeded = (warnSize \<and> (cpuCut \<or> memCut) \<or> pidsCut \<or> diskCut \<or> capped \<noteq> dk);
          r = \<lparr>CPUMillis = cpu, MemoryMiB = mem, PidsLimit = pd, DiskMiB = capped\<rparr>
      in (if Resources out \<noteq> Some r then out\<lparr>Resources := Some r\<rparr> else out,
          if exceeded then w @ [WarnResourcesCapped] else w))"

text \<open>\<open>CapResources\<close>: the block to use, and whether it was cut.\<close>

definition cap_bound :: "int \<Rightarrow> int \<Rightarrow> int \<Rightarrow> int \<Rightarrow> int" where
  "cap_bound field profileMax floor def =
     (let c = MemberCap 0 profileMax floor in if profileMax > 0 \<and> or_int field def > c then c else field)"

definition CapResources :: "Limits \<Rightarrow> ResourceLimits option \<Rightarrow> GovernanceLimits \<Rightarrow> ResourceLimits
    \<Rightarrow> ResourceLimits option \<times> bool" where
  "CapResources eff r limits floor =
     (if MaxCPUMillis limits \<le> 0 \<and> MaxMemoryMiB limits \<le> 0 then (r, False)
      else
        let out = resources_of r;
            out = out\<lparr>CPUMillis := cap_bound (CPUMillis out) (MaxCPUMillis limits) (CPUMillis floor) (sz_CPUMillis eff),
                      MemoryMiB := cap_bound (MemoryMiB out) (MaxMemoryMiB limits) (MemoryMiB floor) (sz_MemoryMiB eff)\<rparr>
        in case r of
             None \<Rightarrow> if out = empty_resources then (None, False) else (Some out, True)
           | Some b \<Rightarrow> if CPUMillis out = CPUMillis b \<and> MemoryMiB out = MemoryMiB b then (Some b, False) else (Some out, True))"

subsection \<open>Lifetime, mounts, push rules\<close>

definition clamp_auto_stop :: "RunPolicySpec \<Rightarrow> clamped \<Rightarrow> clamped" where
  "clamp_auto_stop ceiling st =
     (case st of (out, w) \<Rightarrow>
      let c = AutoStopAfterSec ceiling in
      if c > 0 \<and> (AutoStopAfterSec out \<le> 0 \<or> AutoStopAfterSec out > c)
      then (out\<lparr>AutoStopAfterSec := c\<rparr>, w @ [WarnAutoStop c]) else (out, w))"

definition clamp_mounts :: "clamped \<Rightarrow> clamped" where
  "clamp_mounts st =
     (case st of (out, w) \<Rightarrow>
      if WorkspaceMounts out \<noteq> [] then (out\<lparr>WorkspaceMounts := []\<rparr>, w @ [WarnMounts (length (WorkspaceMounts out))])
      else (out, w))"

text \<open>A cap of the ceiling's: a positive one is taken where the proposal's is unset or larger.\<close>

definition push_cap :: "int \<Rightarrow> int \<Rightarrow> int" where
  "push_cap ceil v = (if ceil > 0 \<and> (v \<le> 0 \<or> v > ceil) then ceil else v)"

definition clampPushRules :: "RunPolicySpec \<Rightarrow> clamped \<Rightarrow> clamped" where
  "clampPushRules ceiling st =
     (case st of (out, w) \<Rightarrow>
      if \<not> PushRules_IsSet (PushRules ceiling) then (out, w)
      else
        let c = push_of (PushRules ceiling) in
        case PushRules out of
          None \<Rightarrow> (out\<lparr>PushRules := Some c\<rparr>, w @ [WarnPushInherited])
        | Some p \<Rightarrow>
            (out\<lparr>PushRules := Some (p
               \<lparr>DenyPaths := (if DenyPaths c \<noteq> [] then unionPaths (DenyPaths p) (DenyPaths c) else DenyPaths p),
                RequireReviewPaths := (if RequireReviewPaths c \<noteq> [] then unionPaths (RequireReviewPaths p) (RequireReviewPaths c)
                                       else RequireReviewPaths p),
                MaxInspectPackMiB := push_cap (MaxInspectPackMiB c) (MaxInspectPackMiB p),
                MaxFileSizeMiB := push_cap (MaxFileSizeMiB c) (MaxFileSizeMiB p),
                DenyNewExecutables := DenyNewExecutables p \<or> DenyNewExecutables c,
                DenyAll := DenyAll p \<or> DenyAll c,
                HoldSeconds := push_cap (HoldSeconds c) (HoldSeconds p)\<rparr>)\<rparr>,
             w @ (if push_cap (MaxInspectPackMiB c) (MaxInspectPackMiB p) \<noteq> MaxInspectPackMiB p
                  then [WarnPackCapped (MaxInspectPackMiB c)] else []) @
                 (if push_cap (MaxFileSizeMiB c) (MaxFileSizeMiB p) \<noteq> MaxFileSizeMiB p
                  then [WarnFileSizeCapped (MaxFileSizeMiB c)] else [])))"

subsection \<open>The clamp\<close>

definition clamp :: "Limits \<Rightarrow> (string \<Rightarrow> string option) \<Rightarrow> RunPolicySpec \<Rightarrow> RunPolicySpec \<Rightarrow> GovernanceLimits
    \<Rightarrow> ResourceLimits \<Rightarrow> ResourceLimits \<Rightarrow> bool \<Rightarrow> clamped" where
  "clamp eff hostname proposed ceiling limits sz untouched warnSize =
     (let st = (proposed, []);
          st = clamp_confinement ceiling st;
          st = clampOperatorSwitches ceiling st;
          st = clampInnerWalls ceiling st;
          st = clampDesktop ceiling st;
          st = clampRecording ceiling st;
          st = clampToolRules ceiling st;
          st = clamp_domains ceiling st;
          st = clamp_denied ceiling st;
          st = clamp_first_use ceiling st;
          st = clamp_holds ceiling st;
          st = clamp_llm hostname ceiling st;
          st = clampMethods ceiling st;
          st = clamp_apps ceiling st;
          st = clamp_grants ceiling st;
          st = clampResources eff ceiling limits sz untouched warnSize st;
          st = clamp_auto_stop ceiling st;
          st = clamp_mounts st
      in clampPushRules ceiling st)"

definition Clamp :: "Limits \<Rightarrow> (string \<Rightarrow> string option) \<Rightarrow> RunPolicySpec \<Rightarrow> RunPolicySpec \<Rightarrow> GovernanceLimits \<Rightarrow> clamped" where
  "Clamp eff hostname proposed ceiling limits =
     (let r = resources_of (Resources ceiling); sz = empty_resources\<lparr>CPUMillis := CPUMillis r, MemoryMiB := MemoryMiB r\<rparr> in
      clamp eff hostname proposed ceiling limits sz (MemberDefault eff empty_resources (Resources ceiling)) True)"

definition ClampMember :: "Limits \<Rightarrow> (string \<Rightarrow> string option) \<Rightarrow> RunPolicySpec \<Rightarrow> RunPolicySpec \<Rightarrow> GovernanceLimits
    \<Rightarrow> ResourceLimits \<Rightarrow> ResourceLimits \<Rightarrow> clamped" where
  "ClampMember eff hostname proposed ceiling limits sz memberDefault =
     clamp eff hostname proposed ceiling limits sz memberDefault False"

definition ClampRunConfinement :: "string \<Rightarrow> ConfinementClass \<Rightarrow> string \<times> bool" where
  "ClampRunConfinement runClass floor =
     (let fr = confinementRank floor in
      if fr > 0 \<and> confinementRank runClass < fr then (floor, True) else (runClass, False))"

text \<open>inline_policy_bounds.go, and the first steps of \<open>boundRunUserSpecDrops\<close> in run_policy_resolution.go: what a member's allow
  list loses before the clamp. The warnings are the entries dropped.\<close>

definition dropUncoveredPrivateLiterals :: "string list \<Rightarrow> RunPolicySpec \<Rightarrow> string list \<times> string list" where
  "dropUncoveredPrivateLiterals domains ceiling =
     (if \<not> AllowAllEgress ceiling then (domains, [])
      else
        let authority = CompilePolicy (empty_spec\<lparr>AllowedDomains := AllowedDomains ceiling\<rparr>);
            (warns, kept) = (filter (ExceedsLiteralTrust authority) domains, filter (\<lambda>d. \<not> ExceedsLiteralTrust authority d) domains)
        in if warns = [] then (domains, []) else (kept, warns))"

definition boundRunUserSpec_clamp :: "Limits \<Rightarrow> (string \<Rightarrow> string option) \<Rightarrow> RunPolicySpec \<Rightarrow> RunPolicySpec \<Rightarrow> GovernanceLimits
    \<Rightarrow> ResourceLimits \<Rightarrow> ResourceLimits \<Rightarrow> RunPolicySpec \<times> string list \<times> clamp_warning list" where
  "boundRunUserSpec_clamp eff hostname spec ceiling limits authored member =
     (let (domains, literalWarns) = dropUncoveredPrivateLiterals (AllowedDomains spec) ceiling;
          (spec, warns) = ClampMember eff hostname (spec\<lparr>AllowedDomains := domains\<rparr>) ceiling limits authored member
      in (spec, literalWarns, warns))"

subsection \<open>What each step writes\<close>

definition clamped_walls :: "HarnessInnerWalls option \<Rightarrow> HarnessInnerWalls option \<Rightarrow> HarnessInnerWalls option" where
  "clamped_walls ceiling p =
     (case ceiling of
        None \<Rightarrow> p
      | Some c \<Rightarrow>
          let sm = (if SandboxMode c = [] then SandboxMode (walls_of p) else SandboxMode c);
              ap = (if Approvals c = [] then Approvals (walls_of p) else Approvals c)
          in if sm \<noteq> [] \<or> ap \<noteq> [] then Some \<lparr>SandboxMode = sm, Approvals = ap\<rparr> else p)"

definition clamped_desktop :: "DesktopControls option \<Rightarrow> DesktopControls option \<Rightarrow> DesktopControls option" where
  "clamped_desktop ceiling p =
     (if p = None \<and> ceiling \<noteq> None then ceiling else if leqDesktop p ceiling then p else Some (Desktop_Meet p ceiling))"

definition clamped_tools :: "RunPolicySpec \<Rightarrow> ToolRule list \<Rightarrow> ToolRule list" where
  "clamped_tools ceiling p =
     (if p = [] then ToolRules ceiling
      else fst (raise_rules ceiling p) @ filter (\<lambda>r. Tool r \<notin> Tool ` set p) (ToolRules ceiling))"

definition clamped_domains :: "RunPolicySpec \<Rightarrow> string list \<Rightarrow> string list" where
  "clamped_domains ceiling p =
     (if AllowAllEgress ceiling then p else filter (\<lambda>d. folded d \<in> toSet (AllowedDomains ceiling)) p)"

definition clamped_denied :: "RunPolicySpec \<Rightarrow> string list \<Rightarrow> string list" where
  "clamped_denied ceiling p = (if DeniedDomains ceiling \<noteq> [] then go_union p (DeniedDomains ceiling) else p)"

definition sidecar_domains :: "(string \<Rightarrow> string option) \<Rightarrow> LLMInspectionSpec option \<Rightarrow> bool \<Rightarrow> string list \<Rightarrow> string list" where
  "sidecar_domains hostname li open p =
     (case li of
        None \<Rightarrow> p
      | Some l \<Rightarrow> if open then p
          else case hostname (TrimSpace (DetectorSidecarURL l)) of
            None \<Rightarrow> p | Some h \<Rightarrow> if h = [] then p else go_union p [h])"

definition clamped_methods :: "string list \<Rightarrow> string list \<Rightarrow> string list" where
  "clamped_methods ceiling p =
     (if ceiling = [] then p
      else let kept = filter (\<lambda>m. folded m \<in> toSet ceiling) p in if normMethods kept = [] then ceiling else kept)"

definition clamped_resources :: "Limits \<Rightarrow> RunPolicySpec \<Rightarrow> GovernanceLimits \<Rightarrow> ResourceLimits \<Rightarrow> ResourceLimits
    \<Rightarrow> ResourceLimits option \<Rightarrow> ResourceLimits" where
  "clamped_resources eff ceiling limits sz untouched p =
     (let own = resources_of (Resources ceiling);
          pids = (case Resources ceiling of None \<Rightarrow> sz_PidsLimit eff | Some r \<Rightarrow> or_int (PidsLimit r) (sz_PidsLimit eff));
          cpuCap = MemberCap (CPUMillis sz) (MaxCPUMillis limits) (CPUMillis untouched);
          memCap = MemberCap (MemoryMiB sz) (MaxMemoryMiB limits) (MemoryMiB untouched);
          cr = resources_of p
      in \<lparr>CPUMillis = fst (capField (CPUMillis cr) cpuCap (min (or_int (CPUMillis own) (sz_CPUMillis eff)) cpuCap)),
          MemoryMiB = fst (capField (MemoryMiB cr) memCap (min (or_int (MemoryMiB own) (sz_MemoryMiB eff)) memCap)),
          PidsLimit = fst (capField (PidsLimit cr) pids pids),
          DiskMiB = CapDiskMiB (fst (capField (DiskMiB cr) (DiskMiB own) (DiskMiB own))) (MaxEphemeralDiskMiB limits)\<rparr>)"

definition clamped_push :: "PushRulesSpec option \<Rightarrow> PushRulesSpec option \<Rightarrow> PushRulesSpec option" where
  "clamped_push ceiling p =
     (if \<not> PushRules_IsSet ceiling then p
      else case p of
        None \<Rightarrow> ceiling
      | Some q \<Rightarrow>
          let c = push_of ceiling in
          Some \<lparr>DenyPaths = (if DenyPaths c \<noteq> [] then unionPaths (DenyPaths q) (DenyPaths c) else DenyPaths q),
            MaxInspectPackMiB = push_cap (MaxInspectPackMiB c) (MaxInspectPackMiB q),
            RequireReviewPaths = (if RequireReviewPaths c \<noteq> [] then unionPaths (RequireReviewPaths q) (RequireReviewPaths c)
                                  else RequireReviewPaths q),
            HoldSeconds = push_cap (HoldSeconds c) (HoldSeconds q),
            DenyNewExecutables = DenyNewExecutables q \<or> DenyNewExecutables c,
            MaxFileSizeMiB = push_cap (MaxFileSizeMiB c) (MaxFileSizeMiB q),
            DenyAll = DenyAll q \<or> DenyAll c\<rparr>)"

lemma partition_none: "snd (go_partition P xs) = [] \<Longrightarrow> filter P xs = xs"
  by (simp add: go_partition_def filter_empty_conv)

lemma partition_fst: "fst (go_partition P xs) = filter P xs"
  by (simp add: go_partition_def)

lemma clamp_confinement_fst:
  "fst (clamp_confinement ceiling st) = MinConfinementClass_update
     (\<lambda>p. if confinementRank p < confinementRank (MinConfinementClass ceiling) \<and> 0 < confinementRank (MinConfinementClass ceiling)
          then MinConfinementClass ceiling else p) (fst st)"
proof (cases st)
  case (Pair out w)
  then show ?thesis
    by (cases out) (simp add: clamp_confinement_def  Let_def case_prod_unfold split: option.split)
qed

lemma clampOperatorSwitches_fst:
  "fst (clampOperatorSwitches ceiling st) = AllowAllEgress_update (\<lambda>p. p \<and> AllowAllEgress ceiling)
     (GitPushAnyBranch_update (\<lambda>p. p \<and> GitPushAnyBranch ceiling) (fst st))"
proof (cases st)
  case (Pair out w)
  then show ?thesis
    by (cases out) (auto simp: clampOperatorSwitches_def Let_def)
qed

lemma clampInnerWalls_fst:
  "fst (clampInnerWalls ceiling st) = InnerWalls_update (clamped_walls (InnerWalls ceiling)) (fst st)"
proof (cases st)
  case (Pair out w)
  then show ?thesis
    by (cases out) (simp add: clampInnerWalls_def clampInnerWall_def clamped_walls_def Let_def case_prod_unfold split: option.split)
qed

lemma clampDesktop_fst:
  "fst (clampDesktop ceiling st) = Desktop_update (clamped_desktop (Desktop ceiling)) (fst st)"
proof (cases st)
  case (Pair out w)
  then show ?thesis
    by (cases out) (simp add: clampDesktop_def clamped_desktop_def Let_def case_prod_unfold split: option.split)
qed

lemma clampRecording_fst:
  "fst (clampRecording ceiling st) = Recording_update (\<lambda>p. AtLeast p (Recording ceiling)) (fst st)"
proof (cases st)
  case (Pair out w)
  then show ?thesis
    by (cases out) (simp add: clampRecording_def  Let_def case_prod_unfold split: option.split)
qed

lemma clampToolRules_fst:
  "fst (clampToolRules ceiling st) = ToolRules_update (clamped_tools ceiling) (fst st)"
proof (cases st)
  case (Pair out w)
  then show ?thesis
    by (cases out) (simp add: clampToolRules_def clamped_tools_def Let_def case_prod_unfold split: option.split)
qed

lemma clamp_domains_fst:
  "fst (clamp_domains ceiling st) = AllowedDomains_update (clamped_domains ceiling) (fst st)"
proof (cases st)
  case (Pair out w)
  then show ?thesis
    by (cases out) (auto simp: clamp_domains_def clamped_domains_def Let_def case_prod_unfold partition_fst dest: partition_none)
qed

lemma clamp_denied_fst:
  "fst (clamp_denied ceiling st) = DeniedDomains_update (clamped_denied ceiling) (fst st)"
proof (cases st)
  case (Pair out w)
  then show ?thesis
    by (cases out) (simp add: clamp_denied_def clamped_denied_def Let_def case_prod_unfold split: option.split)
qed

lemma clamp_first_use_fst:
  "fst (clamp_first_use ceiling st) = FirstUseApproval_update (met_first_use (FirstUseApproval ceiling)) (fst st)"
proof (cases st)
  case (Pair out w)
  then show ?thesis
    by (cases out) (simp add: clamp_first_use_def met_first_use_def Let_def case_prod_unfold split: option.split)
qed

lemma clamp_holds_fst:
  "fst (clamp_holds ceiling st) =
     FirstUseHoldSeconds_update (\<lambda>p. if normFirstUseHold p > normFirstUseHold (FirstUseHoldSeconds ceiling)
        then normFirstUseHold (FirstUseHoldSeconds ceiling) else p)
     (MaxHolds_update (\<lambda>p. if normMaxHolds p > normMaxHolds (MaxHolds ceiling) then normMaxHolds (MaxHolds ceiling) else p) (fst st))"
proof (cases st)
  case (Pair out w)
  then show ?thesis
    by (cases out) (simp add: clamp_holds_def  Let_def case_prod_unfold split: option.split)
qed

lemma clamp_llm_fst:
  "fst (clamp_llm hostname ceiling st) =
     AllowedDomains_update (sidecar_domains hostname (LLMInspection ceiling) (AllowAllEgress (fst st)))
       (LLMInspection_update (\<lambda>_. map_option (WorkspaceSecretValues_update (\<lambda>_. [])) (LLMInspection ceiling)) (fst st))"
proof (cases st)
  case (Pair out w)
  then show ?thesis
    by (cases out) (simp add: clamp_llm_def sidecar_domains_def Let_def case_prod_unfold split: option.split)
qed

lemma clampMethods_fst:
  "fst (clampMethods ceiling st) = AllowedMethods_update (clamped_methods (AllowedMethods ceiling)) (fst st)"
proof (cases st)
  case (Pair out w)
  then show ?thesis
    by (cases out) (auto simp: clampMethods_def clamped_methods_def Let_def case_prod_unfold partition_fst dest: partition_none)
qed

lemma clamp_apps_fst:
  "fst (clamp_apps ceiling st) = UIApps_update (\<lambda>p. fst (clampUIApps p (UIApps ceiling))) (fst st)"
proof (cases st)
  case (Pair out w)
  then show ?thesis
    by (cases out) (simp add: clamp_apps_def  Let_def case_prod_unfold split: option.split)
qed

lemma clamp_grants_fst:
  "fst (clamp_grants ceiling st) = EligibleGrants_update (\<lambda>p. fst (clampGrants p (EligibleGrants ceiling))) (fst st)"
proof (cases st)
  case (Pair out w)
  then show ?thesis
    by (cases out) (simp add: clamp_grants_def  Let_def case_prod_unfold split: option.split)
qed

lemma clampResources_fst:
  "fst (clampResources eff ceiling limits sz untouched warnSize st) =
     Resources_update (\<lambda>p. Some (clamped_resources eff ceiling limits sz untouched p)) (fst st)"
proof (cases st)
  case (Pair out w)
  then show ?thesis
    by (cases out) (simp add: clampResources_def clamped_resources_def Let_def case_prod_unfold split: option.split)
qed

lemma clamp_auto_stop_fst:
  "fst (clamp_auto_stop ceiling st) = AutoStopAfterSec_update
     (\<lambda>p. if AutoStopAfterSec ceiling > 0 \<and> (p \<le> 0 \<or> p > AutoStopAfterSec ceiling) then AutoStopAfterSec ceiling else p) (fst st)"
proof (cases st)
  case (Pair out w)
  then show ?thesis
    by (cases out) (auto simp: clamp_auto_stop_def Let_def)
qed

lemma clamp_mounts_fst:
  "fst (clamp_mounts st) = WorkspaceMounts_update (\<lambda>_. []) (fst st)"
proof (cases st)
  case (Pair out w)
  then show ?thesis
    by (cases out) (simp add: clamp_mounts_def  Let_def case_prod_unfold split: option.split)
qed

lemma clampPushRules_fst:
  "fst (clampPushRules ceiling st) = PushRules_update (clamped_push (PushRules ceiling)) (fst st)"
  by (cases st; cases "fst st"; cases "PushRules ceiling"; cases "PushRules (fst st)")
     (simp_all add: clampPushRules_def clamped_push_def push_of_def PushRules_IsSet_def Let_def)

lemmas clamp_steps = clamp_confinement_fst clampOperatorSwitches_fst clampInnerWalls_fst clampDesktop_fst clampRecording_fst clampToolRules_fst clamp_domains_fst clamp_denied_fst clamp_first_use_fst clamp_holds_fst clamp_llm_fst clampMethods_fst clamp_apps_fst clamp_grants_fst clampResources_fst clamp_auto_stop_fst clamp_mounts_fst clampPushRules_fst

lemma clamp_fields:
  fixes eff hostname proposed ceiling limits sz untouched warnSize
  defines "out \<equiv> fst (clamp eff hostname proposed ceiling limits sz untouched warnSize)"
  shows
    "MinConfinementClass out = (if confinementRank (MinConfinementClass proposed) < confinementRank (MinConfinementClass ceiling) \<and>
        0 < confinementRank (MinConfinementClass ceiling) then MinConfinementClass ceiling else MinConfinementClass proposed)"
    "AllowAllEgress out \<longleftrightarrow> AllowAllEgress proposed \<and> AllowAllEgress ceiling"
    "GitPushAnyBranch out \<longleftrightarrow> GitPushAnyBranch proposed \<and> GitPushAnyBranch ceiling"
    "InnerWalls out = clamped_walls (InnerWalls ceiling) (InnerWalls proposed)"
    "Desktop out = clamped_desktop (Desktop ceiling) (Desktop proposed)"
    "Recording out = AtLeast (Recording proposed) (Recording ceiling)"
    "ToolRules out = clamped_tools ceiling (ToolRules proposed)"
    "AllowedDomains out = sidecar_domains hostname (LLMInspection ceiling) (AllowAllEgress proposed \<and> AllowAllEgress ceiling)
        (clamped_domains ceiling (AllowedDomains proposed))"
    "DeniedDomains out = clamped_denied ceiling (DeniedDomains proposed)"
    "FirstUseApproval out = met_first_use (FirstUseApproval ceiling) (FirstUseApproval proposed)"
    "normFirstUseHold (FirstUseHoldSeconds out) = min (normFirstUseHold (FirstUseHoldSeconds proposed)) (normFirstUseHold (FirstUseHoldSeconds ceiling))"
    "normMaxHolds (MaxHolds out) = min (normMaxHolds (MaxHolds proposed)) (normMaxHolds (MaxHolds ceiling))"
    "LLMInspection out = map_option (WorkspaceSecretValues_update (\<lambda>_. [])) (LLMInspection ceiling)"
    "AllowedMethods out = clamped_methods (AllowedMethods ceiling) (AllowedMethods proposed)"
    "UIApps out = fst (clampUIApps (UIApps proposed) (UIApps ceiling))"
    "EligibleGrants out = fst (clampGrants (EligibleGrants proposed) (EligibleGrants ceiling))"
    "Resources out = Some (clamped_resources eff ceiling limits sz untouched (Resources proposed))"
    "AutoStopAfterSec out = (if AutoStopAfterSec ceiling > 0 \<and> (AutoStopAfterSec proposed \<le> 0 \<or> AutoStopAfterSec proposed > AutoStopAfterSec ceiling)
        then AutoStopAfterSec ceiling else AutoStopAfterSec proposed)"
    "WorkspaceMounts out = []"
    "PushRules out = clamped_push (PushRules ceiling) (PushRules proposed)"
  unfolding out_def clamp_def Let_def
  by (simp_all add: clamp_steps) (auto simp: norm_hold_defs min_def)

subsection \<open>Every clamped field is within the ceiling's\<close>

lemma go_union_seen:
  "seen \<subseteq> folded ` set a \<Longrightarrow>
   let r = fst (fold (\<lambda>x (out, seen). if folded x \<in> seen then (out, seen) else (out @ [x], insert (folded x) seen)) b (a, seen))
   in set r \<subseteq> set a \<union> set b \<and> folded ` (set a \<union> set b) \<subseteq> folded ` set r"
proof (induction b arbitrary: a seen)
  case (Cons x b)
  show ?case
  proof (cases "folded x \<in> seen")
    case True
    then have "folded x \<in> folded ` set a" using Cons.prems by blast
    then show ?thesis using Cons.IH [OF Cons.prems] True by (auto simp: Let_def)
  next
    case False
    have "insert (folded x) seen \<subseteq> folded ` set (a @ [x])" using Cons.prems by auto
    from Cons.IH [OF this] False show ?thesis by (auto simp: Let_def)
  qed
qed simp

lemma go_union_mem: "set (go_union a b) \<subseteq> set a \<union> set b" "folded ` set b \<subseteq> folded ` set (go_union a b)"
  using go_union_seen [of "toSet a" a b] by (auto simp: go_union_def toSet_def Let_def)

lemma parse_folded: "parseDomEntry (folded d) = parseDomEntry d"
  unfolding folded_def by (rule parse_normal)

lemma folded_matches: "folded d = folded d' \<Longrightarrow> entry_matches d host port = entry_matches d' host port"
  unfolding entry_matches_hits by (metis parse_folded)

lemma folded_denied: "folded ` set c \<subseteq> folded ` set a \<Longrightarrow> leqDeniedDomains a c"
  unfolding leqDeniedDomains_iff
proof (intro ballI conjI allI impI)
  assume sub: "folded ` set c \<subseteq> folded ` set a"
  fix s assume "s \<in> set c"
  then obtain d where d: "d \<in> set a" "folded d = folded s" using sub by (metis imageE image_subset_iff)
  then have p: "parseDomEntry d = parseDomEntry s" by (metis parse_folded)
  show "\<exists>e\<in>set (parsed a). covers_entry e f" if "parseDomEntry s = Some f" for f
    using parsedI [OF d(1)] p that covers_entry_refl by metis
  show "ToLower (TrimSpace s) = [] \<or> ToLower (TrimSpace s) \<in> set (unreadable a)" if "parseDomEntry s = None"
    using d p that by (auto simp: unreadable_def folded_def image_iff intro!: disjI2 bexI [of _ d])
qed

lemma upper_lower: "ToUpper (ToLower s) = ToUpper s"
proof -
  have "ord (upper_char (lower_char c)) = ord (upper_char c)" for c
    by (auto simp: ord_upper_char ord_lower_char is_lower_def is_upper_def)
  then have "upper_char (lower_char c) = upper_char c" for c by simp
  then show ?thesis by (simp add: ToUpper_def ToLower_def)
qed

lemma desktop_meet_leq: "leqDesktop (Some (Desktop_Meet p c)) c"
  unfolding leqDesktop_def Desktop_Effective_Meet Let_def
  by (simp add: opens_def Desktop_Meet_def transfer_block_def TransferAllowed_def TransferBlocked_def Let_def)

lemma subset_when_refl: "leqSubsetWhenSet x x"
  by (simp add: leqSubsetWhenSet_def list_all_iff)

text \<open>The proposal is the overlay and the ceiling the base: each field's clamp narrows in the field's order.\<close>

interpretation c_class: narrowing "\<lambda>a b. confinementRank b \<le> confinementRank a"
  "\<lambda>p c. if confinementRank p < confinementRank c \<and> 0 < confinementRank c then c else p" "\<lambda>p _. 0 \<le> confinementRank p"
  by unfold_locales auto

interpretation c_walls: narrowing leqInnerWalls "\<lambda>p c. clamped_walls c p" "\<lambda>_ _. True"
  by unfold_locales (auto simp: leqInnerWalls_def clamped_walls_def walls_of_def Let_def split: option.splits)

interpretation c_desktop: narrowing leqDesktop "\<lambda>p c. clamped_desktop c p" "\<lambda>_ _. True"
  by unfold_locales (auto simp: clamped_desktop_def desktop_meet_leq)

interpretation c_recording: narrowing "\<lambda>a b. Recording_Rank b \<le> Recording_Rank a" AtLeast "\<lambda>_ _. True"
  by unfold_locales (simp add: Recording_Rank_AtLeast)

interpretation c_cap: narrowing notLooser "\<lambda>p c. push_cap c p" "\<lambda>_ _. True"
  by unfold_locales (auto simp: push_cap_def notLooser_def looser_def)

interpretation c_denied: narrowing leqDeniedDomains
  "\<lambda>p c. if c \<noteq> [] then go_union p c else p" "\<lambda>_ _. True"
proof unfold_locales
  show "leqDeniedDomains (if c \<noteq> [] then go_union p c else p) c" for p c :: "string list"
    using folded_denied [OF go_union_mem(2) [of c p]] by (auto simp: leqDeniedDomains_iff)
qed

interpretation c_methods: narrowing "\<lambda>a b. leqSubsetWhenSet (normMethods a) (normMethods b)"
  "\<lambda>p c. clamped_methods c p" "\<lambda>_ _. True"
proof unfold_locales
  fix p c :: "string list"
  let ?kept = "filter (\<lambda>m. folded m \<in> toSet c) p"
  have up: "ToUpper (TrimSpace m) = ToUpper (folded m)" for m by (simp add: folded_def upper_lower)
  have "\<exists>m'\<in>set c. ToUpper (TrimSpace m) = ToUpper (TrimSpace m')" if "m \<in> set ?kept" for m
    using that unfolding up by (auto simp: toSet_def)
  then have "set (normMethods ?kept) \<subseteq> set (normMethods c)" unfolding set_normMethods by blast
  moreover have "normMethods [] = []" by (simp add: normMethods_def sort_compact_def)
  ultimately show "leqSubsetWhenSet (normMethods (clamped_methods c p)) (normMethods c)"
    by (auto simp: clamped_methods_def Let_def leqSubsetWhenSet_def list_all_iff)
qed

text \<open>Tool rules. A ceiling that names each tool once reads the same from the front as from the end.\<close>

definition rule_pairs :: "ToolRule list \<Rightarrow> (string \<times> ToolEffect) list" where
  "rule_pairs rs = map (\<lambda>r. (Tool r, Effect r)) rs"

lemma toolEffects_distinct: "distinct (map Tool rs) \<Longrightarrow> map_of (toolEffects rs) t = map_of (rule_pairs rs) t"
proof -
  have "distinct (map Tool rs) \<Longrightarrow>
      map_of (fold (\<lambda>r m. AList.update (Tool r) (Effect r) m) rs m) t =
        (case map_of (rule_pairs rs) t of None \<Rightarrow> map_of m t | Some e \<Rightarrow> Some e)" for m
  proof (induction rs arbitrary: m)
    case (Cons r rs)
    have "map_of (rule_pairs rs) t = None" if "Tool r = t" using Cons.prems that
      by (auto simp: rule_pairs_def map_of_eq_None_iff)
    then show ?case using Cons by (auto simp: rule_pairs_def update_conv' split: option.splits)
  qed (simp add: rule_pairs_def)
  then show "distinct (map Tool rs) \<Longrightarrow> ?thesis" by (simp add: toolEffects_def split: option.splits)
qed

lemma ceiling_effect_pairs:
  "distinct (map Tool rs) \<Longrightarrow> ceiling_effect rs t def =
     (case map_of (rule_pairs rs) t of Some e \<Rightarrow> e
      | None \<Rightarrow> (case map_of (rule_pairs rs) ''*'' of Some e \<Rightarrow> e | None \<Rightarrow> def))"
proof (induction rs arbitrary: def)
  case (Cons r rs)
  have "map_of (rule_pairs rs) ''*'' = None" if "Tool r = ''*''" using Cons.prems that
    by (auto simp: rule_pairs_def map_of_eq_None_iff)
  then show ?case using Cons by (auto simp: rule_pairs_def split: option.splits)
qed (simp add: rule_pairs_def)

lemma ceilingToolEffect_reads:
  assumes "distinct (map Tool (ToolRules ceiling))"
  shows "ceilingToolEffect ceiling t = effectFor (toolEffects (ToolRules ceiling)) t"
  by (simp add: ceilingToolEffect_def ceiling_effect_pairs [OF assms] effectFor_def toolEffects_distinct [OF assms]
      split: option.splits)

lemma toolEffects_mem:
  "map_of (toolEffects rs) t = Some e \<Longrightarrow> \<exists>r\<in>set rs. Tool r = t \<and> Effect r = e"
  "map_of (toolEffects rs) t = None \<longleftrightarrow> t \<notin> Tool ` set rs"
proof -
  have "map_of (fold (\<lambda>r m. AList.update (Tool r) (Effect r) m) rs m) t = Some e \<Longrightarrow>
      map_of m t = Some e \<or> (\<exists>r\<in>set rs. Tool r = t \<and> Effect r = e)" for m
    by (induction rs arbitrary: m) (force simp: update_conv' split: if_splits)+
  from this [of "[]"] show "map_of (toolEffects rs) t = Some e \<Longrightarrow> \<exists>r\<in>set rs. Tool r = t \<and> Effect r = e"
    by (simp add: toolEffects_def)
  have "map_of (fold (\<lambda>r m. AList.update (Tool r) (Effect r) m) rs m) t = None \<longleftrightarrow> map_of m t = None \<and> t \<notin> Tool ` set rs" for m
    by (induction rs arbitrary: m) (auto simp: update_conv')
  from this [of "[]"] show "map_of (toolEffects rs) t = None \<longleftrightarrow> t \<notin> Tool ` set rs" by (simp add: toolEffects_def)
qed

lemma raise_rules_mem:
  "r \<in> set (fst (raise_rules ceiling rs)) \<Longrightarrow> toolStrictness (ceilingToolEffect ceiling (Tool r)) \<le> toolStrictness (Effect r)"
  "Tool ` set (fst (raise_rules ceiling rs)) = Tool ` set rs"
  by (induction rs) (auto simp: Let_def case_prod_unfold split: if_splits)

lemma clamped_tools_leq:
  assumes d: "distinct (map Tool (ToolRules ceiling))"
  shows "leqToolRules (clamped_tools ceiling p) (ToolRules ceiling)"
proof (cases "p = []")
  case False
  let ?c = "ToolRules ceiling" and ?r = "clamped_tools ceiling p"
  let ?ce = "effectFor (toolEffects ?c)"
  have le: "toolStrictness (?ce (Tool r)) \<le> toolStrictness (Effect r)" if r: "r \<in> set ?r" for r
  proof (cases "r \<in> set ?c")
    case True
    then have "map_of (rule_pairs ?c) (Tool r) = Some (Effect r)" using d
      by (auto simp: rule_pairs_def comp_def intro!: map_of_is_SomeI)
    then show ?thesis by (simp add: effectFor_def toolEffects_distinct [OF d])
  next
    case False
    then have "r \<in> set (fst (raise_rules ceiling p))" using r \<open>p \<noteq> []\<close> by (auto simp: clamped_tools_def)
    then show ?thesis using raise_rules_mem(1) ceilingToolEffect_reads [OF d] by metis
  qed
  have nm: "Tool ` set ?r = Tool ` set p \<union> Tool ` set ?c"
    using False raise_rules_mem(2) [of ceiling p] by (auto simp: clamped_tools_def image_Un)
  have named: "toolStrictness (?ce t) \<le> toolStrictness e" if "map_of (toolEffects ?r) t = Some e" for t e
    using toolEffects_mem(1) [OF that] le by blast
  have rest: "?ce t = ?ce ''*''" if "map_of (toolEffects ?r) t = None" for t
  proof -
    have "t \<notin> Tool ` set ?c" using that nm by (auto simp: toolEffects_mem(2))
    then have "map_of (toolEffects ?c) t = None" by (simp add: toolEffects_mem(2))
    then show ?thesis by (auto simp: effectFor_def split: option.split)
  qed
  have none: "?ce ''*'' = ToolHold" if "map_of (toolEffects ?r) ''*'' = None"
  proof -
    have "''*'' \<notin> Tool ` set ?c" using that nm by (auto simp: toolEffects_mem(2))
    then have "map_of (toolEffects ?c) ''*'' = None" by (simp add: toolEffects_mem(2))
    then show ?thesis by (simp add: effectFor_def)
  qed
  show ?thesis unfolding leqToolRules_iff
  proof
    fix t
    show "toolStrictness (?ce t) \<le> toolStrictness (effectFor (toolEffects ?r) t)"
      using named [of t] named [of "''*''"] rest [of t] none
      by (cases "map_of (toolEffects ?r) t"; cases "map_of (toolEffects ?r) ''*''") (simp_all add: effectFor_def)
  qed
qed (simp add: clamped_tools_def leqToolRules_iff)

text \<open>Push rules, sizes and apps.\<close>

lemma clamped_push_within:
  fixes c p
  defines "a \<equiv> push_of (clamped_push c p)" and "b \<equiv> push_of c"
  shows "set (DenyPaths b) \<subseteq> set (DenyPaths a)" "set (RequireReviewPaths b) \<subseteq> set (RequireReviewPaths a)"
    "DenyNewExecutables b \<Longrightarrow> DenyNewExecutables a" "DenyAll b \<Longrightarrow> DenyAll a"
    "notLooser (MaxFileSizeMiB a) (MaxFileSizeMiB b)" "notLooser (MaxInspectPackMiB a) (MaxInspectPackMiB b)"
proof -
  have cap: "notLooser (push_cap y x) y" for x y by (rule c_cap.below) simp_all
  have unset: "notLooser x y" if "y \<le> 0" for x y using that by (simp add: notLooser_def looser_def)
  note d = a_def b_def clamped_push_def push_of_def PushRules_IsSet_def empty_push_def Let_def
  show "set (DenyPaths b) \<subseteq> set (DenyPaths a)" by (auto simp: d split: option.splits)
  show "set (RequireReviewPaths b) \<subseteq> set (RequireReviewPaths a)" by (auto simp: d split: option.splits)
  show "DenyNewExecutables b \<Longrightarrow> DenyNewExecutables a" by (auto simp: d split: option.splits)
  show "DenyAll b \<Longrightarrow> DenyAll a" by (auto simp: d split: option.splits)
  show "notLooser (MaxFileSizeMiB a) (MaxFileSizeMiB b)" by (simp add: d cap unset split: option.splits)
  show "notLooser (MaxInspectPackMiB a) (MaxInspectPackMiB b)" by (simp add: d cap unset split: option.splits)
qed

lemma push_hold_within: "PushRules_IsSet c \<Longrightarrow> notLooser (HoldSeconds (push_of (clamped_push c p))) (HoldSeconds (push_of c))"
proof -
  have cap: "notLooser (push_cap y x) y" for x y by (rule c_cap.below) simp_all
  assume "PushRules_IsSet c"
  then show ?thesis by (simp add: clamped_push_def push_of_def Let_def cap split: option.splits)
qed

lemma MemberCap_bound: "0 < c \<Longrightarrow> u \<le> c \<Longrightarrow> 0 < MemberCap c m u \<and> MemberCap c m u \<le> c"
  by (auto simp: MemberCap_def)

lemma sized_notLooser:
  assumes "u = (if c > 0 then min e c else e)"
  shows "notLooser (fst (capField x (MemberCap c m u) (min (or_int c e) (MemberCap c m u)))) c"
proof (rule notLooserI)
  assume c: "0 < c"
  have m: "0 < MemberCap c m u \<and> MemberCap c m u \<le> c" using MemberCap_bound c assms by simp
  then show "0 < fst (capField x (MemberCap c m u) (min (or_int c e) (MemberCap c m u))) \<and>
      fst (capField x (MemberCap c m u) (min (or_int c e) (MemberCap c m u))) \<le> c"
    using c by (auto simp: capField_def or_int_def)
qed

lemma sized_unset:
  assumes "0 < e"
  shows "0 < fst (capField x (MemberCap 0 m e) (min (or_int 0 e) (MemberCap 0 m e))) \<and>
         fst (capField x (MemberCap 0 m e) (min (or_int 0 e) (MemberCap 0 m e))) \<le> max m e"
  using assms by (auto simp: capField_def MemberCap_def or_int_def)

lemma capped_self: "notLooser (fst (capField x c c)) c"
  by (auto simp: capField_def notLooser_def looser_def)

lemma CapDisk_notLooser: "notLooser d c \<Longrightarrow> notLooser (CapDiskMiB d m) c"
  by (auto simp: CapDiskMiB_def notLooser_def looser_def split: if_splits)

lemma CapDisk_le: "0 < m \<Longrightarrow> CapDiskMiB d m \<le> m"
  by (auto simp: CapDiskMiB_def)

lemma apps_clamp_mem:
  "a \<in> set (fst (apps_clamp ceiling as)) \<Longrightarrow>
     \<exists>c\<in>set ceiling. AName c = AName a \<and> APort c = APort a \<and> (Inbound a \<longrightarrow> Inbound c \<and> set (Callers a) \<subseteq> set (Callers c))"
proof (induction as)
  case (Cons x as)
  show ?case
  proof (cases "find (\<lambda>c. AName c = AName x \<and> APort c = APort x) ceiling")
    case None
    then show ?thesis using Cons by (auto split: prod.splits)
  next
    case (Some c)
    then have c: "c \<in> set ceiling" "AName c = AName x" "APort c = APort x" by (auto simp: find_Some_iff)
    have "set (Callers x) \<subseteq> set (Callers c)" if "length (filter (\<lambda>y. y \<in> set (Callers c)) (Callers x)) = length (Callers x)"
      using that length_filter_less [of _ "Callers x" "\<lambda>y. y \<in> set (Callers c)"] by fastforce
    then show ?thesis using Cons Some c by (auto simp: Let_def split: prod.splits if_splits)
  qed
qed simp

text \<open>Rules a policy write accepts: one rule for a tool, under a plain name, with one of the three effects.\<close>

definition rule_ok :: "ToolRule \<Rightarrow> bool" where
  "rule_ok r \<longleftrightarrow> TrimSpace (Tool r) = Tool r \<and> Tool r \<noteq> [] \<and> length (Tool r) \<le> maxToolRuleNameLen \<and> ValidToolEffect (Effect r)"

lemma tools_refused_None:
  "tools_refused i seen rs = None \<longleftrightarrow> (\<forall>r\<in>set rs. rule_ok r) \<and> distinct (map Tool rs) \<and> Tool ` set rs \<inter> seen = {}"
  by (induction i seen rs rule: tools_refused.induct) (auto simp: Let_def rule_ok_def)

lemma validateToolRules_None:
  "validateToolRules rs = None \<longleftrightarrow>
     length rs \<le> maxToolRulesPerPolicy \<and> (\<forall>r\<in>set rs. rule_ok r) \<and> distinct (map Tool rs)"
  by (auto simp: validateToolRules_def tools_refused_None)

lemma valid_rules_distinct: "validateToolRules rs = None \<Longrightarrow> distinct (map Tool rs)"
  by (simp add: validateToolRules_None)

lemma ceiling_effect_valid:
  "(\<And>r. r \<in> set rs \<Longrightarrow> ValidToolEffect (Effect r)) \<Longrightarrow> ValidToolEffect def \<Longrightarrow> ValidToolEffect (ceiling_effect rs t def)"
  by (induction rs t def rule: ceiling_effect.induct) auto

lemma raise_rules_tools: "map Tool (fst (raise_rules ceiling rs)) = map Tool rs"
  by (induction rs) (auto simp: Let_def case_prod_unfold)

lemma raise_rules_ok:
  assumes "\<forall>r\<in>set (ToolRules ceiling). rule_ok r"
  shows "\<forall>r\<in>set rs. rule_ok r \<Longrightarrow> \<forall>r\<in>set (fst (raise_rules ceiling rs)). rule_ok r"
proof (induction rs)
  case (Cons r rs)
  have "ValidToolEffect (Effect x)" if "x \<in> set (ToolRules ceiling)" for x using assms that by (simp add: rule_ok_def)
  then have "ValidToolEffect (ceilingToolEffect ceiling (Tool r))" unfolding ceilingToolEffect_def
    by (rule ceiling_effect_valid) (simp_all add: ValidToolEffect_def)
  moreover have "rule_ok r" using Cons.prems by simp
  ultimately have "rule_ok (r\<lparr>Effect := ceilingToolEffect ceiling (Tool r)\<rparr>)" by (simp add: rule_ok_def)
  then show ?case using Cons \<open>rule_ok r\<close> by (simp add: Let_def case_prod_unfold)
qed simp

lemma clamp_sizes:
  fixes eff hostname proposed ceiling limits
  defines "r \<equiv> resources_of (Resources (fst (Clamp eff hostname proposed ceiling limits)))" and "c \<equiv> resources_of (Resources ceiling)"
  shows "notLooser (CPUMillis r) (CPUMillis c)" "notLooser (MemoryMiB r) (MemoryMiB c)" "notLooser (PidsLimit r) (PidsLimit c)"
    "notLooser (DiskMiB r) (DiskMiB c)" "0 < MaxEphemeralDiskMiB limits \<Longrightarrow> DiskMiB r \<le> MaxEphemeralDiskMiB limits"
    "CPUMillis c = 0 \<Longrightarrow> 0 < sz_CPUMillis eff \<Longrightarrow> 0 < CPUMillis r \<and> CPUMillis r \<le> max (MaxCPUMillis limits) (sz_CPUMillis eff)"
    "MemoryMiB c = 0 \<Longrightarrow> 0 < sz_MemoryMiB eff \<Longrightarrow> 0 < MemoryMiB r \<and> MemoryMiB r \<le> max (MaxMemoryMiB limits) (sz_MemoryMiB eff)"
proof -
  let ?d = "MemberDefault eff empty_resources (Resources ceiling)"
  have d: "CPUMillis ?d = (if CPUMillis c > 0 then min (sz_CPUMillis eff) (CPUMillis c) else sz_CPUMillis eff)"
    "MemoryMiB ?d = (if MemoryMiB c > 0 then min (sz_MemoryMiB eff) (MemoryMiB c) else sz_MemoryMiB eff)"
    by (auto simp: MemberDefault_def c_def resources_of_def empty_resources_def or_int_def Let_def split: option.split)
  let ?s = "empty_resources\<lparr>CPUMillis := CPUMillis c, MemoryMiB := MemoryMiB c\<rparr>"
  have r: "r = clamped_resources eff ceiling limits ?s ?d (Resources proposed)"
    by (simp add: r_def c_def Clamp_def Let_def clamp_fields resources_of_def)
  note f = r clamped_resources_def Let_def c_def [symmetric]
  show "notLooser (CPUMillis r) (CPUMillis c)" using sized_notLooser [OF d(1)] by (simp add: f)
  show "notLooser (MemoryMiB r) (MemoryMiB c)" using sized_notLooser [OF d(2)] by (simp add: f)
  show "notLooser (PidsLimit r) (PidsLimit c)"
    using capped_self [of _ "PidsLimit c"]
    by (auto simp: f or_int_def c_def resources_of_def empty_resources_def notLooser_def looser_def split: option.splits)
  show "notLooser (DiskMiB r) (DiskMiB c)" by (simp add: f CapDisk_notLooser capped_self)
  show "0 < MaxEphemeralDiskMiB limits \<Longrightarrow> DiskMiB r \<le> MaxEphemeralDiskMiB limits" by (simp add: f CapDisk_le)
  show "CPUMillis c = 0 \<Longrightarrow> 0 < sz_CPUMillis eff \<Longrightarrow> 0 < CPUMillis r \<and> CPUMillis r \<le> max (MaxCPUMillis limits) (sz_CPUMillis eff)"
    using sized_unset [of "sz_CPUMillis eff"] d(1) by (simp add: f)
  show "MemoryMiB c = 0 \<Longrightarrow> 0 < sz_MemoryMiB eff \<Longrightarrow> 0 < MemoryMiB r \<and> MemoryMiB r \<le> max (MaxMemoryMiB limits) (sz_MemoryMiB eff)"
    using sized_unset [of "sz_MemoryMiB eff"] d(2) by (simp add: f)
qed

lemma clamp_pids:
  fixes eff hostname proposed ceiling limits
  defines "r \<equiv> resources_of (Resources (fst (Clamp eff hostname proposed ceiling limits)))" and "c \<equiv> resources_of (Resources ceiling)"
  assumes "PidsLimit c = 0" "0 < sz_PidsLimit eff"
  shows "0 < PidsLimit r \<and> PidsLimit r \<le> sz_PidsLimit eff"
proof -
  have "PidsLimit r = fst (capField (PidsLimit (resources_of (Resources proposed))) (sz_PidsLimit eff) (sz_PidsLimit eff))"
    using assms(3) by (auto simp: r_def c_def Clamp_def Let_def clamp_fields clamped_resources_def resources_of_def or_int_def
        empty_resources_def split: option.splits)
  then show ?thesis using assms(4) by (auto simp: capField_def)
qed

text \<open>
  C12: the sizes of a clamped proposal. CPU, memory, processes and disk are within every size the ceiling sets, also when the
  proposal sets none. Where the ceiling is silent, CPU and memory are positive and at most the larger of the profile's
  maximum and the deployment's default, and processes are positive and at most the deployment's default. Disk is cut to
  the profile's maximum; where neither the ceiling nor the proposal sets a disk it stays unset, as there is no default.
\<close>

theorem Clamp_sizes_bounded:
  fixes eff hostname proposed ceiling limits
  defines "r \<equiv> resources_of (Resources (fst (Clamp eff hostname proposed ceiling limits)))" and "c \<equiv> resources_of (Resources ceiling)"
  assumes eff: "0 < sz_CPUMillis eff" "0 < sz_MemoryMiB eff" "0 < sz_PidsLimit eff"
  shows "notLooser (CPUMillis r) (CPUMillis c) \<and> notLooser (MemoryMiB r) (MemoryMiB c) \<and> notLooser (PidsLimit r) (PidsLimit c) \<and>
    notLooser (DiskMiB r) (DiskMiB c) \<and>
    (0 < MaxEphemeralDiskMiB limits \<longrightarrow> DiskMiB r \<le> MaxEphemeralDiskMiB limits) \<and>
    (CPUMillis c = 0 \<longrightarrow> 0 < CPUMillis r \<and> CPUMillis r \<le> max (MaxCPUMillis limits) (sz_CPUMillis eff)) \<and>
    (MemoryMiB c = 0 \<longrightarrow> 0 < MemoryMiB r \<and> MemoryMiB r \<le> max (MaxMemoryMiB limits) (sz_MemoryMiB eff)) \<and>
    (PidsLimit c = 0 \<longrightarrow> 0 < PidsLimit r \<and> PidsLimit r \<le> sz_PidsLimit eff)"
  using clamp_sizes [where eff = eff and hostname = hostname and proposed = proposed and ceiling = ceiling and limits = limits,
      folded r_def c_def]
    clamp_pids [where eff = eff and hostname = hostname and proposed = proposed and ceiling = ceiling and limits = limits,
      folded r_def c_def] eff by blast

lemma clamped_domain_covered:
  assumes "\<not> AllowAllEgress ceiling" "d \<in> set (AllowedDomains (fst (Clamp eff hostname proposed ceiling limits)))"
  shows "folded d \<in> toSet (AllowedDomains ceiling) \<or>
    (\<exists>li. LLMInspection ceiling = Some li \<and> hostname (TrimSpace (DetectorSidecarURL li)) = Some d)"
  using assms go_union_mem(1) by (fastforce simp: Clamp_def Let_def clamp_fields sidecar_domains_def clamped_domains_def
      split: option.splits if_splits)

lemma confinementRank_nonneg: "0 \<le> confinementRank c"
  by (simp add: confinementRank_def Confinement_Rank_def)

text \<open>
  A clamped proposal reaches no more of the network than the operator's ceiling. Allow-all survives only under an
  allow-all ceiling; under any other, a host and port that an allowed domain of the result matches is matched by one of
  the ceiling's, or the entry is the host of the ceiling's own detector sidecar. Every denial of the ceiling is still
  there, first use is at least as strict, its holds no longer and no more, and the methods the proxy reads are among the
  ceiling's whenever the ceiling names some.
\<close>

lemma clamp_reach:
  fixes eff hostname proposed ceiling limits
  defines "out \<equiv> fst (Clamp eff hostname proposed ceiling limits)"
  shows "(AllowAllEgress out \<longrightarrow> AllowAllEgress ceiling) \<and>
    (\<forall>d\<in>set (AllowedDomains out). \<not> AllowAllEgress ceiling \<and> entry_matches d host port \<longrightarrow>
       (\<exists>d'\<in>set (AllowedDomains ceiling). entry_matches d' host port) \<or>
       (\<exists>li. LLMInspection ceiling = Some li \<and> hostname (TrimSpace (DetectorSidecarURL li)) = Some d)) \<and>
    (\<forall>d\<in>set (DeniedDomains ceiling). entry_matches d host port \<longrightarrow> (\<exists>d'\<in>set (DeniedDomains out). entry_matches d' host port)) \<and>
    firstUseApprovalRank (FirstUseApproval ceiling) \<le> firstUseApprovalRank (FirstUseApproval out) \<and>
    normFirstUseHold (FirstUseHoldSeconds out) \<le> normFirstUseHold (FirstUseHoldSeconds ceiling) \<and>
    normMaxHolds (MaxHolds out) \<le> normMaxHolds (MaxHolds ceiling) \<and>
    leqSubsetWhenSet (normMethods (AllowedMethods out)) (normMethods (AllowedMethods ceiling))"
proof (intro conjI)
  note f = out_def Clamp_def Let_def clamp_fields
  show "AllowAllEgress out \<longrightarrow> AllowAllEgress ceiling" by (simp add: f)
  have cov: "\<exists>d'\<in>set (AllowedDomains ceiling). entry_matches d' host port"
    if m: "folded d \<in> toSet (AllowedDomains ceiling)" "entry_matches d host port" for d
  proof -
    obtain d' where "d' \<in> set (AllowedDomains ceiling)" "folded d = folded d'" using m(1) by (auto simp: toSet_def)
    then show ?thesis using folded_matches [of d d'] m(2) by blast
  qed
  show "\<forall>d\<in>set (AllowedDomains out). \<not> AllowAllEgress ceiling \<and> entry_matches d host port \<longrightarrow>
       (\<exists>d'\<in>set (AllowedDomains ceiling). entry_matches d' host port) \<or>
       (\<exists>li. LLMInspection ceiling = Some li \<and> hostname (TrimSpace (DetectorSidecarURL li)) = Some d)"
    unfolding out_def using clamped_domain_covered cov by blast
  have "leqDeniedDomains (DeniedDomains out) (DeniedDomains ceiling)"
    unfolding f clamped_denied_def by (rule c_denied.below) (simp_all add: leqDeniedDomains_refl)
  then show "\<forall>d\<in>set (DeniedDomains ceiling). entry_matches d host port \<longrightarrow> (\<exists>d'\<in>set (DeniedDomains out). entry_matches d' host port)"
    using leqDeniedDomains_sound by blast
  show "firstUseApprovalRank (FirstUseApproval ceiling) \<le> firstUseApprovalRank (FirstUseApproval out)"
    by (auto simp: f met_first_use_def firstUseApprovalRank_def)
  show "normFirstUseHold (FirstUseHoldSeconds out) \<le> normFirstUseHold (FirstUseHoldSeconds ceiling)"
    "normMaxHolds (MaxHolds out) \<le> normMaxHolds (MaxHolds ceiling)" by (simp_all add: f)
  show "leqSubsetWhenSet (normMethods (AllowedMethods out)) (normMethods (AllowedMethods ceiling))"
    unfolding f by (rule c_methods.below) (simp_all add: subset_when_refl)
qed

text \<open>
  C8: a clamped proposal's posture is never weaker than the ceiling's. Confinement and recording are at least the
  ceiling's; free push branches, every inner wall the ceiling chooses, every desktop direction it blocks, every tool
  effect the proxy would read and its auto-stop still hold. Of its push rules, every denied and reviewed path, the deny-all
  and executable rules and each cap the ceiling states (file size, inspected pack, and the hold where it has a rule) still
  hold; a cap it leaves to the default does not bind the proposal (\<open>clamp_pack_default\<close> below). No host mount survives;
  the inspection block is the ceiling's without secret values; and a kept app is the ceiling's, inbound and called by no one
  the ceiling does not name. The ceiling's own tool rules must be ones a policy write accepts, which names a tool in at most
  one of them.
\<close>

theorem Clamp_posture_bounded:
  fixes eff hostname proposed ceiling limits
  defines "out \<equiv> fst (Clamp eff hostname proposed ceiling limits)"
  assumes valid: "validateToolRules (ToolRules ceiling) = None"
  shows "confinementRank (MinConfinementClass ceiling) \<le> confinementRank (MinConfinementClass out) \<and>
    (GitPushAnyBranch out \<longrightarrow> GitPushAnyBranch ceiling) \<and>
    leqInnerWalls (InnerWalls out) (InnerWalls ceiling) \<and> leqDesktop (Desktop out) (Desktop ceiling) \<and>
    Recording_Rank (Recording ceiling) \<le> Recording_Rank (Recording out) \<and>
    leqToolRules (ToolRules out) (ToolRules ceiling) \<and>
    set (DenyPaths (push_of (PushRules ceiling))) \<subseteq> set (DenyPaths (push_of (PushRules out))) \<and>
    set (RequireReviewPaths (push_of (PushRules ceiling))) \<subseteq> set (RequireReviewPaths (push_of (PushRules out))) \<and>
    (DenyAll (push_of (PushRules ceiling)) \<longrightarrow> DenyAll (push_of (PushRules out))) \<and>
    (DenyNewExecutables (push_of (PushRules ceiling)) \<longrightarrow> DenyNewExecutables (push_of (PushRules out))) \<and>
    notLooser (MaxFileSizeMiB (push_of (PushRules out))) (MaxFileSizeMiB (push_of (PushRules ceiling))) \<and>
    notLooser (MaxInspectPackMiB (push_of (PushRules out))) (MaxInspectPackMiB (push_of (PushRules ceiling))) \<and>
    (PushRules_IsSet (PushRules ceiling) \<longrightarrow>
       notLooser (HoldSeconds (push_of (PushRules out))) (HoldSeconds (push_of (PushRules ceiling)))) \<and>
    notLooser (AutoStopAfterSec out) (AutoStopAfterSec ceiling) \<and> WorkspaceMounts out = [] \<and>
    LLMInspection out = map_option (\<lambda>li. li\<lparr>WorkspaceSecretValues := []\<rparr>) (LLMInspection ceiling) \<and>
    (UIApps ceiling \<noteq> [] \<longrightarrow> (\<forall>a\<in>set (UIApps out). \<exists>c\<in>set (UIApps ceiling). AName c = AName a \<and> APort c = APort a \<and>
       (Inbound a \<longrightarrow> Inbound c \<and> set (Callers a) \<subseteq> set (Callers c))))"
proof (intro conjI)
  note f = out_def Clamp_def Let_def clamp_fields
  show "confinementRank (MinConfinementClass ceiling) \<le> confinementRank (MinConfinementClass out)"
    unfolding f by (rule c_class.below) (simp_all add: confinementRank_nonneg)
  show "GitPushAnyBranch out \<longrightarrow> GitPushAnyBranch ceiling" by (simp add: f)
  show "leqInnerWalls (InnerWalls out) (InnerWalls ceiling)"
    unfolding f by (rule c_walls.below) (simp_all add: leqInnerWalls_def walls_of_def Let_def split: option.split)
  show "leqDesktop (Desktop out) (Desktop ceiling)"
    unfolding f by (rule c_desktop.below) (simp_all add: leqDesktop_def opens_def TransferAllowed_def TransferBlocked_def Let_def)
  show "Recording_Rank (Recording ceiling) \<le> Recording_Rank (Recording out)" unfolding f by (rule c_recording.below) simp_all
  show "leqToolRules (ToolRules out) (ToolRules ceiling)" unfolding f by (rule clamped_tools_leq [OF valid_rules_distinct [OF valid]])
  show "set (DenyPaths (push_of (PushRules ceiling))) \<subseteq> set (DenyPaths (push_of (PushRules out)))"
    "set (RequireReviewPaths (push_of (PushRules ceiling))) \<subseteq> set (RequireReviewPaths (push_of (PushRules out)))"
    "DenyAll (push_of (PushRules ceiling)) \<longrightarrow> DenyAll (push_of (PushRules out))"
    "DenyNewExecutables (push_of (PushRules ceiling)) \<longrightarrow> DenyNewExecutables (push_of (PushRules out))"
    "notLooser (MaxFileSizeMiB (push_of (PushRules out))) (MaxFileSizeMiB (push_of (PushRules ceiling)))"
    "notLooser (MaxInspectPackMiB (push_of (PushRules out))) (MaxInspectPackMiB (push_of (PushRules ceiling)))"
    unfolding f using clamped_push_within by blast+
  show "PushRules_IsSet (PushRules ceiling) \<longrightarrow>
      notLooser (HoldSeconds (push_of (PushRules out))) (HoldSeconds (push_of (PushRules ceiling)))"
    unfolding f using push_hold_within by blast
  have "AutoStopAfterSec out = push_cap (AutoStopAfterSec ceiling) (AutoStopAfterSec proposed)" by (simp add: f push_cap_def)
  then show "notLooser (AutoStopAfterSec out) (AutoStopAfterSec ceiling)" using c_cap.below by simp
  show "WorkspaceMounts out = []" by (simp add: f)
  show "LLMInspection out = map_option (\<lambda>li. li\<lparr>WorkspaceSecretValues := []\<rparr>) (LLMInspection ceiling)" by (simp add: f)
  show "UIApps ceiling \<noteq> [] \<longrightarrow> (\<forall>a\<in>set (UIApps out). \<exists>c\<in>set (UIApps ceiling). AName c = AName a \<and> APort c = APort a \<and>
       (Inbound a \<longrightarrow> Inbound c \<and> set (Callers a) \<subseteq> set (Callers c)))"
    using apps_clamp_mem [of _ "UIApps ceiling" "UIApps proposed"] by (auto simp: f clampUIApps_def split: prod.splits if_splits)
qed

text \<open>
  C35: the clamp keeps tool rules well formed. Where a policy write would accept both the proposal's rules and the
  ceiling's, it accepts the clamped rules exactly if there are at most thirty-two of them: every rule is still named
  once, under a plain name and with a known effect, and each tool either side names is among them.
\<close>

theorem Clamp_tool_rules_valid:
  fixes eff hostname proposed ceiling limits
  defines "out \<equiv> fst (Clamp eff hostname proposed ceiling limits)"
  assumes "validateToolRules (ToolRules proposed) = None" "validateToolRules (ToolRules ceiling) = None"
  shows "(validateToolRules (ToolRules out) = None \<longleftrightarrow> length (ToolRules out) \<le> maxToolRulesPerPolicy) \<and>
    Tool ` set (ToolRules out) = Tool ` set (ToolRules proposed) \<union> Tool ` set (ToolRules ceiling)"
proof -
  let ?p = "ToolRules proposed" and ?c = "ToolRules ceiling"
  have o: "ToolRules out = clamped_tools ceiling ?p" by (simp add: out_def Clamp_def Let_def clamp_fields)
  note v = assms(2,3) [unfolded validateToolRules_None]
  have "(\<forall>r\<in>set (ToolRules out). rule_ok r) \<and> distinct (map Tool (ToolRules out))"
  proof (cases "?p = []")
    case False
    then show ?thesis using v raise_rules_ok [of ceiling ?p] raise_rules_tools [of ceiling ?p] raise_rules_mem(2) [of ceiling ?p]
      by (auto simp: o clamped_tools_def distinct_map_filter) (metis imageI)
  qed (use v in \<open>simp add: o clamped_tools_def\<close>)
  moreover have "Tool ` set (ToolRules out) = Tool ` set ?p \<union> Tool ` set ?c"
    using raise_rules_mem(2) [of ceiling ?p] by (auto simp: o clamped_tools_def image_Un)
  ultimately show ?thesis by (simp add: validateToolRules_None)
qed

lemma fst_boundRunUserSpec:
  "fst (boundRunUserSpec_clamp eff hostname spec ceiling limits authored member) =
     fst (ClampMember eff hostname (spec\<lparr>AllowedDomains := fst (dropUncoveredPrivateLiterals (AllowedDomains spec) ceiling)\<rparr>)
       ceiling limits authored member)"
  by (simp add: boundRunUserSpec_clamp_def Let_def case_prod_unfold)

lemma dropped_kept:
  assumes "AllowAllEgress ceiling" "d \<in> set (fst (dropUncoveredPrivateLiterals ds ceiling))"
  shows "\<not> ExceedsLiteralTrust (CompilePolicy (empty_spec\<lparr>AllowedDomains := AllowedDomains ceiling\<rparr>)) d"
  using assms by (auto simp: dropUncoveredPrivateLiterals_def Let_def filter_empty_conv split: if_splits)

text \<open>An exact private literal that does not exceed an authority is named by it.\<close>

lemma literal_trust_covered:
  assumes "\<not> ExceedsLiteralTrust (CompilePolicy s) d" "Classify d = (k, [], q)" "ParseIP k = Some ip" "block_kind ip = blockPrivate"
    and "k \<noteq> []" "q = 0 \<or> 0 < port \<and> q = port"
  shows "names_exact (AllowedDomains s) k port"
  using assms by (auto simp: ExceedsLiteralTrust_def names_exact_iff compile_exact compile_exact_port split: if_splits)

lemma bounded_literal:
  fixes eff hostname spec ceiling limits authored member
  defines "out \<equiv> fst (boundRunUserSpec_clamp eff hostname spec ceiling limits authored member)"
  assumes "ParseIP k = Some ip" "block_kind ip = blockPrivate" "names_exact (AllowedDomains out) k port"
  shows "names_exact (AllowedDomains ceiling) k port \<or>
    (\<exists>li d. LLMInspection ceiling = Some li \<and> hostname (TrimSpace (DetectorSidecarURL li)) = Some d \<and> names_exact [d] k port)"
proof -
  let ?ds = "fst (dropUncoveredPrivateLiterals (AllowedDomains spec) ceiling)"
  have a: "AllowedDomains out = sidecar_domains hostname (LLMInspection ceiling) (AllowAllEgress spec \<and> AllowAllEgress ceiling)
      (clamped_domains ceiling ?ds)"
    by (simp add: out_def fst_boundRunUserSpec ClampMember_def clamp_fields)
  obtain d q where d: "d \<in> set (AllowedDomains out)" "Classify d = (k, [], q)" "k \<noteq> []" "q = 0 \<or> 0 < port \<and> q = port"
    using assms(4) by (auto simp: names_exact_iff)
  have one: "names_exact [d] k port" using d(2-4) by (auto simp: names_exact_iff)
  consider (side) li where "LLMInspection ceiling = Some li" "hostname (TrimSpace (DetectorSidecarURL li)) = Some d"
    | (own) "d \<in> set (clamped_domains ceiling ?ds)"
    using d(1) go_union_mem(1) unfolding a by (fastforce simp: sidecar_domains_def split: option.splits if_splits)
  then show ?thesis
  proof cases
    case side
    then show ?thesis using one by blast
  next
    case own
    show ?thesis
    proof (cases "AllowAllEgress ceiling")
      case True
      then have "\<not> ExceedsLiteralTrust (CompilePolicy (empty_spec\<lparr>AllowedDomains := AllowedDomains ceiling\<rparr>)) d"
        using own by (simp add: clamped_domains_def dropped_kept)
      from literal_trust_covered [OF this d(2) assms(2,3) d(3,4)] show ?thesis by simp
    next
      case False
      then obtain c where c: "c \<in> set (AllowedDomains ceiling)" "folded d = folded c"
        using own by (auto simp: clamped_domains_def toSet_def)
      then have "parseDomEntry c = parseDomEntry d" by (metis parse_folded)
      then have "parsed [c] = parsed [d]" by (simp add: parsed_def List.map_filter_def)
      then have "names_exact [c] k port" using one by (simp only: names_exact_def)
      then show ?thesis using c(1) by (auto simp: names_exact_iff)
    qed
  qed
qed

text \<open>
  C29: a member cannot give their own run trust in a private address. After the first steps of the member pipeline
  (\<open>dropUncoveredPrivateLiterals\<close>, then the clamp) the run's policy lets a private-range literal past the address guard only if the operator's ceiling
  does, its denials included, or the literal is the host of the ceiling's own detector sidecar and the ceiling does not deny
  it. It holds for every proposal, and for ceilings that allow all egress, which keep a member's entries, as well as for
  those that do not.
\<close>

theorem member_literal_trust:
  fixes eff hostname spec ceiling limits authored member
  defines "out \<equiv> fst (boundRunUserSpec_clamp eff hostname spec ceiling limits authored member)"
  assumes "ParseIP (CanonHost h) = Some ip" "block_kind ip = blockPrivate" "AllowsLiteralIP (CompilePolicy out) h port"
  shows "AllowsLiteralIP (CompilePolicy ceiling) h port \<or>
    (\<exists>li d. LLMInspection ceiling = Some li \<and> hostname (TrimSpace (DetectorSidecarURL li)) = Some d \<and>
       AllowsLiteralIP (CompilePolicy (empty_spec\<lparr>AllowedDomains := [d], DeniedDomains := DeniedDomains ceiling\<rparr>)) h port)"
proof -
  have "DeniedDomains out = clamped_denied ceiling (DeniedDomains spec)"
    by (simp add: out_def fst_boundRunUserSpec ClampMember_def clamp_fields)
  then have "leqDeniedDomains (DeniedDomains out) (DeniedDomains ceiling)"
    using folded_denied [OF go_union_mem(2) [of "DeniedDomains ceiling" "DeniedDomains spec"]]
    by (cases "DeniedDomains ceiling") (simp_all add: clamped_denied_def leqDeniedDomains_iff)
  then have "\<not> names_exact (DeniedDomains ceiling) (CanonHost h) port"
    using assms(4) leqDeniedDomains_exact unfolding AllowsLiteralIP_compile by blast
  moreover have "names_exact (AllowedDomains out) (CanonHost h) port" using assms(4) by (simp add: AllowsLiteralIP_compile)
  note bounded_literal [OF assms(2,3) this [unfolded out_def]]
  ultimately show ?thesis unfolding AllowsLiteralIP_compile by simp
qed

subsection \<open>Examples\<close>

text \<open>An operator's ceiling, and a proposal that asks for more of everything.\<close>

definition sample_ceiling :: RunPolicySpec where
  "sample_ceiling = empty_spec\<lparr>AllowedDomains := [''example.com'', ''*.corp.example:443''], DeniedDomains := [''bad.example.com''],
     AllowedMethods := [''GET''], MinConfinementClass := ''CC2'', AutoStopAfterSec := 600,
     ToolRules := [\<lparr>Tool = ''Bash'', Effect = ToolDeny\<rparr>]\<rparr>"

definition sample_proposal :: RunPolicySpec where
  "sample_proposal = empty_spec\<lparr>AllowedDomains := ['' Example.com'', ''evil.example''], AllowAllEgress := True, AllowedMethods := [''POST''],
     FirstUseApproval := FirstUseWaitForReview, MinConfinementClass := ''CC1'', GitPushAnyBranch := True,
     ToolRules := [\<lparr>Tool = ''*'', Effect = ToolAllow\<rparr>]\<rparr>"

definition sample_clamped :: RunPolicySpec where
  "sample_clamped = fst (Clamp (EffectiveLimits default_sizing) (\<lambda>_. None) sample_proposal sample_ceiling empty_limits)"

lemma sample_clamps:
  "AllowedDomains sample_clamped = ['' Example.com'']" "DeniedDomains sample_clamped = [''bad.example.com'']"
  "ToolRules sample_clamped = [\<lparr>Tool = ''*'', Effect = ToolHold\<rparr>, \<lparr>Tool = ''Bash'', Effect = ToolDeny\<rparr>]"
  "AllowedMethods sample_clamped = [''GET'']" "AutoStopAfterSec sample_clamped = 600"
  by code_simp+

lemma Clamp_posture_witness:
  "validateToolRules (ToolRules sample_ceiling) = None \<and>
   confinementRank (MinConfinementClass sample_ceiling) \<le> confinementRank (MinConfinementClass sample_clamped) \<and>
   \<not> GitPushAnyBranch sample_clamped \<and> leqToolRules (ToolRules sample_clamped) (ToolRules sample_ceiling) \<and>
   notLooser (AutoStopAfterSec sample_clamped) 600"
proof -
  have v: "validateToolRules (ToolRules sample_ceiling) = None" by code_simp
  have n: "\<not> GitPushAnyBranch sample_ceiling" "AutoStopAfterSec sample_ceiling = 600" by (simp_all add: sample_ceiling_def empty_spec_def)
  show ?thesis
    using Clamp_posture_bounded [OF v, of "EffectiveLimits default_sizing" "\<lambda>_. None" sample_proposal empty_limits,
        folded sample_clamped_def] v n by simp
qed

lemma Clamp_tool_rules_witness:
  "validateToolRules (ToolRules sample_proposal) = None \<and> validateToolRules (ToolRules sample_ceiling) = None \<and>
   validateToolRules (ToolRules sample_clamped) = None \<and> Tool ` set (ToolRules sample_clamped) = {''*'', ''Bash''}"
proof -
  have v: "validateToolRules (ToolRules sample_proposal) = None" "validateToolRules (ToolRules sample_ceiling) = None" by code_simp+
  have "length (ToolRules sample_clamped) \<le> maxToolRulesPerPolicy" by code_simp
  then show ?thesis
    using Clamp_tool_rules_valid [OF v, of "EffectiveLimits default_sizing" "\<lambda>_. None" empty_limits, folded sample_clamped_def] v
    by (auto simp: sample_proposal_def sample_ceiling_def empty_spec_def)
qed

lemma Clamp_sizes_witness:
  "let eff = EffectiveLimits default_sizing;
       r = resources_of (Resources (fst (Clamp eff (\<lambda>_. None) sample_proposal
             (sample_ceiling\<lparr>Resources := Some (empty_resources\<lparr>MemoryMiB := 512\<rparr>)\<rparr>) (empty_limits\<lparr>MaxCPUMillis := 4000\<rparr>))))
   in notLooser (MemoryMiB r) 512 \<and> 0 < CPUMillis r \<and> CPUMillis r \<le> max 4000 (sz_CPUMillis eff)"
proof -
  have e: "0 < sz_CPUMillis (EffectiveLimits default_sizing)" "0 < sz_MemoryMiB (EffectiveLimits default_sizing)"
    "0 < sz_PidsLimit (EffectiveLimits default_sizing)" by code_simp+
  show ?thesis
    using Clamp_sizes_bounded [OF e, of "\<lambda>_. None" sample_proposal
        "sample_ceiling\<lparr>Resources := Some (empty_resources\<lparr>MemoryMiB := 512\<rparr>)\<rparr>" "empty_limits\<lparr>MaxCPUMillis := 4000\<rparr>"]
    by (simp add: Let_def resources_of_def empty_resources_def)
qed

definition literal_ceiling :: RunPolicySpec where
  "literal_ceiling = empty_spec\<lparr>AllowAllEgress := True, AllowedDomains := [''10.1.2.3'']\<rparr>"

definition literal_proposal :: RunPolicySpec where
  "literal_proposal = empty_spec\<lparr>AllowedDomains := [''10.1.2.3:443'', ''10.9.9.9'', ''example.com'']\<rparr>"

lemma member_literal_trust_witness:
  "let b = boundRunUserSpec_clamp (EffectiveLimits default_sizing) (\<lambda>_. None) literal_proposal literal_ceiling empty_limits empty_resources empty_resources
   in AllowedDomains (fst b) = [''10.1.2.3:443'', ''example.com''] \<and> fst (snd b) = [''10.9.9.9''] \<and>
      AllowsLiteralIP (CompilePolicy literal_ceiling) ''10.1.2.3'' 443"
proof -
  let ?b = "boundRunUserSpec_clamp (EffectiveLimits default_sizing) (\<lambda>_. None) literal_proposal literal_ceiling empty_limits empty_resources empty_resources"
  have b: "AllowedDomains (fst ?b) = [''10.1.2.3:443'', ''example.com'']" "fst (snd ?b) = [''10.9.9.9'']" by code_simp+
  have i: "ParseIP (CanonHost ''10.1.2.3'') = Some (IPv4 10 1 2 3)" "block_kind (IPv4 10 1 2 3) = blockPrivate"
    "AllowsLiteralIP (CompilePolicy (fst ?b)) ''10.1.2.3'' 443" "LLMInspection literal_ceiling = None" by code_simp+
  show ?thesis using member_literal_trust [OF i(1-3)] i(4) b unfolding Let_def by simp
qed

text \<open>Two places where the clamp and its neighbours disagree: a pack cap the ceiling leaves to the default of its active
  rules is not held to that default, as the order and the proxy read it; and the rules of a proposal and a ceiling, each
  acceptable, can merge into more than a policy write accepts.\<close>

lemma clamp_pack_default:
  "let c = Some (empty_push\<lparr>DenyPaths := [''a'']\<rparr>); p = Some (empty_push\<lparr>MaxInspectPackMiB := 500\<rparr>)
   in MaxInspectPackMiB (push_of (clamped_push c p)) = 500 \<and> packCap (push_of c) = 32 \<and> \<not> leqPush (clamped_push c p) c"
  by code_simp

lemma clamp_rules_overflow:
  "let proposed = map (\<lambda>i. \<lparr>Tool = ''t'' @ Itoa (int i), Effect = ToolDeny\<rparr>) [0..<32];
       ceiling = empty_spec\<lparr>ToolRules := [\<lparr>Tool = ''Bash'', Effect = ToolDeny\<rparr>]\<rparr>
   in validateToolRules proposed = None \<and> validateToolRules (ToolRules ceiling) = None \<and>
      validateToolRules (clamped_tools ceiling proposed) = Some (TooManyRules 33)"
  by code_simp

end
