(* ===== verification/RiskGrade.thy ===== *)
theory RiskGrade
  imports PolicyClamp "HOL-Library.Multiset"
begin

section \<open>Risk grade and autonomy: internal/composer/risk.go, internal/composer/autonomy.go\<close>

text \<open>
  \<open>Grade\<close> lists the notable choices of a run setup with a level each, riskiest first; \<open>RequiredConfinementFloor\<close> is the
  class its credentials require; \<open>AutonomyPostureOf\<close> grades its egress, secrets and confinement, and \<open>FoldAutonomy\<close> folds
  a profile's rubric against that posture. All are functions of the spec. The rationale sentence of an item is left out.
  The lemmas show what makes a setup high risk, and that a narrower rubric never permits a higher level.
\<close>

subsection \<open>Items and levels\<close>

type_synonym RiskLevel = string

definition RiskLow :: RiskLevel where "RiskLow = ''low''"
definition RiskMedium :: RiskLevel where "RiskMedium = ''medium''"
definition RiskHigh :: RiskLevel where "RiskHigh = ''high''"

lemmas risk_levels = RiskLow_def RiskMedium_def RiskHigh_def

definition Risk_rank :: "RiskLevel \<Rightarrow> int" where
  "Risk_rank l = (if l = RiskHigh then 3 else if l = RiskMedium then 2 else if l = RiskLow then 1 else 0)"

record RiskItem =
  RField :: string
  RValue :: string
  RLevel :: RiskLevel
  InvariantRef :: string

definition risk_item :: "string \<Rightarrow> string \<Rightarrow> RiskLevel \<Rightarrow> string \<Rightarrow> RiskItem" where
  "risk_item f v l iv = \<lparr>RField = f, RValue = v, RLevel = l, InvariantRef = iv\<rparr>"

text \<open>\<open>strings.Join\<close> with a comma, and a field name with its index.\<close>

fun join_comma :: "string list \<Rightarrow> string" where
  "join_comma [] = []"
| "join_comma [s] = s"
| "join_comma (s # ss) = s @ '','' @ join_comma ss"

definition indexed :: "string \<Rightarrow> nat \<Rightarrow> string" where
  "indexed f i = f @ ''['' @ Itoa (int i) @ '']''"

subsection \<open>The baseline\<close>

definition safeBaselineDomains :: "string list" where
  "safeBaselineDomains =
     [''api.anthropic.com'', ''api.openai.com'', ''generativelanguage.googleapis.com'', ''github.com'', ''api.github.com'',
      ''codeload.github.com'', ''objects.githubusercontent.com'', ''registry.npmjs.org'', ''registry.yarnpkg.com'',
      ''pypi.org'', ''files.pythonhosted.org'', ''proxy.golang.org'', ''sum.golang.org'', ''repo.maven.apache.org'',
      ''repo1.maven.org'', ''plugins.gradle.org'', ''services.gradle.org'', ''crates.io'', ''static.crates.io'',
      ''index.crates.io'', ''rubygems.org'', ''repo.packagist.org'', ''api.nuget.org'', ''hex.pm'', ''pub.dev'']"

record Baseline =
  BHosts :: "string list"
  BSuffixes :: "string list"

definition Baseline_Has :: "Baseline \<Rightarrow> string \<Rightarrow> bool" where
  "Baseline_Has b host =
     (if Contains host ''*'' then False
      else let h = fst (Classify host) in h \<in> set safeBaselineDomains \<or> h \<in> set (BHosts b) \<or> h \<in> set (BSuffixes b))"

definition beyond :: "Baseline \<Rightarrow> string list \<Rightarrow> string list" where
  "beyond b domains = sort (filter (\<lambda>d. \<not> Baseline_Has b d) domains)"

subsection \<open>Grants\<close>

text \<open>The two anonymous structs a scope is decoded into: the permissions of a GitHub token, and the host of a grant.\<close>

definition perms_field :: "string \<Rightarrow> json \<Rightarrow> (string \<times> string) list option \<Rightarrow> (string \<times> string) list option \<times> bool" where
  "perms_field k v m = (if k = ''permissions'' then set_map v m else (m, True))"

definition host_field :: "string \<Rightarrow> json \<Rightarrow> string \<Rightarrow> string \<times> bool" where
  "host_field k v h = (if k = ''host'' then set_str v h else (h, True))"

definition githubWritePerms :: "raw_message \<Rightarrow> string list" where
  "githubWritePerms scope =
     (if scope = RawEmpty then []
      else case unmarshal perms_field None scope of (m, ok) \<Rightarrow>
        if \<not> ok then []
        else sort (map (\<lambda>(perm, level). perm @ '':'' @ ToLower level)
               (filter (\<lambda>(perm, level). ToLower level = ''write'' \<or> ToLower level = ''admin'')
                 (case m of None \<Rightarrow> [] | Some kvs \<Rightarrow> kvs))))"

definition grantIsWriteCapable :: "GrantSpec \<Rightarrow> bool" where
  "grantIsWriteCapable g =
     (if Kind g = GrantGitHubToken then githubWritePerms (Scope g) \<noteq> [] else Kind g = GrantCloudSTS)"

definition apiKeyToNonBaselineHost :: "GrantSpec \<Rightarrow> Baseline \<Rightarrow> bool" where
  "apiKeyToNonBaselineHost g b =
     (if Kind g \<noteq> GrantAPIKey \<or> Scope g = RawEmpty then False
      else case unmarshal host_field [] (Scope g) of (h, ok) \<Rightarrow>
        if \<not> ok then False else let host = ToLower (TrimSpace h) in host \<noteq> [] \<and> \<not> Baseline_Has b host)"

definition RequiredConfinementFloor :: "RunPolicySpec \<Rightarrow> Baseline \<Rightarrow> ConfinementClass" where
  "RequiredConfinementFloor spec b =
     (if list_ex (\<lambda>g. grantIsWriteCapable g \<or> apiKeyToNonBaselineHost g b) (EligibleGrants spec) then ''CC3'' else [])"

definition pushRulesUnenforceable :: "GrantSpec list \<Rightarrow> bool" where
  "pushRulesUnenforceable grants =
     (list_ex (\<lambda>g. Kind g = GrantSSHKey) grants \<and>
      \<not> list_ex (\<lambda>g. Kind g = GrantGitHubToken \<or> Kind g = GrantGitPAT) grants)"

definition pat_host :: "GrantSpec \<Rightarrow> string option" where
  "pat_host g =
     (if Kind g \<noteq> GrantGitPAT then None
      else case unmarshal host_field [] (Scope g) of (h, ok) \<Rightarrow>
        if \<not> ok then None
        else let h' = ToLower (TrimRight (TrimSpace h) ''.'') in
          if h' \<noteq> [] \<and> h' \<noteq> ''github.com'' then Some h' else None)"

definition nonGitHubPATHosts :: "GrantSpec list \<Rightarrow> string list" where
  "nonGitHubPATHosts grants = sort_compact (List.map_filter pat_host grants)"

definition grant_item :: "string \<Rightarrow> GrantSpec \<Rightarrow> RiskItem" where
  "grant_item fld g =
     (if Kind g = GrantGitHubToken then
        (if githubWritePerms (Scope g) \<noteq> [] then risk_item fld ''github_token (write)'' RiskHigh ''2''
         else risk_item fld ''github_token (read)'' RiskMedium ''2'')
      else if Kind g = GrantAPIKey then risk_item fld ''api_key'' RiskMedium ''1''
      else if Kind g = GrantCloudSTS then risk_item fld ''cloud_sts'' RiskHigh ''5''
      else if Kind g = GrantGitPAT then risk_item fld ''git_pat'' RiskHigh ''2''
      else if Kind g = GrantSSHKey then risk_item fld ''ssh_key'' RiskHigh ''2''
      else if Kind g = GrantEnvSecret then risk_item fld ''env_secret'' RiskHigh ''2''
      else if Kind g = GrantFileSecret then risk_item fld ''file_secret'' RiskHigh ''2''
      else risk_item fld (Kind g) RiskMedium [])"

definition gradeGrant :: "nat \<times> GrantSpec \<Rightarrow> RiskItem list" where
  "gradeGrant ig =
     (case ig of (i, g) \<Rightarrow>
      let fld = indexed ''eligible_grants'' i in
      grant_item fld g #
      (if \<not> RequiresApproval g \<and> grantIsWriteCapable g then [risk_item (fld @ ''.requires_approval'') ''false'' RiskHigh ''2'']
       else if RequiresApproval g then [risk_item (fld @ ''.requires_approval'') ''true'' RiskLow ''2'']
       else []))"

subsection \<open>The grade\<close>

record RunInput =
  RAgent :: string
  RRepo :: string
  RTask :: string
  RConfinementClass :: string
  Interactive :: bool
  DevcontainerRepo :: string
  RunBaseline :: Baseline

definition grade_confinement :: "RunPolicySpec \<Rightarrow> RiskItem" where
  "grade_confinement spec =
     (let c = ToUpper (TrimSpace (MinConfinementClass spec)) in
      if c = ''CC1'' then risk_item ''min_confinement_class'' ''CC1'' RiskHigh ''5''
      else if c = ''CC3'' then risk_item ''min_confinement_class'' ''CC3'' RiskLow ''5''
      else if c = ''CC2'' then risk_item ''min_confinement_class'' ''CC2'' RiskMedium ''5''
      else risk_item ''min_confinement_class'' (MinConfinementClass spec) RiskMedium ''5'')"

definition grade_egress :: "RunInput \<Rightarrow> RunPolicySpec \<Rightarrow> RiskItem list" where
  "grade_egress run spec =
     (if AllowAllEgress spec then [risk_item ''allow_all_egress'' ''true'' RiskHigh ''3'']
      else let extra = beyond (RunBaseline run) (AllowedDomains spec) in
        if extra \<noteq> [] then [risk_item ''allowed_domains'' (join_comma extra) RiskMedium ''3'']
        else if AllowedDomains spec \<noteq> [] then [risk_item ''allowed_domains'' (join_comma (AllowedDomains spec)) RiskLow ''3'']
        else [])"

definition grade_first_use :: "RunPolicySpec \<Rightarrow> RiskItem list" where
  "grade_first_use spec =
     (if \<not> AllowAllEgress spec \<and> AllowedDomains spec \<noteq> [] then
        let m = FirstUse_Normalize (FirstUseApproval spec) in
        [if m = FirstUseWaitForReview then risk_item ''first_use_approval'' ''wait_for_review'' RiskLow ''3''
         else if m = FirstUseDenyWithReview then risk_item ''first_use_approval'' ''deny_with_review'' RiskLow ''3''
         else risk_item ''first_use_approval'' ''always_deny'' RiskMedium ''3'']
      else [])"

definition roLabel :: "bool \<Rightarrow> string" where
  "roLabel ro = (if ro then ''ro'' else ''rw'')"

definition grade_mount :: "nat \<times> WorkspaceMount \<Rightarrow> RiskItem" where
  "grade_mount im =
     (case im of (i, m) \<Rightarrow>
      let ro = ReadOnlyOrDefault m in
      risk_item (indexed ''workspace_mounts'' i) (MTarget m @ '' ('' @ roLabel ro @ '')'') (if ro then RiskLow else RiskHigh) ''1'')"

definition grade_push :: "RunPolicySpec \<Rightarrow> RiskItem list" where
  "grade_push spec =
     (if GitPushAnyBranch spec then [risk_item ''git_push_any_branch'' ''true'' RiskHigh ''2''] else []) @
     (if PushRules_IsSet (PushRules spec) \<and> pushRulesUnenforceable (EligibleGrants spec)
      then [risk_item ''push_rules'' ''set'' RiskMedium ''2''] else []) @
     (case PushRules spec of
        None \<Rightarrow> []
      | Some p \<Rightarrow> if DenyPaths p = [] then []
          else map (\<lambda>h. risk_item ''push_rules'' (''deny_paths on '' @ h) RiskMedium ''2'') (nonGitHubPATHosts (EligibleGrants spec)))"

definition grade_auto_stop :: "RunInput \<Rightarrow> RunPolicySpec \<Rightarrow> RiskItem list" where
  "grade_auto_stop run spec =
     (if AutoStopAfterSec spec \<le> 0 then
        let v = Itoa (AutoStopAfterSec spec) in
        [if Interactive run then risk_item ''auto_stop_after_sec'' v RiskLow []
         else risk_item ''auto_stop_after_sec'' v RiskHigh ''6'']
      else [])"

definition grade_items :: "RunInput \<Rightarrow> RunPolicySpec \<Rightarrow> RiskItem list" where
  "grade_items run spec =
     [grade_confinement spec] @ grade_egress run spec @ grade_first_use spec @
     concat (map gradeGrant (enumerate 0 (EligibleGrants spec))) @
     map grade_mount (enumerate 0 (WorkspaceMounts spec)) @ grade_push spec @ grade_auto_stop run spec"

text \<open>\<open>sort.SliceStable\<close>, riskiest first.\<close>

definition Grade :: "RunInput \<Rightarrow> RunPolicySpec \<Rightarrow> RiskItem list" where
  "Grade run spec = sort_key (\<lambda>it. - Risk_rank (RLevel it)) (grade_items run spec)"

definition OverallLevel :: "RiskItem list \<Rightarrow> RiskLevel" where
  "OverallLevel items = fold (\<lambda>it mx. if Risk_rank (RLevel it) > Risk_rank mx then RLevel it else mx) items RiskLow"

subsection \<open>Autonomy\<close>

definition AutonomyEgressOpen :: string where "AutonomyEgressOpen = ''open''"
definition AutonomyEgressReviewed :: string where "AutonomyEgressReviewed = ''reviewed''"
definition AutonomyEgressSealed :: string where "AutonomyEgressSealed = ''sealed''"
definition AutonomySecretsPowerful :: string where "AutonomySecretsPowerful = ''powerful''"
definition AutonomySecretsBaseline :: string where "AutonomySecretsBaseline = ''baseline''"
definition AutonomySecretsNone :: string where "AutonomySecretsNone = ''none''"

lemmas posture_names = AutonomyEgressOpen_def AutonomyEgressReviewed_def AutonomyEgressSealed_def
  AutonomySecretsPowerful_def AutonomySecretsBaseline_def AutonomySecretsNone_def

record AutonomyPosture =
  ap_Egress :: string
  ap_Secrets :: string
  ap_Confinement :: ConfinementClass

definition autonomyEgress :: "RunPolicySpec \<Rightarrow> Baseline \<Rightarrow> string" where
  "autonomyEgress spec b =
     (if AllowAllEgress spec \<or> beyond b (AllowedDomains spec) \<noteq> [] then AutonomyEgressOpen
      else if RaisesApproval (FirstUseApproval spec) then AutonomyEgressReviewed
      else AutonomyEgressSealed)"

definition autonomySecrets :: "RunPolicySpec \<Rightarrow> Baseline \<Rightarrow> string" where
  "autonomySecrets spec b =
     (if EligibleGrants spec = [] then AutonomySecretsNone
      else if list_ex (\<lambda>g. grantIsWriteCapable g \<or> apiKeyToNonBaselineHost g b \<or>
                 Kind g \<in> {GrantGitPAT, GrantSSHKey, GrantEnvSecret, GrantFileSecret}) (EligibleGrants spec)
      then AutonomySecretsPowerful
      else AutonomySecretsBaseline)"

definition autonomyConfinement :: "ConfinementClass \<Rightarrow> ConfinementClass" where
  "autonomyConfinement enforced = (if enforced = [] then ''CC1'' else enforced)"

definition AutonomyPostureOf :: "RunPolicySpec \<Rightarrow> ConfinementClass \<Rightarrow> Baseline \<Rightarrow> AutonomyPosture" where
  "AutonomyPostureOf spec enforced b =
     \<lparr>ap_Egress = autonomyEgress spec b, ap_Secrets = autonomySecrets spec b, ap_Confinement = autonomyConfinement enforced\<rparr>"

type_synonym autonomyCap = "string \<times> AutonomyLevel"

definition applicableAutonomyCaps :: "AutonomyRubric \<Rightarrow> AutonomyPosture \<Rightarrow> autonomyCap list" where
  "applicableAutonomyCaps r p =
     (if ap_Egress p = AutonomyEgressOpen then [(''egress_open'', EgressOpen r)]
      else if ap_Egress p = AutonomyEgressReviewed then [(''egress_reviewed'', EgressReviewed r)]
      else if ap_Egress p = AutonomyEgressSealed then [(''egress_sealed'', EgressSealed r)] else []) @
     (if ap_Secrets p = AutonomySecretsPowerful then [(''secrets_powerful'', SecretsPowerful r)]
      else if ap_Secrets p = AutonomySecretsBaseline then [(''secrets_baseline'', SecretsBaseline r)]
      else if ap_Secrets p = AutonomySecretsNone then [(''secrets_none'', SecretsNone r)] else []) @
     (if ap_Confinement p = ''CC1'' then [(''confinement_cc1'', ConfinementCC1 r)]
      else if ap_Confinement p = ''CC2'' then [(''confinement_cc2'', ConfinementCC2 r)]
      else if ap_Confinement p = ''CC3'' then [(''confinement_cc3'', ConfinementCC3 r)] else [])"

definition fold_cap :: "autonomyCap \<Rightarrow> AutonomyLevel \<times> string list \<Rightarrow> AutonomyLevel \<times> string list" where
  "fold_cap c acc =
     (case acc of (level, boundBy) \<Rightarrow>
      if snd c = [] then (level, boundBy)
      else if boundBy = [] \<or> Autonomy_Rank (snd c) < Autonomy_Rank level then (snd c, [fst c])
      else if Autonomy_Rank (snd c) = Autonomy_Rank level then (level, boundBy @ [fst c])
      else (level, boundBy))"

definition FoldAutonomy :: "AutonomyRubric \<Rightarrow> AutonomyPosture \<Rightarrow> AutonomyLevel \<times> string list" where
  "FoldAutonomy rubric posture = fold fold_cap (applicableAutonomyCaps rubric posture) ([], [])"

subsection \<open>What is high risk\<close>

lemma rank_high: "Risk_rank l \<le> 3" "Risk_rank l = 3 \<longleftrightarrow> l = RiskHigh"
  by (auto simp: Risk_rank_def risk_levels)

lemma overall_fold:
  "fold (\<lambda>it mx. if Risk_rank (RLevel it) > Risk_rank mx then RLevel it else mx) items mx = RiskHigh \<longleftrightarrow>
     mx = RiskHigh \<or> (\<exists>it\<in>set items. RLevel it = RiskHigh)"
proof (induction items arbitrary: mx)
  case (Cons it items)
  have "(if Risk_rank (RLevel it) > Risk_rank mx then RLevel it else mx) = RiskHigh \<longleftrightarrow> mx = RiskHigh \<or> RLevel it = RiskHigh"
    using rank_high(1) [of "RLevel it"] rank_high(1) [of mx] rank_high(2) [of "RLevel it"] rank_high(2) [of mx] by auto
  then show ?case using Cons by auto
qed simp

lemma overall_high: "OverallLevel items = RiskHigh \<longleftrightarrow> (\<exists>it\<in>set items. RLevel it = RiskHigh)"
proof -
  have "RiskLow \<noteq> RiskHigh" by (simp add: risk_levels)
  then show ?thesis unfolding OverallLevel_def overall_fold by blast
qed

lemma RLevel_item [simp]: "RLevel (risk_item f v l iv) = l"
  by (simp add: risk_item_def)

definition standing_credential :: "GrantSpec \<Rightarrow> bool" where
  "standing_credential g \<longleftrightarrow> Kind g \<in> {GrantCloudSTS, GrantGitPAT, GrantSSHKey, GrantEnvSecret, GrantFileSecret}"

lemma gradeGrant_high:
  "(\<exists>it\<in>set (gradeGrant (i, g)). RLevel it = RiskHigh) \<longleftrightarrow> grantIsWriteCapable g \<or> standing_credential g"
  by (simp add: gradeGrant_def grant_item_def standing_credential_def grantIsWriteCapable_def Let_def grant_kind_defs risk_levels)

lemma set_enumerate_snd: "(\<exists>ig\<in>set (enumerate n xs). P (snd ig)) \<longleftrightarrow> (\<exists>x\<in>set xs. P x)"
  by (metis (no_types, lifting) imageE image_eqI map_snd_enumerate set_map)

lemma grants_high:
  "(\<exists>it\<in>set (concat (map gradeGrant (enumerate 0 gs))). RLevel it = RiskHigh) \<longleftrightarrow>
     (\<exists>g\<in>set gs. grantIsWriteCapable g \<or> standing_credential g)"
proof -
  have "(\<exists>it\<in>set (concat (map gradeGrant (enumerate 0 gs))). RLevel it = RiskHigh) \<longleftrightarrow>
      (\<exists>ig\<in>set (enumerate 0 gs). \<exists>it\<in>set (gradeGrant (fst ig, snd ig)). RLevel it = RiskHigh)" by auto
  then show ?thesis unfolding gradeGrant_high set_enumerate_snd [where P = "\<lambda>g. grantIsWriteCapable g \<or> standing_credential g"] .
qed

lemma mounts_high:
  "(\<exists>it\<in>set (map grade_mount (enumerate 0 ms)). RLevel it = RiskHigh) \<longleftrightarrow> (\<exists>m\<in>set ms. \<not> ReadOnlyOrDefault m)"
proof -
  have "RLevel (grade_mount im) = RiskHigh \<longleftrightarrow> \<not> ReadOnlyOrDefault (snd im)" for im
    by (cases im) (simp add: grade_mount_def Let_def risk_levels)
  then have "(\<exists>it\<in>set (map grade_mount (enumerate 0 ms)). RLevel it = RiskHigh) \<longleftrightarrow>
      (\<exists>im\<in>set (enumerate 0 ms). \<not> ReadOnlyOrDefault (snd im))" by simp
  then show ?thesis unfolding set_enumerate_snd [where P = "\<lambda>m. \<not> ReadOnlyOrDefault m"] .
qed

lemma single_items_high:
  "RLevel (grade_confinement spec) = RiskHigh \<longleftrightarrow> ToUpper (TrimSpace (MinConfinementClass spec)) = ''CC1''"
  "(\<exists>it\<in>set (grade_egress run spec). RLevel it = RiskHigh) \<longleftrightarrow> AllowAllEgress spec"
  "\<not> (\<exists>it\<in>set (grade_first_use spec). RLevel it = RiskHigh)"
  "(\<exists>it\<in>set (grade_push spec). RLevel it = RiskHigh) \<longleftrightarrow> GitPushAnyBranch spec"
  "(\<exists>it\<in>set (grade_auto_stop run spec). RLevel it = RiskHigh) \<longleftrightarrow> AutoStopAfterSec spec \<le> 0 \<and> \<not> Interactive run"
  by (auto simp: grade_confinement_def grade_egress_def grade_first_use_def grade_push_def grade_auto_stop_def Let_def risk_levels
      split: option.splits if_splits)

text \<open>
  C34: what makes a setup high risk. The overall grade of a run is high exactly when its confinement is the weakest class,
  it allows all egress, it holds a write-capable or a standing credential, it mounts a host path read-write, it may push
  any branch, or nothing reaps it and nobody attends it; and the items are listed riskiest first, nothing lost.
\<close>

theorem grade_high_iff:
  "(OverallLevel (Grade run spec) = RiskHigh \<longleftrightarrow>
      ToUpper (TrimSpace (MinConfinementClass spec)) = ''CC1'' \<or> AllowAllEgress spec \<or>
      (\<exists>g\<in>set (EligibleGrants spec). grantIsWriteCapable g \<or> standing_credential g) \<or>
      (\<exists>m\<in>set (WorkspaceMounts spec). \<not> ReadOnlyOrDefault m) \<or>
      GitPushAnyBranch spec \<or> AutoStopAfterSec spec \<le> 0 \<and> \<not> Interactive run) \<and>
   sorted_wrt (\<lambda>a b. Risk_rank (RLevel b) \<le> Risk_rank (RLevel a)) (Grade run spec) \<and>
   mset (Grade run spec) = mset (grade_items run spec)"
proof -
  have dec: "(\<exists>it\<in>set (Grade run spec). P it) \<longleftrightarrow> P (grade_confinement spec) \<or> (\<exists>it\<in>set (grade_egress run spec). P it) \<or>
      (\<exists>it\<in>set (grade_first_use spec). P it) \<or> (\<exists>it\<in>set (concat (map gradeGrant (enumerate 0 (EligibleGrants spec)))). P it) \<or>
      (\<exists>it\<in>set (map grade_mount (enumerate 0 (WorkspaceMounts spec))). P it) \<or> (\<exists>it\<in>set (grade_push spec). P it) \<or>
      (\<exists>it\<in>set (grade_auto_stop run spec). P it)" for P
    unfolding Grade_def set_sort grade_items_def by (simp only: set_append bex_Un list.set bex_simps) blast
  have "OverallLevel (Grade run spec) = RiskHigh \<longleftrightarrow>
      ToUpper (TrimSpace (MinConfinementClass spec)) = ''CC1'' \<or> AllowAllEgress spec \<or>
      (\<exists>g\<in>set (EligibleGrants spec). grantIsWriteCapable g \<or> standing_credential g) \<or>
      (\<exists>m\<in>set (WorkspaceMounts spec). \<not> ReadOnlyOrDefault m) \<or>
      GitPushAnyBranch spec \<or> AutoStopAfterSec spec \<le> 0 \<and> \<not> Interactive run"
    unfolding overall_high dec grants_high mounts_high single_items_high(1,2,4,5) using single_items_high(3) [of spec] by blast
  moreover have "sorted_wrt (\<lambda>a b. Risk_rank (RLevel b) \<le> Risk_rank (RLevel a)) (Grade run spec)"
    using sorted_sort_key [of "\<lambda>it. - Risk_rank (RLevel it)" "grade_items run spec"]
    by (simp add: Grade_def sorted_map)
  ultimately show ?thesis by (simp add: Grade_def)
qed

subsection \<open>The autonomy level\<close>

text \<open>The fold keeps the smallest rank read so far and every field tied at it.\<close>

definition set_caps :: "autonomyCap list \<Rightarrow> autonomyCap list" where
  "set_caps cs = filter (\<lambda>c. snd c \<noteq> []) cs"

definition fold_ok :: "autonomyCap list \<Rightarrow> AutonomyLevel \<times> string list \<Rightarrow> bool" where
  "fold_ok cs acc \<longleftrightarrow>
     (if set_caps cs = [] then acc = ([], [])
      else fst acc \<in> snd ` set (set_caps cs) \<and> (\<forall>c\<in>set (set_caps cs). Autonomy_Rank (fst acc) \<le> Autonomy_Rank (snd c)) \<and>
        snd acc = map fst (filter (\<lambda>c. Autonomy_Rank (snd c) = Autonomy_Rank (fst acc)) (set_caps cs)))"

lemma fold_ok_names: "fold_ok cs acc \<Longrightarrow> snd acc = [] \<longleftrightarrow> set_caps cs = []"
  by (force simp: fold_ok_def filter_empty_conv split: if_splits)

lemma set_caps_snoc: "set_caps (cs @ [c]) = set_caps cs @ (if snd c = [] then [] else [c])"
  by (simp add: set_caps_def)

lemma fold_ok_more:
  assumes "fold_ok cs acc" "snd c \<noteq> []" "set_caps cs \<noteq> []"
  shows "fold_ok (cs @ [c]) (fold_cap c acc)"
proof -
  obtain level bs where a: "acc = (level, bs)" by force
  have f: "level \<in> snd ` set (set_caps cs)" "\<forall>c\<in>set (set_caps cs). Autonomy_Rank level \<le> Autonomy_Rank (snd c)"
    "bs = map fst (filter (\<lambda>c. Autonomy_Rank (snd c) = Autonomy_Rank level) (set_caps cs))"
    using assms by (auto simp: fold_ok_def a)
  have bs: "bs \<noteq> []" using fold_ok_names [OF assms(1)] assms(3) by (simp add: a)
  have s: "set_caps (cs @ [c]) = set_caps cs @ [c]" using assms(2) by (simp add: set_caps_snoc)
  consider "Autonomy_Rank (snd c) < Autonomy_Rank level" | "Autonomy_Rank (snd c) = Autonomy_Rank level"
    | "Autonomy_Rank level < Autonomy_Rank (snd c)" by linarith
  then show ?thesis
  proof cases
    case 1
    then have "\<forall>x\<in>set (set_caps cs). Autonomy_Rank (snd c) < Autonomy_Rank (snd x)" using f(2) by fastforce
    then have "filter (\<lambda>x. Autonomy_Rank (snd x) = Autonomy_Rank (snd c)) (set_caps cs) = []" by (force simp: filter_empty_conv)
    then show ?thesis using 1 assms(2) f(2) by (auto simp: fold_ok_def fold_cap_def a s)
  next
    case 2
    then show ?thesis using assms(2) f bs by (simp add: fold_ok_def fold_cap_def a s)
  next
    case 3
    then show ?thesis using assms(2) f bs by (simp add: fold_ok_def fold_cap_def a s)
  qed
qed

lemma fold_ok_step:
  assumes "fold_ok cs acc"
  shows "fold_ok (cs @ [c]) (fold_cap c acc)"
proof -
  consider (unset) "snd c = []" | (start) "snd c \<noteq> []" "set_caps cs = []" | (on) "snd c \<noteq> []" "set_caps cs \<noteq> []" by blast
  then show ?thesis
  proof cases
    case unset
    then have "fold_cap c acc = acc" "set_caps (cs @ [c]) = set_caps cs" by (simp_all add: fold_cap_def set_caps_snoc split: prod.split)
    then show ?thesis using assms by (simp add: fold_ok_def)
  next
    case start
    then show ?thesis using assms by (simp add: fold_ok_def fold_cap_def set_caps_snoc)
  next
    case on
    then show ?thesis by (rule fold_ok_more [OF assms])
  qed
qed

lemma fold_ok_fold: "fold_ok cs (fold fold_cap cs ([], []))"
  by (induction cs rule: rev_induct) (simp_all add: fold_ok_step, simp add: fold_ok_def set_caps_def)

lemma caps_aligned:
  assumes "leqRubric a b"
  shows "list_all2 (\<lambda>x y. fst x = fst y \<and> (snd y = [] \<or> snd x \<noteq> [] \<and> Autonomy_Rank (snd x) \<le> Autonomy_Rank (snd y)))
    (applicableAutonomyCaps (rubric_of a) p) (applicableAutonomyCaps (rubric_of b) p)"
  using assms by (simp add: leqRubric_def rubric_levels_def applicableAutonomyCaps_def split: if_splits)

lemma narrower_rubric:
  assumes "leqRubric a b" "fst (FoldAutonomy (rubric_of b) p) \<noteq> []"
  shows "fst (FoldAutonomy (rubric_of a) p) \<noteq> [] \<and>
    Autonomy_Rank (fst (FoldAutonomy (rubric_of a) p)) \<le> Autonomy_Rank (fst (FoldAutonomy (rubric_of b) p))"
proof -
  let ?ca = "applicableAutonomyCaps (rubric_of a) p" and ?cb = "applicableAutonomyCaps (rubric_of b) p"
  note oa = fold_ok_fold [of ?ca, folded FoldAutonomy_def] and ob = fold_ok_fold [of ?cb, folded FoldAutonomy_def]
  obtain y where y: "y \<in> set ?cb" "snd y \<noteq> []" "fst (FoldAutonomy (rubric_of b) p) = snd y"
    using ob assms(2) by (auto simp: fold_ok_def set_caps_def split: if_splits)
  then obtain i where i: "i < length ?cb" "?cb ! i = y" by (auto simp: in_set_conv_nth)
  have l: "length ?ca = length ?cb" using list_all2_lengthD [OF caps_aligned [OF assms(1)]] .
  have "snd (?ca ! i) \<noteq> [] \<and> Autonomy_Rank (snd (?ca ! i)) \<le> Autonomy_Rank (snd y)"
    using list_all2_nthD2 [OF caps_aligned [OF assms(1)] i(1)] i(2) y(2) by auto
  moreover have "?ca ! i \<in> set ?ca" using i(1) l by simp
  ultimately have x: "?ca ! i \<in> set (set_caps ?ca)" "Autonomy_Rank (snd (?ca ! i)) \<le> Autonomy_Rank (snd y)"
    by (simp_all add: set_caps_def)
  then have "set_caps ?ca \<noteq> []" by auto
  then have "fst (FoldAutonomy (rubric_of a) p) \<in> snd ` set (set_caps ?ca)"
    "Autonomy_Rank (fst (FoldAutonomy (rubric_of a) p)) \<le> Autonomy_Rank (snd (?ca ! i))"
    using oa x(1) by (auto simp: fold_ok_def)
  then show ?thesis using x(2) y(3) by (auto simp: set_caps_def)
qed

subsection \<open>Baseline entries are exact\<close>

lemma lower_star: "lower_char c = CHR ''*'' \<longleftrightarrow> c = CHR ''*''"
proof -
  have star: "ord (CHR ''*'') = 42" by simp
  have "ord (lower_char c) = ord (CHR ''*'') \<longleftrightarrow> ord c = ord (CHR ''*'')"
    unfolding star by (auto simp: ord_lower_char is_upper_def)
  then show ?thesis by (simp only: of_char_eq_iff)
qed

lemma wildcard_star: "fst (snd (Classify d)) \<noteq> [] \<Longrightarrow> Contains d ''*''"
proof -
  assume w: "fst (snd (Classify d)) \<noteq> []"
  let ?d = "TrimRight (ToLower (TrimSpace d)) ''.''"
  obtain d' q where pq: "port_qualifier ?d = (d', q)" by (cases "port_qualifier ?d")
  then have "CHR ''*'' \<in> set d'" using w by (auto simp: Classify_def Let_def HasPrefix_iff split: if_splits)
  then have "CHR ''*'' \<in> set (ToLower (TrimSpace d))" using port_qualifier_host [OF pq refl] TrimRight_set by blast
  then have "CHR ''*'' \<in> lower_char ` set (TrimSpace d)" by (simp add: ToLower_def)
  then have "CHR ''*'' \<in> set (TrimSpace d)" using lower_star by (metis imageE)
  then have "CHR ''*'' \<in> set d" unfolding TrimSpace_def trim_right_by_def trim_left_by_def
    by (metis set_dropWhileD set_rev)
  then show ?thesis by (simp add: Contains_one)
qed

definition baseline_hosts :: "Baseline \<Rightarrow> string set" where
  "baseline_hosts b = set safeBaselineDomains \<union> set (BHosts b) \<union> set (BSuffixes b)"

lemma baseline_entry_exact:
  assumes "Baseline_Has b d" "entry_matches d host port"
  shows "host \<in> baseline_hosts b"
proof -
  have "fst (snd (Classify d)) = []" using assms(1) wildcard_star [of d] unfolding Baseline_Has_def by argo
  then have "host = fst (Classify d)" using assms(2) by (auto simp: entry_matches_def split: prod.splits)
  then show ?thesis using assms(1) by (auto simp: Baseline_Has_def baseline_hosts_def Let_def split: if_splits)
qed

lemma not_open_baseline:
  assumes "autonomyEgress spec b \<noteq> AutonomyEgressOpen"
  shows "\<not> AllowAllEgress spec" "\<forall>d\<in>set (AllowedDomains spec). Baseline_Has b d"
    "RaisesApproval (FirstUseApproval spec) \<Longrightarrow> autonomyEgress spec b = AutonomyEgressReviewed"
proof -
  have "beyond b (AllowedDomains spec) = []" "\<not> AllowAllEgress spec"
    using assms by (auto simp: autonomyEgress_def split: if_splits)
  then show "\<not> AllowAllEgress spec" "\<forall>d\<in>set (AllowedDomains spec). Baseline_Has b d"
    "RaisesApproval (FirstUseApproval spec) \<Longrightarrow> autonomyEgress spec b = AutonomyEgressReviewed"
    by (auto simp: beyond_def filter_empty_conv autonomyEgress_def simp flip: set_empty)
qed

text \<open>A level with a space around it is a write level to the clamp and no write level to the grade.\<close>

lemma padded_level_disagrees:
  "permRank '' write'' = 2 \<and>
   githubWritePerms (RawJSON (JObject [(''permissions'', JObject [(''contents'', JString '' write'')])])) = []"
  by code_simp

end
