(* ===== verification/Spec2Isabelle.thy ===== *)
theory Spec2Isabelle
  imports NetRoundTrip EgressEvaluate GitSettle RiskGrade
begin

text \<open>
  Wardyn runs coding agents in sandboxes whose only way out is an egress proxy. An operator writes a policy (which hosts,
  methods, credentials, mounts and pushes a run may use), governance profiles bound what each person may ask for, and the
  proxy enforces the result on every request and every git push. This development models the code that decides: what
  the proxy forwards, what a push may carry, and how policies are compared, composed and narrowed before a run starts.

  \<^bold>\<open>The parts and how they interact.\<close> A member proposes a policy. \<open>composer.Clamp\<close> tightens it to the operator's ceiling;
  the ceiling itself is a base narrowed by overlays (\<open>composer.ApplyOverlay\<close>), and \<open>composer.Leq\<close> decides whether a change
  of it only narrows. \<open>composer.Grade\<close> and \<open>FoldAutonomy\<close> grade the result. The proxy compiles the final spec
  (\<open>CompilePolicy\<close>) and runs \<open>evaluate\<close> on every request: address guard, hosts the brokers own, policy verdict, port and
  method rules, first-use approval, resolution and dial guard. A git push goes through the content rules: \<open>gitpack.Inspect\<close>
  reads the pack, \<open>inspectPush\<close> judges the changed paths, the forge clears what the pack does not carry, and a push that
  needs review is held (\<open>holdPush\<close>). A bottom layer of host and address functions is shared by all of them.

  \<^bold>\<open>Theories and sources\<close> (under \<open>src/internal\<close>).
  \<^item> \<open>Prelude\<close>, \<open>GoSlices\<close>, \<open>GoNet\<close>: what the code uses of Go's \<open>strings\<close>, \<open>strconv\<close>, \<open>slices\<close>, \<open>sort\<close>, \<open>net\<close> and
    \<open>net/netip\<close>; \<open>NetRoundTrip\<close>: printing and parsing of addresses are inverse.
  \<^item> \<open>IPGuard\<close>: \<open>ipguard/ipguard.go\<close> and the proxy's \<open>isBlockedIP\<close>, \<open>GatewayIPRefused\<close>. \<open>DomainMatch\<close>:
    \<open>egress/domainmatch\<close> and the entry validator of the proxy.
  \<^item> \<open>PolicyTypes\<close>, \<open>GovernanceTypes\<close>: the records of \<open>types\<close> (\<open>RunPolicySpec\<close>, limits, overlays) and their methods.
  \<^item> \<open>EgressPolicy\<close>: \<open>egress/proxy/policy.go\<close>, \<open>port_rule.go\<close>, \<open>exact_host_binding.go\<close>. \<open>EgressGuard\<close>: literal guard,
    hard deny, \<open>vetHostLift\<close>, \<open>egressTarget\<close>. \<open>EgressEvaluate\<close>: \<open>proxy.go\<close>'s \<open>evaluate\<close>, \<open>connect_gate.go\<close>,
    \<open>private_ip_memo.go\<close>, the deny-all guard on code hosts.
  \<^item> \<open>PathGlob\<close>, \<open>PushRules\<close>, \<open>PushInspect\<close>, \<open>PushHold\<close>: \<open>push_rules.go\<close>, \<open>push_forge.go\<close>, \<open>push_forge_ado.go\<close>,
    \<open>push_hold.go\<close>. \<open>GitDelta\<close>, \<open>GitTree\<close>, \<open>GitPack\<close>: \<open>gitpack/pack.go\<close> and \<open>gitpack/tree.go\<close>; \<open>GitSettle\<close>: its
    \<open>Result.Settle\<close>, and the pack reader, the settling and the content rules put together.
  \<^item> \<open>DomainMeet\<close>: \<open>composer/meet_domains.go\<close>. \<open>GrantScope\<close>: \<open>grantwithin.go\<close>, \<open>grantbound.go\<close>, \<open>pat_scope.go\<close> and the
    grant part of \<open>clamp.go\<close>. \<open>PolicyOrder\<close>: \<open>leq.go\<close>, \<open>leq_fallback.go\<close>. \<open>PolicyMeet\<close>: \<open>meet*.go\<close>, \<open>run_limits.go\<close>;
    \<open>OverlayNarrows\<close>: what composing guarantees. \<open>PolicyClamp\<close>: the rest of \<open>clamp.go\<close>, \<open>MemberCap\<close> of
    \<open>runnerpool/limits.go\<close>, \<open>validateToolRules\<close> of \<open>api/policy.go\<close>, \<open>dropUncoveredPrivateLiterals\<close> of
    \<open>api/inline_policy_bounds.go\<close>. \<open>RiskGrade\<close>: \<open>risk.go\<close>, \<open>autonomy.go\<close>.

  \<^bold>\<open>How the code is modelled.\<close> Structs are records with the source's field names, Go strings are lists of bytes, addresses
  are bytes and 32- or 128-bit words, the size of a pack object is shifted together with the wrap of an \<open>int64\<close>, the other
  \<open>int\<close> fields are \<open>int\<close> (the code compares them and adds them below its own ceilings), errors are constructors of a
  result type, loops are recursive functions, and maps with string keys are association lists or sets. Mutated state (the
  pack index and reader, the walk of trees, the marks of settled commits, the memo of refused addresses, the held pushes,
  the composer's \<open>meeter\<close>) is passed explicitly; held pushes are a step relation over connections that share it. Sentences
  of warnings and refusals are constructors that keep what they name.

  \<^bold>\<open>Parameters.\<close> Outside code is an argument: the resolver, the approval service, the evaluator of a policy engine, zlib
  inflation and the hashes of git objects, the reads of a forge, IDNA, and the host name of a parsed URL. Where a property
  needs something of one, the statement says so.

  \<^bold>\<open>Interfaces.\<close> \<open>Evaluator\<close> (the laws of a host evaluator, interpreted by the builtin one), \<open>content_rule\<close> (a claim on
  changes and what clears it, interpreted by the path, size and executable rules), \<open>overlay_step\<close> (one field rule of the
  composition: what it writes, when it fails, that strict and lenient runs agree; interpreted by every field of the overlay)
  and \<open>narrowing\<close> (a field's order and a rule that only goes down; interpreted by every field rule of the overlay and of the
  clamp).

  \<^bold>\<open>What is shown.\<close> The proxy dials only inside the address guard and only what the policy text or an approval allows
  (\<open>EgressEvaluate\<close>, \<open>EgressGuard\<close>, \<open>IPGuard\<close>, and the composition below); a forwarded push was read whole and satisfies
  its rules, the tree walk, the pack reader and the settling of re-sent history lose nothing, and a held push needs its own
  approval under any interleaving; composition, clamp and order never widen: field by field, then, in this theory, for the
  requests the proxy allows under the result and for the autonomy a run is granted. Where the code does not keep a field
  for every input the statement says which: a composition needs entries a policy write accepts (\<open>entries_accepted\<close>) and,
  for the whole order, the conditions of \<open>composable\<close>; the clamp adds the host of the ceiling's detector sidecar
  and leaves a push cap the ceiling does not state.

  \<^bold>\<open>Bounds.\<close> Ceilings are the code's: the pack and tree limits of \<open>gitpack\<close>, \<open>maxGlobOps\<close>, \<open>maxPushHoldKeys\<close>,
  \<open>maxPushHoldsActive\<close>, the 64 streaks of the memo. Every function is total: recursion is on the data or on a counter the
  code itself keeps (tree depth, peel count, work list, commits still to be marked), so no fuel is added and reaching a ceiling is an error value.

  \<^bold>\<open>Scope of the models.\<close> Case folding and trimming are those of ASCII text, which is what the validators admit in hosts,
  methods and paths that are compared. JSON scopes are values, not byte streams: the decoder is modelled on objects whose
  members may repeat or carry the wrong type. Clocks appear as the answers they lead to. The log lines beside a decision
  are not modelled, the decision rows are.

  \<^bold>\<open>Not modelled.\<close> Tunnels, TLS interception, credential injection and the brokers' routes (streams and third-party
  protocols); route tables of the forges; the control plane's HTTP handlers and SQL store; credential minting and signing;
  runners, virtual machines and image builds; recording, masking and scanning of streams; directory and notification
  clients; the command entry points. They are input and output around the decisions modelled here, or depend on services
  whose code is not in the repository.
\<close>

section \<open>Composition: the builtin evaluator inside the decision pipeline\<close>

text \<open>The environment of a proxy that runs the builtin evaluator on a policy: the compiled policy of the spec, its host
  verdict and its method rule.\<close>

definition builtin_env :: "RunPolicySpec \<Rightarrow> EvalEnv \<Rightarrow> EvalEnv" where
  "builtin_env s e = e\<lparr>ev_policy := CompilePolicy s,
     ev_EvaluateHost := (\<lambda>req. builtin_EvaluateHost s (rq_Host req) (rq_Port req)),
     ev_MethodAllowed := builtin_MethodAllowed s\<rparr>"

text \<open>What an allow of the pipeline means for the spec it was compiled from.\<close>

definition obeys :: "RunPolicySpec \<Rightarrow> EvalEnv \<Rightarrow> string \<Rightarrow> int \<Rightarrow> string \<Rightarrow> bool" where
  "obeys s e host port meth \<longleftrightarrow>
    \<not> (\<exists>d \<in> set (DeniedDomains s). entry_matches d (CanonHost host) port) \<and>
    ((\<exists>d \<in> set (AllowedDomains s). entry_matches d (CanonHost host) port) \<or> AllowAllEgress s \<or>
     RaisesApproval (FirstUseApproval s) \<and>
       (\<exists>resolve a wait. ev_approval e = Some resolve \<and> resolve wait host = (apApproved, a))) \<and>
    builtin_MethodAllowed s (ToUpper meth)"

lemma allow_obeys:
  assumes "evaluate (builtin_env s e) m host port meth path = (Allow, target, log, m', rows)"
  shows "obeys s e host port meth"
proof -
  let ?e = "builtin_env s e"
  let ?req = "request_of ?e host port meth path"
  obtain a where a: "passed ?e m host port ?req" "first_use_step ?e ?req host (gc_verdict (gate_of ?e ?req)) = Inr a"
    using evaluate_allowE [OF assms] by blast
  then have gate: "gc_refusal (gate_of ?e ?req) = []" by (simp add: passed_def)
  have "builtin_EvaluateHost s host port = Some (gc_verdict (gate_of ?e ?req))"
    using gate_verdict [OF gate] by (simp add: builtin_env_def request_of_def)
  moreover have "firstUse (CompilePolicy s) = FirstUse_Normalize (FirstUseApproval s)"
    by simp
  moreover have "builtin_MethodAllowed s (ToUpper meth)"
    using gate gate_refusal_iff [of ?req ?e] by (simp add: builtin_env_def request_of_def)
  ultimately show ?thesis unfolding obeys_def
    using a(2) unfolding first_use_step_released
    by (auto simp: builtin_EvaluateHost_def evalHost_compile builtin_env_def split: if_splits)
qed

text \<open>
  C2: with the builtin evaluator an allowed request obeys the policy text. No entry of denied_domains matches the host
  and port; an entry of allowed_domains does, or the run allows all egress, or the run's first-use mode raises approvals
  and the approval of this host said yes; and the method is among the allowed ones.
\<close>

theorem allowed_request_obeys_policy:
  assumes "evaluate (builtin_env s e) m host port meth path = (Allow, target, log, m', rows)"
  shows "\<not> (\<exists>d \<in> set (DeniedDomains s). entry_matches d (CanonHost host) port) \<and>
    ((\<exists>d \<in> set (AllowedDomains s). entry_matches d (CanonHost host) port) \<or> AllowAllEgress s \<or>
     RaisesApproval (FirstUseApproval s) \<and>
       (\<exists>resolve a wait. ev_approval e = Some resolve \<and> resolve wait host = (apApproved, a))) \<and>
    builtin_MethodAllowed s (ToUpper meth)"
  using allow_obeys [OF assms] unfolding obeys_def .

lemma allowed_request_witness:
  "let s = empty_spec\<lparr>AllowedDomains := [''*.example.com''], DeniedDomains := [''bad.example.com'']\<rparr>;
       e = builtin_env s (sample_env\<lparr>ev_proxy := sample_proxy\<lparr>px_res := (\<lambda>_. Some [[93, 184, 216, 34]])\<rparr>\<rparr>)
   in fst (evaluate e [] ''www.example.com'' 443 ''connect'' []) = Allow \<and>
      \<not> (\<exists>d \<in> set (DeniedDomains s). entry_matches d (CanonHost ''www.example.com'') 443) \<and>
      builtin_MethodAllowed s (ToUpper ''connect'')"
proof -
  let ?s = "empty_spec\<lparr>AllowedDomains := [''*.example.com''], DeniedDomains := [''bad.example.com'']\<rparr>"
  let ?e0 = "sample_env\<lparr>ev_proxy := sample_proxy\<lparr>px_res := (\<lambda>_. Some [[93, 184, 216, 34]])\<rparr>\<rparr>"
  have t: "fst (evaluate (builtin_env ?s ?e0) [] ''www.example.com'' 443 ''connect'' []) = Allow" by code_simp
  then obtain target log m rows where
    "evaluate (builtin_env ?s ?e0) [] ''www.example.com'' 443 ''connect'' [] = (Allow, target, log, m, rows)"
    by (cases "evaluate (builtin_env ?s ?e0) [] ''www.example.com'' 443 ''connect'' []") auto
  from allowed_request_obeys_policy [OF this] t show ?thesis unfolding Let_def by blast
qed

section \<open>Composition: governance in front of the proxy\<close>

lemma verdict_deny_iff:
  "builtin_EvaluateHost s host port = Some VerdictDeny \<longleftrightarrow> (\<exists>d \<in> set (DeniedDomains s). entry_matches d (CanonHost host) port)"
  by (simp add: builtin_EvaluateHost_def evalHost_compile)

lemma verdict_allow_iff:
  "builtin_EvaluateHost s host port = Some VerdictAllow \<longleftrightarrow>
     \<not> (\<exists>d \<in> set (DeniedDomains s). entry_matches d (CanonHost host) port) \<and>
     ((\<exists>d \<in> set (AllowedDomains s). entry_matches d (CanonHost host) port) \<or> AllowAllEgress s)"
  by (simp add: builtin_EvaluateHost_def evalHost_compile)

text \<open>What a clamp may add to the ceiling's reach: the host of the ceiling's own detector sidecar.\<close>

definition sidecar_matches :: "(string \<Rightarrow> string option) \<Rightarrow> RunPolicySpec \<Rightarrow> string \<Rightarrow> int \<Rightarrow> bool" where
  "sidecar_matches hostname ceiling host port \<longleftrightarrow>
     (\<exists>li d. LLMInspection ceiling = Some li \<and> hostname (TrimSpace (DetectorSidecarURL li)) = Some d \<and>
        entry_matches d (CanonHost host) port)"

lemma clamped_obeys:
  assumes "obeys (fst (Clamp eff hostname proposed ceiling limits)) e host port meth"
  shows "\<not> (\<exists>d \<in> set (DeniedDomains ceiling). entry_matches d (CanonHost host) port) \<and>
    builtin_MethodAllowed ceiling (ToUpper meth) \<and> (obeys ceiling e host port meth \<or> sidecar_matches hostname ceiling host port)"
proof -
  let ?out = "fst (Clamp eff hostname proposed ceiling limits)"
  note r = clamp_reach [of eff hostname proposed ceiling limits "CanonHost host" port]
  note o = assms [unfolded obeys_def]
  have "\<not> (\<exists>d \<in> set (DeniedDomains ceiling). entry_matches d (CanonHost host) port)" using r o by blast
  moreover have "(\<exists>d \<in> set (AllowedDomains ceiling). entry_matches d (CanonHost host) port) \<or> AllowAllEgress ceiling \<or>
      sidecar_matches hostname ceiling host port"
    if "d \<in> set (AllowedDomains ?out)" "entry_matches d (CanonHost host) port" for d
    using that r unfolding sidecar_matches_def by blast
  moreover have "RaisesApproval (FirstUseApproval ?out) \<longrightarrow> RaisesApproval (FirstUseApproval ceiling)"
    using r by (simp add: RaisesApproval_rank)
  moreover have "builtin_MethodAllowed ?out m \<longrightarrow> builtin_MethodAllowed ceiling m" for m
    using r unfolding methodAllowed_norm leqSubsetWhenSet_def by (auto simp: list_all_iff split: if_splits)
  ultimately show ?thesis using o r unfolding obeys_def by blast
qed

text \<open>
  C5: a member's own policy cannot open the network. Whatever policy a member proposes, for a request the proxy allows under
  the clamped policy: the operator's ceiling denies the host nowhere and allows the method; and the ceiling allows the host,
  allows all, or raises approvals and one was given, or the host is that of the ceiling's own detector sidecar, the one
  entry the clamp itself adds.
\<close>

theorem clamped_request_within_ceiling:
  assumes "evaluate (builtin_env (fst (Clamp eff hostname proposed ceiling limits)) e) m host port meth path = (Allow, target, log, m', rows)"
  shows "\<not> (\<exists>d \<in> set (DeniedDomains ceiling). entry_matches d (CanonHost host) port) \<and>
    builtin_MethodAllowed ceiling (ToUpper meth) \<and> (obeys ceiling e host port meth \<or> sidecar_matches hostname ceiling host port)"
  by (rule clamped_obeys [OF allow_obeys [OF assms]])

text \<open>
  C6: an overlay cannot open the network. If the entries of the base and of the overlay's allow list are ones a policy write
  accepts (\<open>entries_accepted\<close>; a base denial may also be unreadable), a request the proxy allows under the composed ceiling
  obeys the base, whatever else the overlay says. The condition is needed: an entry the writer refuses can come out of the
  composition matching more than it did (\<open>meet_dead_entry_widens\<close>).
\<close>

theorem overlaid_request_within_base:
  assumes "ApplyOverlay eff base ov = Inr (out, w)" "entries_accepted base ov"
    and "evaluate (builtin_env (au_Ceiling out) e) m host port meth path = (Allow, target, log, m', rows)"
  shows "obeys (au_Ceiling base) e host port meth"
proof -
  note s = leqEgress_sound [OF overlay_egress [OF assms(1,2)]]
  have "obeys (au_Ceiling out) e host port meth" by (rule allow_obeys [OF assms(3)])
  then show ?thesis
    using s(1) [of host port] s(2) [of host port] s(3) [of "ToUpper meth"] s(4)
    unfolding obeys_def verdict_deny_iff verdict_allow_iff by blast
qed

text \<open>
  C9: a run graded sealed or reviewed reaches the baseline only. If the egress posture of a spec is not open, every request
  the proxy allows under it goes to a host of the baseline, built in or declared by the operator, or the posture is
  reviewed and a person approved the host; so the autonomy a profile grants to a sealed run is granted to no wider one.
\<close>

theorem posture_bounds_reach:
  assumes "autonomyEgress s b \<noteq> AutonomyEgressOpen"
    and "evaluate (builtin_env s e) m host port meth path = (Allow, target, log, m', rows)"
  shows "CanonHost host \<in> baseline_hosts b \<or>
    autonomyEgress s b = AutonomyEgressReviewed \<and>
      (\<exists>resolve a wait. ev_approval e = Some resolve \<and> resolve wait host = (apApproved, a))"
  using allow_obeys [OF assms(2)] not_open_baseline [OF assms(1)] baseline_entry_exact unfolding obeys_def by blast

text \<open>
  C10: an overlay never raises a run's autonomy. For every overlay that composes and every posture, if the base's rubric caps
  the run at some level, the composed rubric caps it too, at that level or a lower one. (A rubric that sets none of the
  rows the posture selects caps nothing, and then there is nothing to raise.)
\<close>

theorem overlay_keeps_autonomy:
  assumes "ApplyOverlay eff base ov = Inr (out, w)"
    and "fst (FoldAutonomy (rubric_of (LimRubric (au_Limits base))) p) \<noteq> []"
  shows "fst (FoldAutonomy (rubric_of (LimRubric (au_Limits out))) p) \<noteq> [] \<and>
    Autonomy_Rank (fst (FoldAutonomy (rubric_of (LimRubric (au_Limits out))) p))
      \<le> Autonomy_Rank (fst (FoldAutonomy (rubric_of (LimRubric (au_Limits base))) p))"
proof -
  have "leqRubric (LimRubric (au_Limits out)) (LimRubric (au_Limits base))" by (rule overlay_rubric [OF assms(1)])
  then show ?thesis using assms(2) by (rule narrower_rubric)
qed

definition public_env :: EvalEnv where
  "public_env = sample_env\<lparr>ev_proxy := sample_proxy\<lparr>px_res := (\<lambda>_. Some [[93, 184, 216, 34]])\<rparr>\<rparr>"

lemma clamped_request_witness:
  "fst (evaluate (builtin_env sample_clamped public_env) [] ''example.com'' 443 ''get'' []) = Allow \<and>
   obeys sample_ceiling public_env ''example.com'' 443 ''get''"
proof -
  have t: "fst (evaluate (builtin_env sample_clamped public_env) [] ''example.com'' 443 ''get'' []) = Allow" by code_simp
  then obtain target log m rows where
    a: "evaluate (builtin_env sample_clamped public_env) [] ''example.com'' 443 ''get'' [] = (Allow, target, log, m, rows)"
    by (cases "evaluate (builtin_env sample_clamped public_env) [] ''example.com'' 443 ''get'' []") auto
  have n: "LLMInspection sample_ceiling = None" by (simp add: sample_ceiling_def empty_spec_def)
  show ?thesis using clamped_request_within_ceiling [OF a [unfolded sample_clamped_def]] t n by (simp add: sidecar_matches_def)
qed

lemma overlaid_request_witness:
  "entries_accepted sample_base sample_overlay \<and>
   fst (evaluate (builtin_env (au_Ceiling (fst sample_out)) public_env) [] ''a.corp.example'' 443 ''get'' []) = Allow \<and>
   obeys (au_Ceiling sample_base) public_env ''a.corp.example'' 443 ''get''"
proof -
  let ?e = "builtin_env (au_Ceiling (fst sample_out)) public_env"
  have c: "entries_accepted sample_base sample_overlay" by code_simp
  have t: "fst (evaluate ?e [] ''a.corp.example'' 443 ''get'' []) = Allow" by code_simp
  then obtain target log m rows where a: "evaluate ?e [] ''a.corp.example'' 443 ''get'' [] = (Allow, target, log, m, rows)"
    by (cases "evaluate ?e [] ''a.corp.example'' 443 ''get'' []") auto
  have s: "ApplyOverlay (EffectiveLimits default_sizing) sample_base sample_overlay = Inr (fst sample_out, snd sample_out)"
    using sample_composes(1) by simp
  from overlaid_request_within_base [OF s c a] c t show ?thesis by blast
qed

definition no_baseline :: Baseline where
  "no_baseline = \<lparr>BHosts = [], BSuffixes = []\<rparr>"

lemma posture_witness:
  "let s = empty_spec\<lparr>AllowedDomains := [''GitHub.com:443'']\<rparr>
   in autonomyEgress s no_baseline = AutonomyEgressSealed \<and>
      fst (evaluate (builtin_env s public_env) [] ''github.com'' 443 ''get'' []) = Allow \<and>
      CanonHost ''github.com'' \<in> baseline_hosts no_baseline"
proof -
  let ?s = "empty_spec\<lparr>AllowedDomains := [''GitHub.com:443'']\<rparr>"
  have p: "autonomyEgress ?s no_baseline = AutonomyEgressSealed" by code_simp
  have n: "autonomyEgress ?s no_baseline \<noteq> AutonomyEgressOpen" "autonomyEgress ?s no_baseline \<noteq> AutonomyEgressReviewed"
    unfolding p by (simp_all add: posture_names)
  have t: "fst (evaluate (builtin_env ?s public_env) [] ''github.com'' 443 ''get'' []) = Allow" by code_simp
  then obtain target log m rows where
    "evaluate (builtin_env ?s public_env) [] ''github.com'' 443 ''get'' [] = (Allow, target, log, m, rows)"
    by (cases "evaluate (builtin_env ?s public_env) [] ''github.com'' 443 ''get'' []") auto
  from posture_bounds_reach [OF n(1) this] n(2) p t show ?thesis unfolding Let_def by blast
qed

definition graded_base :: Authority where
  "graded_base = sample_base\<lparr>au_Limits := (au_Limits sample_base)\<lparr>LimRubric := Some (empty_rubric\<lparr>EgressOpen := ''L1'', SecretsNone := ''L2''\<rparr>)\<rparr>\<rparr>"

definition open_run :: AutonomyPosture where
  "open_run = \<lparr>ap_Egress = AutonomyEgressOpen, ap_Secrets = AutonomySecretsNone, ap_Confinement = ''CC2''\<rparr>"

definition graded_out :: "Authority \<times> string list" where
  "graded_out = projr (ApplyOverlay (EffectiveLimits default_sizing) graded_base sample_overlay)"

lemma overlay_autonomy_witness:
  "FoldAutonomy (rubric_of (LimRubric (au_Limits graded_base))) open_run = (''L1'', [''egress_open'']) \<and>
   Autonomy_Rank (fst (FoldAutonomy (rubric_of (LimRubric (au_Limits (fst graded_out)))) open_run)) \<le> Autonomy_Rank ''L1''"
proof -
  let ?eff = "EffectiveLimits default_sizing"
  have f: "FoldAutonomy (rubric_of (LimRubric (au_Limits graded_base))) open_run = (''L1'', [''egress_open''])" by code_simp
  have a: "ApplyOverlay ?eff graded_base sample_overlay = Inr (fst graded_out, snd graded_out)"
    unfolding prod.collapse by code_simp
  show ?thesis using overlay_keeps_autonomy [OF a, of open_run] f by simp
qed

end
